(* ===== verification/Prelude.thy ===== *)
theory Prelude
  imports Main "HOL-Library.Word" "HOL-Library.AList"
begin

text \<open>
  Shared vocabulary of the development: the faults a C++ run can end in and the result
  type that carries them, folds over fallible loop bodies, hash maps and hash sets as
  association lists and distinct lists, and the fixed-width integers of the source.
\<close>

section \<open>Collections of simplification rules\<close>

named_theorems hmap_simps \<open>lookup laws of the hash-map operations\<close>
named_theorems res_simps \<open>evaluation and inversion of fallible computations\<close>

section \<open>Faults and fallible computations\<close>

text \<open>
  What the C++ code does where it does not return normally: a call through a null
  \<open>shared_ptr\<close>, a read of an empty \<open>Optional\<close>, \<open>unordered_map::at\<close> on a missing key (throws
  \<open>std::out_of_range\<close>), an index outside a vector, a division by zero, a distribution
  built on an empty range, the conversion of a \<open>double\<close> outside the range of the integer, a
  loop that does not end (within the given fuel, where the loop has one), and a failed
  \<open>CHECK\<close> or \<open>LOG(FATAL)\<close>, which aborts.
\<close>

datatype fault =
    NullDeref | EmptyOptional | OutOfRange | BadIndex | DivideByZero | BadDistribution
  | BadConversion | NoReturn | CheckFailed | LengthError | Overflow

definition rbind :: "fault + 'a \<Rightarrow> ('a \<Rightarrow> fault + 'b) \<Rightarrow> fault + 'b" where
  "rbind m f = (case m of Inl e \<Rightarrow> Inl e | Inr a \<Rightarrow> f a)"

lemma rbind_Inl [simp]: "rbind (Inl e) f = Inl e"
  by (simp add: rbind_def)

lemma rbind_Inr [simp]: "rbind (Inr a) f = f a"
  by (simp add: rbind_def)

lemma rbind_eq_Inr [res_simps]: "rbind m f = Inr b \<longleftrightarrow> (\<exists>a. m = Inr a \<and> f a = Inr b)"
  by (cases m) auto

lemma rbind_eq_Inl [res_simps]:
  "rbind m f = Inl e \<longleftrightarrow> m = Inl e \<or> (\<exists>a. m = Inr a \<and> f a = Inl e)"
  by (cases m) auto

lemma rbind_Inr_right [simp]: "rbind m Inr = m"
  by (cases m) auto

text \<open>A \<open>for\<close> loop whose body updates a state and may fault.\<close>

fun rfold :: "('x \<Rightarrow> 's \<Rightarrow> fault + 's) \<Rightarrow> 'x list \<Rightarrow> 's \<Rightarrow> fault + 's" where
  "rfold f [] s = Inr s"
| "rfold f (x # xs) s = rbind (f x s) (rfold f xs)"

lemma rfold_append: "rfold f (xs @ ys) s = rbind (rfold f xs s) (rfold f ys)"
  by (induction xs arbitrary: s) (auto simp: rbind_def split: sum.splits)

lemma rfold_invariant:
  assumes "rfold f xs s = Inr t" and "P s"
    and "\<And>x s s'. x \<in> set xs \<Longrightarrow> P s \<Longrightarrow> f x s = Inr s' \<Longrightarrow> P s'"
  shows "P t"
  using assms
proof (induction xs arbitrary: s)
  case Nil
  then show ?case by simp
next
  case (Cons x xs)
  then obtain u where u: "f x s = Inr u" and t: "rfold f xs u = Inr t"
    by (auto simp: res_simps)
  have "P u" by (rule Cons.prems(3) [OF _ Cons.prems(2) u]) simp
  with t show ?case by (rule Cons.IH) (rule Cons.prems(3), auto)
qed

lemma rfold_total:
  assumes "P s"
    and "\<And>x s. x \<in> set xs \<Longrightarrow> P s \<Longrightarrow> \<exists>s'. f x s = Inr s' \<and> P s'"
  shows "\<exists>t. rfold f xs s = Inr t \<and> P t"
  using assms
proof (induction xs arbitrary: s)
  case Nil
  then show ?case by simp
next
  case (Cons x xs)
  from Cons.prems obtain u where "f x s = Inr u" "P u"
    by (metis list.set_intros(1))
  with Cons show ?case by auto
qed

lemma rfold_pure: "rfold (\<lambda>x s. Inr (f x s)) xs s = Inr (fold f xs s)"
  by (induction xs arbitrary: s) auto

lemma rfold_cong:
  assumes "\<And>x s. x \<in> set xs \<Longrightarrow> f x s = g x s"
  shows "rfold f xs s = rfold g xs s"
  using assms
proof (induction xs arbitrary: s)
  case (Cons x xs)
  then have "rfold f xs = rfold g xs" by (auto simp: fun_eq_iff)
  with Cons.prems show ?case by simp
qed simp

text \<open>Reading through a pointer that may be null, and \<open>vector::operator[]\<close>.\<close>

definition deref :: "'a option \<Rightarrow> fault + 'a" where
  "deref p = (case p of None \<Rightarrow> Inl NullDeref | Some a \<Rightarrow> Inr a)"

definition index_vec :: "'a list \<Rightarrow> nat \<Rightarrow> fault + 'a" where
  "index_vec xs i = (if i < length xs then Inr (xs ! i) else Inl BadIndex)"

lemma deref_simps [simp, res_simps]:
  "deref None = Inl NullDeref"
  "deref (Some a) = Inr a"
  "deref p = Inr a \<longleftrightarrow> p = Some a"
  by (auto simp: deref_def split: option.splits)

lemma index_vec_Inr [simp]: "i < length xs \<Longrightarrow> index_vec xs i = Inr (xs ! i)"
  by (simp add: index_vec_def)

lemma index_vec_eq_Inr [res_simps]:
  "index_vec xs i = Inr a \<longleftrightarrow> i < length xs \<and> xs ! i = a"
  by (auto simp: index_vec_def)

text \<open>An assignment to an element of a vector.\<close>

definition assignAt :: "nat \<Rightarrow> 'a \<Rightarrow> 'a list \<Rightarrow> fault + 'a list" where
  "assignAt k v xs = (if k < length xs then Inr (xs[k := v]) else Inl BadIndex)"

lemma assignAt_Inr [simp]: "k < length xs \<Longrightarrow> assignAt k v xs = Inr (xs[k := v])"
  by (simp add: assignAt_def)

lemma assignAt_eq_Inr [res_simps]: "assignAt k v xs = Inr ys \<longleftrightarrow> k < length xs \<and> ys = xs[k := v]"
  by (auto simp: assignAt_def)

text \<open>\<open>vector::resize\<close>.\<close>

definition resizeVec :: "nat \<Rightarrow> 'a \<Rightarrow> 'a list \<Rightarrow> 'a list" where
  "resizeVec n d xs = take n xs @ replicate (n - length xs) d"

lemma length_resizeVec [simp]: "length (resizeVec n d xs) = n"
  by (simp add: resizeVec_def)

lemma nth_resizeVec: "i < n \<Longrightarrow> resizeVec n d xs ! i = (if i < length xs then xs ! i else d)"
  by (simp add: resizeVec_def nth_append)

section \<open>Hash maps\<close>

text \<open>
  A \<open>std::unordered_map\<close> is an association list with distinct keys. Its list order
  stands for the container's iteration order, which the standard leaves open; the
  development states its results over lookups, sets and multisets, which do not depend on
  that order.
\<close>

type_synonym ('k, 'v) hmap = "('k \<times> 'v) list"

abbreviation hm_find :: "('k, 'v) hmap \<Rightarrow> 'k \<Rightarrow> 'v option" where
  "hm_find \<equiv> map_of"

abbreviation hm_set :: "'k \<Rightarrow> 'v \<Rightarrow> ('k, 'v) hmap \<Rightarrow> ('k, 'v) hmap" where
  "hm_set \<equiv> AList.update"

abbreviation hm_erase :: "'k \<Rightarrow> ('k, 'v) hmap \<Rightarrow> ('k, 'v) hmap" where
  "hm_erase \<equiv> AList.delete"

abbreviation hm_distinct :: "('k, 'v) hmap \<Rightarrow> bool" where
  "hm_distinct m \<equiv> distinct (map fst m)"

text \<open>\<open>emplace\<close> keeps an existing entry; \<open>operator[]\<close> first inserts a default.\<close>

definition hm_emplace :: "'k \<Rightarrow> 'v \<Rightarrow> ('k, 'v) hmap \<Rightarrow> ('k, 'v) hmap" where
  "hm_emplace k v m = (case hm_find m k of None \<Rightarrow> m @ [(k, v)] | Some _ \<Rightarrow> m)"

definition hm_get :: "'v \<Rightarrow> ('k, 'v) hmap \<Rightarrow> 'k \<Rightarrow> 'v" where
  "hm_get d m k = (case hm_find m k of None \<Rightarrow> d | Some v \<Rightarrow> v)"

definition hm_at :: "('k, 'v) hmap \<Rightarrow> 'k \<Rightarrow> fault + 'v" where
  "hm_at m k = (case hm_find m k of None \<Rightarrow> Inl OutOfRange | Some v \<Rightarrow> Inr v)"

definition hm_modify :: "'v \<Rightarrow> 'k \<Rightarrow> ('v \<Rightarrow> 'v) \<Rightarrow> ('k, 'v) hmap \<Rightarrow> ('k, 'v) hmap" where
  "hm_modify d k f m = hm_set k (f (hm_get d m k)) m"

lemma hm_find_set [simp, hmap_simps]: "hm_find (hm_set k v m) = (hm_find m)(k \<mapsto> v)"
  by (rule update_conv')

lemma hm_find_erase [simp, hmap_simps]: "hm_find (hm_erase k m) = (hm_find m)(k := None)"
  by (rule delete_conv')

lemma hm_find_emplace [hmap_simps]:
  "hm_find (hm_emplace k v m) =
     (case hm_find m k of None \<Rightarrow> (hm_find m)(k \<mapsto> v) | Some _ \<Rightarrow> hm_find m)"
  by (auto simp: hm_emplace_def map_add_def fun_eq_iff split: option.splits)

lemma hm_find_modify [hmap_simps]:
  "hm_find (hm_modify d k f m) = (hm_find m)(k \<mapsto> f (hm_get d m k))"
  by (simp add: hm_modify_def)

lemma hm_at_eq_Inr [res_simps]: "hm_at m k = Inr v \<longleftrightarrow> hm_find m k = Some v"
  by (simp add: hm_at_def split: option.splits)

lemma hm_get_Some [simp]: "hm_find m k = Some v \<Longrightarrow> hm_get d m k = v"
  by (simp add: hm_get_def)

lemma hm_get_None [simp]: "hm_find m k = None \<Longrightarrow> hm_get d m k = d"
  by (simp add: hm_get_def)

lemma hm_distinct_set [simp, intro]: "hm_distinct m \<Longrightarrow> hm_distinct (hm_set k v m)"
  by (rule distinct_update)

lemma hm_distinct_erase [simp, intro]: "hm_distinct m \<Longrightarrow> hm_distinct (hm_erase k m)"
  by (rule distinct_delete)

lemma hm_distinct_emplace [simp, intro]: "hm_distinct m \<Longrightarrow> hm_distinct (hm_emplace k v m)"
  by (auto simp: hm_emplace_def map_of_eq_None_iff split: option.splits)

lemma hm_distinct_modify [simp, intro]: "hm_distinct m \<Longrightarrow> hm_distinct (hm_modify d k f m)"
  by (simp add: hm_modify_def)

lemma hm_mem_iff: "hm_distinct m \<Longrightarrow> (k, v) \<in> set m \<longleftrightarrow> hm_find m k = Some v"
  by simp

lemma hm_keys_dom: "fst ` set m = dom (hm_find m)"
  by (simp add: dom_map_of_conv_image_fst)

section \<open>Nested hash maps\<close>

text \<open>\<open>folly::get_ptr\<close> on two keys: null as soon as one of them is missing.\<close>

definition hm2_find :: "('a, ('b, 'v) hmap) hmap \<Rightarrow> 'a \<Rightarrow> 'b \<Rightarrow> 'v option" where
  "hm2_find m a b = (case hm_find m a of None \<Rightarrow> None | Some n \<Rightarrow> hm_find n b)"

definition hm2_set :: "'a \<Rightarrow> 'b \<Rightarrow> 'v \<Rightarrow> ('a, ('b, 'v) hmap) hmap \<Rightarrow> ('a, ('b, 'v) hmap) hmap" where
  "hm2_set a b v m = hm_modify [] a (hm_set b v) m"

lemma hm2_find_Nil [simp]: "hm2_find [] a b = None"
  by (simp add: hm2_find_def)

lemma hm2_find_modify [hmap_simps]:
  "hm2_find (hm_modify [] a f m) x y =
     (if x = a then hm_find (f (hm_get [] m a)) y else hm2_find m x y)"
  by (simp add: hm2_find_def hmap_simps)

lemma hm_find_get_Nil [hmap_simps]: "hm_find (hm_get [] m a) b = hm2_find m a b"
  by (simp add: hm2_find_def hm_get_def split: option.splits)

lemma hm_get_get_Nil [hmap_simps]:
  "hm_get d (hm_get [] m a) b = (case hm2_find m a b of None \<Rightarrow> d | Some v \<Rightarrow> v)"
  by (simp add: hm2_find_def hm_get_def split: option.splits)

lemma hm2_find_set [hmap_simps]:
  "hm2_find (hm2_set a b v m) x y = (if x = a \<and> y = b then Some v else hm2_find m x y)"
  by (auto simp: hm2_set_def hmap_simps)

lemma hm2_find_emplace_Nil [hmap_simps]: "hm2_find (hm_emplace a [] m) x y = hm2_find m x y"
  by (auto simp: hm2_find_def hmap_simps split: option.splits)

section \<open>Hash sets\<close>

text \<open>A \<open>std::unordered_set\<close> is a distinct list, its order the iteration order.\<close>

definition hs_insert :: "'a \<Rightarrow> 'a list \<Rightarrow> 'a list" where
  "hs_insert x xs = (if x \<in> set xs then xs else xs @ [x])"

definition hs_erase :: "'a \<Rightarrow> 'a list \<Rightarrow> 'a list" where
  "hs_erase x xs = filter (\<lambda>y. y \<noteq> x) xs"

lemma set_hs_insert [simp]: "set (hs_insert x xs) = insert x (set xs)"
  by (auto simp: hs_insert_def)

lemma distinct_hs_insert [simp, intro]: "distinct xs \<Longrightarrow> distinct (hs_insert x xs)"
  by (simp add: hs_insert_def)

lemma length_hs_insert:
  "length (hs_insert x xs) = (if x \<in> set xs then length xs else Suc (length xs))"
  by (simp add: hs_insert_def)

lemma set_hs_erase [simp]: "set (hs_erase x xs) = set xs - {x}"
  by (auto simp: hs_erase_def)

lemma distinct_hs_erase [simp, intro]: "distinct xs \<Longrightarrow> distinct (hs_erase x xs)"
  by (simp add: hs_erase_def)

section \<open>The store interface\<close>

text \<open>
  What the components rely on when they copy one map into another entry by entry: a lookup
  after an insertion, and nothing else. Proved once for any store and used for the
  commit of a canary map and for the union of two movement maps.
\<close>

locale store =
  fixes lookup :: "'m \<Rightarrow> 'k \<Rightarrow> 'v option"
    and insert :: "'k \<Rightarrow> 'v \<Rightarrow> 'm \<Rightarrow> 'm"
    and ok :: "'m \<Rightarrow> bool"
  assumes lookup_insert: "ok m \<Longrightarrow> lookup (insert k v m) = (lookup m)(k \<mapsto> v)"
    and ok_insert: "ok m \<Longrightarrow> ok (insert k v m)"
begin

lemma ok_insert_all: "ok m \<Longrightarrow> ok (fold (\<lambda>(k, v). insert k v) kvs m)"
  by (induction kvs arbitrary: m) (auto simp: ok_insert)

lemma lookup_insert_all:
  assumes "ok m" and "distinct (map fst kvs)"
  shows "lookup (fold (\<lambda>(k, v). insert k v) kvs m) = lookup m ++ map_of kvs"
  using assms
proof (induction kvs arbitrary: m)
  case (Cons kv kvs)
  obtain k v where kv: "kv = (k, v)" by (cases kv)
  from Cons.prems kv have None: "map_of kvs k = None" by (simp add: map_of_eq_None_iff)
  have "lookup (fold (\<lambda>(k, v). insert k v) kvs (insert k v m)) = (lookup m)(k \<mapsto> v) ++ map_of kvs"
    using Cons kv by (simp add: ok_insert lookup_insert)
  also have "\<dots> = (lookup m ++ map_of kvs)(k \<mapsto> v)"
    using None by (simp add: map_add_upd_left domIff)
  also have "\<dots> = lookup m ++ map_of (kv # kvs)"
    unfolding kv map_of_Cons_code [abs_def] by (auto simp: map_add_def fun_eq_iff)
  finally show ?case
    unfolding kv fold_simps prod.case .
qed simp

end

interpretation hm: store map_of AList.update "\<lambda>m. True"
  by unfold_locales simp_all

section \<open>Comparisons\<close>

text \<open>What \<open>std::less\<close> and any comparison for the standard containers has to be.\<close>

definition strict_weak :: "('e \<Rightarrow> 'e \<Rightarrow> bool) \<Rightarrow> bool" where
  "strict_weak lt \<longleftrightarrow> (\<forall>a b. lt a b \<longrightarrow> \<not> lt b a) \<and> (\<forall>a b c. \<not> lt a b \<longrightarrow> \<not> lt b c \<longrightarrow> \<not> lt a c)"

lemma strict_weakD:
  assumes "strict_weak lt"
  shows "lt a b \<Longrightarrow> \<not> lt b a" "\<not> lt a b \<Longrightarrow> \<not> lt b c \<Longrightarrow> \<not> lt a c" "lt a b \<Longrightarrow> \<not> lt a c \<Longrightarrow> \<not> lt b c"
    "lt a b \<Longrightarrow> \<not> lt c b \<Longrightarrow> \<not> lt c a"
  using assms unfolding strict_weak_def by blast+

section \<open>Fixed-width integers\<close>

text \<open>
  \<open>int32_t\<close> and \<open>int64_t\<close> are words read through \<^term>\<open>sint\<close>. A conversion
  from 32 to 64 bits extends the sign, one from 64 to 32 bits keeps the low half. Signed
  overflow, which the C++ standard leaves undefined, is the two's-complement result.
\<close>

type_synonym i32 = "32 word"
type_synonym i64 = "64 word"
type_synonym u64 = "64 word"

definition i64_of_i32 :: "i32 \<Rightarrow> i64" where
  "i64_of_i32 x = scast x"

definition i32_of_i64 :: "i64 \<Rightarrow> i32" where
  "i32_of_i64 x = ucast x"

definition fits32 :: "int \<Rightarrow> bool" where
  "fits32 i \<longleftrightarrow> - (2 ^ 31) \<le> i \<and> i < 2 ^ 31"

definition fits64 :: "int \<Rightarrow> bool" where
  "fits64 i \<longleftrightarrow> - (2 ^ 63) \<le> i \<and> i < 2 ^ 63"

lemma sint_fits32 [simp]: "fits32 (sint (x :: i32))"
  using sint_range_size [of x] by (simp add: fits32_def word_size)

lemma sint_fits64 [simp]: "fits64 (sint (x :: i64))"
  using sint_range_size [of x] by (simp add: fits64_def word_size)

lemma sint_of_int32: "fits32 i \<Longrightarrow> sint (word_of_int i :: i32) = i"
  by (simp add: fits32_def sint_sbintrunc' signed_take_bit_int_eq_self_iff)

lemma sint_of_int64: "fits64 i \<Longrightarrow> sint (word_of_int i :: i64) = i"
  by (simp add: fits64_def sint_sbintrunc' signed_take_bit_int_eq_self_iff)

lemma sint_sub32: "fits32 (sint a - sint b) \<Longrightarrow> sint (a - b :: i32) = sint a - sint b"
  using sint_of_int32 [of "sint a - sint b"] by simp

lemma sint_add64: "fits64 (sint a + sint b) \<Longrightarrow> sint (a + b :: i64) = sint a + sint b"
  using sint_of_int64 [of "sint a + sint b"] by simp

lemma sint_sub64: "fits64 (sint a - sint b) \<Longrightarrow> sint (a - b :: i64) = sint a - sint b"
  using sint_of_int64 [of "sint a - sint b"] by simp

lemma sint_mul64: "fits64 (sint a * sint b) \<Longrightarrow> sint (a * b :: i64) = sint a * sint b"
  using sint_of_int64 [of "sint a * sint b"] by simp

lemma sint_i64_of_i32 [simp]: "sint (i64_of_i32 x) = sint x"
  unfolding i64_of_i32_def by (simp add: sint_up_scast is_up)

lemma sint_i32_of_i64: "fits32 (sint x) \<Longrightarrow> sint (i32_of_i64 x) = sint x"
proof -
  assume h: "fits32 (sint x)"
  have "i32_of_i64 x = word_of_int (sint x)"
    unfolding i32_of_i64_def by transfer (simp add: take_bit_signed_take_bit)
  with h sint_of_int32 [of "sint x"] show ?thesis by metis
qed

lemma i32_of_i64_i64_of_i32 [simp]: "i32_of_i64 (i64_of_i32 x) = x"
  by (metis scast_id of_int_sint sint_fits32 sint_i32_of_i64 sint_i64_of_i32)

end
