(* ===== verification/Types.thy ===== *)
theory Types
  imports Prelude
begin

text \<open>
  The shared data of the program: the identifiers and constants of
  \<open>psychopomp/Types.h\<close> and the messages of \<open>proto/ServiceDiscovery.proto\<close>. Node
  identifiers (\<open>size_t\<close>) are natural numbers, because the code only compares them and
  uses them as vector positions; keys and metric values keep their width.
\<close>

type_synonym Domain = nat
type_synonym DomainId = nat
type_synonym Metric = nat
type_synonym MetricValue = i32
type_synonym BinId = i64
type_synonym ServiceId = i64
type_synonym ShardKey = u64
type_synonym ShardId = u64

definition kDefaultBin :: DomainId where
  "kDefaultBin = 0"

definition kDefaultDomain :: DomainId where
  "kDefaultDomain = 0"

definition kShardCountMetric :: Metric where
  "kShardCountMetric = 0"

text \<open>Declared for operations on key ranges that the program does not have yet.\<close>

datatype mutation_type = JOIN | SPLIT

datatype range_state = NORMAL | MUTATING | UNKNOWN

datatype range_join_info = RangeJoinInfo

datatype range_split_info = RangeSplitInfo

record solving_config =
  replicationFactor :: nat

section \<open>Messages\<close>

datatype shard_type = SHARD_TYPE_UNKNOWN | SHARD_TYPE_PRIMARY | SHARD_TYPE_SECONDARY

datatype shard_range_status =
    SHARD_RANGE_STATUS_UNKNOWN
  | SHARD_RANGE_STATUS_ADDED
  | SHARD_RANGE_STATUS_PENDING_ADDED
  | SHARD_RANGE_STATUS_PENDING_DROPPED
  | SHARD_RANGE_STATUS_FORWARDING
  | SHARD_RANGE_STATUS_PENDING_FORWARDING
  | SHARD_RANGE_STATUS_DROPPED

datatype bin_status = BIN_STATUS_UNKNOWN | BIN_STATUS_HEALTHY | BIN_STATUS_DRAIN

record shard_range =
  range_start :: u64
  range_end :: u64

record shard =
  sh_range :: shard_range
  sh_type :: shard_type
  sh_id :: i64

type_synonym shard_metrics = "(string, i32) hmap"

record shard_info =
  si_shard :: shard
  si_metrics :: shard_metrics
  si_status :: shard_range_status

record shard_update_request =
  assigned_shards :: "shard list"
  unassigned_shards :: "shard list"

record shard_forward_request =
  forwarded_shards :: "shard list"
  next_bins :: "string list"

datatype heart_beat_response = HeartBeatResponse

datatype heart_beat_request = HeartBeatRequest

record connection_request =
  cr_service_id :: i64
  cr_service_key :: string
  cr_bin_id :: i64
  cr_groups :: "(string, string) hmap"
  cr_shard_info :: "shard_info list"
  cr_status :: bin_status

text \<open>A \<open>oneof\<close> is a tagged union with one more case for "not set".\<close>

datatype server_message =
    ServerMessageNotSet
  | ConnectionResponse bool
  | ShardUpdateRequest shard_update_request
  | ShardForwardRequest shard_forward_request

datatype client_message =
    ClientMessageNotSet
  | ConnectionRequest connection_request
  | ShardInfoUpdate "shard_info list"
  | Status bin_status

end
