(* ===== verification/MovementMap.thy ===== *)
theory MovementMap
  imports Types
begin

text \<open>
  \<open>psychopomp/placer/MovementMap\<close>: the set of pending moves, indexed by shard (the next
  bin) and by bin (the incoming shards). The theory shows that the shard index is a
  finite map whatever the order of calls, that the two indices agree as long as no
  shard is moved twice without being removed, and what is left behind when one is.
\<close>

section \<open>State and operations\<close>

record movement_map =
  binToIncomingShardMap :: "(DomainId, DomainId list) hmap"
  shardToNextBinMap :: "(DomainId, DomainId) hmap"

definition emptyMovementMap :: movement_map where
  "emptyMovementMap = \<lparr>binToIncomingShardMap = [], shardToNextBinMap = []\<rparr>"

definition addMovement :: "DomainId \<Rightarrow> DomainId \<Rightarrow> movement_map \<Rightarrow> movement_map" where
  "addMovement shardId binId m =
     m\<lparr>binToIncomingShardMap := hm_modify [] binId (hs_insert shardId) (binToIncomingShardMap m),
       shardToNextBinMap := hm_set shardId binId (shardToNextBinMap m)\<rparr>"

definition getNextBin :: "movement_map \<Rightarrow> DomainId \<Rightarrow> DomainId option" where
  "getNextBin m shardId = hm_find (shardToNextBinMap m) shardId"

definition removeMovement :: "DomainId \<Rightarrow> movement_map \<Rightarrow> movement_map" where
  "removeMovement shardId m =
     (case getNextBin m shardId of
        None \<Rightarrow> m
      | Some nextBin \<Rightarrow>
          m\<lparr>binToIncomingShardMap := hm_modify [] nextBin (hs_erase shardId) (binToIncomingShardMap m),
            shardToNextBinMap := hm_erase shardId (shardToNextBinMap m)\<rparr>)"

definition clearMovements :: "movement_map \<Rightarrow> movement_map" where
  "clearMovements m = m\<lparr>binToIncomingShardMap := [], shardToNextBinMap := []\<rparr>"

text \<open>
  \<open>getIncomingShards\<close> reads with \<open>operator[]\<close>, so it leaves an empty entry for a bin
  it has not seen. \<open>incomingShards\<close> is the value it returns.
\<close>

definition incomingShards :: "movement_map \<Rightarrow> DomainId \<Rightarrow> DomainId list" where
  "incomingShards m binId = hm_get [] (binToIncomingShardMap m) binId"

definition getIncomingShards :: "DomainId \<Rightarrow> movement_map \<Rightarrow> DomainId list \<times> movement_map" where
  "getIncomingShards binId m =
     (incomingShards m binId,
      m\<lparr>binToIncomingShardMap := hm_emplace binId [] (binToIncomingShardMap m)\<rparr>)"

definition getAllMovements :: "movement_map \<Rightarrow> (DomainId \<times> DomainId) list" where
  "getAllMovements m = shardToNextBinMap m"

definition addMovements :: "movement_map \<Rightarrow> movement_map \<Rightarrow> movement_map" where
  "addMovements newMovements m =
     fold (\<lambda>(shardId, binId). addMovement shardId binId) (getAllMovements newMovements) m"

section \<open>Lookup laws\<close>

lemma getNextBin_empty [simp]: "getNextBin emptyMovementMap = (\<lambda>_. None)"
  by (simp add: getNextBin_def emptyMovementMap_def fun_eq_iff)

lemma getNextBin_add [simp]: "getNextBin (addMovement s b m) = (getNextBin m)(s \<mapsto> b)"
  by (simp add: getNextBin_def addMovement_def fun_eq_iff)

lemma getNextBin_remove [simp]: "getNextBin (removeMovement s m) = (getNextBin m)(s := None)"
  by (auto simp: getNextBin_def removeMovement_def fun_eq_iff split: option.splits)

lemma getNextBin_clear [simp]: "getNextBin (clearMovements m) = (\<lambda>_. None)"
  by (simp add: getNextBin_def clearMovements_def fun_eq_iff)

lemma getNextBin_incoming [simp]: "getNextBin (snd (getIncomingShards b m)) = getNextBin m"
  by (simp add: getNextBin_def getIncomingShards_def fun_eq_iff)

lemma incoming_empty [simp]: "incomingShards emptyMovementMap b = []"
  by (simp add: incomingShards_def emptyMovementMap_def)

lemma incoming_add [simp]:
  "incomingShards (addMovement s b m) c =
     (if c = b then hs_insert s (incomingShards m b) else incomingShards m c)"
  by (simp add: incomingShards_def addMovement_def hm_get_def hmap_simps)

lemma incoming_remove [simp]:
  "incomingShards (removeMovement s m) c =
     (if getNextBin m s = Some c then hs_erase s (incomingShards m c) else incomingShards m c)"
  by (auto simp: incomingShards_def removeMovement_def hm_get_def hmap_simps
      split: option.splits)

lemma incoming_clear [simp]: "incomingShards (clearMovements m) b = []"
  by (simp add: incomingShards_def clearMovements_def)

lemma incoming_incoming [simp]:
  "incomingShards (snd (getIncomingShards c m)) b = incomingShards m b"
  by (auto simp: incomingShards_def getIncomingShards_def hm_get_def hmap_simps
      split: option.splits)

lemma fst_getIncomingShards [simp]: "fst (getIncomingShards b m) = incomingShards m b"
  by (simp add: getIncomingShards_def)

section \<open>Well-formedness\<close>

text \<open>What holds after any sequence of calls: keys and set elements are distinct.\<close>

definition mm_wf :: "movement_map \<Rightarrow> bool" where
  "mm_wf m \<longleftrightarrow> hm_distinct (shardToNextBinMap m) \<and> hm_distinct (binToIncomingShardMap m) \<and>
     (\<forall>b. distinct (incomingShards m b)) \<and>
     (\<forall>s b. getNextBin m s = Some b \<longrightarrow> s \<in> set (incomingShards m b))"

lemma mm_wf_empty [simp]: "mm_wf emptyMovementMap"
  by (simp add: mm_wf_def) (simp add: emptyMovementMap_def)

lemma mm_wf_add [simp, intro]: "mm_wf m \<Longrightarrow> mm_wf (addMovement s b m)"
  by (simp add: mm_wf_def) (auto simp: addMovement_def)

lemma mm_wf_remove [simp, intro]: "mm_wf m \<Longrightarrow> mm_wf (removeMovement s m)"
  by (simp add: mm_wf_def) (auto simp: removeMovement_def split: option.splits)

lemma mm_wf_clear [simp, intro]: "mm_wf (clearMovements m)"
  by (simp add: mm_wf_def) (simp add: clearMovements_def)

lemma mm_wf_incoming [simp, intro]: "mm_wf m \<Longrightarrow> mm_wf (snd (getIncomingShards b m))"
  by (simp add: mm_wf_def) (simp add: getIncomingShards_def)

interpretation mm: store getNextBin addMovement mm_wf
  by unfold_locales auto

lemma getNextBin_addMovements:
  assumes "mm_wf m" and "mm_wf n"
  shows "getNextBin (addMovements n m) = getNextBin m ++ getNextBin n"
proof -
  have "hm_distinct (getAllMovements n)"
    using assms(2) by (simp add: mm_wf_def getAllMovements_def)
  then have "getNextBin (addMovements n m) = getNextBin m ++ map_of (getAllMovements n)"
    unfolding addMovements_def using assms(1) by (intro mm.lookup_insert_all)
  then show ?thesis by (simp add: getAllMovements_def getNextBin_def [abs_def])
qed

lemma mm_wf_addMovements [simp, intro]: "mm_wf m \<Longrightarrow> mm_wf (addMovements n m)"
  unfolding addMovements_def by (rule mm.ok_insert_all)

lemma incoming_addMovements:
  assumes "mm_wf n"
  shows "set (incomingShards (addMovements n m) b) = set (incomingShards m b) \<union> {s. getNextBin n s = Some b}"
proof -
  have "set (incomingShards (fold (\<lambda>(s, b). addMovement s b) kvs m) b) =
      set (incomingShards m b) \<union> {s. (s, b) \<in> set kvs}" for kvs :: "(DomainId \<times> DomainId) list"
    by (induction kvs arbitrary: m) (auto split: if_splits)
  then show ?thesis
    using assms by (simp add: addMovements_def getAllMovements_def getNextBin_def mm_wf_def)
qed

section \<open>Runs of the public interface\<close>

text \<open>The calls that change the map, \<open>operator[]\<close> of the query for incoming shards included. The
  argument of \<open>addMovements\<close> is another map, as any run leaves it.\<close>

datatype mm_op =
    AddMovement DomainId DomainId
  | RemoveMovement DomainId
  | ClearMovements
  | GetIncomingShards DomainId
  | AddMovements movement_map

primrec mm_exec :: "mm_op \<Rightarrow> movement_map \<Rightarrow> movement_map" where
  "mm_exec (AddMovement s b) m = addMovement s b m"
| "mm_exec (RemoveMovement s) m = removeMovement s m"
| "mm_exec ClearMovements m = clearMovements m"
| "mm_exec (GetIncomingShards b) m = snd (getIncomingShards b m)"
| "mm_exec (AddMovements n) m = addMovements n m"

primrec mm_argument :: "mm_op \<Rightarrow> bool" where
  "mm_argument (AddMovement s b) \<longleftrightarrow> True"
| "mm_argument (RemoveMovement s) \<longleftrightarrow> True"
| "mm_argument ClearMovements \<longleftrightarrow> True"
| "mm_argument (GetIncomingShards b) \<longleftrightarrow> True"
| "mm_argument (AddMovements n) \<longleftrightarrow> mm_wf n"

text \<open>
  The abstract specification: a map from shards to bins, and for every bin the set of shards filed
  under it. A second movement of a shard does not take it out of the first bin's set.
\<close>

type_synonym moves = "(DomainId \<rightharpoonup> DomainId) \<times> (DomainId \<Rightarrow> DomainId set)"

fun mm_spec :: "mm_op \<Rightarrow> moves \<Rightarrow> moves" where
  "mm_spec (AddMovement s b) (f, filed) = (f(s \<mapsto> b), filed(b := insert s (filed b)))"
| "mm_spec (RemoveMovement s) (f, filed) =
     (case f s of None \<Rightarrow> (f, filed) | Some b \<Rightarrow> (f(s := None), filed(b := filed b - {s})))"
| "mm_spec ClearMovements (f, filed) = (Map.empty, \<lambda>_. {})"
| "mm_spec (GetIncomingShards b) (f, filed) = (f, filed)"
| "mm_spec (AddMovements n) (f, filed) =
     (f ++ getNextBin n, \<lambda>b. filed b \<union> {s. getNextBin n s = Some b})"

definition mm_moves :: "movement_map \<Rightarrow> moves" where
  "mm_moves m = (getNextBin m, \<lambda>b. set (incomingShards m b))"

text \<open>A run in which no shard is moved to a second bin while it has a pending move.\<close>

fun mm_fresh :: "mm_op list \<Rightarrow> moves \<Rightarrow> bool" where
  "mm_fresh [] f \<longleftrightarrow> True"
| "mm_fresh (op # ops) f \<longleftrightarrow>
     (case op of
        AddMovement s b \<Rightarrow> fst f s = None \<or> fst f s = Some b
      | AddMovements n \<Rightarrow> mm_wf n \<and> (\<forall>s \<in> dom (getNextBin n). fst f s = None \<or> fst f s = getNextBin n s)
      | _ \<Rightarrow> True) \<and>
     mm_fresh ops (mm_spec op f)"

definition mm_agree :: "movement_map \<Rightarrow> bool" where
  "mm_agree m \<longleftrightarrow> (\<forall>s b. s \<in> set (incomingShards m b) \<longleftrightarrow> getNextBin m s = Some b)"

lemma mm_wf_exec: "mm_wf m \<Longrightarrow> mm_wf (mm_exec op m)"
  by (cases op) auto

lemma mm_exec_spec:
  assumes "mm_wf m" "mm_argument op"
  shows "mm_moves (mm_exec op m) = mm_spec op (mm_moves m)"
proof (cases op)
  case (RemoveMovement s)
  have "distinct (incomingShards m b)" for b using assms(1) by (simp add: mm_wf_def)
  then show ?thesis
    by (cases "getNextBin m s") (auto simp: RemoveMovement mm_moves_def fun_eq_iff)
next
  case (AddMovements n)
  then show ?thesis
    using assms by (simp add: mm_moves_def getNextBin_addMovements incoming_addMovements)
qed (auto simp: mm_moves_def fun_eq_iff)

lemma mm_run:
  "mm_wf m \<Longrightarrow> list_all mm_argument ops \<Longrightarrow>
    mm_wf (fold mm_exec ops m) \<and> mm_moves (fold mm_exec ops m) = fold mm_spec ops (mm_moves m)"
  by (induction ops arbitrary: m) (simp_all add: mm_wf_exec mm_exec_spec)

lemma mm_fresh_argument: "mm_fresh ops f \<Longrightarrow> list_all mm_argument ops"
proof (induction ops arbitrary: f)
  case (Cons op ops)
  have "mm_fresh ops (mm_spec op f)" using Cons.prems by simp
  then have "list_all mm_argument ops" by (rule Cons.IH)
  moreover have "mm_argument op" using Cons.prems by (cases op) simp_all
  ultimately show ?case by simp
qed simp

lemma mm_agree_add:
  "mm_agree m \<Longrightarrow> getNextBin m s = None \<or> getNextBin m s = Some b \<Longrightarrow> mm_agree (addMovement s b m)"
  by (auto simp: mm_agree_def)

lemma mm_agree_exec:
  assumes "mm_wf m" "mm_agree m" and "mm_fresh [op] (mm_moves m)"
  shows "mm_agree (mm_exec op m)"
proof (cases op)
  case (AddMovements n)
  have "mm_wf n" and new: "\<forall>s \<in> dom (getNextBin n). getNextBin m s = None \<or> getNextBin m s = getNextBin n s"
    using assms(3) by (simp_all add: AddMovements mm_moves_def)
  note union = getNextBin_addMovements [OF assms(1) this(1)] incoming_addMovements [OF this(1)]
  have "getNextBin m s = Some b \<or> getNextBin n s = Some b \<longleftrightarrow> (getNextBin m ++ getNextBin n) s = Some b" for s b
    using bspec [OF new, of s] by (cases "getNextBin n s") (auto simp: map_add_def dom_def)
  then show ?thesis
    using assms(2) by (simp add: AddMovements mm_agree_def union)
qed (use assms in \<open>auto simp: mm_agree_add mm_moves_def, auto simp: mm_agree_def\<close>)

lemma mm_agree_run:
  "mm_wf m \<Longrightarrow> mm_agree m \<Longrightarrow> mm_fresh ops (mm_moves m) \<Longrightarrow> mm_agree (fold mm_exec ops m)"
proof (induction ops arbitrary: m)
  case (Cons op ops)
  have "mm_argument op" using mm_fresh_argument [OF Cons.prems(3)] by simp
  then have "mm_moves (mm_exec op m) = mm_spec op (mm_moves m)" using Cons.prems(1) by (intro mm_exec_spec)
  moreover have "mm_agree (mm_exec op m)" using Cons.prems by (intro mm_agree_exec) auto
  ultimately show ?case using Cons by (simp add: mm_wf_exec)
qed simp

section \<open>Properties\<close>

text \<open>C12: Whatever sequence of calls is made on a fresh movement map, \<open>addMovements\<close> of other maps
  included, all of its queries answer as the abstract specification says: the next bin of every
  shard, the pending movements, each listed once, and the shards filed under a bin, each listed once.
  The result is again a map that \<open>addMovements\<close> may be given.\<close>

theorem movement_map_refines:
  assumes "list_all mm_argument ops"
  defines "m \<equiv> fold mm_exec ops emptyMovementMap" and "spec \<equiv> fold mm_spec ops (Map.empty, \<lambda>_. {})"
  shows "getNextBin m = fst spec \<and>
    distinct (map fst (getAllMovements m)) \<and> map_of (getAllMovements m) = fst spec \<and>
    (\<forall>b. distinct (fst (getIncomingShards b m)) \<and> set (fst (getIncomingShards b m)) = snd spec b) \<and>
    mm_argument (AddMovements m)"
proof -
  have "mm_wf m \<and> mm_moves m = fold mm_spec ops (mm_moves emptyMovementMap)"
    unfolding m_def by (rule mm_run [OF mm_wf_empty assms(1)])
  then have wf: "mm_wf m" and moves: "mm_moves m = spec"
    by (simp_all add: spec_def mm_moves_def)
  have "getNextBin m = fst spec" "(\<lambda>b. set (incomingShards m b)) = snd spec"
    unfolding moves [symmetric] by (simp_all add: mm_moves_def)
  then show ?thesis
    using wf by (auto simp: mm_wf_def getAllMovements_def getNextBin_def [abs_def] fun_eq_iff)
qed

theorem movement_map_refines_witness:
  "getNextBin (fold mm_exec [AddMovement 0 2, AddMovements (addMovement 0 5 (addMovement 1 4 emptyMovementMap)),
      RemoveMovement 0] emptyMovementMap) = [1 \<mapsto> 4] \<and>
   set (fst (getIncomingShards 2 (fold mm_exec [AddMovement 0 2,
      AddMovements (addMovement 0 5 (addMovement 1 4 emptyMovementMap)), RemoveMovement 0] emptyMovementMap))) = {0}"
  using movement_map_refines [of "[AddMovement 0 2,
    AddMovements (addMovement 0 5 (addMovement 1 4 emptyMovementMap)), RemoveMovement 0]"]
  by (auto simp: fun_eq_iff)

text \<open>C13: As long as no shard with a pending move is sent to a second bin, the two indices are
  inverse to each other after any sequence of calls: a shard is incoming at a bin exactly
  when that bin is its next bin.\<close>

theorem movement_indices_agree:
  assumes "mm_fresh ops (Map.empty, \<lambda>_. {})"
  shows "s \<in> set (incomingShards (fold mm_exec ops emptyMovementMap) b) \<longleftrightarrow>
         getNextBin (fold mm_exec ops emptyMovementMap) s = Some b"
proof -
  have "mm_agree emptyMovementMap" "mm_moves emptyMovementMap = (Map.empty, \<lambda>_. {})"
    by (simp_all add: mm_agree_def mm_moves_def)
  with assms have "mm_agree (fold mm_exec ops emptyMovementMap)"
    by (intro mm_agree_run) simp_all
  then show ?thesis by (simp add: mm_agree_def)
qed

theorem movement_indices_agree_witness:
  "1 \<in> set (incomingShards (fold mm_exec
       [AddMovement 0 2, AddMovement 1 2, RemoveMovement 0, AddMovement 0 3] emptyMovementMap) 2)"
  by (subst movement_indices_agree) simp_all

text \<open>Moving a shard on to a second bin without removing its first move leaves it listed as
  incoming at the first bin, and a later removal does not clear that entry either.\<close>

theorem movement_stale_incoming:
  assumes "b \<noteq> c"
  shows "s \<in> set (incomingShards (addMovement s c (addMovement s b m)) b) \<and>
         getNextBin (addMovement s c (addMovement s b m)) s = Some c \<and>
         s \<in> set (incomingShards (removeMovement s (addMovement s c (addMovement s b m))) b) \<and>
         getNextBin (removeMovement s (addMovement s c (addMovement s b m))) s = None"
  using assms by simp

theorem movement_stale_incoming_witness:
  "7 \<in> set (incomingShards (addMovement 7 2 (addMovement 7 1 emptyMovementMap)) 1)"
  using movement_stale_incoming [of 1 2 7 emptyMovementMap] by simp

end
