(* ===== verification/SparseMappingTree.thy ===== *)
theory SparseMappingTree
  imports MovementMap "HOL-Library.Multiset"
begin

text \<open>
  \<open>psychopomp/placer/SparseMappingTree\<close>: the layered assignment graph from domains down
  to shards, with pending movement maps overlaid on the shard and bin layers. The
  theory shows when the two directions of the mapping agree, what the overlay adds, and
  that the breadth-first construction of a partial tree ends on layered graphs and copies
  exactly the nodes below the roots it is given.
\<close>

section \<open>State\<close>

record sparse_mapping_tree =
  shardDomain :: Domain
  binDomain :: Domain
  childToParentMap :: "(Domain, (DomainId, (Domain, DomainId) hmap) hmap) hmap"
  parentToChildDomainMap :: "(Domain, Domain) hmap"
  parentToChildMap :: "(Domain, (DomainId, DomainId list) hmap) hmap"

definition newTree :: "Domain \<Rightarrow> Domain \<Rightarrow> sparse_mapping_tree" where
  "newTree sd bd = \<lparr>shardDomain = sd, binDomain = bd, childToParentMap = [],
     parentToChildDomainMap = [], parentToChildMap = []\<rparr>"

section \<open>Operations\<close>

text \<open>\<open>childToParentMap_[childDomain][child].emplace(parentDomain, parentDomainId)\<close>.\<close>

definition addParent ::
    "Domain \<Rightarrow> Domain \<times> DomainId \<Rightarrow> DomainId \<Rightarrow> sparse_mapping_tree \<Rightarrow> sparse_mapping_tree" where
  "addParent childDomain parent child t =
     t\<lparr>childToParentMap :=
         hm_modify [] childDomain
           (hm_modify [] child (hm_emplace (fst parent) (snd parent))) (childToParentMap t)\<rparr>"

definition addMapping ::
    "Domain \<times> DomainId \<Rightarrow> Domain \<Rightarrow> DomainId list \<Rightarrow> sparse_mapping_tree \<Rightarrow> sparse_mapping_tree" where
  "addMapping parent childDomain children t =
     (let parentDomain = fst parent; parentDomainId = snd parent in
      if (case hm_find (parentToChildDomainMap t) parentDomain of
            Some d \<Rightarrow> d \<noteq> childDomain | None \<Rightarrow> False)
      then t
      else
        let t1 = t\<lparr>parentToChildDomainMap :=
                     hm_set parentDomain childDomain (parentToChildDomainMap t)\<rparr>;
            t2 = fold (addParent childDomain parent) children t1
        in t2\<lparr>parentToChildMap :=
                hm_modify [] parentDomain (hm_set parentDomainId children) (parentToChildMap t2)\<rparr>)"

definition treeParents :: "sparse_mapping_tree \<Rightarrow> Domain \<Rightarrow> DomainId \<Rightarrow> (Domain \<times> DomainId) list" where
  "treeParents t d i =
     (case hm2_find (childToParentMap t) d i of None \<Rightarrow> [] | Some ps \<Rightarrow> ps)"

text \<open>
  One movement map's contribution to the parents of a shard: its next bin, when that
  bin is a node of the tree. The pointer may be null, and \<open>parentToChildMap_.at\<close> throws
  when the tree has no bin at all.
\<close>

definition movedParent ::
    "sparse_mapping_tree \<Rightarrow> DomainId \<Rightarrow> movement_map option \<Rightarrow> (Domain \<times> DomainId) list
     \<Rightarrow> fault + (Domain \<times> DomainId) list" where
  "movedParent t i mm ps =
     rbind (deref mm) (\<lambda>m.
       case getNextBin m i of
         None \<Rightarrow> Inr ps
       | Some b \<Rightarrow>
           rbind (hm_at (parentToChildMap t) (binDomain t)) (\<lambda>bins.
             Inr (if hm_find bins b \<noteq> None then ps @ [(binDomain t, b)] else ps)))"

definition getParents ::
    "sparse_mapping_tree \<Rightarrow> Domain \<Rightarrow> DomainId \<Rightarrow> movement_map option list
     \<Rightarrow> fault + (Domain \<times> DomainId) list" where
  "getParents t d i mms =
     (if d = shardDomain t then rfold (movedParent t i) mms (treeParents t d i)
      else Inr (treeParents t d i))"

definition getChildDomain :: "sparse_mapping_tree \<Rightarrow> Domain \<Rightarrow> Domain option" where
  "getChildDomain t d = hm_find (parentToChildDomainMap t) d"

text \<open>
  The two overloads of \<open>getChildren\<close>. The first one returns a pair of a domain and a
  vector; an early \<open>return {}\<close> is the value-initialised pair \<open>(0, [])\<close>.
\<close>

definition getChildren ::
    "sparse_mapping_tree \<Rightarrow> Domain \<Rightarrow> DomainId \<Rightarrow> movement_map option list
     \<Rightarrow> fault + (Domain \<times> DomainId list)" where
  "getChildren t d i mms =
     (if hm_find (parentToChildDomainMap t) d = None then Inr (0, [])
      else
        rbind (if d = binDomain t
               then rfold (\<lambda>mm cs. rbind (deref mm) (\<lambda>m. Inr (cs @ fst (getIncomingShards i m)))) mms []
               else Inr [])
          (\<lambda>incoming.
             case getChildDomain t d of
               None \<Rightarrow> Inr (0, [])
             | Some cd \<Rightarrow>
                 rbind (hm_at (parentToChildMap t) d) (\<lambda>row.
                   rbind (hm_at row i) (\<lambda>mapped. Inr (cd, incoming @ mapped)))))"

definition mappedChildren :: "sparse_mapping_tree \<Rightarrow> Domain \<Rightarrow> DomainId \<Rightarrow> DomainId list" where
  "mappedChildren t d i =
     (case hm2_find (parentToChildMap t) d i of None \<Rightarrow> [] | Some cs \<Rightarrow> cs)"

text \<open>\<open>getAllDomainIds\<close> and \<open>doesNodeExist\<close> index with \<open>operator[]\<close>: they may add
  empty rows, so they return the tree as well.\<close>

definition getAllDomainIds :: "Domain \<Rightarrow> sparse_mapping_tree \<Rightarrow> DomainId list \<times> sparse_mapping_tree" where
  "getAllDomainIds d t =
     (if hm_find (parentToChildDomainMap t) d \<noteq> None
      then (map fst (hm_get [] (parentToChildMap t) d),
            t\<lparr>parentToChildMap := hm_emplace d [] (parentToChildMap t)\<rparr>)
      else (map fst (hm_get [] (childToParentMap t) d),
            t\<lparr>childToParentMap := hm_emplace d [] (childToParentMap t)\<rparr>))"

definition doesNodeExist :: "Domain \<Rightarrow> DomainId \<Rightarrow> sparse_mapping_tree \<Rightarrow> bool \<times> sparse_mapping_tree" where
  "doesNodeExist d i t =
     (hm_find (hm_get [] (childToParentMap t) d) i \<noteq> None \<or>
      hm_find (hm_get [] (parentToChildMap t) d) i \<noteq> None,
      t\<lparr>childToParentMap := hm_emplace d [] (childToParentMap t),
        parentToChildMap := hm_emplace d [] (parentToChildMap t)\<rparr>)"

text \<open>
  The breadth-first loop of \<open>createPartialTree\<close>. It keeps no visited set, so on a cyclic
  graph it does not end; \<open>None\<close> is that outcome.
\<close>

partial_function (option) partialTreeLoop ::
    "sparse_mapping_tree \<Rightarrow> (Domain \<times> DomainId) list \<Rightarrow> sparse_mapping_tree
     \<Rightarrow> sparse_mapping_tree option" where
  "partialTreeLoop t nodesToAdd partialTree =
     (case nodesToAdd of
        [] \<Rightarrow> Some partialTree
      | parent # rest \<Rightarrow>
          (case getChildDomain t (fst parent) of
             None \<Rightarrow> partialTreeLoop t rest partialTree
           | Some childDomain \<Rightarrow>
               partialTreeLoop t
                 (rest @ map (Pair childDomain) (mappedChildren t (fst parent) (snd parent)))
                 (addMapping parent childDomain (mappedChildren t (fst parent) (snd parent))
                    partialTree)))"

declare partialTreeLoop.simps [code]

definition createPartialTree ::
    "sparse_mapping_tree \<Rightarrow> Domain \<Rightarrow> DomainId list \<Rightarrow> sparse_mapping_tree option" where
  "createPartialTree t d roots =
     partialTreeLoop t (map (Pair d) roots) (newTree (shardDomain t) (binDomain t))"

section \<open>Lookup laws of addMapping\<close>

definition parentIn :: "sparse_mapping_tree \<Rightarrow> Domain \<Rightarrow> DomainId \<Rightarrow> Domain \<Rightarrow> DomainId option" where
  "parentIn t cd c pd = hm_find (treeParents t cd c) pd"

definition accepts :: "sparse_mapping_tree \<Rightarrow> Domain \<Rightarrow> Domain \<Rightarrow> bool" where
  "accepts t pd cd \<longleftrightarrow> getChildDomain t pd = None \<or> getChildDomain t pd = Some cd"

lemma addMapping_rejected:
  "\<not> accepts t (fst p) cd \<Longrightarrow> addMapping p cd cs t = t"
  by (auto simp: accepts_def addMapping_def getChildDomain_def split: option.splits)

lemma addParent_fields [simp]:
  "shardDomain (addParent cd p c t) = shardDomain t"
  "binDomain (addParent cd p c t) = binDomain t"
  "parentToChildDomainMap (addParent cd p c t) = parentToChildDomainMap t"
  "parentToChildMap (addParent cd p c t) = parentToChildMap t"
  by (simp_all add: addParent_def)

lemma fold_addParent_fields [simp]:
  "shardDomain (fold (addParent cd p) cs t) = shardDomain t"
  "binDomain (fold (addParent cd p) cs t) = binDomain t"
  "parentToChildDomainMap (fold (addParent cd p) cs t) = parentToChildDomainMap t"
  "parentToChildMap (fold (addParent cd p) cs t) = parentToChildMap t"
  by (induction cs arbitrary: t) auto

lemma addMapping_domains [simp]:
  "shardDomain (addMapping p cd cs t) = shardDomain t"
  "binDomain (addMapping p cd cs t) = binDomain t"
  by (simp_all add: addMapping_def Let_def)

lemma getChildDomain_add:
  assumes "accepts t (fst p) cd"
  shows "getChildDomain (addMapping p cd cs t) = (getChildDomain t)(fst p \<mapsto> cd)"
  using assms
  by (auto simp: getChildDomain_def accepts_def addMapping_def Let_def fun_eq_iff split: option.splits)

lemma children_add:
  assumes "accepts t (fst p) cd"
  shows "hm2_find (parentToChildMap (addMapping p cd cs t)) d i =
    (if (d, i) = p then Some cs else hm2_find (parentToChildMap t) d i)"
  using assms
  by (cases p) (auto simp: getChildDomain_def accepts_def addMapping_def Let_def hmap_simps
      split: option.splits)

lemma mappedChildren_add:
  assumes "accepts t (fst p) cd"
  shows "mappedChildren (addMapping p cd cs t) d i = (if (d, i) = p then cs else mappedChildren t d i)"
  using assms by (simp add: mappedChildren_def children_add)

lemma parentIn_cong:
  "childToParentMap t = childToParentMap u \<Longrightarrow> parentIn t = parentIn u"
  by (simp add: parentIn_def treeParents_def fun_eq_iff)

lemma treeParents_addParent:
  "treeParents (addParent cd p c t) d x =
     (if d = cd \<and> x = c then hm_emplace (fst p) (snd p) (treeParents t d x) else treeParents t d x)"
proof -
  have "hm2_find (childToParentMap (addParent cd p c t)) d x =
      (if d = cd \<and> x = c then Some (hm_emplace (fst p) (snd p) (treeParents t d x))
       else hm2_find (childToParentMap t) d x)"
    by (auto simp: addParent_def treeParents_def hmap_simps)
  then show ?thesis by (simp add: treeParents_def)
qed

lemma parentIn_addParent:
  "parentIn (addParent cd p c t) d x pd =
     (if d = cd \<and> x = c \<and> pd = fst p \<and> parentIn t d x pd = None then Some (snd p)
      else parentIn t d x pd)"
  by (auto simp: parentIn_def treeParents_addParent hmap_simps split: option.splits)

text \<open>Every node has at most one entry per parent domain.\<close>

definition parents_distinct :: "sparse_mapping_tree \<Rightarrow> bool" where
  "parents_distinct t \<longleftrightarrow> (\<forall>d c. hm_distinct (treeParents t d c))"

lemma treeParents_mem:
  "parents_distinct t \<Longrightarrow> (pd, pid) \<in> set (treeParents t d c) \<longleftrightarrow> parentIn t d c pd = Some pid"
  by (simp add: parents_distinct_def parentIn_def)

lemma parents_distinct_addParents:
  "parents_distinct t \<Longrightarrow> parents_distinct (fold (addParent cd p) cs t)"
  by (induction cs arbitrary: t) (auto simp: parents_distinct_def treeParents_addParent)

lemma parents_distinct_cong:
  "childToParentMap t = childToParentMap u \<Longrightarrow> parents_distinct t = parents_distinct u"
  by (simp add: parents_distinct_def treeParents_def)

lemma parents_distinct_add [intro]:
  assumes "parents_distinct t"
  shows "parents_distinct (addMapping p cd cs t)"
proof -
  have "parents_distinct (t\<lparr>parentToChildDomainMap := m\<rparr>)" for m
    using assms by (subst parents_distinct_cong [of _ t]) simp_all
  from parents_distinct_addParents [OF this] assms show ?thesis
    unfolding addMapping_def Let_def
    by (auto simp: parents_distinct_cong [of "_\<lparr>parentToChildMap := _\<rparr>"])
qed

lemma parents_distinct_new [simp]: "parents_distinct (newTree sd bd)"
  by (simp add: parents_distinct_def treeParents_def newTree_def)

lemma parentIn_addParents:
  "parentIn (fold (addParent cd p) cs t) d x pd =
     (if d = cd \<and> x \<in> set cs \<and> pd = fst p \<and> parentIn t d x pd = None then Some (snd p)
      else parentIn t d x pd)"
  by (induction cs arbitrary: t) (auto simp: parentIn_addParent)

lemma parentIn_add:
  assumes "accepts t (fst p) cd"
  shows "parentIn (addMapping p cd cs t) d x pd =
     (if d = cd \<and> x \<in> set cs \<and> pd = fst p \<and> parentIn t d x pd = None then Some (snd p)
      else parentIn t d x pd)"
proof -
  let ?t1 = "t\<lparr>parentToChildDomainMap := hm_set (fst p) cd (parentToChildDomainMap t)\<rparr>"
  have "childToParentMap (addMapping p cd cs t) = childToParentMap (fold (addParent cd p) cs ?t1)"
    using assms by (auto simp: accepts_def getChildDomain_def addMapping_def Let_def split: option.splits)
  then have "parentIn (addMapping p cd cs t) = parentIn (fold (addParent cd p) cs ?t1)"
    by (rule parentIn_cong)
  moreover have "parentIn ?t1 = parentIn t" by (rule parentIn_cong) simp
  ultimately show ?thesis by (simp only: parentIn_addParents)
qed

lemma new_tree_simps [simp]:
  "getChildDomain (newTree sd bd) = (\<lambda>_. None)"
  "hm2_find (parentToChildMap (newTree sd bd)) d i = None"
  "parentIn (newTree sd bd) d c pd = None"
  "mappedChildren (newTree sd bd) d i = []"
  "shardDomain (newTree sd bd) = sd" "binDomain (newTree sd bd) = bd"
  by (auto simp: newTree_def getChildDomain_def parentIn_def treeParents_def mappedChildren_def)

lemmas add_simps = getChildDomain_add children_add mappedChildren_add parentIn_add

section \<open>Agreement of the two directions\<close>

text \<open>
  Each direction determines the other: a node is listed among a parent's children exactly
  when that parent is the node's parent in the parent's domain.
\<close>

definition tree_agree :: "sparse_mapping_tree \<Rightarrow> bool" where
  "tree_agree t \<longleftrightarrow>
     (\<forall>pd pid. getChildDomain t pd = None \<longrightarrow> hm2_find (parentToChildMap t) pd pid = None) \<and>
     (\<forall>pd pid cd c.
       (getChildDomain t pd = Some cd \<and> c \<in> set (mappedChildren t pd pid)) =
       (parentIn t cd c pd = Some pid))"

lemma tree_agree_new [simp]: "tree_agree (newTree sd bd)"
  by (simp add: tree_agree_def)

text \<open>
  A mapping keeps the agreement when its parent had no children before and none of its
  children has a parent in that domain yet.
\<close>

lemma tree_agree_add:
  assumes t: "tree_agree t" and acc: "accepts t (fst p) cd"
    and new: "mappedChildren t (fst p) (snd p) = []"
    and free: "\<forall>c \<in> set cs. parentIn t cd c (fst p) = None"
  shows "tree_agree (addMapping p cd cs t)"
proof -
  note add = add_simps [OF acc] prod_eq_iff
  have old: "(getChildDomain t pd = Some cd' \<and> c \<in> set (mappedChildren t pd pid)) =
      (parentIn t cd' c pd = Some pid)" for pd pid cd' c
    using t by (auto simp: tree_agree_def)
  have absent: "mappedChildren t pd pid = []" if "getChildDomain t pd = None" for pd pid
    using t that by (auto simp: tree_agree_def mappedChildren_def)
  have "(getChildDomain (addMapping p cd cs t) pd = Some cd' \<and>
          c \<in> set (mappedChildren (addMapping p cd cs t) pd pid)) =
        (parentIn (addMapping p cd cs t) cd' c pd = Some pid)" for pd pid cd' c
  proof (cases "pd = fst p")
    case False
    with old [of pd cd' c pid] show ?thesis by (auto simp: add)
  next
    case pd: True
    show ?thesis
    proof (cases "pid = snd p")
      case True
      have "parentIn t cd' c (fst p) \<noteq> Some (snd p)"
        using old [of "fst p" cd' c "snd p"] new by auto
      with True pd free show ?thesis by (auto simp: add)
    next
      case False
      with old [of "fst p" cd' c pid] absent [of "fst p" pid] pd acc free show ?thesis
        by (auto simp: add accepts_def)
    qed
  qed
  moreover have "hm2_find (parentToChildMap (addMapping p cd cs t)) pd pid = None"
    if "getChildDomain (addMapping p cd cs t) pd = None" for pd pid
    using t that by (auto simp: add tree_agree_def split: if_splits)
  ultimately show ?thesis by (simp add: tree_agree_def)
qed

section \<open>The movement overlay\<close>

definition hasNode :: "sparse_mapping_tree \<Rightarrow> Domain \<Rightarrow> DomainId \<Rightarrow> bool" where
  "hasNode t d i \<longleftrightarrow> hm2_find (parentToChildMap t) d i \<noteq> None"

definition hasBins :: "sparse_mapping_tree \<Rightarrow> bool" where
  "hasBins t \<longleftrightarrow> hm_find (parentToChildMap t) (binDomain t) \<noteq> None"

definition movedBins :: "sparse_mapping_tree \<Rightarrow> movement_map list \<Rightarrow> DomainId \<Rightarrow> DomainId list" where
  "movedBins t ms i =
     filter (hasNode t (binDomain t)) (List.map_filter (\<lambda>m. getNextBin m i) ms)"

lemma movedParent_simps:
  "movedParent t i None ps = Inl NullDeref"
  "getNextBin m i = None \<Longrightarrow> movedParent t i (Some m) ps = Inr ps"
  "getNextBin m i = Some b \<Longrightarrow> hasBins t \<Longrightarrow> movedParent t i (Some m) ps =
     Inr (if hasNode t (binDomain t) b then ps @ [(binDomain t, b)] else ps)"
  "getNextBin m i = Some b \<Longrightarrow> \<not> hasBins t \<Longrightarrow> movedParent t i (Some m) ps = Inl OutOfRange"
  by (auto simp: movedParent_def hasBins_def hasNode_def hm_at_def hm2_find_def split: option.splits)

lemma rfold_movedParent:
  assumes "hasBins t \<or> (\<forall>m \<in> set ms. getNextBin m i = None)"
  shows "rfold (movedParent t i) (map Some ms) ps = Inr (ps @ map (Pair (binDomain t)) (movedBins t ms i))"
  using assms
proof (induction ms arbitrary: ps)
  case Nil
  then show ?case by (simp add: movedBins_def List.map_filter_def)
next
  case (Cons m ms)
  then show ?case
    by (cases "getNextBin m i")
       (auto simp: movedParent_simps movedBins_def List.map_filter_def)
qed

lemma getParents_overlay:
  assumes "hasBins t \<or> (\<forall>m \<in> set ms. getNextBin m i = None)"
  shows "getParents t d i (map Some ms) =
     Inr (treeParents t d i @
       (if d = shardDomain t then map (Pair (binDomain t)) (movedBins t ms i) else []))"
  using rfold_movedParent [OF assms] by (simp add: getParents_def)

lemma getParents_null: "getParents t (shardDomain t) i (None # mms) = Inl NullDeref"
  by (simp add: getParents_def movedParent_simps)

lemma getParents_other: "d \<noteq> shardDomain t \<Longrightarrow> getParents t d i mms = Inr (treeParents t d i)"
  by (simp add: getParents_def)

lemma rfold_incoming:
  "rfold (\<lambda>mm cs. rbind (deref mm) (\<lambda>m. Inr (cs @ fst (getIncomingShards i m)))) (map Some ms) cs =
     Inr (cs @ concat (map (\<lambda>m. incomingShards m i) ms))"
  by (induction ms arbitrary: cs) auto

lemma getChildren_overlay:
  assumes "getChildDomain t d = Some cd" and "hasNode t d i"
  shows "getChildren t d i (map Some ms) =
     Inr (cd, (if d = binDomain t then concat (map (\<lambda>m. incomingShards m i) ms) else []) @
              mappedChildren t d i)"
  using assms
  by (auto simp: getChildren_def getChildDomain_def hasNode_def hm_at_def rfold_incoming [simplified]
      mappedChildren_def hm2_find_def split: option.splits)

lemma getChildren_missing:
  assumes "getChildDomain t d = Some cd" and "\<not> hasNode t d i"
  shows "getChildren t d i (map Some ms) = Inl OutOfRange"
  using assms
  by (auto simp: getChildren_def getChildDomain_def hasNode_def hm_at_def rfold_incoming [simplified]
      mappedChildren_def hm2_find_def split: option.splits)

section \<open>Partial trees\<close>

definition layered :: "sparse_mapping_tree \<Rightarrow> bool" where
  "layered t \<longleftrightarrow> list_all (\<lambda>(d, cd). cd < d) (parentToChildDomainMap t)"

lemma layeredD: "layered t \<Longrightarrow> getChildDomain t d = Some cd \<Longrightarrow> cd < d"
  by (auto simp: layered_def getChildDomain_def list_all_iff dest: map_of_SomeD)

text \<open>The nodes a traversal from a node reaches.\<close>

inductive below :: "sparse_mapping_tree \<Rightarrow> Domain \<times> DomainId \<Rightarrow> Domain \<times> DomainId \<Rightarrow> bool"
  for t :: sparse_mapping_tree where
  below_refl: "below t x x"
| below_step: "getChildDomain t (fst x) = Some cd \<Longrightarrow>
     c \<in> set (mappedChildren t (fst x) (snd x)) \<Longrightarrow> below t (cd, c) y \<Longrightarrow> below t x y"

lemma below_unfold:
  "below t x y \<longleftrightarrow> x = y \<or>
     (\<exists>cd c. getChildDomain t (fst x) = Some cd \<and> c \<in> set (mappedChildren t (fst x) (snd x)) \<and>
        below t (cd, c) y)"
  by (subst below.simps) auto

text \<open>
  Each turn of the loop replaces a node by finitely many nodes of a smaller domain, a
  decrease in the multiset order on the queue's domains.
\<close>

definition queueOrder :: "((Domain \<times> DomainId) list \<times> (Domain \<times> DomainId) list) set" where
  "queueOrder = inv_image (mult less_than) (\<lambda>q. mset (map fst q))"

lemma wf_queueOrder: "wf queueOrder"
  unfolding queueOrder_def by (intro wf_inv_image wf_mult wf_less_than)

lemma queueOrder_leaf: "(q, x # q) \<in> queueOrder"
  using one_step_implies_mult [of "{#fst x#}" "{#}" less_than "mset (map fst q)"]
  by (simp add: queueOrder_def inv_image_def)

lemma queueOrder_node:
  assumes "cd < fst x"
  shows "(q @ map (Pair cd) cs, x # q) \<in> queueOrder"
  using assms one_step_implies_mult [of "{#fst x#}" "mset (map (\<lambda>_. cd) cs)" less_than "mset (map fst q)"]
  by (auto simp: queueOrder_def inv_image_def comp_def image_mset.compositionality)

text \<open>
  What the loop computes: the nodes of a set \<open>N\<close> are copied from \<open>t\<close> on top of the tree
  \<open>p\<close> built so far. Every copied child gets a parent, and every parent of the result is
  one of \<open>p\<close> or a copied one.
\<close>

definition copies ::
    "sparse_mapping_tree \<Rightarrow> (Domain \<times> DomainId) set \<Rightarrow> sparse_mapping_tree
     \<Rightarrow> sparse_mapping_tree \<Rightarrow> bool" where
  "copies t N p r \<longleftrightarrow>
     (shardDomain r = shardDomain p \<and> binDomain r = binDomain p) \<and>
     (\<forall>d i. hm2_find (parentToChildMap r) d i =
        (if (d, i) \<in> N \<and> getChildDomain t d \<noteq> None then Some (mappedChildren t d i)
         else hm2_find (parentToChildMap p) d i)) \<and>
     (\<forall>d. getChildDomain r d =
        (if \<exists>i. (d, i) \<in> N then getChildDomain t d else getChildDomain p d)) \<and>
     (\<forall>cd c pd pid. parentIn r cd c pd = Some pid \<longrightarrow>
        parentIn p cd c pd = Some pid \<or>
        (pd, pid) \<in> N \<and> getChildDomain t pd = Some cd \<and> c \<in> set (mappedChildren t pd pid)) \<and>
     (\<forall>cd c pd. parentIn p cd c pd \<noteq> None \<longrightarrow> parentIn r cd c pd \<noteq> None) \<and>
     (\<forall>pd pid cd c. (pd, pid) \<in> N \<longrightarrow> getChildDomain t pd = Some cd \<longrightarrow>
        c \<in> set (mappedChildren t pd pid) \<longrightarrow> parentIn r cd c pd \<noteq> None)"

lemma copiesD:
  assumes "copies t N p r"
  shows "shardDomain r = shardDomain p" "binDomain r = binDomain p"
    and "hm2_find (parentToChildMap r) d i =
        (if (d, i) \<in> N \<and> getChildDomain t d \<noteq> None then Some (mappedChildren t d i)
         else hm2_find (parentToChildMap p) d i)"
    and "getChildDomain r d =
        (if \<exists>i. (d, i) \<in> N then getChildDomain t d else getChildDomain p d)"
    and "parentIn r cd c pd = Some pid \<Longrightarrow>
        parentIn p cd c pd = Some pid \<or>
        (pd, pid) \<in> N \<and> getChildDomain t pd = Some cd \<and> c \<in> set (mappedChildren t pd pid)"
    and "parentIn p cd c pd \<noteq> None \<Longrightarrow> parentIn r cd c pd \<noteq> None"
    and "(pd, pid) \<in> N \<Longrightarrow> getChildDomain t pd = Some cd \<Longrightarrow>
        c \<in> set (mappedChildren t pd pid) \<Longrightarrow> parentIn r cd c pd \<noteq> None"
  using assms unfolding copies_def by blast+

definition compatible :: "sparse_mapping_tree \<Rightarrow> sparse_mapping_tree \<Rightarrow> bool" where
  "compatible t p \<longleftrightarrow> (\<forall>d. getChildDomain p d = None \<or> getChildDomain p d = getChildDomain t d)"

lemma compatible_accepts:
  "compatible t p \<Longrightarrow> getChildDomain t d = Some cd \<Longrightarrow> accepts p d cd"
  by (auto simp: compatible_def accepts_def dest: spec [of _ d])

lemma compatible_add:
  assumes "compatible t p" and "getChildDomain t (fst x) = Some cd"
  shows "compatible t (addMapping x cd cs p)"
  using assms compatible_accepts [OF assms]
  by (auto simp: compatible_def getChildDomain_add)

lemma copies_empty: "copies t {} p p"
  by (auto simp: copies_def)

lemma copies_leaf:
  assumes "compatible t p" and leaf: "getChildDomain t (fst x) = None" and r: "copies t N p r"
  shows "copies t (insert x N) p r"
proof -
  have p: "getChildDomain p (fst x) = None"
    using assms(1) leaf by (auto simp: compatible_def dest: spec [of _ "fst x"])
  show ?thesis
    unfolding copies_def
  proof (intro conjI allI impI)
    fix d i
    show "hm2_find (parentToChildMap r) d i =
        (if (d, i) \<in> insert x N \<and> getChildDomain t d \<noteq> None then Some (mappedChildren t d i)
         else hm2_find (parentToChildMap p) d i)"
      using leaf by (auto simp: copiesD(3) [OF r])
    show "getChildDomain r d =
        (if \<exists>i. (d, i) \<in> insert x N then getChildDomain t d else getChildDomain p d)"
      using leaf p by (cases x) (auto simp: copiesD(4) [OF r])
  next
    fix cd c pd pid assume "parentIn r cd c pd = Some pid"
    from copiesD(5) [OF r this]
    show "parentIn p cd c pd = Some pid \<or>
        (pd, pid) \<in> insert x N \<and> getChildDomain t pd = Some cd \<and> c \<in> set (mappedChildren t pd pid)"
      by blast
  next
    fix pd pid cd c
    assume "(pd, pid) \<in> insert x N" "getChildDomain t pd = Some cd"
      "c \<in> set (mappedChildren t pd pid)"
    then show "parentIn r cd c pd \<noteq> None"
      using copiesD(7) [OF r, of pd pid cd c] leaf by auto
  qed (simp_all add: copiesD(1,2,6) [OF r])
qed

lemma copies_node:
  assumes acc: "accepts p (fst x) cd" and node: "getChildDomain t (fst x) = Some cd"
    and r: "copies t N (addMapping x cd (mappedChildren t (fst x) (snd x)) p) r"
  shows "copies t (insert x N) p r"
proof -
  note add = add_simps [OF acc] prod_eq_iff
  let ?p = "addMapping x cd (mappedChildren t (fst x) (snd x)) p"
  show ?thesis
    unfolding copies_def
  proof (intro conjI allI impI)
    fix d i
    show "hm2_find (parentToChildMap r) d i =
        (if (d, i) \<in> insert x N \<and> getChildDomain t d \<noteq> None then Some (mappedChildren t d i)
         else hm2_find (parentToChildMap p) d i)"
      using node by (auto simp: copiesD(3) [OF r] add)
    show "getChildDomain r d =
        (if \<exists>i. (d, i) \<in> insert x N then getChildDomain t d else getChildDomain p d)"
      using node by (cases x) (auto simp: copiesD(4) [OF r] add)
  next
    fix cd' c pd pid assume "parentIn r cd' c pd = Some pid"
    from copiesD(5) [OF r this]
    show "parentIn p cd' c pd = Some pid \<or>
        (pd, pid) \<in> insert x N \<and> getChildDomain t pd = Some cd' \<and> c \<in> set (mappedChildren t pd pid)"
      using node by (auto simp: add split: if_splits)
  next
    fix cd' c pd assume "parentIn p cd' c pd \<noteq> None"
    then have "parentIn ?p cd' c pd \<noteq> None" by (auto simp: add)
    then show "parentIn r cd' c pd \<noteq> None" by (rule copiesD(6) [OF r])
  next
    fix pd pid cd' c
    assume h: "(pd, pid) \<in> insert x N" "getChildDomain t pd = Some cd'"
      "c \<in> set (mappedChildren t pd pid)"
    have "parentIn ?p cd c (fst x) \<noteq> None" if "c \<in> set (mappedChildren t (fst x) (snd x))"
      using that by (simp add: add)
    then have "parentIn ?p cd' c pd \<noteq> None" if "(pd, pid) = x"
      using that h node by auto
    with h copiesD(6) [OF r, of cd' c pd] copiesD(7) [OF r, of pd pid cd' c]
    show "parentIn r cd' c pd \<noteq> None" by blast
  qed (simp_all add: copiesD(1,2) [OF r])
qed

definition queueNodes ::
    "sparse_mapping_tree \<Rightarrow> (Domain \<times> DomainId) list \<Rightarrow> (Domain \<times> DomainId) set" where
  "queueNodes t q = {y. \<exists>x \<in> set q. below t x y}"

lemma queueNodes_Nil [simp]: "queueNodes t [] = {}"
  by (simp add: queueNodes_def)

lemma queueNodes_leaf:
  "getChildDomain t (fst x) = None \<Longrightarrow> queueNodes t (x # q) = insert x (queueNodes t q)"
  by (auto simp: queueNodes_def below_unfold [of t x])

lemma queueNodes_node:
  "getChildDomain t (fst x) = Some cd \<Longrightarrow>
   queueNodes t (x # q) =
     insert x (queueNodes t (q @ map (Pair cd) (mappedChildren t (fst x) (snd x))))"
  by (auto simp: queueNodes_def below_unfold [of t x])

lemma partialTreeLoop_total:
  assumes "layered t" and "compatible t p"
  shows "\<exists>r. partialTreeLoop t q p = Some r \<and> copies t (queueNodes t q) p r"
  using assms(2)
proof (induction q arbitrary: p rule: wf_induct_rule [OF wf_queueOrder])
  case (1 q)
  show ?case
  proof (cases q)
    case Nil
    then show ?thesis by (simp add: partialTreeLoop.simps copies_empty)
  next
    case (Cons x xs)
    show ?thesis
    proof (cases "getChildDomain t (fst x)")
      case None
      have "(xs, q) \<in> queueOrder" by (simp add: Cons queueOrder_leaf)
      from "1.IH" [OF this "1.prems"]
      obtain r where "partialTreeLoop t xs p = Some r" "copies t (queueNodes t xs) p r" by blast
      with copies_leaf [OF "1.prems" None] None Cons show ?thesis
        by (simp add: partialTreeLoop.simps [of t "x # xs"] queueNodes_leaf)
    next
      case (Some cd)
      let ?cs = "mappedChildren t (fst x) (snd x)"
      have "(xs @ map (Pair cd) ?cs, q) \<in> queueOrder"
        using layeredD [OF assms(1) Some] Cons by (simp add: queueOrder_node)
      from "1.IH" [OF this compatible_add [OF "1.prems" Some, of ?cs]]
      obtain r where "partialTreeLoop t (xs @ map (Pair cd) ?cs) (addMapping x cd ?cs p) = Some r"
        "copies t (queueNodes t (xs @ map (Pair cd) ?cs)) (addMapping x cd ?cs p) r" by blast
      with copies_node [OF compatible_accepts [OF "1.prems" Some] Some] Some Cons show ?thesis
        by (simp add: partialTreeLoop.simps [of t "x # xs"] queueNodes_node)
    qed
  qed
qed

lemma createPartialTree_total:
  assumes "layered t"
  shows "\<exists>r. createPartialTree t d roots = Some r \<and>
     copies t (queueNodes t (map (Pair d) roots)) (newTree (shardDomain t) (binDomain t)) r"
  unfolding createPartialTree_def
  by (rule partialTreeLoop_total [OF assms]) (simp add: compatible_def)

lemma copies_agree:
  assumes t: "tree_agree t" and r: "copies t N (newTree sd bd) r"
  shows "tree_agree r"
proof -
  have kids: "mappedChildren r pd pid =
      (if (pd, pid) \<in> N \<and> getChildDomain t pd \<noteq> None then mappedChildren t pd pid else [])" for pd pid
    unfolding mappedChildren_def [of r] copiesD(3) [OF r] by auto
  have dom: "getChildDomain r pd = (if \<exists>i. (pd, i) \<in> N then getChildDomain t pd else None)" for pd
    by (simp add: copiesD(4) [OF r])
  have "parentIn r cd c pd = Some pid \<longleftrightarrow>
      (pd, pid) \<in> N \<and> getChildDomain t pd = Some cd \<and> c \<in> set (mappedChildren t pd pid)"
    for cd c pd pid
  proof
    assume "parentIn r cd c pd = Some pid"
    from copiesD(5) [OF r this]
    show "(pd, pid) \<in> N \<and> getChildDomain t pd = Some cd \<and> c \<in> set (mappedChildren t pd pid)"
      by simp
  next
    assume h: "(pd, pid) \<in> N \<and> getChildDomain t pd = Some cd \<and> c \<in> set (mappedChildren t pd pid)"
    then obtain pid' where pid': "parentIn r cd c pd = Some pid'"
      using copiesD(7) [OF r, of pd pid cd c] by blast
    have "parentIn t cd c pd = Some pid'"
      using copiesD(5) [OF r pid'] t by (auto simp: tree_agree_def)
    moreover have "parentIn t cd c pd = Some pid"
      using h t by (auto simp: tree_agree_def)
    ultimately show "parentIn r cd c pd = Some pid" using pid' by simp
  qed
  then show ?thesis
    unfolding tree_agree_def by (auto simp: kids dom copiesD(3) [OF r])
qed

lemma copies_layered:
  assumes t: "layered t" and r: "copies t N (newTree sd bd) r"
    and "getChildDomain r d = Some cd"
  shows "cd < d"
  using assms(3) layeredD [OF t] by (simp add: copiesD(4) [OF r] split: if_splits)

lemma partialTreeLoop_distinct:
  assumes "partialTreeLoop t q p = Some r" and "parents_distinct p"
  shows "parents_distinct r"
proof -
  have "parents_distinct p \<longrightarrow> parents_distinct r"
    by (rule partialTreeLoop.raw_induct [where P = "\<lambda>_ _ p r. parents_distinct p \<longrightarrow> parents_distinct r",
          OF _ assms(1)])
      (auto split: list.splits option.splits simp: parents_distinct_add)
  with assms(2) show ?thesis by simp
qed

lemma createPartialTree_distinct:
  "createPartialTree t d roots = Some r \<Longrightarrow> parents_distinct r"
  unfolding createPartialTree_def by (erule partialTreeLoop_distinct) simp

text \<open>The rows of the child-to-parent index have distinct keys.\<close>

definition rows_distinct :: "sparse_mapping_tree \<Rightarrow> bool" where
  "rows_distinct t \<longleftrightarrow> (\<forall>d. hm_distinct (hm_get [] (childToParentMap t) d))"

lemma rows_distinct_cong:
  "childToParentMap t = childToParentMap u \<Longrightarrow> rows_distinct t = rows_distinct u"
  by (simp add: rows_distinct_def)

lemma rows_distinct_new [simp]: "rows_distinct (newTree sd bd)"
  by (simp add: rows_distinct_def newTree_def hm_get_def)

lemma rows_distinct_addParent: "rows_distinct t \<Longrightarrow> rows_distinct (addParent cd p c t)"
  by (auto simp: rows_distinct_def addParent_def hm_get_def hmap_simps split: option.splits)

lemma rows_distinct_addParents: "rows_distinct t \<Longrightarrow> rows_distinct (fold (addParent cd p) cs t)"
  by (induction cs arbitrary: t) (auto simp: rows_distinct_addParent)

lemma rows_distinct_add [intro]:
  assumes "rows_distinct t"
  shows "rows_distinct (addMapping p cd cs t)"
proof -
  have "rows_distinct (t\<lparr>parentToChildDomainMap := m\<rparr>)" for m
    using assms by (simp add: rows_distinct_cong [of "t\<lparr>parentToChildDomainMap := m\<rparr>" t])
  then have "rows_distinct (fold (addParent cd p) cs (t\<lparr>parentToChildDomainMap := m\<rparr>))" for m
    by (rule rows_distinct_addParents)
  then show ?thesis
    using assms by (auto simp: addMapping_def Let_def rows_distinct_def)
qed

lemma createPartialTree_rows:
  assumes "createPartialTree t d roots = Some r"
  shows "rows_distinct r"
proof -
  have "rows_distinct (newTree (shardDomain t) (binDomain t)) \<longrightarrow> rows_distinct r"
    by (rule partialTreeLoop.raw_induct [where P = "\<lambda>_ _ p r. rows_distinct p \<longrightarrow> rows_distinct r",
          OF _ assms [unfolded createPartialTree_def]])
      (auto split: list.splits option.splits simp: rows_distinct_add)
  then show ?thesis by simp
qed

text \<open>The enumeration of a domain that has no children changes no lookup.\<close>

lemma getAllDomainIds_leaf:
  assumes "getChildDomain t d = None"
  shows "fst (getAllDomainIds d t) = map fst (hm_get [] (childToParentMap t) d)"
    and "treeParents (snd (getAllDomainIds d t)) = treeParents t"
    and "parentToChildMap (snd (getAllDomainIds d t)) = parentToChildMap t"
    and "parentToChildDomainMap (snd (getAllDomainIds d t)) = parentToChildDomainMap t"
    and "shardDomain (snd (getAllDomainIds d t)) = shardDomain t"
    and "binDomain (snd (getAllDomainIds d t)) = binDomain t"
  using assms
  by (simp_all add: getAllDomainIds_def getChildDomain_def treeParents_def fun_eq_iff hm2_find_emplace_Nil)

lemma getAllDomainIds_parent:
  assumes "getChildDomain t d = None" and "treeParents t d i \<noteq> []"
  shows "i \<in> set (fst (getAllDomainIds d t))"
  using assms
  by (auto simp: getAllDomainIds_leaf treeParents_def hm2_find_def hm_get_def hm_keys_dom dom_def
      simp del: map_of_eq_None_iff split: option.splits)

section \<open>Properties\<close>

text \<open>The parents of a shard under a list of movement maps are its parents in the tree
  followed by the next bin of each map that names a bin of the tree, in the order of the
  maps; nodes of other domains are not affected by movements.\<close>

theorem parents_with_moves:
  assumes "hasBins t"
  shows "getParents t (shardDomain t) i (map Some ms) =
           Inr (treeParents t (shardDomain t) i @ map (Pair (binDomain t)) (movedBins t ms i)) \<and>
         (d \<noteq> shardDomain t \<longrightarrow> getParents t d i (map Some ms) = Inr (treeParents t d i))"
  using assms by (simp add: getParents_overlay)

definition exampleTree :: sparse_mapping_tree where
  "exampleTree = addMapping (1, 1) 0 [2, 3, 6] (addMapping (1, 0) 0 [0, 1, 5] (newTree 0 1))"

theorem parents_with_moves_witness:
  "getParents exampleTree 0 1 [Some (addMovement 1 1 emptyMovementMap)] = Inr [(1, 0), (1, 1)]"
proof -
  have b: "hasBins exampleTree" and d: "shardDomain exampleTree = 0" "binDomain exampleTree = 1"
    by (code_simp, code_simp, code_simp)
  have p: "treeParents exampleTree 0 1 = [(1, 0)]"
    and m: "movedBins exampleTree [addMovement 1 1 emptyMovementMap] 1 = [1]"
    by (code_simp, code_simp)
  from parents_with_moves [OF b, of 1 "[addMovement 1 1 emptyMovementMap]"] show ?thesis
    unfolding d p m by simp
qed

text \<open>C6: On a layered graph (every child domain below its parent's domain) the construction of
  a partial tree returns, and the result holds exactly the nodes that can be reached from
  the given roots, with all their children, and its two directions agree when those of the
  source tree do.\<close>

theorem partial_tree_correct:
  assumes "layered t" and "tree_agree t"
  shows "\<exists>r. createPartialTree t d roots = Some r \<and> tree_agree r \<and>
     (\<forall>d' i'. hm2_find (parentToChildMap r) d' i' =
        (if (\<exists>i \<in> set roots. below t (d, i) (d', i')) \<and> getChildDomain t d' \<noteq> None
         then Some (mappedChildren t d' i') else None))"
proof -
  obtain r where "createPartialTree t d roots = Some r"
    and r: "copies t (queueNodes t (map (Pair d) roots)) (newTree (shardDomain t) (binDomain t)) r"
    using createPartialTree_total [OF assms(1)] by blast
  moreover have "tree_agree r" by (rule copies_agree [OF assms(2) r])
  ultimately show ?thesis
    by (auto simp: copiesD(3) [OF r] queueNodes_def)
qed

theorem partial_tree_correct_witness:
  "\<exists>r. createPartialTree exampleTree 1 [1] = Some r \<and> tree_agree r"
proof -
  have "layered exampleTree" by code_simp
  moreover have "tree_agree exampleTree"
    unfolding exampleTree_def
    by (intro tree_agree_add tree_agree_new) (simp_all add: accepts_def add_simps)
  ultimately show ?thesis using partial_tree_correct [of exampleTree 1 "[1]"] by blast
qed

end
