(* ===== verification/Committable.thy ===== *)
theory Committable
  imports Prelude
begin

text \<open>
  \<open>psychopomp/placer/utils/Committable.h\<close>: containers with a committed value and a canary
  value laid over it. \<open>CommittableMap\<close> is a template over nested maps; the two
  instances the program uses are modelled, one key deep (\<open>cmap\<close>: bin and fault weights)
  and two keys deep (\<open>cmap2\<close>: metrics per domain and domain id), with
  \<open>CommittableKey\<close> (\<open>ckey\<close>) for single values. The interface \<open>committable\<close> states what
  every client relies on, the transaction lemmas are proved in it once, and the three
  containers interpret it.
\<close>

section \<open>The interface\<close>

locale committable =
  fixes get :: "'s \<Rightarrow> 'k \<Rightarrow> 'v option"
    and committed :: "'s \<Rightarrow> 'k \<Rightarrow> 'v option"
    and stage :: "'k \<Rightarrow> 'v \<Rightarrow> 's \<Rightarrow> 's"
    and commit :: "'s \<Rightarrow> 's"
    and clear :: "'s \<Rightarrow> 's"
    and ok :: "'s \<Rightarrow> bool"
  assumes get_stage: "get (stage k v s) = (get s)(k \<mapsto> v)"
    and committed_stage: "committed (stage k v s) = committed s"
    and get_commit: "ok s \<Longrightarrow> get (commit s) = get s"
    and committed_commit: "ok s \<Longrightarrow> committed (commit s) = get s"
    and get_clear: "get (clear s) = committed s"
    and committed_clear: "committed (clear s) = committed s"
    and ok_stage: "ok s \<Longrightarrow> ok (stage k v s)"
    and ok_commit: "ok s \<Longrightarrow> ok (commit s)"
    and ok_clear: "ok s \<Longrightarrow> ok (clear s)"
begin

lemma committed_stage_all: "committed (fold (\<lambda>(k, v). stage k v) kvs s) = committed s"
  by (induction kvs arbitrary: s) (auto simp: committed_stage)

lemma ok_stage_all: "ok s \<Longrightarrow> ok (fold (\<lambda>(k, v). stage k v) kvs s)"
  by (induction kvs arbitrary: s) (auto simp: ok_stage)

lemma get_stage_all:
  "get (fold (\<lambda>(k, v). stage k v) kvs s) = fold (\<lambda>(k, v) f. f(k \<mapsto> v)) kvs (get s)"
  by (induction kvs arbitrary: s) (auto simp: get_stage)

text \<open>Clearing after any staging is a rollback; committing makes the staged view permanent.\<close>

lemma rollback: "get (clear (fold (\<lambda>(k, v). stage k v) kvs s)) = committed s"
  by (simp add: get_clear committed_stage_all)

lemma transaction:
  assumes "ok s"
  shows "committed (commit (fold (\<lambda>(k, v). stage k v) kvs (clear s))) =
           fold (\<lambda>(k, v) f. f(k \<mapsto> v)) kvs (committed s)"
  using assms by (simp add: committed_commit ok_stage_all ok_clear get_stage_all get_clear)

lemma commit_then_clear: "ok s \<Longrightarrow> get (clear (commit s)) = get s"
  by (simp add: get_clear committed_commit)

end

section \<open>CommittableMap with one key\<close>

record ('k, 'v) cmap =
  committedMap :: "('k, 'v) hmap"
  canaryMap :: "('k, 'v) hmap"

definition cm_empty :: "('k, 'v) cmap" where
  "cm_empty = \<lparr>committedMap = [], canaryMap = []\<rparr>"

definition cm_get :: "('k, 'v) cmap \<Rightarrow> 'k \<Rightarrow> 'v option" where
  "cm_get c k =
     (case hm_find (canaryMap c) k of
        Some v \<Rightarrow> Some v
      | None \<Rightarrow> hm_find (committedMap c) k)"

definition cm_set :: "bool \<Rightarrow> 'v \<Rightarrow> 'k \<Rightarrow> ('k, 'v) cmap \<Rightarrow> ('k, 'v) cmap" where
  "cm_set isCanary v k c =
     (if isCanary then c\<lparr>canaryMap := hm_set k v (canaryMap c)\<rparr>
      else c\<lparr>committedMap := hm_set k v (committedMap c)\<rparr>)"

definition cm_copyChanges :: "('k, 'v) hmap \<Rightarrow> ('k, 'v) hmap \<Rightarrow> ('k, 'v) hmap" where
  "cm_copyChanges canary com = fold (\<lambda>(k, v). hm_set k v) canary com"

definition cm_clear :: "('k, 'v) cmap \<Rightarrow> ('k, 'v) cmap" where
  "cm_clear c = c\<lparr>canaryMap := []\<rparr>"

definition cm_commit :: "('k, 'v) cmap \<Rightarrow> ('k, 'v) cmap" where
  "cm_commit c = cm_clear (c\<lparr>committedMap := cm_copyChanges (canaryMap c) (committedMap c)\<rparr>)"

definition cm_getFromCanaryMap :: "('k, 'v) cmap \<Rightarrow> 'k \<Rightarrow> 'v option" where
  "cm_getFromCanaryMap c k = hm_find (canaryMap c) k"

definition cm_getFromCommittedMap :: "('k, 'v) cmap \<Rightarrow> 'k \<Rightarrow> 'v option" where
  "cm_getFromCommittedMap c k = hm_find (committedMap c) k"

definition cm_ok :: "('k, 'v) cmap \<Rightarrow> bool" where
  "cm_ok c \<longleftrightarrow> hm_distinct (committedMap c) \<and> hm_distinct (canaryMap c)"

lemma cm_get_add: "cm_get c = hm_find (committedMap c) ++ hm_find (canaryMap c)"
  by (auto simp: cm_get_def map_add_def fun_eq_iff split: option.splits)

lemma cm_ok_empty [simp]: "cm_ok cm_empty"
  by (simp add: cm_ok_def cm_empty_def)

lemma cm_ok_set [simp, intro]: "cm_ok c \<Longrightarrow> cm_ok (cm_set b v k c)"
  by (simp add: cm_ok_def cm_set_def)

lemma hm_distinct_copyChanges [simp, intro]:
  "hm_distinct com \<Longrightarrow> hm_distinct (cm_copyChanges can com)"
  unfolding cm_copyChanges_def by (induction can arbitrary: com) auto

lemma hm_find_copyChanges:
  "hm_distinct can \<Longrightarrow> hm_find (cm_copyChanges can com) = hm_find com ++ hm_find can"
  unfolding cm_copyChanges_def by (rule hm.lookup_insert_all) simp_all

interpretation cm: committable cm_get cm_getFromCommittedMap
  "\<lambda>k v. cm_set True v k" cm_commit cm_clear cm_ok
proof unfold_locales
  fix k and v :: 'b and s :: "('a, 'b) cmap"
  show "cm_get (cm_set True v k s) = (cm_get s)(k \<mapsto> v)"
    by (auto simp: cm_get_def cm_set_def fun_eq_iff split: option.split)
qed (auto simp: cm_getFromCommittedMap_def cm_set_def cm_clear_def cm_commit_def cm_get_add
    hm_find_copyChanges cm_ok_def fun_eq_iff map_add_def)

section \<open>CommittableMap with two keys\<close>

record ('a, 'b, 'v) cmap2 =
  committedMap2 :: "('a, ('b, 'v) hmap) hmap"
  canaryMap2 :: "('a, ('b, 'v) hmap) hmap"

definition cm2_empty :: "('a, 'b, 'v) cmap2" where
  "cm2_empty = \<lparr>committedMap2 = [], canaryMap2 = []\<rparr>"

definition cm2_get :: "('a, 'b, 'v) cmap2 \<Rightarrow> 'a \<Rightarrow> 'b \<Rightarrow> 'v option" where
  "cm2_get c a b =
     (case hm2_find (canaryMap2 c) a b of
        Some v \<Rightarrow> Some v
      | None \<Rightarrow> hm2_find (committedMap2 c) a b)"

definition cm2_set :: "bool \<Rightarrow> 'v \<Rightarrow> 'a \<Rightarrow> 'b \<Rightarrow> ('a, 'b, 'v) cmap2 \<Rightarrow> ('a, 'b, 'v) cmap2" where
  "cm2_set isCanary v a b c =
     (if isCanary then c\<lparr>canaryMap2 := hm2_set a b v (canaryMap2 c)\<rparr>
      else c\<lparr>committedMap2 := hm2_set a b v (committedMap2 c)\<rparr>)"

text \<open>
  The outer \<open>copyChanges\<close> takes each canary row and copies it into the committed row of
  the same key, which \<open>operator[]\<close> creates when it is missing.
\<close>

definition cm2_copyChanges ::
    "('a, ('b, 'v) hmap) hmap \<Rightarrow> ('a, ('b, 'v) hmap) hmap \<Rightarrow> ('a, ('b, 'v) hmap) hmap" where
  "cm2_copyChanges canary com = fold (\<lambda>(a, row). hm_modify [] a (cm_copyChanges row)) canary com"

definition cm2_clear :: "('a, 'b, 'v) cmap2 \<Rightarrow> ('a, 'b, 'v) cmap2" where
  "cm2_clear c = c\<lparr>canaryMap2 := []\<rparr>"

definition cm2_commit :: "('a, 'b, 'v) cmap2 \<Rightarrow> ('a, 'b, 'v) cmap2" where
  "cm2_commit c =
     cm2_clear (c\<lparr>committedMap2 := cm2_copyChanges (canaryMap2 c) (committedMap2 c)\<rparr>)"

definition cm2_getFromCommittedMap :: "('a, 'b, 'v) cmap2 \<Rightarrow> 'a \<Rightarrow> 'b \<Rightarrow> 'v option" where
  "cm2_getFromCommittedMap c a b = hm2_find (committedMap2 c) a b"

definition hm2_ok :: "('a, ('b, 'v) hmap) hmap \<Rightarrow> bool" where
  "hm2_ok m \<longleftrightarrow> hm_distinct m \<and> (\<forall>row \<in> snd ` set m. hm_distinct row)"

definition cm2_ok :: "('a, 'b, 'v) cmap2 \<Rightarrow> bool" where
  "cm2_ok c \<longleftrightarrow> hm2_ok (committedMap2 c) \<and> hm2_ok (canaryMap2 c)"

lemma hm2_ok_Nil [simp]: "hm2_ok []"
  by (simp add: hm2_ok_def)

lemma hm2_ok_modify:
  assumes "hm2_ok m" and "\<And>row. hm_distinct row \<Longrightarrow> hm_distinct (f row)"
  shows "hm2_ok (hm_modify [] a f m)"
proof -
  have "hm_distinct (hm_get [] m a)"
    using assms(1) by (auto simp: hm2_ok_def hm_get_def dest: map_of_SomeD split: option.splits)
  moreover have "snd ` set (hm_set a row m) \<subseteq> insert row (snd ` set m)" for row
    by (induction m) auto
  ultimately show ?thesis
    using assms by (fastforce simp: hm2_ok_def hm_modify_def)
qed

lemma hm2_ok_set [simp, intro]: "hm2_ok m \<Longrightarrow> hm2_ok (hm2_set a b v m)"
  unfolding hm2_set_def by (rule hm2_ok_modify) auto

lemma hm2_ok_copyChanges [simp, intro]: "hm2_ok com \<Longrightarrow> hm2_ok (cm2_copyChanges can com)"
  unfolding cm2_copyChanges_def by (induction can arbitrary: com) (auto intro: hm2_ok_modify)

lemma hm2_find_copyChanges:
  assumes "hm2_ok can"
  shows "hm2_find (cm2_copyChanges can com) a b =
     (case hm2_find can a b of Some v \<Rightarrow> Some v | None \<Rightarrow> hm2_find com a b)"
  using assms
proof (induction can arbitrary: com)
  case Nil
  then show ?case by (simp add: cm2_copyChanges_def hm2_find_def)
next
  case (Cons p can)
  obtain x row where p: "p = (x, row)" by (cases p)
  from Cons.prems p have row: "hm_distinct row" and can: "hm2_ok can"
    and fresh: "hm_find can x = None"
    by (auto simp: hm2_ok_def map_of_eq_None_iff)
  have "hm2_find (cm2_copyChanges (p # can) com) a b =
      (case hm2_find can a b of Some v \<Rightarrow> Some v
       | None \<Rightarrow> hm2_find (hm_modify [] x (cm_copyChanges row) com) a b)"
    using Cons.IH [OF can, of "hm_modify [] x (cm_copyChanges row) com"]
    by (simp add: cm2_copyChanges_def p)
  moreover have "hm2_find (hm_modify [] x (cm_copyChanges row) com) a b =
      (if a = x then (case hm_find row b of Some v \<Rightarrow> Some v | None \<Rightarrow> hm2_find com a b)
       else hm2_find com a b)"
    by (auto simp: hm2_find_def hmap_simps hm_find_copyChanges row map_add_def hm_get_def
        split: option.splits)
  ultimately show ?case
    using fresh by (auto simp: p hm2_find_def split: option.splits)
qed

lemma cm2_ok_empty [simp]: "cm2_ok cm2_empty"
  by (simp add: cm2_ok_def cm2_empty_def hm2_ok_def)

lemma cm2_get_empty [simp]: "cm2_get cm2_empty a b = None"
  by (simp add: cm2_get_def cm2_empty_def hm2_find_def)

interpretation cm2: committable "\<lambda>c (a, b). cm2_get c a b"
  "\<lambda>c (a, b). cm2_getFromCommittedMap c a b" "\<lambda>(a, b) v. cm2_set True v a b"
  cm2_commit cm2_clear cm2_ok
proof unfold_locales
  fix k :: "'a \<times> 'b" and v :: 'v and s :: "('a, 'b, 'v) cmap2"
  show "(\<lambda>(a, b). cm2_get ((case k of (a, b) \<Rightarrow> \<lambda>v. cm2_set True v a b) v s) a b) =
      (\<lambda>(a, b). cm2_get s a b)(k \<mapsto> v)"
    by (cases k) (auto simp: cm2_get_def cm2_set_def hm2_find_set fun_eq_iff split: option.split)
  show "cm2_ok s \<Longrightarrow> (\<lambda>(a, b). cm2_get (cm2_commit s) a b) = (\<lambda>(a, b). cm2_get s a b)"
    by (auto simp: cm2_get_def cm2_commit_def cm2_clear_def cm2_ok_def hm2_find_copyChanges
        fun_eq_iff)
  show "cm2_ok s \<Longrightarrow>
      (\<lambda>(a, b). cm2_getFromCommittedMap (cm2_commit s) a b) = (\<lambda>(a, b). cm2_get s a b)"
    by (auto simp: cm2_get_def cm2_commit_def cm2_clear_def cm2_ok_def hm2_find_copyChanges
        cm2_getFromCommittedMap_def fun_eq_iff)
  show "(\<lambda>(a, b). cm2_get (cm2_clear s) a b) = (\<lambda>(a, b). cm2_getFromCommittedMap s a b)"
    by (auto simp: cm2_get_def cm2_clear_def cm2_getFromCommittedMap_def fun_eq_iff)
  show "cm2_ok s \<Longrightarrow> cm2_ok ((case k of (a, b) \<Rightarrow> \<lambda>v. cm2_set True v a b) v s)"
    by (cases k) (auto simp: cm2_ok_def cm2_set_def)
qed (auto simp: cm2_getFromCommittedMap_def cm2_set_def cm2_clear_def cm2_commit_def cm2_ok_def
    fun_eq_iff)

section \<open>CommittableKey\<close>

record 'v ckey =
  canaryVal :: "'v option"
  committedVal :: "'v option"

definition ck_empty :: "'v ckey" where
  "ck_empty = \<lparr>canaryVal = None, committedVal = None\<rparr>"

definition ck_get :: "'v ckey \<Rightarrow> 'v option" where
  "ck_get c = (case canaryVal c of Some v \<Rightarrow> Some v | None \<Rightarrow> committedVal c)"

definition ck_set :: "bool \<Rightarrow> 'v \<Rightarrow> 'v ckey \<Rightarrow> 'v ckey" where
  "ck_set isCanary v c =
     (if isCanary then c\<lparr>canaryVal := Some v\<rparr> else c\<lparr>committedVal := Some v\<rparr>)"

definition ck_clear :: "'v ckey \<Rightarrow> 'v ckey" where
  "ck_clear c = c\<lparr>canaryVal := None\<rparr>"

definition ck_commit :: "'v ckey \<Rightarrow> 'v ckey" where
  "ck_commit c =
     ck_clear (case canaryVal c of Some v \<Rightarrow> c\<lparr>committedVal := Some v\<rparr> | None \<Rightarrow> c)"

interpretation ck: committable "\<lambda>c (_ :: unit). ck_get c" "\<lambda>c _. committedVal c"
  "\<lambda>_ v. ck_set True v" ck_commit ck_clear "\<lambda>_. True"
  by unfold_locales
    (auto simp: ck_get_def ck_set_def ck_commit_def ck_clear_def fun_eq_iff split: option.splits)

lemma ck_get_set [simp]: "ck_get (ck_set True v c) = Some v"
  by (simp add: ck_get_def ck_set_def)

lemma ck_get_commit [simp]: "ck_get (ck_commit c) = ck_get c"
  using ck.get_commit [of c] by (auto simp: fun_eq_iff)

lemma ck_committed_commit [simp]: "committedVal (ck_commit c) = ck_get c"
  using ck.committed_commit [of c] by (auto simp: fun_eq_iff)

lemma ck_get_clear [simp]: "ck_get (ck_clear c) = committedVal c"
  using ck.get_clear [of c] by (auto simp: fun_eq_iff)

section \<open>Properties\<close>

definition cm2_stage_all ::
    "(('a \<times> 'b) \<times> 'v) list \<Rightarrow> ('a, 'b, 'v) cmap2 \<Rightarrow> ('a, 'b, 'v) cmap2" where
  "cm2_stage_all kvs c = fold (\<lambda>(k, v). (\<lambda>(a, b) v. cm2_set True v a b) k v) kvs c"

text \<open>C14: Canary writes to a metrics map never touch the committed layer, so a clear rolls
  them back; a commit makes exactly the last write to each key permanent, and a clear
  after the commit no longer changes what is read.\<close>

theorem metrics_map_transaction:
  assumes "cm2_ok c"
  shows "cm2_get (cm2_clear (cm2_stage_all kvs c)) x y = cm2_getFromCommittedMap c x y \<and>
         cm2_getFromCommittedMap (cm2_commit (cm2_stage_all kvs (cm2_clear c))) x y =
           fold (\<lambda>(k, v) f. f(k \<mapsto> v)) kvs (\<lambda>(a, b). cm2_getFromCommittedMap c a b) (x, y) \<and>
         cm2_get (cm2_clear (cm2_commit c)) x y = cm2_get c x y"
  using fun_cong [OF cm2.rollback [of kvs c], of "(x, y)"]
    fun_cong [OF cm2.transaction [OF assms, of kvs], of "(x, y)"]
    fun_cong [OF cm2.commit_then_clear [OF assms], of "(x, y)"]
  by (simp add: cm2_stage_all_def)

theorem metrics_map_transaction_witness:
  "cm2_get (cm2_clear (cm2_stage_all [((1, 2), 5)] (cm2_set False (7 :: i32) (1 :: nat) (2 :: nat) cm2_empty))) 1 2
     = Some 7"
proof -
  have "cm2_ok (cm2_set False (7 :: i32) (1 :: nat) (2 :: nat) cm2_empty)"
    by (simp add: cm2_ok_def cm2_set_def cm2_empty_def)
  from metrics_map_transaction [OF this, of "[((1, 2), 5)]" 1 2] show ?thesis
    by (simp add: cm2_getFromCommittedMap_def cm2_set_def cm2_empty_def hm2_find_set)
qed

end
