(* ===== verification/SolvingState.thy ===== *)
theory SolvingState
  imports SparseMappingTree Committable
begin

text \<open>
  \<open>psychopomp/placer/SolvingState\<close>: the assignment tree built from the domain mapping,
  the shard metrics and the committable weights that the constraints share. The theory
  shows that the constructor builds a layered tree with exactly the given mapping, in
  which both directions agree when no node has two parents, and that it leaves the movement
  map of the state a null pointer.
\<close>

section \<open>State\<close>

record bin_weight_info =
  binWeightMap :: "(DomainId, i64) cmap"
  totalWeight :: "i64 ckey"

record solving_state =
  ss_shardDomain :: Domain
  ss_binDomain :: Domain
  domainOffset :: nat
  binWeightInfo :: bin_weight_info
  domainElements :: "(Domain, nat) hmap"
  domainIdMap :: "(Domain, (DomainId, DomainId) hmap) hmap"
  shardInfoVector :: "shard_info list"
  metricVectors :: "MetricValue list list"
  assignmentTree :: sparse_mapping_tree
  ss_movementMap :: "movement_map option"

definition kDomainLimit :: Domain where
  "kDomainLimit = 10"

definition emptyBinWeightInfo :: bin_weight_info where
  "emptyBinWeightInfo = \<lparr>binWeightMap = cm_empty, totalWeight = ck_empty\<rparr>"

section \<open>Construction\<close>

definition addLevel :: "Domain \<Rightarrow> Domain \<Rightarrow> DomainId list list \<Rightarrow> sparse_mapping_tree \<Rightarrow> sparse_mapping_tree" where
  "addLevel parentDomain childDomain parentChildMap t =
     fold (\<lambda>(parentId, childIdVector). addMapping (parentDomain, parentId) childDomain childIdVector)
       (enumerate 0 parentChildMap) t"

definition addDomainInternal ::
    "Domain \<Rightarrow> Domain \<Rightarrow> DomainId list list \<Rightarrow> solving_state \<Rightarrow> solving_state" where
  "addDomainInternal parentDomain childDomain parentChildMap s =
     s\<lparr>domainElements := hm_emplace parentDomain (length parentChildMap) (domainElements s),
       assignmentTree := addLevel parentDomain childDomain parentChildMap (assignmentTree s)\<rparr>"

text \<open>
  The constructor. Nothing assigns \<open>movementMap_\<close>, so it stays the null pointer that a
  default-constructed \<open>shared_ptr\<close> is.
\<close>

definition newSolvingState ::
    "shard_info list \<Rightarrow> MetricValue list list \<Rightarrow> DomainId list list list \<Rightarrow> solving_state" where
  "newSolvingState shardInfos metrics domainMapping =
     fold (\<lambda>(domain, level). addDomainInternal (domain + 1) domain level)
       (enumerate 0 domainMapping)
       \<lparr>ss_shardDomain = 0, ss_binDomain = 1, domainOffset = 2,
        binWeightInfo = emptyBinWeightInfo,
        domainElements = hm_emplace 0 (length shardInfos) [],
        domainIdMap = [], shardInfoVector = shardInfos, metricVectors = metrics,
        assignmentTree = newTree 0 1, ss_movementMap = None\<rparr>"

definition getDomainSize :: "solving_state \<Rightarrow> Domain \<Rightarrow> nat" where
  "getDomainSize s d = hm_get 0 (domainElements s) d"

definition getShardInfo :: "solving_state \<Rightarrow> DomainId \<Rightarrow> fault + shard_info" where
  "getShardInfo s i = index_vec (shardInfoVector s) i"

definition getMetric :: "solving_state \<Rightarrow> Metric \<Rightarrow> fault + MetricValue list" where
  "getMetric s metric = index_vec (metricVectors s) metric"

definition getShardMetric :: "solving_state \<Rightarrow> Metric \<Rightarrow> DomainId \<Rightarrow> fault + i32" where
  "getShardMetric s metric i = rbind (index_vec (metricVectors s) metric) (\<lambda>row. index_vec row i)"

section \<open>The tree of one level\<close>

lemma addLevel_Nil [simp]: "addLevel pd cd [] t = t"
  by (simp add: addLevel_def)

lemma addLevel_snoc:
  "addLevel pd cd (level @ [cs]) t = addMapping (pd, length level) cd cs (addLevel pd cd level t)"
  by (simp add: addLevel_def enumerate_append_eq)

lemma addLevel_lookup:
  assumes "getChildDomain t pd = None" and "\<And>i. hm2_find (parentToChildMap t) pd i = None"
  shows "getChildDomain (addLevel pd cd level t) =
           (if level = [] then getChildDomain t else (getChildDomain t)(pd \<mapsto> cd)) \<and>
         (\<forall>d i. hm2_find (parentToChildMap (addLevel pd cd level t)) d i =
           (if d = pd then (if i < length level then Some (level ! i) else None)
            else hm2_find (parentToChildMap t) d i)) \<and>
         shardDomain (addLevel pd cd level t) = shardDomain t \<and>
         binDomain (addLevel pd cd level t) = binDomain t"
proof (induction level rule: rev_induct)
  case Nil
  with assms show ?case by auto
next
  case (snoc cs level)
  then have "accepts (addLevel pd cd level t) pd cd"
    by (simp add: accepts_def assms(1))
  then show ?case using snoc
    by (auto simp: addLevel_snoc add_simps nth_append less_Suc_eq assms(2))
qed

lemma addLevel_agree:
  assumes t: "tree_agree t" and none: "getChildDomain t pd = None"
    and dist: "distinct (concat level)"
  shows "tree_agree (addLevel pd cd level t)"
  using dist
proof (induction level rule: rev_induct)
  case Nil
  with t show ?case by simp
next
  case (snoc cs level)
  let ?u = "addLevel pd cd level t"
  have "\<And>i. hm2_find (parentToChildMap t) pd i = None"
    using t none by (simp add: tree_agree_def)
  note look = addLevel_lookup [OF none this, of cd level]
  have acc: "accepts ?u (fst (pd, length level)) cd"
    using look by (simp add: accepts_def none)
  have u: "tree_agree ?u" using snoc by simp
  have kids: "mappedChildren ?u pd i = (if i < length level then level ! i else [])" for i
    using look by (simp add: mappedChildren_def)
  have "parentIn ?u cd c pd = None" if "c \<in> set cs" for c
  proof (rule ccontr)
    assume "parentIn ?u cd c pd \<noteq> None"
    then obtain i where "c \<in> set (mappedChildren ?u pd i)"
      using u unfolding tree_agree_def by blast
    then obtain cs' where "cs' \<in> set level" "c \<in> set cs'"
      by (auto simp: kids split: if_splits dest: nth_mem)
    with that snoc.prems show False by auto
  qed
  then show ?case
    unfolding addLevel_snoc using u acc kids [of "length level"]
    by (intro tree_agree_add) simp_all
qed

section \<open>The state built by the constructor\<close>

lemma newSolvingState_snoc:
  "newSolvingState si ms (dm @ [level]) =
     addDomainInternal (length dm + 1) (length dm) level (newSolvingState si ms dm)"
  by (simp add: newSolvingState_def enumerate_append_eq)

lemma newSolvingState_fields [simp]:
  "ss_shardDomain (newSolvingState si ms dm) = 0"
  "ss_binDomain (newSolvingState si ms dm) = 1"
  "ss_movementMap (newSolvingState si ms dm) = None"
  "binWeightInfo (newSolvingState si ms dm) = emptyBinWeightInfo"
  "metricVectors (newSolvingState si ms dm) = ms"
  "shardInfoVector (newSolvingState si ms dm) = si"
  by (induction dm rule: rev_induct)
    (simp_all add: newSolvingState_snoc addDomainInternal_def, simp_all add: newSolvingState_def)

lemma newSolvingState_tree:
  "getChildDomain (assignmentTree (newSolvingState si ms dm)) d =
     (if 0 < d \<and> d \<le> length dm \<and> dm ! (d - 1) \<noteq> [] then Some (d - 1) else None) \<and>
   hm2_find (parentToChildMap (assignmentTree (newSolvingState si ms dm))) d i =
     (if 0 < d \<and> d \<le> length dm \<and> i < length (dm ! (d - 1)) then Some (dm ! (d - 1) ! i) else None) \<and>
   shardDomain (assignmentTree (newSolvingState si ms dm)) = 0 \<and>
   binDomain (assignmentTree (newSolvingState si ms dm)) = 1"
proof (induction dm arbitrary: d i rule: rev_induct)
  case Nil
  show ?case by (simp add: newSolvingState_def)
next
  case (snoc level dm)
  let ?t = "assignmentTree (newSolvingState si ms dm)"
  have "getChildDomain ?t (length dm + 1) = None"
    and "\<And>i. hm2_find (parentToChildMap ?t) (length dm + 1) i = None"
    using snoc.IH by simp_all
  note look = addLevel_lookup [OF this, of "length dm" level]
  show ?case
    using look snoc.IH [of d i]
    by (auto simp: newSolvingState_snoc addDomainInternal_def nth_append)
qed

lemma newSolvingState_agree:
  "\<forall>level \<in> set dm. distinct (concat level) \<Longrightarrow>
   tree_agree (assignmentTree (newSolvingState si ms dm))"
proof (induction dm rule: rev_induct)
  case Nil
  show ?case by (simp add: newSolvingState_def)
next
  case (snoc level dm)
  then show ?case
    using newSolvingState_tree [of si ms dm "length dm + 1"]
    by (auto simp: newSolvingState_snoc addDomainInternal_def intro!: addLevel_agree)
qed

lemma newSolvingState_elements:
  "hm_find (domainElements (newSolvingState si ms dm)) d =
     (if d = 0 then Some (length si)
      else if d \<le> length dm then Some (length (dm ! (d - 1))) else None)"
proof (induction dm arbitrary: d rule: rev_induct)
  case Nil
  show ?case by (simp add: newSolvingState_def hm_emplace_def)
next
  case (snoc level dm)
  show ?case
    using snoc.IH [of d] snoc.IH [of "length dm + 1"]
    by (auto simp: newSolvingState_snoc addDomainInternal_def hmap_simps nth_append)
qed

lemma newSolvingState_layered: "layered (assignmentTree (newSolvingState si ms dm))"
proof -
  have "layered t \<Longrightarrow> layered (addLevel (Suc d) d level t)" for d level t
  proof (induction level rule: rev_induct)
    case (snoc cs level)
    have "snd ` set (hm_set k v m) \<subseteq> insert v (snd ` set m)" for k v and m :: "(nat, nat) hmap"
      by (induction m) auto
    have "set (hm_set k v m) \<subseteq> insert (k, v) (set m)" for k v and m :: "(nat, nat) hmap"
      by (induction m) auto
    then have "list_all (\<lambda>(d, cd). cd < d) (hm_set (Suc d) d m)"
      if "list_all (\<lambda>(d, cd). cd < d) m" for m :: "(nat, nat) hmap"
      using that unfolding list_all_iff by fastforce
    with snoc show ?case by (auto simp: addLevel_snoc addMapping_def Let_def layered_def)
  qed simp
  then show ?thesis
    by (induction dm rule: rev_induct)
      (simp_all add: newSolvingState_snoc addDomainInternal_def, simp add: newSolvingState_def newTree_def layered_def)
qed

section \<open>Properties\<close>

text \<open>C11: The constructor builds, from a list of levels, the tree in which domain \<open>d + 1\<close> has
  domain \<open>d\<close> as its child domain and exactly the listed children, with the size of every
  domain recorded; the tree is layered, and its two directions agree as soon as no node
  is listed twice in a level.\<close>

theorem solving_state_constructed:
  fixes si ms dm
  defines "s \<equiv> newSolvingState si ms dm"
  shows "hm2_find (parentToChildMap (assignmentTree s)) d i =
      (if 0 < d \<and> d \<le> length dm \<and> i < length (dm ! (d - 1)) then Some (dm ! (d - 1) ! i) else None) \<and>
    getChildDomain (assignmentTree s) d =
      (if 0 < d \<and> d \<le> length dm \<and> dm ! (d - 1) \<noteq> [] then Some (d - 1) else None) \<and>
    getDomainSize s d =
      (if d = 0 then length si else if d \<le> length dm then length (dm ! (d - 1)) else 0) \<and>
    layered (assignmentTree s) \<and>
    ((\<forall>level \<in> set dm. distinct (concat level)) \<longrightarrow> tree_agree (assignmentTree s))"
  using newSolvingState_tree [of si ms dm d i] newSolvingState_elements [of si ms dm d]
    newSolvingState_layered [of si ms dm] newSolvingState_agree [of dm si ms]
  by (auto simp: s_def getDomainSize_def hm_get_def)

theorem solving_state_constructed_witness:
  "tree_agree (assignmentTree (newSolvingState [] [] [[[], [0, 1], [2]], [[], [1, 2]]]))"
  using solving_state_constructed [where dm = "[[[], [0, 1], [2]], [[], [1, 2]]]"
    and si = "[]" and ms = "[]"] by simp

text \<open>The movement map that the state hands out is the null pointer its member starts as,
  so asking for the parents of any shard through it, as every evaluation of an expression
  tree does first, dereferences null.\<close>

theorem solving_state_movement_map_null:
  "ss_movementMap (newSolvingState si ms dm) = None \<and>
   getParents (assignmentTree (newSolvingState si ms dm)) (ss_shardDomain (newSolvingState si ms dm)) i
     (ss_movementMap (newSolvingState si ms dm) # mms) = Inl NullDeref"
  using newSolvingState_tree [of si ms dm 0 0]
    getParents_null [of "assignmentTree (newSolvingState si ms dm)" i mms]
  by simp

end
