(* ===== verification/ConstraintUtils.thy ===== *)
theory ConstraintUtils
  imports SolvingState
begin

text \<open>
  \<open>psychopomp/placer/constraints/ConstraintUtils.h\<close>: which shards of a bin count under a
  movement consistency, the current and the future bin of a shard, and the two incremental
  operators that the expression trees of the constraints evaluate, with what they compute
  in 32-bit arithmetic.
\<close>

type_synonym metrics_map = "(Domain, DomainId, i32) cmap2"

section \<open>Which shards count\<close>

datatype movement_consistency = BEFORE | AFTER | BOTH | DURING

fun shouldConsider :: "movement_consistency \<Rightarrow> bool \<Rightarrow> bool \<Rightarrow> bool" where
  "shouldConsider BEFORE isFutureChild isMoving = (\<not> isFutureChild)"
| "shouldConsider AFTER isFutureChild isMoving = isFutureChild"
| "shouldConsider BOTH isFutureChild isMoving = True"
| "shouldConsider DURING isFutureChild isMoving = isMoving"

text \<open>
  The loop over the movement maps, from left to right; a next bin other than the given one
  ends it. It returns \<open>isFutureChild\<close> and \<open>isMoving\<close>.
\<close>

fun considerLoop ::
    "DomainId \<Rightarrow> DomainId \<Rightarrow> movement_map option list \<Rightarrow> bool \<Rightarrow> fault + bool \<times> bool" where
  "considerLoop childId binId [] isMoving = Inr (True, isMoving)"
| "considerLoop childId binId (mm # mms) isMoving =
     rbind (deref mm) (\<lambda>m.
       case getNextBin m childId of
         None \<Rightarrow> considerLoop childId binId mms isMoving
       | Some nextBin \<Rightarrow>
           if nextBin \<noteq> binId then Inr (False, True)
           else considerLoop childId binId mms True)"

definition shouldConsiderShard ::
    "movement_consistency \<Rightarrow> movement_map option list \<Rightarrow> DomainId \<Rightarrow> DomainId \<Rightarrow> fault + bool" where
  "shouldConsiderShard consistency mms childId binId =
     rbind (considerLoop childId binId mms False)
       (\<lambda>(isFutureChild, isMoving). Inr (shouldConsider consistency isFutureChild isMoving))"

section \<open>The bin of a shard\<close>

definition firstParentIn :: "Domain \<Rightarrow> (Domain \<times> DomainId) list \<Rightarrow> DomainId" where
  "firstParentIn binD parents =
     (case List.find (\<lambda>p. fst p = binD) parents of Some p \<Rightarrow> snd p | None \<Rightarrow> kDefaultBin)"

definition getCurrentBin ::
    "sparse_mapping_tree \<Rightarrow> Domain \<Rightarrow> DomainId \<Rightarrow> Domain \<Rightarrow> fault + DomainId" where
  "getCurrentBin t shardD shardId binD =
     rbind (getParents t shardD shardId []) (\<lambda>parents. Inr (firstParentIn binD parents))"

fun getFutureBin ::
    "sparse_mapping_tree \<Rightarrow> movement_map option list \<Rightarrow> Domain \<Rightarrow> DomainId \<Rightarrow> Domain
     \<Rightarrow> fault + DomainId" where
  "getFutureBin t [] shardD shardId binD =
     rbind (getParents t shardD shardId []) (\<lambda>parents. Inr (firstParentIn binD parents))"
| "getFutureBin t (mm # mms) shardD shardId binD =
     rbind (deref mm) (\<lambda>m.
       case getNextBin m shardId of
         Some nextBin \<Rightarrow> Inr nextBin
       | None \<Rightarrow> getFutureBin t mms shardD shardId binD)"

section \<open>The incremental operators\<close>

definition value_or0 :: "i32 option \<Rightarrow> i32" where
  "value_or0 v = (case v of Some x \<Rightarrow> x | None \<Rightarrow> 0)"

definition isFutureChildOf ::
    "solving_state \<Rightarrow> movement_consistency \<Rightarrow> movement_map option list \<Rightarrow> Domain \<times> DomainId
     \<Rightarrow> DomainId \<Rightarrow> fault + bool" where
  "isFutureChildOf s consistency mms node child =
     (if fst node = ss_binDomain s then shouldConsiderShard consistency mms child (snd node)
      else Inr True)"

text \<open>
  The loop body of \<open>sumOperator\<close> declares a local \<open>int32_t metric = 0\<close> that shadows the
  parameter, so the metric it asks the state for is always number 0.
\<close>

definition childMetric ::
    "solving_state \<Rightarrow> Domain \<Rightarrow> metrics_map \<Rightarrow> DomainId \<Rightarrow> fault + i32" where
  "childMetric s childDomain mm child =
     (if childDomain = ss_shardDomain s then getShardMetric s 0 child
      else Inr (value_or0 (cm2_get mm childDomain child) -
                value_or0 (cm2_getFromCommittedMap mm childDomain child)))"

definition sumOperator ::
    "solving_state \<Rightarrow> Metric \<Rightarrow> sparse_mapping_tree \<Rightarrow> movement_map option list \<Rightarrow> metrics_map
     \<Rightarrow> DomainId list \<Rightarrow> Domain \<times> DomainId \<Rightarrow> movement_consistency \<Rightarrow> fault + i32" where
  "sumOperator s metric t mms mm changedChildren node consistency =
     (case getChildDomain t (fst node) of
        None \<Rightarrow> Inl EmptyOptional
      | Some childDomain \<Rightarrow>
          rbind (rfold (\<lambda>child val.
              rbind (isFutureChildOf s consistency mms node child) (\<lambda>isFutureChild.
                rbind (childMetric s childDomain mm child) (\<lambda>m.
                  Inr (if isFutureChild then val + i64_of_i32 m else val - i64_of_i32 m))))
              changedChildren (i64_of_i32 (value_or0 (cm2_get mm (fst node) (snd node)))))
            (\<lambda>val. Inr (i32_of_i64 val)))"

definition shardCountOperator ::
    "solving_state \<Rightarrow> sparse_mapping_tree \<Rightarrow> movement_map option list \<Rightarrow> metrics_map
     \<Rightarrow> DomainId list \<Rightarrow> Domain \<times> DomainId \<Rightarrow> movement_consistency \<Rightarrow> fault + i32" where
  "shardCountOperator s t mms mm changedChildren node consistency =
     rbind (rfold (\<lambda>child val.
         rbind (isFutureChildOf s consistency mms node child) (\<lambda>isFutureChild.
           Inr (if isFutureChild then val + 1 else val - 1)))
         changedChildren (i64_of_i32 (value_or0 (cm2_get mm (fst node) (snd node)))))
       (\<lambda>val. Inr (i32_of_i64 val))"

section \<open>Non-null movement maps\<close>

definition staysIn :: "movement_map list \<Rightarrow> DomainId \<Rightarrow> DomainId \<Rightarrow> bool" where
  "staysIn ms child bin \<longleftrightarrow> list_all (\<lambda>m. getNextBin m child = None \<or> getNextBin m child = Some bin) ms"

definition moving :: "movement_map list \<Rightarrow> DomainId \<Rightarrow> bool" where
  "moving ms child \<longleftrightarrow> list_ex (\<lambda>m. getNextBin m child \<noteq> None) ms"

definition considered :: "movement_consistency \<Rightarrow> movement_map list \<Rightarrow> DomainId \<Rightarrow> DomainId \<Rightarrow> bool" where
  "considered c ms child bin = shouldConsider c (staysIn ms child bin) (moving ms child)"

lemma considerLoop_Some:
  "considerLoop child bin (map Some ms) mv = Inr (staysIn ms child bin, mv \<or> moving ms child)"
  by (induction ms arbitrary: mv) (auto simp: staysIn_def moving_def split: option.splits)

lemma shouldConsiderShard_Some [simp]:
  "shouldConsiderShard c (map Some ms) child bin = Inr (considered c ms child bin)"
  by (simp add: shouldConsiderShard_def considerLoop_Some considered_def)

definition counts ::
    "solving_state \<Rightarrow> movement_consistency \<Rightarrow> movement_map list \<Rightarrow> Domain \<times> DomainId \<Rightarrow> DomainId \<Rightarrow> bool" where
  "counts s c ms node child \<longleftrightarrow> fst node \<noteq> ss_binDomain s \<or> considered c ms child (snd node)"

lemma isFutureChildOf_Some [simp]:
  "isFutureChildOf s c (map Some ms) node child = Inr (counts s c ms node child)"
  by (auto simp: isFutureChildOf_def counts_def)

lemma getFutureBin_Some:
  "getFutureBin t (map Some ms) sd i bd =
     (case List.find (\<lambda>m. getNextBin m i \<noteq> None) ms of
        Some m \<Rightarrow> Inr (the (getNextBin m i))
      | None \<Rightarrow> getCurrentBin t sd i bd)"
  by (induction ms) (auto simp: getCurrentBin_def split: option.splits)

section \<open>Values of the operators\<close>

lemma i32_of_i64_arith:
  "i32_of_i64 (a + b) = i32_of_i64 a + i32_of_i64 b"
  "i32_of_i64 (a - b) = i32_of_i64 a - i32_of_i64 b"
  "i32_of_i64 1 = 1" "i32_of_i64 0 = 0"
proof -
  have hom: "i32_of_i64 (word_of_int i) = word_of_int i" for i
    unfolding i32_of_i64_def by (transfer fixing: i) (simp add: take_bit_take_bit)
  have rep: "\<exists>i. x = word_of_int i" for x :: i64
    by (rule exI [of _ "uint x"]) simp
  obtain i j where ij: "a = word_of_int i" "b = word_of_int j"
    using rep [of a] rep [of b] by blast
  show "i32_of_i64 (a + b) = i32_of_i64 a + i32_of_i64 b"
    unfolding ij using hom [of "i + j"] hom [of i] hom [of j] by simp
  show "i32_of_i64 (a - b) = i32_of_i64 a - i32_of_i64 b"
    unfolding ij using hom [of "i - j"] hom [of i] hom [of j] by simp
  show "i32_of_i64 1 = 1" "i32_of_i64 0 = 0"
    using hom [of 1] hom [of 0] by simp_all
qed

lemma i32_of_fold:
  "i32_of_i64 (fold (\<lambda>ch val. if P ch then val + f ch else val - f ch) cs x) =
     i32_of_i64 x + (\<Sum>ch \<leftarrow> filter P cs. i32_of_i64 (f ch))
       - (\<Sum>ch \<leftarrow> filter (\<lambda>ch. \<not> P ch) cs. i32_of_i64 (f ch))"
  by (induction cs arbitrary: x) (simp_all add: i32_of_i64_arith)

lemma shardCountOperator_value:
  "shardCountOperator s t (map Some ms) mm cs node c =
     Inr (value_or0 (cm2_get mm (fst node) (snd node)) +
          of_nat (length (filter (counts s c ms node) cs)) -
          of_nat (length (filter (\<lambda>ch. \<not> counts s c ms node ch) cs)))"
  using i32_of_fold [of "counts s c ms node" "\<lambda>_. 1" cs
      "i64_of_i32 (value_or0 (cm2_get mm (fst node) (snd node)))"]
  by (simp add: shardCountOperator_def rfold_pure i32_of_i64_arith sum_list_triv)

text \<open>The sum over shards, when every child has an entry in row 0 of the metric table.\<close>

definition shardMetric0 :: "solving_state \<Rightarrow> DomainId \<Rightarrow> i32" where
  "shardMetric0 s child = metricVectors s ! 0 ! child"

lemma sumOperator_value:
  assumes "getChildDomain t (fst node) = Some (ss_shardDomain s)"
    and "metricVectors s \<noteq> []" and "\<forall>ch \<in> set cs. ch < length (metricVectors s ! 0)"
  shows "sumOperator s metric t (map Some ms) mm cs node c =
     Inr (value_or0 (cm2_get mm (fst node) (snd node)) +
          (\<Sum>ch \<leftarrow> filter (counts s c ms node) cs. shardMetric0 s ch) -
          (\<Sum>ch \<leftarrow> filter (\<lambda>ch. \<not> counts s c ms node ch) cs. shardMetric0 s ch))"
proof -
  let ?w = "\<lambda>ch. i64_of_i32 (shardMetric0 s ch)"
  let ?x = "i64_of_i32 (value_or0 (cm2_get mm (fst node) (snd node)))"
  have "rfold (\<lambda>child val.
          rbind (isFutureChildOf s c (map Some ms) node child) (\<lambda>b.
            rbind (childMetric s (ss_shardDomain s) mm child) (\<lambda>m.
              Inr (if b then val + i64_of_i32 m else val - i64_of_i32 m)))) cs ?x =
        rfold (\<lambda>ch val. Inr (if counts s c ms node ch then val + ?w ch else val - ?w ch)) cs ?x"
    using assms(2,3)
    by (intro rfold_cong) (simp add: childMetric_def getShardMetric_def shardMetric0_def)
  then show ?thesis
    using assms(1) i32_of_fold [of "counts s c ms node" ?w cs ?x]
    by (simp add: sumOperator_def rfold_pure)
qed

section \<open>Properties\<close>

text \<open>How a canaried move of a shard from bin \<open>a\<close> to bin \<open>b\<close> counts. Only AFTER
  takes the shard out of the source bin and puts it into the target bin. BEFORE does the
  opposite, and BOTH and DURING put it into the target bin and once more into the source
  bin, where it was already counted. A shard that does not move counts under AFTER and BOTH
  and is subtracted under BEFORE and DURING.\<close>

theorem movement_consistency_counts:
  assumes "getNextBin m i = None" and "getNextBin C i = None" and "getNextBin K i = Some b" and "a \<noteq> b"
  shows "shouldConsiderShard c [Some m, Some C, Some K] i a = Inr (c \<noteq> AFTER) \<and>
         shouldConsiderShard c [Some m, Some C, Some K] i b = Inr (c \<noteq> BEFORE) \<and>
         shouldConsiderShard c [Some m, Some C] i a = Inr (c = AFTER \<or> c = BOTH)"
  using assms shouldConsiderShard_Some [of c "[m, C, K]" i a] shouldConsiderShard_Some [of c "[m, C, K]" i b]
    shouldConsiderShard_Some [of c "[m, C]" i a]
  by (cases c) (simp_all add: considered_def staysIn_def moving_def)

theorem movement_consistency_counts_witness:
  "shouldConsiderShard BOTH
     [Some emptyMovementMap, Some emptyMovementMap, Some (addMovement 4 1 emptyMovementMap)] 4 0 = Inr True"
  using movement_consistency_counts [of emptyMovementMap 4 emptyMovementMap
      "addMovement 4 1 emptyMovementMap" 1 0 BOTH] by simp

text \<open>The shard count at a bin goes up by the changed shards that are considered and down
  by the others, in 32-bit arithmetic. At a node of any other domain it goes up by the
  number of changed children, whatever became of their counts: a rack's count grows by two
  when a shard moves between two of its bins.\<close>

theorem shard_count_value:
  "shardCountOperator s t (map Some ms) mm cs (d, i) c =
     Inr (value_or0 (cm2_get mm d i) +
       (if d = ss_binDomain s
        then of_nat (length (filter (\<lambda>ch. considered c ms ch i) cs)) -
             of_nat (length (filter (\<lambda>ch. \<not> considered c ms ch i) cs))
        else of_nat (length cs)))"
proof -
  have "counts s c ms (d, i) = (\<lambda>ch. d \<noteq> ss_binDomain s \<or> considered c ms ch i)"
    by (simp add: counts_def fun_eq_iff)
  then show ?thesis by (simp add: shardCountOperator_value)
qed

text \<open>C16: The sum operator adds, at any node above the bins, the change of every changed child
  since the last commit to the recorded value; so when that value is the wrapped sum of the
  children's committed values, and each changed child is listed once, the result is the
  wrapped sum of the children's present values.\<close>

theorem sum_above_bins:
  assumes node: "d \<noteq> ss_binDomain s" and cd: "getChildDomain t d = Some cd" "cd \<noteq> ss_shardDomain s"
    and dist: "distinct kids" "distinct cs" "set cs \<subseteq> set kids"
    and old: "value_or0 (cm2_get mm d i) = (\<Sum>k \<leftarrow> kids. value_or0 (cm2_getFromCommittedMap mm cd k))"
    and quiet: "\<And>k. k \<in> set kids - set cs \<Longrightarrow> cm2_get mm cd k = cm2_getFromCommittedMap mm cd k"
  shows "sumOperator s metric t (map Some ms) mm cs (d, i) c =
     Inr (\<Sum>k \<leftarrow> kids. value_or0 (cm2_get mm cd k))"
proof -
  let ?new = "\<lambda>k. value_or0 (cm2_get mm cd k)"
  let ?old = "\<lambda>k. value_or0 (cm2_getFromCommittedMap mm cd k)"
  let ?x = "i64_of_i32 (value_or0 (cm2_get mm d i))"
  have "rfold (\<lambda>child val.
          rbind (isFutureChildOf s c (map Some ms) (d, i) child) (\<lambda>b.
            rbind (childMetric s cd mm child) (\<lambda>m.
              Inr (if b then val + i64_of_i32 m else val - i64_of_i32 m)))) cs ?x =
        rfold (\<lambda>ch val. Inr (if True then val + i64_of_i32 (?new ch - ?old ch)
          else val - i64_of_i32 (?new ch - ?old ch))) cs ?x"
    using node cd by (intro rfold_cong) (simp add: childMetric_def counts_def)
  then have run: "sumOperator s metric t (map Some ms) mm cs (d, i) c =
      Inr (value_or0 (cm2_get mm d i) + (\<Sum>k \<leftarrow> cs. ?new k - ?old k))"
    using cd i32_of_fold [of "\<lambda>_. True" "\<lambda>ch. i64_of_i32 (?new ch - ?old ch)" cs ?x]
    by (simp add: sumOperator_def rfold_pure)
  have "(\<Sum>k \<leftarrow> cs. ?new k - ?old k) = (\<Sum>k \<in> set cs. ?new k - ?old k)"
    by (rule sum_list_distinct_conv_sum_set [OF dist(2)])
  also have "\<dots> = (\<Sum>k \<in> set kids. ?new k - ?old k)"
    using dist(3) quiet by (intro sum.mono_neutral_left) auto
  also have "\<dots> = (\<Sum>k \<leftarrow> kids. ?new k) - (\<Sum>k \<leftarrow> kids. ?old k)"
    by (simp add: sum_list_distinct_conv_sum_set [OF dist(1)] sum_subtractf)
  finally show ?thesis by (simp add: run old)
qed

theorem sum_above_bins_witness:
  "sumOperator (newSolvingState [] [] []) 3 (addMapping (2, 0) 1 [0, 1] exampleTree) [Some emptyMovementMap]
     (cm2_set True 9 1 0 cm2_empty) [0] (2, 0) AFTER = Inr 9"
proof -
  have "getChildDomain (addMapping (2, 0) 1 [0, 1] exampleTree) 2 = Some 1"
    by (simp add: exampleTree_def add_simps accepts_def)
  then show ?thesis
    using sum_above_bins [where s = "newSolvingState [] [] []" and d = 2 and cd = 1 and kids = "[0, 1]"
        and cs = "[0]" and mm = "cm2_set True 9 1 0 cm2_empty" and i = 0 and metric = 3 and c = AFTER
        and t = "addMapping (2, 0) 1 [0, 1] exampleTree" and ms = "[emptyMovementMap]"]
    by (simp add: cm2_get_def cm2_set_def cm2_empty_def cm2_getFromCommittedMap_def hm2_find_set value_or0_def)
qed

end
