(* ===== verification/ExpressionTree.thy ===== *)
theory ExpressionTree
  imports ConstraintUtils
begin

text \<open>
  \<open>psychopomp/placer/ExpressionTree\<close>: metrics propagated from the shards towards the
  roots of a (partial) assignment tree, re-evaluating only the ancestors of the shards that
  move. The metric function is a closure of the constraint that owns the tree; it is a
  parameter that takes and returns the state the closure writes. The theory shows that
  the propagation ends within as many rounds as there are domains, and what the canary
  evaluation of one move computes.
\<close>

section \<open>State and operations\<close>

record expression_tree =
  et_assignmentTree :: sparse_mapping_tree
  et_metricsMap :: metrics_map

type_synonym update_map = "(Domain, (DomainId, DomainId list) hmap) hmap"

type_synonym 'c calc_func =
  "sparse_mapping_tree \<Rightarrow> movement_map option list \<Rightarrow> metrics_map \<Rightarrow> DomainId list
   \<Rightarrow> Domain \<times> DomainId \<Rightarrow> 'c \<Rightarrow> fault + i32 \<times> 'c"

text \<open>\<open>toUpdate[parentDomain][parentDomainId].emplace_back(child)\<close>.\<close>

definition pushChild :: "DomainId \<Rightarrow> Domain \<times> DomainId \<Rightarrow> update_map \<Rightarrow> update_map" where
  "pushChild child parent u =
     hm_modify [] (fst parent) (hm_modify [] (snd parent) (\<lambda>cs. cs @ [child])) u"

text \<open>One turn of the inner loop of \<open>propagateChanges\<close>.\<close>

definition updateNode ::
    "'c calc_func \<Rightarrow> sparse_mapping_tree \<Rightarrow> movement_map option list \<Rightarrow> Domain
     \<Rightarrow> DomainId \<times> DomainId list \<Rightarrow> metrics_map \<times> 'c \<times> update_map
     \<Rightarrow> fault + metrics_map \<times> 'c \<times> update_map" where
  "updateNode calc t mms domain entry st =
     (case (entry, st) of ((domainId, changedChildren), (mm, c, nextToUpdate)) \<Rightarrow>
        rbind (calc t mms mm changedChildren (domain, domainId) c) (\<lambda>(curVal, c').
          if cm2_get mm domain domainId \<noteq> Some curVal
          then rbind (getParents t domain domainId mms) (\<lambda>parents.
                 Inr (cm2_set True curVal domain domainId mm, c',
                      fold (pushChild domainId) parents nextToUpdate))
          else Inr (mm, c', nextToUpdate)))"

definition updateLevel ::
    "'c calc_func \<Rightarrow> sparse_mapping_tree \<Rightarrow> movement_map option list \<Rightarrow> update_map
     \<Rightarrow> metrics_map \<times> 'c \<Rightarrow> fault + metrics_map \<times> 'c \<times> update_map" where
  "updateLevel calc t mms toUpdate st =
     rfold (\<lambda>(domain, row). rfold (updateNode calc t mms domain) row) toUpdate
       (fst st, snd st, [])"

primrec propagateChanges ::
    "nat \<Rightarrow> 'c calc_func \<Rightarrow> sparse_mapping_tree \<Rightarrow> movement_map option list \<Rightarrow> update_map
     \<Rightarrow> metrics_map \<times> 'c \<Rightarrow> fault + metrics_map \<times> 'c" where
  "propagateChanges 0 calc t mms toUpdate st = Inl NoReturn"
| "propagateChanges (Suc fuel) calc t mms toUpdate st =
     rbind (updateLevel calc t mms toUpdate st) (\<lambda>(mm, c, nextToUpdate).
       if nextToUpdate \<noteq> [] then propagateChanges fuel calc t mms nextToUpdate (mm, c)
       else Inr (mm, c))"

text \<open>The loop, in \<open>canaryMoves\<close> and in \<open>initializeMetricState\<close>, that files each shard
  under its parents.\<close>

definition collectUpdates ::
    "sparse_mapping_tree \<Rightarrow> Domain \<Rightarrow> movement_map option list \<Rightarrow> DomainId list \<Rightarrow> fault + update_map" where
  "collectUpdates t shardD mms shardIds =
     rfold (\<lambda>shardId u. rbind (getParents t shardD shardId mms) (\<lambda>parents.
              Inr (fold (pushChild shardId) parents u))) shardIds []"

definition canaryMaps ::
    "solving_state \<Rightarrow> movement_map \<Rightarrow> movement_map \<Rightarrow> movement_map option list" where
  "canaryMaps s committedMoves canaryMoves =
     [ss_movementMap s, Some committedMoves, Some canaryMoves]"

definition expr_canaryMoves ::
    "nat \<Rightarrow> 'c calc_func \<Rightarrow> solving_state \<Rightarrow> movement_map \<Rightarrow> movement_map
     \<Rightarrow> expression_tree \<times> 'c \<Rightarrow> fault + expression_tree \<times> 'c" where
  "expr_canaryMoves fuel calc s committedMoves canaryMoves ec =
     (let mms = canaryMaps s committedMoves canaryMoves; e = fst ec;
          cleared = cm2_clear (et_metricsMap e) in
      rbind (collectUpdates (et_assignmentTree e) (ss_shardDomain s) mms
               (map fst (getAllMovements canaryMoves))) (\<lambda>toUpdate.
        rbind (propagateChanges fuel calc (et_assignmentTree e) mms toUpdate (cleared, snd ec))
          (\<lambda>(mm, c). Inr (e\<lparr>et_metricsMap := mm\<rparr>, c))))"

definition expr_commitMoves :: "expression_tree \<Rightarrow> expression_tree" where
  "expr_commitMoves e = e\<lparr>et_metricsMap := cm2_commit (et_metricsMap e)\<rparr>"

definition initializeMetricState ::
    "nat \<Rightarrow> 'c calc_func \<Rightarrow> solving_state \<Rightarrow> expression_tree \<times> 'c \<Rightarrow> fault + expression_tree \<times> 'c" where
  "initializeMetricState fuel calc s ec =
     (let e = fst ec; mms = [ss_movementMap s];
          (shardIds, t) = getAllDomainIds (ss_shardDomain s) (et_assignmentTree e) in
      rbind (collectUpdates t (ss_shardDomain s) mms shardIds) (\<lambda>toUpdate.
        rbind (propagateChanges fuel calc t mms toUpdate (et_metricsMap e, snd ec))
          (\<lambda>(mm, c). Inr (\<lparr>et_assignmentTree = t, et_metricsMap = mm\<rparr>, c))))"

definition newExpressionTree ::
    "nat \<Rightarrow> 'c calc_func \<Rightarrow> solving_state \<Rightarrow> sparse_mapping_tree \<Rightarrow> 'c \<Rightarrow> fault + expression_tree \<times> 'c" where
  "newExpressionTree fuel calc s t c =
     initializeMetricState fuel calc s
       (\<lparr>et_assignmentTree = t, et_metricsMap = cm2_empty\<rparr>, c)"

section \<open>Update maps\<close>

text \<open>
  The update maps of a round name only nodes of the tree, in domains that have children and
  are not below a bound \<open>k\<close>.
\<close>

definition upd_ok :: "sparse_mapping_tree \<Rightarrow> nat \<Rightarrow> update_map \<Rightarrow> bool" where
  "upd_ok t k u \<longleftrightarrow> (\<forall>(d, row) \<in> set u. k \<le> d \<and> (\<exists>i. hasNode t d i) \<and> (\<forall>(i, cs) \<in> set row. hasNode t d i))"

lemma set_hm_set: "set (hm_set k v m) \<subseteq> insert (k, v) (set m)"
  by (induction m) auto

lemma set_hm_modify: "set (hm_modify d k f m) \<subseteq> insert (k, f (hm_get d m k)) (set m)"
  unfolding hm_modify_def by (rule set_hm_set)

lemma hm_get_set: "hm_get d m k = d \<or> (k, hm_get d m k) \<in> set m"
  by (auto simp: hm_get_def split: option.splits dest: map_of_SomeD)

lemma upd_ok_Nil [simp]: "upd_ok t k []"
  by (simp add: upd_ok_def)

lemma upd_okD:
  assumes "upd_ok t k u" and "(d, row) \<in> set u"
  shows "k \<le> d" "\<exists>i. hasNode t d i" "(i, cs) \<in> set row \<Longrightarrow> hasNode t d i"
  using assms unfolding upd_ok_def by fastforce+

lemma upd_ok_mono: "upd_ok t k u \<Longrightarrow> j \<le> k \<Longrightarrow> upd_ok t j u"
  by (fastforce simp: upd_ok_def)

lemma upd_ok_push:
  assumes "upd_ok t k u" and "hasNode t (fst p) (snd p)" and "k \<le> fst p"
  shows "upd_ok t k (pushChild child p u)"
proof -
  let ?row = "hm_get [] u (fst p)"
  let ?row' = "hm_modify [] (snd p) (\<lambda>cs. cs @ [child]) ?row"
  have "\<forall>(i, cs) \<in> set ?row. hasNode t (fst p) i"
    using hm_get_set [of "[]" u "fst p"] assms(1) by (auto simp: upd_ok_def)
  then have row: "\<forall>(i, cs) \<in> set ?row'. hasNode t (fst p) i"
    using set_hm_modify [of "[]" "snd p" "\<lambda>cs. cs @ [child]" ?row] assms(2) by fastforce
  have "pushChild child p u = hm_modify [] (fst p) (\<lambda>r. hm_modify [] (snd p) (\<lambda>cs. cs @ [child]) r) u"
    by (simp add: pushChild_def)
  then have "set (pushChild child p u) \<subseteq> insert (fst p, ?row') (set u)"
    by (metis set_hm_modify)
  moreover have "case (fst p, ?row') of (d, row) \<Rightarrow>
      k \<le> d \<and> (\<exists>i. hasNode t d i) \<and> (\<forall>(i, cs) \<in> set row. hasNode t d i)"
    using assms(2,3) row by auto
  ultimately show ?thesis
    using assms(1) unfolding upd_ok_def by (metis (no_types, lifting) insertE subsetD)
qed

lemma upd_ok_push_all:
  assumes "upd_ok t k u" and "\<forall>(d, i) \<in> set ps. hasNode t d i \<and> k \<le> d"
  shows "upd_ok t k (fold (pushChild child) ps u)"
  using assms
proof (induction ps arbitrary: u)
  case (Cons p ps)
  then have "upd_ok t k (pushChild child p u)" by (intro upd_ok_push) auto
  with Cons show ?case by simp
qed simp

section \<open>Trees of the shape the solver builds\<close>

text \<open>
  Shards are domain 0 and bins domain 1, parents lie in a higher domain than their
  children, the two directions agree, and no domain is above \<open>D\<close>.
\<close>

definition std_tree :: "nat \<Rightarrow> sparse_mapping_tree \<Rightarrow> bool" where
  "std_tree D t \<longleftrightarrow> shardDomain t = 0 \<and> binDomain t = 1 \<and> tree_agree t \<and> parents_distinct t \<and>
     (\<forall>d cd. getChildDomain t d = Some cd \<longrightarrow> cd < d \<and> d \<le> D)"

lemma std_tree_node:
  assumes "std_tree D t" and "hasNode t d i"
  shows "0 < d \<and> d \<le> D"
proof -
  have "getChildDomain t d \<noteq> None"
    using assms by (auto simp: std_tree_def tree_agree_def hasNode_def)
  then show ?thesis using assms(1) by (fastforce simp: std_tree_def)
qed

lemma std_tree_parent:
  assumes t: "std_tree D t" and mem: "(pd, pid) \<in> set (treeParents t d i)"
  shows "hasNode t pd pid \<and> d < pd"
proof -
  have "parentIn t d i pd = Some pid"
    using t mem by (simp add: std_tree_def treeParents_mem)
  with t have "getChildDomain t pd = Some d \<and> i \<in> set (mappedChildren t pd pid)"
    unfolding std_tree_def tree_agree_def by blast
  with t show ?thesis
    by (cases "hm2_find (parentToChildMap t) pd pid")
      (auto simp: std_tree_def mappedChildren_def hasNode_def)
qed

text \<open>Parents of any node under any non-null movement maps.\<close>

lemma std_getParents:
  assumes t: "std_tree D t" and "hasBins t \<or> d \<noteq> 0"
  shows "\<exists>ps. getParents t d i (map Some ms) = Inr ps \<and> (\<forall>(pd, pid) \<in> set ps. hasNode t pd pid \<and> d < pd)"
proof -
  have sd: "shardDomain t = 0" "binDomain t = 1" using t by (auto simp: std_tree_def)
  have "\<forall>(pd, pid) \<in> set (treeParents t d i). hasNode t pd pid \<and> d < pd"
    using std_tree_parent [OF t] by blast
  moreover have "getParents t d i (map Some ms) = Inr (treeParents t d i @
      (if d = 0 then map (Pair 1) (movedBins t ms i) else []))"
    using assms(2) sd getParents_overlay [of t ms i d] getParents_other [of d t i] by auto
  ultimately show ?thesis by (auto simp: movedBins_def sd)
qed

section \<open>The propagation ends\<close>

text \<open>
  A metric function that returns at every node of the tree in every state that satisfies
  \<open>P\<close>, and keeps \<open>P\<close> whether or not its value is written to the metrics map.
\<close>

definition calc_total ::
    "'c calc_func \<Rightarrow> sparse_mapping_tree \<Rightarrow> movement_map option list
     \<Rightarrow> (metrics_map \<Rightarrow> 'c \<Rightarrow> bool) \<Rightarrow> bool" where
  "calc_total calc t mms P \<longleftrightarrow>
     (\<forall>mm c cs d i. P mm c \<longrightarrow> hasNode t d i \<longrightarrow>
        (\<exists>v c'. calc t mms mm cs (d, i) c = Inr (v, c') \<and> P mm c' \<and> P (cm2_set True v d i mm) c'))"

lemma updateNode_total:
  assumes t: "std_tree D t" and calc: "calc_total calc t (map Some ms) P"
    and P: "P mm c" and node: "hasNode t d i" and u: "upd_ok t (Suc k) u" and k: "k \<le> d"
  shows "\<exists>mm' c' u'. updateNode calc t (map Some ms) d (i, cs) (mm, c, u) = Inr (mm', c', u') \<and>
     P mm' c' \<and> upd_ok t (Suc k) u'"
proof -
  obtain v c' where v: "calc t (map Some ms) mm cs (d, i) c = Inr (v, c')"
    and P': "P mm c'" "P (cm2_set True v d i mm) c'"
    using calc P node unfolding calc_total_def by blast
  have "d \<noteq> 0" using std_tree_node [OF t node] by simp
  then obtain ps where ps: "getParents t d i (map Some ms) = Inr ps"
    and "\<forall>(pd, pid) \<in> set ps. hasNode t pd pid \<and> d < pd"
    using std_getParents [OF t, of d i ms] by blast
  with k have "upd_ok t (Suc k) (fold (pushChild i) ps u)"
    by (intro upd_ok_push_all u) fastforce
  with v P' ps u show ?thesis by (auto simp: updateNode_def)
qed

lemma updateLevel_total:
  assumes t: "std_tree D t" and calc: "calc_total calc t (map Some ms) P"
    and P: "P mm c" and u: "upd_ok t k u"
  shows "\<exists>mm' c' u'. updateLevel calc t (map Some ms) u (mm, c) = Inr (mm', c', u') \<and>
     P mm' c' \<and> upd_ok t (Suc k) u'"
proof -
  let ?I = "\<lambda>(mm, c, u'). P mm c \<and> upd_ok t (Suc k) u'"
  have row: "\<exists>st'. rfold (updateNode calc t (map Some ms) d) row st = Inr st' \<and> ?I st'"
    if "(d, row) \<in> set u" and "?I st" for d row st
  proof (rule rfold_total)
    show "?I st" by (rule that)
    fix e st assume "e \<in> set row" and I: "?I st"
    then have "hasNode t d (fst e)" "k \<le> d"
      using upd_okD [OF u that(1)] by (metis prod.collapse)+
    with I show "\<exists>st'. updateNode calc t (map Some ms) d e st = Inr st' \<and> ?I st'"
      using updateNode_total [OF t calc, of "fst st" "fst (snd st)" d "fst e" k "snd (snd st)" "snd e"]
      by (cases st; cases e) fastforce
  qed
  have "\<exists>st'. updateLevel calc t (map Some ms) u (mm, c) = Inr st' \<and> ?I st'"
    unfolding updateLevel_def by (rule rfold_total) (use P row in auto)
  then show ?thesis by auto
qed

text \<open>Each round moves up at least one domain, so the domains above the first one bound it.\<close>

lemma propagateChanges_total:
  assumes t: "std_tree D t" and calc: "calc_total calc t (map Some ms) P"
  shows "P mm c \<Longrightarrow> upd_ok t k u \<Longrightarrow> 0 < fuel \<Longrightarrow> D < k + fuel \<Longrightarrow>
    \<exists>mm' c'. propagateChanges fuel calc t (map Some ms) u (mm, c) = Inr (mm', c') \<and> P mm' c'"
proof (induction fuel arbitrary: mm c k u)
  case (Suc n)
  obtain mm1 c1 u1 where lv: "updateLevel calc t (map Some ms) u (mm, c) = Inr (mm1, c1, u1)"
    and P1: "P mm1 c1" and u1: "upd_ok t (Suc k) u1"
    using updateLevel_total [OF t calc Suc.prems(1,2)] by blast
  show ?case
  proof (cases u1)
    case Nil
    with lv P1 show ?thesis by simp
  next
    case (Cons e u2)
    then obtain d row i where "(d, row) \<in> set u1" "hasNode t d i"
      using u1 by (cases e) (auto simp: upd_ok_def)
    then have "Suc k \<le> D" using u1 std_tree_node [OF t, of d i] by (fastforce simp: upd_ok_def)
    with Suc.prems have "0 < n" by linarith
    then show ?thesis using Suc.IH [OF P1 u1] Suc.prems(4) lv Cons by simp
  qed
qed simp

lemma collectUpdates_total:
  assumes t: "std_tree D t" and bins: "hasBins t"
  shows "\<exists>u. collectUpdates t 0 (map Some ms) ids = Inr u \<and> upd_ok t 0 u"
  unfolding collectUpdates_def
proof (rule rfold_total)
  show "upd_ok t 0 []" by simp
  fix i u assume u: "upd_ok t 0 u"
  obtain ps where "getParents t 0 i (map Some ms) = Inr ps"
    "\<forall>(pd, pid) \<in> set ps. hasNode t pd pid \<and> 0 < pd"
    using std_getParents [OF t, of 0 i ms] bins by blast
  with u show "\<exists>u'. rbind (getParents t 0 i (map Some ms)) (\<lambda>parents. Inr (fold (pushChild i) parents u)) =
      Inr u' \<and> upd_ok t 0 u'"
    by (auto intro!: upd_ok_push_all)
qed

text \<open>
  The canary evaluation of an expression tree returns, with one round of fuel per domain, and
  keeps every invariant of the metric function.
\<close>

lemma expr_canaryMoves_total:
  assumes t: "std_tree D (et_assignmentTree e)" and bins: "hasBins (et_assignmentTree e)"
    and s: "ss_movementMap s = Some m" "ss_shardDomain s = 0"
    and calc: "calc_total calc (et_assignmentTree e) (map Some [m, C, K]) P"
    and P: "P (cm2_clear (et_metricsMap e)) c" and fuel: "D < fuel"
  shows "\<exists>e' c'. expr_canaryMoves fuel calc s C K (e, c) = Inr (e', c') \<and>
    et_assignmentTree e' = et_assignmentTree e \<and> P (et_metricsMap e') c'"
proof -
  have maps: "canaryMaps s C K = map Some [m, C, K]"
    by (simp add: canaryMaps_def s)
  obtain u where u: "collectUpdates (et_assignmentTree e) 0 (map Some [m, C, K])
      (map fst (getAllMovements K)) = Inr u" "upd_ok (et_assignmentTree e) 0 u"
    using collectUpdates_total [OF t bins] by blast
  obtain mm' c' where "propagateChanges fuel calc (et_assignmentTree e) (map Some [m, C, K]) u
      (cm2_clear (et_metricsMap e), c) = Inr (mm', c')" "P mm' c'"
    using propagateChanges_total [OF t calc P u(2), of fuel] fuel by auto
  with u(1) show ?thesis
    unfolding expr_canaryMoves_def Let_def maps s(2) by simp
qed

section \<open>What an evaluation leaves alone\<close>

text \<open>A predicate that the metric function keeps, whenever it returns, is kept by the evaluation.\<close>

definition calc_keeps :: "'c calc_func \<Rightarrow> ('c \<Rightarrow> bool) \<Rightarrow> bool" where
  "calc_keeps calc P \<longleftrightarrow>
     (\<forall>t mms mm cs node c v c'. calc t mms mm cs node c = Inr (v, c') \<longrightarrow> P c \<longrightarrow> P c')"

lemma updateNode_keeps:
  assumes "calc_keeps calc P" and "updateNode calc t mms d e (mm, c, u) = Inr (mm', c', u')" and "P c"
  shows "P c'"
  using assms unfolding calc_keeps_def updateNode_def
  by (auto simp: res_simps split: prod.splits if_splits)

lemma updateLevel_keeps:
  assumes calc: "calc_keeps calc P" and run: "updateLevel calc t mms u (mm, c) = Inr (mm', c', u')" and "P c"
  shows "P c'"
proof -
  let ?I = "\<lambda>(mm, c, u). P c"
  have row: "?I st'" if "rfold (updateNode calc t mms d) row st = Inr st'" "?I st" for d row st st'
    using that by (rule rfold_invariant [where P = ?I]) (auto dest: updateNode_keeps [OF calc])
  have "?I (mm', c', u')"
    using run unfolding updateLevel_def
    by (rule rfold_invariant [where P = ?I]) (use assms(3) row in auto)
  then show ?thesis by simp
qed

lemma propagateChanges_keeps:
  assumes calc: "calc_keeps calc P"
  shows "propagateChanges fuel calc t mms u (mm, c) = Inr (mm', c') \<Longrightarrow> P c \<Longrightarrow> P c'"
proof (induction fuel arbitrary: u mm c)
  case (Suc fuel)
  then show ?case
    by (auto simp: res_simps split: if_splits dest: updateLevel_keeps [OF calc])
qed simp

lemma expr_canaryMoves_keeps:
  assumes "calc_keeps calc P" and "expr_canaryMoves fuel calc s C K (e, c) = Inr (e', c')" and "P c"
  shows "P c'"
  using assms(2,3) propagateChanges_keeps [OF assms(1)]
  by (auto simp: expr_canaryMoves_def Let_def res_simps)

section \<open>Properties\<close>


lemma exampleTree_std: "std_tree 1 exampleTree" "hasBins exampleTree"
proof -
  have "tree_agree exampleTree" unfolding exampleTree_def
    by (intro tree_agree_add tree_agree_new) (simp_all add: accepts_def add_simps)
  moreover have "parents_distinct exampleTree"
    unfolding exampleTree_def by (intro parents_distinct_add parents_distinct_new)
  moreover have "shardDomain exampleTree = 0" "binDomain exampleTree = 1" by (code_simp, code_simp)
  ultimately show "std_tree 1 exampleTree"
    by (simp add: std_tree_def) (simp add: exampleTree_def add_simps accepts_def)
  show "hasBins exampleTree" by code_simp
qed


end
