(* ===== verification/Constraint.thy ===== *)
theory Constraint
  imports ExpressionTree
begin

text \<open>
  \<open>psychopomp/placer/constraints/Constraint.h\<close>: the weights every constraint adds to the
  shared state, and the step the two fault-counting constraints have in common, which
  replaces the recorded weight of one node. The theory relates the wrapped 64-bit sums to
  exact ones and isolates what a constraint may change of the state.
\<close>

section \<open>Weights\<close>

definition weight_or0 :: "i64 option \<Rightarrow> i64" where
  "weight_or0 v = (case v of Some x \<Rightarrow> x | None \<Rightarrow> 0)"

lemma weight_or0_simps [simp]: "weight_or0 (Some x) = x" "weight_or0 None = 0"
  by (simp_all add: weight_or0_def)

definition totalOf :: "solving_state \<Rightarrow> i64" where
  "totalOf s = weight_or0 (ck_get (totalWeight (binWeightInfo s)))"

definition binWeightOf :: "solving_state \<Rightarrow> DomainId \<Rightarrow> i64" where
  "binWeightOf s i = weight_or0 (cm_get (binWeightMap (binWeightInfo s)) i)"

definition addTotalWeight :: "i64 \<Rightarrow> solving_state \<Rightarrow> solving_state" where
  "addTotalWeight weightDelta s =
     s\<lparr>binWeightInfo := (binWeightInfo s)
         \<lparr>totalWeight := ck_set True (totalOf s + weightDelta) (totalWeight (binWeightInfo s))\<rparr>\<rparr>"

definition addBinWeight :: "DomainId \<Rightarrow> i64 \<Rightarrow> solving_state \<Rightarrow> solving_state" where
  "addBinWeight domainId binWeightDelta s =
     addTotalWeight binWeightDelta
       (s\<lparr>binWeightInfo := (binWeightInfo s)
           \<lparr>binWeightMap := cm_set True (binWeightOf s domainId + binWeightDelta) domainId
              (binWeightMap (binWeightInfo s))\<rparr>\<rparr>)"

text \<open>The part of \<open>Constraint::commit\<close> that follows the constraint's own \<open>commitMoves\<close>.\<close>

definition commitWeights :: "solving_state \<Rightarrow> solving_state" where
  "commitWeights s =
     s\<lparr>binWeightInfo := \<lparr>binWeightMap = cm_commit (binWeightMap (binWeightInfo s)),
                        totalWeight = ck_commit (totalWeight (binWeightInfo s))\<rparr>\<rparr>"

text \<open>What \<open>IterativeLocalSearch\<close> does to the weights before each canary evaluation.\<close>

definition clearWeights :: "solving_state \<Rightarrow> solving_state" where
  "clearWeights s =
     s\<lparr>binWeightInfo := \<lparr>binWeightMap = cm_clear (binWeightMap (binWeightInfo s)),
                        totalWeight = ck_clear (totalWeight (binWeightInfo s))\<rparr>\<rparr>"

definition committedTotal :: "solving_state \<Rightarrow> i64" where
  "committedTotal s = weight_or0 (committedVal (totalWeight (binWeightInfo s)))"

lemma totalOf_simps [simp]:
  "totalOf (addTotalWeight d s) = totalOf s + d"
  "totalOf (addBinWeight i d s) = totalOf s + d"
  "totalOf (commitWeights s) = totalOf s"
  "totalOf (clearWeights s) = committedTotal s"
  by (simp_all add: totalOf_def addTotalWeight_def addBinWeight_def commitWeights_def
      clearWeights_def committedTotal_def)

lemma committedTotal_simps [simp]:
  "committedTotal (addTotalWeight d s) = committedTotal s"
  "committedTotal (addBinWeight i d s) = committedTotal s"
  "committedTotal (commitWeights s) = totalOf s"
  "committedTotal (clearWeights s) = committedTotal s"
  by (simp_all add: totalOf_def addTotalWeight_def addBinWeight_def commitWeights_def
      clearWeights_def committedTotal_def ck_set_def ck_clear_def)

lemma binWeightOf_addTotal [simp]: "binWeightOf (addTotalWeight d s) = binWeightOf s"
  by (simp add: binWeightOf_def addTotalWeight_def fun_eq_iff)

lemma binWeightOf_addBin [simp]:
  "binWeightOf (addBinWeight i d s) j = binWeightOf s j + (if j = i then d else 0)"
  by (simp add: addBinWeight_def) (simp add: binWeightOf_def cm.get_stage)

section \<open>What a constraint may change\<close>

text \<open>Two states that differ in their weights only.\<close>

definition sameProblem :: "solving_state \<Rightarrow> solving_state \<Rightarrow> bool" where
  "sameProblem s t \<longleftrightarrow> t = s\<lparr>binWeightInfo := binWeightInfo t\<rparr>"

lemma sameProblem_refl [simp]: "sameProblem s s"
  by (simp add: sameProblem_def)

lemma sameProblem_trans: "sameProblem s t \<Longrightarrow> sameProblem t u \<Longrightarrow> sameProblem s u"
  unfolding sameProblem_def by (cases s; cases t; cases u) simp

lemma sameProblem_fields:
  assumes "sameProblem s t"
  shows "ss_shardDomain t = ss_shardDomain s" "ss_binDomain t = ss_binDomain s"
    "metricVectors t = metricVectors s" "shardInfoVector t = shardInfoVector s"
    "assignmentTree t = assignmentTree s" "ss_movementMap t = ss_movementMap s"
    "getDomainSize t = getDomainSize s"
  using assms unfolding sameProblem_def getDomainSize_def [abs_def]
  by (cases s; cases t; simp)+

lemma sameProblem_weights [simp]:
  "sameProblem s (addTotalWeight d s)" "sameProblem s (addBinWeight i d s)"
  "sameProblem s (commitWeights s)" "sameProblem s (clearWeights s)"
  by (simp_all add: sameProblem_def addTotalWeight_def addBinWeight_def commitWeights_def
      clearWeights_def)

section \<open>The fault weight of a node\<close>

text \<open>
  The closures of the drain and the metric constraint write the constraint's own
  \<open>domainFaultMap_\<close> and the weights of the state.
\<close>

type_synonym fault_env = "(DomainId, i64) cmap \<times> solving_state"

text \<open>
  The part of \<open>updateWeightIfPossible\<close> from the write to \<open>domainFaultMap_\<close> on, the same in
  both classes.
\<close>

definition setNodeWeight :: "Domain \<Rightarrow> DomainId \<Rightarrow> i64 \<Rightarrow> fault_env \<Rightarrow> fault_env" where
  "setNodeWeight domain domainId currentWeight env =
     (case env of (faults, s) \<Rightarrow>
        let prevWeight = weight_or0 (cm_get faults domainId);
            faults' = cm_set True currentWeight domainId faults;
            weightDelta = currentWeight - prevWeight
        in if weightDelta = 0 then (faults', s)
           else if domain = ss_binDomain s then (faults', addBinWeight domainId weightDelta s)
           else (faults', addTotalWeight weightDelta s))"

lemma setNodeWeight_frame:
  "sameProblem (snd env) (snd (setNodeWeight d i w env))"
  "committedTotal (snd (setNodeWeight d i w env)) = committedTotal (snd env)"
  by (cases env, auto simp: setNodeWeight_def Let_def)+

text \<open>The total moves with the recorded weight of the node.\<close>

lemma setNodeWeight_total:
  "totalOf (snd (setNodeWeight d i w env)) =
     totalOf (snd env) + (w - weight_or0 (cm_get (fst env) i))"
  by (cases env) (auto simp: setNodeWeight_def Let_def)

lemma setNodeWeight_faults:
  "cm_get (fst (setNodeWeight d i w env)) = (cm_get (fst env))(i \<mapsto> w)"
  by (cases env) (auto simp: setNodeWeight_def Let_def cm.get_stage)

lemma setNodeWeight_committed:
  "cm_getFromCommittedMap (fst (setNodeWeight d i w env)) = cm_getFromCommittedMap (fst env)"
  by (cases env) (auto simp: setNodeWeight_def Let_def cm.committed_stage)

end
