(* ===== verification/FaultCounter.thy ===== *)
theory FaultCounter
  imports Constraint
begin

text \<open>
  The contract between an expression tree over bins and the closure of a fault-counting
  constraint. The tree evaluates the closure at the bins a move touches; the closure adds the
  weights of the changed shards that its consistency considers, subtracts those of the others and
  records the bin's fault. The locale \<open>fault_counter\<close> states that contract for any consistency,
  and the lemmas inside it show what one incremental evaluation adds to every bin, that the total
  weight changes by the bins' faults, and that under AFTER the values stay the loads of the shards
  located in the bins.
\<close>

section \<open>Filing shards under bins\<close>

text \<open>Trees whose only parent domain is that of the bins.\<close>

abbreviation bin_tree :: "sparse_mapping_tree \<Rightarrow> bool" where
  "bin_tree t \<equiv> std_tree 1 t"

definition wrapRow :: "(DomainId, DomainId list) hmap \<Rightarrow> update_map" where
  "wrapRow row = (if row = [] then [] else [(1, row)])"

definition fileUnder ::
    "DomainId \<Rightarrow> DomainId list \<Rightarrow> (DomainId, DomainId list) hmap \<Rightarrow> (DomainId, DomainId list) hmap" where
  "fileUnder i bs row = fold (\<lambda>b. hm_modify [] b (\<lambda>cs. cs @ [i])) bs row"

lemma pushChild_wrapRow:
  "pushChild i (1, b) (wrapRow row) = wrapRow (hm_modify [] b (\<lambda>cs. cs @ [i]) row)"
  by (auto simp: pushChild_def wrapRow_def hm_modify_def hm_get_def)

lemma fold_pushChild_wrapRow:
  "fold (pushChild i) (map (Pair 1) bs) (wrapRow row) = wrapRow (fileUnder i bs row)"
  by (induction bs arbitrary: row) (simp_all add: fileUnder_def pushChild_wrapRow del: One_nat_def)

lemma hm_get_modify:
  "hm_get d (hm_modify e k g m) x = (if x = k then g (hm_get e m k) else hm_get d m x)"
  by (simp add: hm_get_def hmap_simps)

lemma keys_modify: "fst ` set (hm_modify d k g m) = insert k (fst ` set m)"
  by (simp add: hm_modify_def dom_update)

lemma fileUnder_get:
  "distinct bs \<Longrightarrow>
   hm_get [] (fileUnder i bs row) b = hm_get [] row b @ (if b \<in> set bs then [i] else [])"
  unfolding fileUnder_def by (induction bs arbitrary: row) (auto simp: hm_get_modify)

lemma fileUnder_keys: "fst ` set (fileUnder i bs row) = fst ` set row \<union> set bs"
  unfolding fileUnder_def by (induction bs arbitrary: row) (auto simp: keys_modify)

lemma fileUnder_distinct: "hm_distinct row \<Longrightarrow> hm_distinct (fileUnder i bs row)"
  unfolding fileUnder_def by (induction bs arbitrary: row) auto

definition fileAll ::
    "(DomainId \<Rightarrow> DomainId list) \<Rightarrow> DomainId list \<Rightarrow> (DomainId, DomainId list) hmap" where
  "fileAll binsOf ids = fold (\<lambda>i. fileUnder i (binsOf i)) ids []"

lemma fileAll_snoc: "fileAll g (ids @ [i]) = fileUnder i (g i) (fileAll g ids)"
  by (simp add: fileAll_def)

lemma fileAll_distinct: "hm_distinct (fileAll g ids)"
  by (induction ids rule: rev_induct) (auto simp: fileAll_snoc fileUnder_distinct, simp add: fileAll_def)

lemma fileAll_keys: "fst ` set (fileAll g ids) = (\<Union>i \<in> set ids. set (g i))"
  by (induction ids rule: rev_induct) (auto simp: fileAll_snoc fileUnder_keys, auto simp: fileAll_def)

lemma fileAll_get:
  "\<forall>i \<in> set ids. distinct (g i) \<Longrightarrow>
   hm_get [] (fileAll g ids) b = filter (\<lambda>i. b \<in> set (g i)) ids"
  by (induction ids rule: rev_induct)
    (simp_all add: fileAll_snoc fileUnder_get, simp add: fileAll_def hm_get_def)

lemma fileAll_entries:
  assumes "\<forall>i \<in> set ids. distinct (g i)"
  shows "fileAll g ids =
    map (\<lambda>b. (b, filter (\<lambda>i. b \<in> set (g i)) ids)) (map fst (fileAll g ids))"
proof -
  have "cs = filter (\<lambda>i. b \<in> set (g i)) ids" if "(b, cs) \<in> set (fileAll g ids)" for b cs
    using fileAll_get [OF assms, of b] that fileAll_distinct [of g ids] by auto
  then have "map (\<lambda>e. (fst e, filter (\<lambda>i. fst e \<in> set (g i)) ids)) (fileAll g ids) = fileAll g ids"
    by (intro map_idI) (auto simp: prod_eq_iff)
  then show ?thesis by (simp add: comp_def)
qed

section \<open>Bin trees\<close>

lemma bin_tree_node: "bin_tree t \<Longrightarrow> hasNode t d i \<Longrightarrow> d = 1"
  using std_tree_node [of 1 t d i] by auto

lemma bin_tree_above: "bin_tree t \<Longrightarrow> treeParents t (Suc 0) i = []"
  using std_tree_parent [of 1 t _ _ "Suc 0" i] std_tree_node [of 1 t]
  by (metis One_nat_def list.set_intros(1) neq_Nil_conv not_less surj_pair)

text \<open>The bins a shard is filed under: its bin in the tree and the bins of its moves.\<close>

definition treeBins :: "sparse_mapping_tree \<Rightarrow> DomainId \<Rightarrow> DomainId list" where
  "treeBins t i = (case parentIn t 0 i 1 of Some a \<Rightarrow> [a] | None \<Rightarrow> [])"

lemma bin_tree_below:
  assumes t: "bin_tree t"
  shows "treeParents t 0 i = map (Pair 1) (treeBins t i)"
proof -
  have d: "hm_distinct (treeParents t 0 i)"
    using t by (simp add: std_tree_def parents_distinct_def)
  have one: "fst p = 1" if "p \<in> set (treeParents t 0 i)" for p
    using that std_tree_parent [OF t, of "fst p" "snd p" 0 i] bin_tree_node [OF t] by auto
  show ?thesis
  proof (cases "treeParents t 0 i")
    case Nil
    then show ?thesis by (simp add: treeBins_def parentIn_def)
  next
    case (Cons p ps)
    have "ps = []"
    proof (cases ps)
      case (Cons q qs)
      with \<open>treeParents t 0 i = p # ps\<close> one [of p] one [of q] d show ?thesis by simp
    qed
    with Cons one [of p] show ?thesis
      by (cases p) (simp add: treeBins_def parentIn_def)
  qed
qed

definition filedBins :: "sparse_mapping_tree \<Rightarrow> movement_map list \<Rightarrow> DomainId \<Rightarrow> DomainId list" where
  "filedBins t ms i = treeBins t i @ movedBins t ms i"

lemma bin_tree_getParents:
  assumes "bin_tree t" and "hasBins t"
  shows "getParents t 0 i (map Some ms) = Inr (map (Pair 1) (filedBins t ms i))"
  using assms getParents_overlay [of t ms i 0] bin_tree_below [OF assms(1), of i]
  by (simp add: std_tree_def filedBins_def)

lemma bin_tree_collect:
  assumes "bin_tree t" and "hasBins t"
  shows "collectUpdates t 0 (map Some ms) ids = Inr (wrapRow (fileAll (filedBins t ms) ids))"
proof (induction ids rule: rev_induct)
  case Nil
  show ?case by (simp add: collectUpdates_def fileAll_def wrapRow_def)
next
  case (snoc i ids)
  then show ?case
    using bin_tree_getParents [OF assms, of i ms]
    by (simp add: collectUpdates_def rfold_append fold_pushChild_wrapRow [unfolded One_nat_def] fileAll_snoc)
qed

section \<open>Where the shards are\<close>

text \<open>
  The bin a shard is located in once the moves of \<open>C\<close> are carried out, the shards of a
  bin, and the load they put on it.
\<close>

definition located :: "sparse_mapping_tree \<Rightarrow> movement_map \<Rightarrow> DomainId \<Rightarrow> DomainId \<Rightarrow> bool" where
  "located t C b i =
     (case getNextBin C i of Some b' \<Rightarrow> b' = b | None \<Rightarrow> i \<in> set (mappedChildren t 1 b))"

definition load ::
    "(DomainId \<Rightarrow> i32) \<Rightarrow> sparse_mapping_tree \<Rightarrow> movement_map \<Rightarrow> DomainId \<Rightarrow> i32" where
  "load w t C b = (\<Sum>i | located t C b i. w i)"

definition totalFault ::
    "(DomainId \<Rightarrow> i32) \<Rightarrow> (i32 \<Rightarrow> i64) \<Rightarrow> sparse_mapping_tree \<Rightarrow> movement_map \<Rightarrow> i64" where
  "totalFault w f t C = (\<Sum>b | hasNode t 1 b. f (load w t C b))"

text \<open>Moves the search may canary: shards without a committed move, to bins they are not in.\<close>

definition movable :: "sparse_mapping_tree \<Rightarrow> movement_map \<Rightarrow> movement_map \<Rightarrow> bool" where
  "movable t C K \<longleftrightarrow> mm_wf C \<and> mm_wf K \<and>
     (\<forall>i b. getNextBin K i = Some b \<longrightarrow> getNextBin C i = None \<and> i \<notin> set (mappedChildren t 1 b))"

lemma treeBins_kids:
  assumes "bin_tree t" and "getChildDomain t 1 = Some 0"
  shows "b \<in> set (treeBins t i) \<longleftrightarrow> i \<in> set (mappedChildren t 1 b)"
proof -
  have "parentIn t 0 i 1 = Some b \<longleftrightarrow> i \<in> set (mappedChildren t 1 b)"
    using assms unfolding std_tree_def tree_agree_def by blast
  then show ?thesis by (auto simp: treeBins_def split: option.splits)
qed

lemma kids_hasNode: "i \<in> set (mappedChildren t d b) \<Longrightarrow> hasNode t d b"
  by (cases "hm2_find (parentToChildMap t) d b") (auto simp: mappedChildren_def hasNode_def)

lemma finite_bins: "finite {b. hasNode t 1 b}"
proof -
  have "{b. hasNode t 1 b} \<subseteq> fst ` set (hm_get [] (parentToChildMap t) 1)"
    by (auto simp: hasNode_def hm2_find_def hm_get_def dest: map_of_SomeD split: option.splits)
      (force dest: map_of_SomeD)
  then show ?thesis by (rule finite_subset) simp
qed

lemma finite_located: "finite {i. located t C b i}"
proof -
  have "{i. located t C b i} \<subseteq> dom (getNextBin C) \<union> set (mappedChildren t 1 b)"
    by (auto simp: located_def split: option.splits)
  moreover have "finite (dom (getNextBin C))"
    unfolding getNextBin_def [abs_def] by (rule finite_dom_map_of)
  ultimately show ?thesis by (meson finite_UnI finite_set finite_subset)
qed

lemma getAllMovements_keys: "set (map fst (getAllMovements K)) = dom (getNextBin K)"
  by (simp add: getAllMovements_def getNextBin_def [abs_def] dom_map_of_conv_image_fst)

section \<open>The contract\<close>

definition binValue :: "metrics_map \<Rightarrow> DomainId \<Rightarrow> i32" where
  "binValue mm b = value_or0 (cm2_get mm 1 b)"

definition faultOf :: "fault_env \<Rightarrow> DomainId \<Rightarrow> i64" where
  "faultOf env b = weight_or0 (cm_get (fst env) b)"

text \<open>By how much the changed shards shift a bin's value: up for those that the consistency
  considers, down for the others.\<close>

definition shift ::
    "movement_consistency \<Rightarrow> (DomainId \<Rightarrow> i32) \<Rightarrow> movement_map list \<Rightarrow> DomainId list \<Rightarrow> DomainId \<Rightarrow> i32" where
  "shift c w ms cs b =
     (\<Sum>ch \<leftarrow> filter (\<lambda>ch. considered c ms ch b) cs. w ch) -
     (\<Sum>ch \<leftarrow> filter (\<lambda>ch. \<not> considered c ms ch b) cs. w ch)"

text \<open>What that comes to for the shards that arrive in a bin and those that leave it, and for
  shards that stay in it when they are counted for the first time.\<close>

fun recount :: "movement_consistency \<Rightarrow> i32 \<Rightarrow> i32 \<Rightarrow> i32" where
  "recount AFTER arriving leaving = arriving - leaving"
| "recount BEFORE arriving leaving = leaving - arriving"
| "recount BOTH arriving leaving = arriving + leaving"
| "recount DURING arriving leaving = arriving + leaving"

fun firstCount :: "movement_consistency \<Rightarrow> i32 \<Rightarrow> i32" where
  "firstCount AFTER present = present"
| "firstCount BOTH present = present"
| "firstCount BEFORE present = - present"
| "firstCount DURING present = - present"

definition arrivals :: "(DomainId \<Rightarrow> i32) \<Rightarrow> movement_map \<Rightarrow> DomainId \<Rightarrow> i32" where
  "arrivals w K b = (\<Sum>i | getNextBin K i = Some b. w i)"

definition departures ::
    "(DomainId \<Rightarrow> i32) \<Rightarrow> sparse_mapping_tree \<Rightarrow> movement_map \<Rightarrow> DomainId \<Rightarrow> i32" where
  "departures w t K b = (\<Sum>i | i \<in> dom (getNextBin K) \<and> i \<in> set (mappedChildren t 1 b). w i)"

definition committedValue :: "metrics_map \<Rightarrow> DomainId \<Rightarrow> i32" where
  "committedValue mm b = value_or0 (cm2_getFromCommittedMap mm 1 b)"

definition sameCommitted :: "metrics_map \<times> fault_env \<Rightarrow> metrics_map \<times> fault_env \<Rightarrow> bool" where
  "sameCommitted x y \<longleftrightarrow>
     cm2_getFromCommittedMap (fst y) = cm2_getFromCommittedMap (fst x) \<and>
     cm_getFromCommittedMap (fst (snd y)) = cm_getFromCommittedMap (fst (snd x)) \<and>
     committedTotal (snd (snd y)) = committedTotal (snd (snd x)) \<and>
     sameProblem (snd (snd x)) (snd (snd y)) \<and>
     (cm2_ok (fst x) \<longrightarrow> cm2_ok (fst y)) \<and> (cm_ok (fst (snd x)) \<longrightarrow> cm_ok (fst (snd y)))"

lemma sameCommitted_refl [simp]: "sameCommitted x x"
  by (simp add: sameCommitted_def)

lemma sameCommitted_trans: "sameCommitted x y \<Longrightarrow> sameCommitted y z \<Longrightarrow> sameCommitted x z"
  unfolding sameCommitted_def by (auto intro: sameProblem_trans)

lemma cm2_get_set: "cm2_get (cm2_set True v a b c) x y = (if x = a \<and> y = b then Some v else cm2_get c x y)"
  using fun_cong [OF cm2.get_stage, of "(a, b)" v c "(x, y)"] by auto

lemma cm2_committed_set:
  "cm2_getFromCommittedMap (cm2_set True v a b c) = cm2_getFromCommittedMap c"
  by (simp add: cm2_getFromCommittedMap_def [abs_def] cm2_set_def)

lemma cm2_ok_set [simp, intro]: "cm2_ok c \<Longrightarrow> cm2_ok (cm2_set isC v a b c)"
  by (auto simp: cm2_ok_def cm2_set_def)

lemma setNodeWeight_ok: "cm_ok (fst env) \<Longrightarrow> cm_ok (fst (setNodeWeight d i x env))"
  by (cases env) (auto simp: setNodeWeight_def Let_def)

lemma sameCommitted_node:
  "sameCommitted (mm, env) (cm2_set True v a b mm, setNodeWeight d i x env)"
  "sameCommitted (mm, env) (mm, setNodeWeight d i x env)"
  using setNodeWeight_frame [where env = env and d = d and i = i and w = x]
    setNodeWeight_committed [where env = env and d = d and i = i and w = x]
    setNodeWeight_ok [where env = env and d = d and i = i and x = x]
  by (auto simp: sameCommitted_def cm2_committed_set)

lemma binValue_set: "binValue (cm2_set True v 1 b mm) x = (if x = b then v else binValue mm x)"
  by (simp add: binValue_def cm2_get_set value_or0_def)

lemma binValue_Some: "cm2_get mm 1 b = Some v \<Longrightarrow> binValue mm b = v"
  by (simp add: binValue_def value_or0_def)

lemma faultOf_set [simp]:
  "faultOf (setNodeWeight d i w env) b = (if b = i then w else faultOf env b)"
  by (simp add: faultOf_def setNodeWeight_faults)

text \<open>What a set of canaried moves does to the load of a bin is what the tree's evaluation adds
  to the bin's value.\<close>

abbreviation changedAt ::
    "sparse_mapping_tree \<Rightarrow> movement_map list \<Rightarrow> DomainId list \<Rightarrow> DomainId \<Rightarrow> DomainId list" where
  "changedAt t ms ids b \<equiv> filter (\<lambda>i. b \<in> set (filedBins t ms i)) ids"

lemma filedBins_canary:
  assumes t: "bin_tree t" "getChildDomain t 1 = Some 0" and m: "getNextBin m i = None"
    and K: "getNextBin K i = Some k" "getNextBin C i = None"
  shows "b \<in> set (filedBins t [m, C, K] i) \<longleftrightarrow>
     i \<in> set (mappedChildren t 1 b) \<or> (k = b \<and> hasNode t 1 b)"
  using t m K treeBins_kids [OF t]
  by (auto simp: filedBins_def movedBins_def map_filter_simps std_tree_def)

lemma shift_canary:
  assumes t: "bin_tree t" "getChildDomain t 1 = Some 0" and m: "\<And>i. getNextBin m i = None"
    and mv: "movable t C K" and b: "hasNode t 1 b"
  shows "shift c w [m, C, K] (changedAt t [m, C, K] (map fst (getAllMovements K)) b) b =
     recount c (arrivals w K b) (departures w t K b)"
proof -
  let ?ids = "map fst (getAllMovements K)" and ?ms = "[m, C, K]"
  let ?X = "{i. i \<in> dom (getNextBin K) \<and> i \<in> set (mappedChildren t 1 b)}"
  let ?Y = "{i. getNextBin K i = Some b}"
  let ?cs = "changedAt t ?ms ?ids b"
  have dist: "distinct ?cs" using mv by (simp add: movable_def mm_wf_def getAllMovements_def)
  have free: "getNextBin C i = None \<and> i \<notin> set (mappedChildren t 1 k)" if "getNextBin K i = Some k" for i k
    using mv that unfolding movable_def by blast
  have at: "b \<in> set (filedBins t ?ms i) \<longleftrightarrow> i \<in> set (mappedChildren t 1 b) \<or> k = b"
    if "getNextBin K i = Some k" for i k
    using filedBins_canary [OF t m that, of C b] free [OF that] b by auto
  have ids: "i \<in> set ?ids \<longleftrightarrow> (\<exists>k. getNextBin K i = Some k)" for i
    by (simp only: getAllMovements_keys dom_def) simp
  have cs: "set ?cs = ?X \<union> ?Y" using at ids by (auto simp del: set_map)
  have disj: "?X \<inter> ?Y = {}" using free by auto
  have fin: "finite ?X" "finite ?Y"
    by (rule finite_subset [of _ "set ?ids"]; use ids in blast; simp)+
  have X: "considered c ?ms i b \<longleftrightarrow> c \<noteq> AFTER" if "i \<in> ?X" for i
    using that free m by (cases c) (auto simp: considered_def staysIn_def moving_def)
  have Y: "considered c ?ms i b \<longleftrightarrow> c \<noteq> BEFORE" if "i \<in> ?Y" for i
    using that free m by (cases c) (auto simp: considered_def staysIn_def moving_def)
  have part: "(\<Sum>i \<leftarrow> filter P ?cs. w i) = sum w {i \<in> ?X. P i} + sum w {i \<in> ?Y. P i}" for P
  proof -
    have "(\<Sum>i \<leftarrow> filter P ?cs. w i) = sum w {i \<in> set ?cs. P i}"
      using dist by (simp only: sum_list_distinct_conv_sum_set distinct_filter set_filter)
    also have "{i \<in> set ?cs. P i} = {i \<in> ?X. P i} \<union> {i \<in> ?Y. P i}" unfolding cs by blast
    also have "sum w \<dots> = sum w {i \<in> ?X. P i} + sum w {i \<in> ?Y. P i}"
      using fin disj by (intro sum.union_disjoint) auto
    finally show ?thesis .
  qed
  have both: "{i \<in> ?X. considered c ?ms i b} = (if c \<noteq> AFTER then ?X else {})"
    "{i \<in> ?X. \<not> considered c ?ms i b} = (if c \<noteq> AFTER then {} else ?X)"
    "{i \<in> ?Y. considered c ?ms i b} = (if c \<noteq> BEFORE then ?Y else {})"
    "{i \<in> ?Y. \<not> considered c ?ms i b} = (if c \<noteq> BEFORE then {} else ?Y)"
    using X Y by auto
  show ?thesis
    unfolding shift_def part both arrivals_def departures_def by (cases c) simp_all
qed

lemma load_canary:
  assumes mv: "movable t C K"
  shows "load w t (addMovements K C) b = load w t C b + recount AFTER (arrivals w K b) (departures w t K b)"
proof -
  let ?X = "{i. i \<in> dom (getNextBin K) \<and> i \<in> set (mappedChildren t 1 b)}"
  let ?Y = "{i. getNextBin K i = Some b}"
  let ?L = "{i. located t C b i}"
  have free: "getNextBin C i = None \<and> i \<notin> set (mappedChildren t 1 k)" if "getNextBin K i = Some k" for i k
    using mv that unfolding movable_def by blast
  have new: "{i. located t (addMovements K C) b i} = (?L - ?X) \<union> ?Y"
    using mv getNextBin_addMovements [of C K] free
    by (auto simp: located_def movable_def map_add_def split: option.splits)
  have "?X \<subseteq> ?L" using free by (auto simp: located_def)
  moreover have "(?L - ?X) \<inter> ?Y = {}" using free by (auto simp: located_def)
  moreover have "finite ?Y"
    by (rule finite_subset [of _ "dom (getNextBin K)"])
      (auto simp: getNextBin_def [abs_def] finite_dom_map_of)
  ultimately have "sum w ((?L - ?X) \<union> ?Y) = sum w ?L - sum w ?X + sum w ?Y"
    using finite_located [of t C b] by (simp add: sum.union_disjoint sum_diff)
  then show ?thesis by (simp add: load_def new arrivals_def departures_def)
qed

text \<open>
  The committed layers of a constraint after the moves of \<open>C\<close>: each bin's value is its
  load and its recorded weight the fault of that load.
\<close>

definition counted ::
    "(DomainId \<Rightarrow> i32) \<Rightarrow> (i32 \<Rightarrow> i64) \<Rightarrow> sparse_mapping_tree \<Rightarrow> movement_map \<Rightarrow> metrics_map
     \<Rightarrow> (DomainId, i64) cmap \<Rightarrow> bool" where
  "counted w f t C mm faults \<longleftrightarrow> cm2_ok mm \<and> cm_ok faults \<and>
     (\<forall>b. hasNode t 1 b \<longrightarrow>
        value_or0 (cm2_getFromCommittedMap mm 1 b) = load w t C b \<and>
        weight_or0 (cm_getFromCommittedMap faults b) = f (load w t C b))"

text \<open>The weaker invariant that holds under every consistency: the recorded weights belong to
  the recorded values.\<close>

definition recorded ::
    "(i32 \<Rightarrow> i64) \<Rightarrow> sparse_mapping_tree \<Rightarrow> metrics_map \<Rightarrow> (DomainId, i64) cmap \<Rightarrow> bool" where
  "recorded f t mm faults \<longleftrightarrow> cm2_ok mm \<and> cm_ok faults \<and>
     (\<forall>b. hasNode t 1 b \<longrightarrow> weight_or0 (cm_getFromCommittedMap faults b) = f (committedValue mm b))"

lemma counted_recorded: "counted w f t C mm faults \<Longrightarrow> recorded f t mm faults"
  by (simp add: counted_def recorded_def committedValue_def)

definition faultsMatch ::
    "(i32 \<Rightarrow> i64) \<Rightarrow> sparse_mapping_tree \<Rightarrow> metrics_map \<Rightarrow> fault_env \<Rightarrow> bool" where
  "faultsMatch f t mm env \<longleftrightarrow> (\<forall>b. hasNode t 1 b \<longrightarrow> faultOf env b = f (binValue mm b))"

lemma shift_Nil [simp]: "shift c w ms [] b = 0"
  by (simp add: shift_def)

lemma filedBins_node:
  assumes "bin_tree t" "getChildDomain t 1 = Some 0" and "b \<in> set (filedBins t ms i)"
  shows "hasNode t 1 b"
  using assms treeBins_kids [OF assms(1,2), of b i]
  by (auto simp: filedBins_def movedBins_def std_tree_def intro: kids_hasNode)

lemma filedBins_distinct_canary:
  assumes t: "bin_tree t" "getChildDomain t 1 = Some 0" and m: "\<And>i. getNextBin m i = None"
    and mv: "movable t C K" and i: "getNextBin K i = Some k"
  shows "distinct (filedBins t [m, C, K] i)"
proof -
  have free: "getNextBin C i = None" "i \<notin> set (mappedChildren t 1 k)"
    using mv i unfolding movable_def by blast+
  then show ?thesis
    using treeBins_kids [OF t, of k i] t m i
    by (auto simp: filedBins_def movedBins_def map_filter_simps std_tree_def treeBins_def
        split: option.splits)
qed

lemma counted_commit:
  assumes "cm2_ok mm" and "cm_ok faults"
    and "\<And>b. hasNode t 1 b \<Longrightarrow> binValue mm b = load w t C b"
    and "\<And>b. hasNode t 1 b \<Longrightarrow> weight_or0 (cm_get faults b) = f (load w t C b)"
  shows "counted w f t C (cm2_commit mm) (cm_commit faults)"
proof -
  have "cm2_getFromCommittedMap (cm2_commit mm) a b = cm2_get mm a b" for a b
    using fun_cong [OF cm2.committed_commit [OF assms(1)], of "(a, b)"] by simp
  then show ?thesis
    using assms cm2.ok_commit [OF assms(1)] cm.ok_commit [OF assms(2)]
    by (simp add: counted_def binValue_def cm.committed_commit)
qed

lemma counted_same:
  assumes "sameCommitted (mm, (faults, s)) (mm', (faults', s'))" and "counted w f t C mm faults"
  shows "counted w f t C mm' faults'"
  using assms unfolding sameCommitted_def counted_def by simp

text \<open>What a constraint's partial tree over the bins is like.\<close>

definition counter_tree :: "sparse_mapping_tree \<Rightarrow> bool" where
  "counter_tree t \<longleftrightarrow> bin_tree t \<and> getChildDomain t 1 = Some 0 \<and> getChildDomain t 0 = None \<and> hasBins t"

lemma counter_treeD:
  assumes "counter_tree t"
  shows "bin_tree t" "getChildDomain t 1 = Some 0" "getChildDomain t 0 = None" "hasBins t"
  using assms by (simp_all add: counter_tree_def)

text \<open>
  The domains as the constructor of the state sets them, and a state whose movement map is set
  and has no moves. The constructor leaves that map null and nothing in the sources sets it: the
  properties below say what happens in either case.
\<close>

definition two_domains :: "solving_state \<Rightarrow> bool" where
  "two_domains s \<longleftrightarrow> ss_shardDomain s = 0 \<and> ss_binDomain s = 1"

definition searchable :: "solving_state \<Rightarrow> bool" where
  "searchable s \<longleftrightarrow> two_domains s \<and> (\<exists>m. ss_movementMap s = Some m \<and> getNextBin m = Map.empty)"

lemma searchableE:
  assumes "searchable s"
  obtains m where "ss_shardDomain s = 0" "ss_binDomain s = 1" "ss_movementMap s = Some m"
    "\<And>i. getNextBin m i = None"
  using assms by (auto simp: searchable_def two_domains_def)

lemma searchable_same: "searchable s \<Longrightarrow> sameProblem s s' \<Longrightarrow> searchable s'"
  by (simp add: searchable_def two_domains_def sameProblem_fields)

lemma two_domains_new [simp]: "two_domains (newSolvingState si ms dm)"
  by (simp add: two_domains_def)

lemma two_domains_same: "sameProblem s s' \<Longrightarrow> two_domains s' = two_domains s"
  by (simp add: two_domains_def sameProblem_fields)

text \<open>With a null movement map, the first moved shard of a canary dereferences it.\<close>

lemma canary_null:
  assumes "two_domains s" and "ss_movementMap s = None"
    and "shardDomain (et_assignmentTree (fst ec)) = 0" and "getNextBin K \<noteq> Map.empty"
  shows "expr_canaryMoves fuel calc s C K ec = Inl NullDeref"
proof -
  have "set (map fst (getAllMovements K)) \<noteq> {}"
    using assms(4) unfolding getAllMovements_keys by simp
  then obtain i rest where "map fst (getAllMovements K) = i # rest" by (cases "map fst (getAllMovements K)") auto
  then show ?thesis
    using getParents_null [of "et_assignmentTree (fst ec)" i "[Some C, Some K]"] assms(1-3)
    by (simp add: expr_canaryMoves_def Let_def collectUpdates_def canaryMaps_def two_domains_def)
qed

text \<open>The assignment tree of a two-level problem.\<close>

definition two_level :: "sparse_mapping_tree \<Rightarrow> bool" where
  "two_level t \<longleftrightarrow> shardDomain t = 0 \<and> binDomain t = 1 \<and> layered t \<and> tree_agree t \<and>
     getChildDomain t 1 = Some 0"

lemma two_level_new:
  assumes "\<forall>level \<in> set dm. distinct (concat level)" and "dm \<noteq> []" and "hd dm \<noteq> []"
  shows "two_level (assignmentTree (newSolvingState si ms dm))"
  using newSolvingState_tree [of si ms dm 1] newSolvingState_layered [of si ms dm]
    newSolvingState_agree [of dm si ms] assms
  by (auto simp: two_level_def hd_conv_nth Suc_le_eq)

lemma newSolvingState_kids:
  "mappedChildren (assignmentTree (newSolvingState si ms dm)) 1 b =
     (if dm \<noteq> [] \<and> b < length (hd dm) then hd dm ! b else [])"
  using newSolvingState_tree [of si ms dm 1 b]
  by (auto simp: mappedChildren_def hd_conv_nth Suc_le_eq)

lemma two_level_leaf: "two_level t \<Longrightarrow> getChildDomain t 0 = None"
  using layeredD [of t 0] by (cases "getChildDomain t 0") (auto simp: two_level_def)

lemma two_level_below:
  assumes "two_level t"
  shows "below t (1, b) y \<longleftrightarrow> y = (1, b) \<or> (\<exists>i \<in> set (mappedChildren t 1 b). y = (0, i))"
proof -
  have "below t (0, i) y \<longleftrightarrow> y = (0, i)" for i
    using two_level_leaf [OF assms] by (subst below_unfold) auto
  then show ?thesis
    using assms by (subst below_unfold) (auto simp: two_level_def)
qed

text \<open>The partial tree under a list of bins.\<close>

lemma partial_bin_tree:
  assumes t: "two_level t" and roots: "roots \<noteq> []"
  obtains r where "createPartialTree t 1 roots = Some r" "counter_tree r" "rows_distinct r"
    "\<And>b. hasNode r 1 b \<longleftrightarrow> b \<in> set roots"
    "\<And>b. mappedChildren r 1 b = (if b \<in> set roots then mappedChildren t 1 b else [])"
proof -
  have lay: "layered t" and agr: "tree_agree t" and dom: "shardDomain t = 0" "binDomain t = 1"
    and child: "getChildDomain t 1 = Some 0" using t by (simp_all add: two_level_def)
  let ?N = "queueNodes t (map (Pair 1) roots)"
  obtain r where r: "createPartialTree t 1 roots = Some r"
    and cop: "copies t ?N (newTree (shardDomain t) (binDomain t)) r"
    using createPartialTree_total [OF lay] by blast
  have N: "(d, i) \<in> ?N \<longleftrightarrow> (d = 1 \<and> i \<in> set roots) \<or>
      (d = 0 \<and> (\<exists>b \<in> set roots. i \<in> set (mappedChildren t 1 b)))" for d i
    unfolding queueNodes_def using two_level_below [OF t] by auto
  have find: "hm2_find (parentToChildMap r) d i =
      (if d = 1 \<and> i \<in> set roots then Some (mappedChildren t 1 i) else None)" for d i
    unfolding copiesD(3) [OF cop] N using child two_level_leaf [OF t] by auto
  have "\<exists>i. i \<in> set roots" using roots by (cases roots) auto
  then have dom_r: "getChildDomain r d = (if d = 1 then Some 0 else None)" for d
    unfolding copiesD(4) [OF cop] N using child two_level_leaf [OF t] by auto
  have node: "hasNode r 1 b \<longleftrightarrow> b \<in> set roots" for b by (simp add: hasNode_def find [unfolded One_nat_def])
  have kids: "mappedChildren r 1 b = (if b \<in> set roots then mappedChildren t 1 b else [])" for b
    by (simp add: mappedChildren_def [of r] find [unfolded One_nat_def])
  have "bin_tree r"
    using copies_agree [OF agr cop] createPartialTree_distinct [OF r] dom
    by (simp add: std_tree_def copiesD(1,2) [OF cop] dom_r newTree_def)
  moreover have "hasBins r"
  proof -
    obtain i where "i \<in> set roots" using roots by (cases roots) auto
    then have "hm2_find (parentToChildMap r) 1 i \<noteq> None" by (simp add: find [unfolded One_nat_def])
    then show ?thesis
      using \<open>bin_tree r\<close> by (auto simp: hasBins_def std_tree_def hm2_find_def split: option.splits)
  qed
  ultimately have "counter_tree r" by (simp add: counter_tree_def dom_r)
  with that r createPartialTree_rows [OF r] node kids show thesis by blast
qed

text \<open>The tree after the enumeration of its shards, which is what the constructor goes on with.\<close>

lemma enumerated_tree:
  assumes t: "bin_tree t" and leaf: "getChildDomain t 0 = None"
  defines "u \<equiv> snd (getAllDomainIds 0 t)"
  shows "bin_tree u" "hasNode u = hasNode t" "mappedChildren u = mappedChildren t"
    "getChildDomain u = getChildDomain t" "hasBins u = hasBins t"
    "located u = located t" "load w u = load w t" "totalFault w f u = totalFault w f t"
proof -
  note look = getAllDomainIds_leaf [OF leaf, folded u_def]
  show node: "hasNode u = hasNode t" and kids: "mappedChildren u = mappedChildren t"
    and child: "getChildDomain u = getChildDomain t" and "hasBins u = hasBins t"
    by (simp_all add: hasNode_def hasBins_def mappedChildren_def getChildDomain_def fun_eq_iff look)
  show loc: "located u = located t" unfolding located_def [abs_def] kids ..
  show load: "load w u = load w t" for w by (simp add: load_def fun_eq_iff loc)
  show "totalFault w f u = totalFault w f t" by (simp add: totalFault_def fun_eq_iff load node)
  have "parentIn u = parentIn t" by (simp add: parentIn_def fun_eq_iff look)
  moreover have "parentToChildMap u = parentToChildMap t" by (rule look)
  ultimately show "bin_tree u"
    using t unfolding std_tree_def tree_agree_def parents_distinct_def
    by (simp add: child kids look)
qed

lemma load_enumerated:
  assumes t: "bin_tree t" and child: "getChildDomain t 1 = Some 0" and leaf: "getChildDomain t 0 = None"
    and rows: "rows_distinct t" and m: "\<And>i. getNextBin m i = None"
  shows "shift c w [m] (changedAt t [m] (fst (getAllDomainIds 0 t)) b) b =
     firstCount c (load w t emptyMovementMap b)"
proof -
  let ?ids = "fst (getAllDomainIds 0 t)"
  have "distinct ?ids"
    using rows by (simp add: getAllDomainIds_leaf [OF leaf] rows_distinct_def)
  moreover have con: "considered c [m] i b \<longleftrightarrow> c = AFTER \<or> c = BOTH" for i
    using m by (cases c) (simp_all add: considered_def staysIn_def moving_def)
  moreover have filed: "b \<in> set (filedBins t [m] i) \<longleftrightarrow> i \<in> set (mappedChildren t 1 b)" for i
    using m treeBins_kids [OF t child, of b i] by (simp add: filedBins_def movedBins_def map_filter_simps)
  moreover have "i \<in> set ?ids" if "i \<in> set (mappedChildren t 1 b)" for i
    using that treeBins_kids [OF t child, of b i] bin_tree_below [OF t, of i]
    by (intro getAllDomainIds_parent leaf) auto
  then have "set (changedAt t [m] ?ids b) = {i. located t emptyMovementMap b i}"
    by (auto simp: filed located_def)
  ultimately have sum: "(\<Sum>i \<leftarrow> changedAt t [m] ?ids b. w i) = load w t emptyMovementMap b"
    by (simp add: load_def sum_list_distinct_conv_sum_set del: set_filter)
  show ?thesis
    unfolding shift_def con sum [symmetric] by (cases c) (simp_all del: filter_filter)
qed

locale fault_counter =
  fixes c :: movement_consistency
    and calc :: "fault_env calc_func"
    and w :: "DomainId \<Rightarrow> i32"
    and f :: "i32 \<Rightarrow> i64"
    and okState :: "solving_state \<Rightarrow> bool"
    and okShard :: "DomainId \<Rightarrow> bool"
  assumes calc_eq: "okState (snd env) \<Longrightarrow> getChildDomain t 1 = Some 0 \<Longrightarrow>
      \<forall>ch \<in> set cs. okShard ch \<Longrightarrow>
      calc t (map Some ms) mm cs (1, b) env =
        Inr (binValue mm b + shift c w ms cs b,
             setNodeWeight 1 b (f (binValue mm b + shift c w ms cs b)) env)"
    and ok_same: "okState s \<Longrightarrow> sameProblem s s' \<Longrightarrow> okState s'"
    and ok_domains: "okState s \<Longrightarrow> ss_shardDomain s = 0 \<and> ss_binDomain s = 1"
begin

text \<open>One bin.\<close>

lemma evaluate_node:
  assumes t: "bin_tree t" and child: "getChildDomain t 1 = Some 0"
    and ok: "okState (snd env)" and shards: "\<forall>ch \<in> set cs. okShard ch"
  shows "\<exists>mm' env'. updateNode calc t (map Some ms) 1 (b, cs) (mm, env, u) = Inr (mm', env', u) \<and>
     sameCommitted (mm, env) (mm', env') \<and> okState (snd env') \<and>
     binValue mm' = (binValue mm)(b := binValue mm b + shift c w ms cs b) \<and>
     faultOf env' = (faultOf env)(b := f (binValue mm b + shift c w ms cs b)) \<and>
     totalOf (snd env') = totalOf (snd env) + (f (binValue mm b + shift c w ms cs b) - faultOf env b)"
proof -
  let ?v = "binValue mm b + shift c w ms cs b"
  let ?env = "setNodeWeight 1 b (f ?v) env"
  let ?mm = "if cm2_get mm 1 b \<noteq> Some ?v then cm2_set True ?v 1 b mm else mm"
  have "updateNode calc t (map Some ms) 1 (b, cs) (mm, env, u) = Inr (?mm, ?env, u)"
    using calc_eq [OF ok child shards, of ms mm b] t
    by (auto simp: updateNode_def getParents_other std_tree_def bin_tree_above [OF t])
  moreover have "binValue ?mm = (binValue mm)(b := ?v)"
    using binValue_set [of ?v b mm] binValue_Some [of mm b ?v] by (auto simp: fun_eq_iff)
  moreover have "sameCommitted (mm, env) (?mm, ?env)"
    using sameCommitted_node by simp
  moreover have "okState (snd ?env)"
    using ok_same [OF ok] setNodeWeight_frame(1) by blast
  moreover have "faultOf ?env = (faultOf env)(b := f ?v)"
    by (simp add: fun_eq_iff)
  moreover have "totalOf (snd ?env) = totalOf (snd env) + (f ?v - faultOf env b)"
    by (simp add: setNodeWeight_total faultOf_def)
  ultimately show ?thesis by blast
qed

text \<open>One row of bins, each visited once.\<close>

lemma evaluate_row:
  assumes t: "bin_tree t" and child: "getChildDomain t 1 = Some 0"
  shows "distinct bs \<Longrightarrow> okState (snd env) \<Longrightarrow> \<forall>b \<in> set bs. \<forall>ch \<in> set (cs b). okShard ch \<Longrightarrow>
   \<exists>mm' env'. rfold (updateNode calc t (map Some ms) 1) (map (\<lambda>b. (b, cs b)) bs) (mm, env, u) =
       Inr (mm', env', u) \<and>
     sameCommitted (mm, env) (mm', env') \<and>
     (\<forall>b. binValue mm' b = (if b \<in> set bs then binValue mm b + shift c w ms (cs b) b else binValue mm b)) \<and>
     (\<forall>b. faultOf env' b =
       (if b \<in> set bs then f (binValue mm b + shift c w ms (cs b) b) else faultOf env b)) \<and>
     totalOf (snd env') = totalOf (snd env) +
       (\<Sum>b \<leftarrow> bs. f (binValue mm b + shift c w ms (cs b) b) - faultOf env b)"
proof (induction bs arbitrary: mm env)
  case Nil
  then show ?case by auto
next
  case (Cons b bs)
  let ?val = "\<lambda>mm b. binValue mm b + shift c w ms (cs b) b"
  have b: "b \<notin> set bs" using Cons.prems by simp
  obtain mm1 env1 where
    step: "updateNode calc t (map Some ms) 1 (b, cs b) (mm, env, u) = Inr (mm1, env1, u)"
    and same: "sameCommitted (mm, env) (mm1, env1)" and ok: "okState (snd env1)"
    and at: "binValue mm1 = (binValue mm)(b := ?val mm b)" "faultOf env1 = (faultOf env)(b := f (?val mm b))"
      "totalOf (snd env1) = totalOf (snd env) + (f (?val mm b) - faultOf env b)"
    using evaluate_node [OF t child Cons.prems(2), of "cs b" ms b mm u] Cons.prems(3) by auto
  obtain mm' env' where
    run: "rfold (updateNode calc t (map Some ms) 1) (map (\<lambda>b. (b, cs b)) bs) (mm1, env1, u) = Inr (mm', env', u)"
    and IH: "sameCommitted (mm1, env1) (mm', env')"
      "\<And>x. binValue mm' x = (if x \<in> set bs then ?val mm1 x else binValue mm1 x)"
      "\<And>x. faultOf env' x = (if x \<in> set bs then f (?val mm1 x) else faultOf env1 x)"
      "totalOf (snd env') = totalOf (snd env1) + (\<Sum>x \<leftarrow> bs. f (?val mm1 x) - faultOf env1 x)"
    using Cons.IH [OF _ ok, of mm1] Cons.prems by auto
  have "(\<Sum>x \<leftarrow> bs. f (?val mm1 x) - faultOf env1 x) = (\<Sum>x \<leftarrow> bs. f (?val mm x) - faultOf env x)"
    using b by (intro arg_cong [of _ _ sum_list] map_cong refl) (auto simp: at)
  then have total: "totalOf (snd env') = totalOf (snd env) + (\<Sum>x \<leftarrow> b # bs. f (?val mm x) - faultOf env x)"
    by (simp add: IH(4) at(3))
  have "rfold (updateNode calc t (map Some ms) 1) (map (\<lambda>b. (b, cs b)) (b # bs)) (mm, env, u) = Inr (mm', env', u)"
    using step run by simp
  moreover have "sameCommitted (mm, env) (mm', env')"
    by (rule sameCommitted_trans [OF same IH(1)])
  moreover have "binValue mm' x = (if x \<in> set (b # bs) then ?val mm x else binValue mm x)" for x
    using b by (simp add: IH(2) at(1))
  moreover have "faultOf env' x = (if x \<in> set (b # bs) then f (?val mm x) else faultOf env x)" for x
    using b by (simp add: IH(3) at)
  ultimately show ?case using total by blast
qed

text \<open>
  One propagation over the bins the given shards are filed under, from a state in which the
  recorded faults match the values.
\<close>

lemma propagate_bins:
  assumes t: "bin_tree t" and child: "getChildDomain t 1 = Some 0"
    and ok: "okState (snd env)" and shards: "\<forall>b. \<forall>i \<in> set (changedAt t ms ids b). okShard i" and fuel: "0 < fuel"
    and dist: "\<forall>i \<in> set ids. distinct (filedBins t ms i)" and match: "faultsMatch f t mm env"
  shows "\<exists>mm' env'. propagateChanges fuel calc t (map Some ms) (wrapRow (fileAll (filedBins t ms) ids))
       (mm, env) = Inr (mm', env') \<and>
     sameCommitted (mm, env) (mm', env') \<and> faultsMatch f t mm' env' \<and>
     (\<forall>b. binValue mm' b = binValue mm b + shift c w ms (changedAt t ms ids b) b) \<and>
     totalOf (snd env') = totalOf (snd env) +
       (\<Sum>b | hasNode t 1 b. f (binValue mm' b)) - (\<Sum>b | hasNode t 1 b. f (binValue mm b))"
proof -
  let ?row = "fileAll (filedBins t ms) ids"
  let ?bs = "map fst ?row"
  let ?cs = "changedAt t ms ids"
  let ?new = "\<lambda>b. binValue mm b + shift c w ms (?cs b) b"
  let ?B = "{b. hasNode t 1 b}"
  have row: "?row = map (\<lambda>b. (b, ?cs b)) ?bs" by (rule fileAll_entries [OF dist])
  have keys: "set ?bs = (\<Union>i \<in> set ids. set (filedBins t ms i))"
    using fileAll_keys [of "filedBins t ms" ids] by simp
  then have bins: "set ?bs \<subseteq> ?B" using filedBins_node [OF t child] by auto
  have quiet: "?cs b = []" if "b \<notin> set ?bs" for b
    using that unfolding keys by (simp add: filter_empty_conv)
  obtain mm' env' where
    run: "rfold (updateNode calc t (map Some ms) 1) (map (\<lambda>b. (b, ?cs b)) ?bs) (mm, env, []) =
        Inr (mm', env', [])"
    and same: "sameCommitted (mm, env) (mm', env')"
    and vals: "\<And>b. binValue mm' b = (if b \<in> set ?bs then ?new b else binValue mm b)"
    and faults: "\<And>b. faultOf env' b = (if b \<in> set ?bs then f (?new b) else faultOf env b)"
    and total: "totalOf (snd env') = totalOf (snd env) + (\<Sum>b \<leftarrow> ?bs. f (?new b) - faultOf env b)"
    using evaluate_row [OF t child fileAll_distinct ok, of "filedBins t ms" ids ?cs ms mm "[]"] shards
    by blast
  have new: "binValue mm' b = ?new b" for b using vals quiet by simp
  have "updateLevel calc t (map Some ms) (wrapRow ?row) (mm, env) = Inr (mm', env', [])"
  proof (cases "?row = []")
    case True
    then show ?thesis using run by (simp add: updateLevel_def wrapRow_def)
  next
    case False
    then show ?thesis using run row by (simp add: updateLevel_def wrapRow_def)
  qed
  then have "propagateChanges fuel calc t (map Some ms) (wrapRow ?row) (mm, env) = Inr (mm', env')"
    using fuel by (cases fuel) simp_all
  moreover have "faultsMatch f t mm' env'"
    using match quiet by (simp add: faultsMatch_def faults new)
  moreover have "(\<Sum>b \<leftarrow> ?bs. f (?new b) - faultOf env b) = (\<Sum>b \<in> ?B. f (?new b) - f (binValue mm b))"
  proof -
    have "(\<Sum>b \<leftarrow> ?bs. f (?new b) - faultOf env b) = (\<Sum>b \<in> set ?bs. f (?new b) - faultOf env b)"
      by (rule sum_list_distinct_conv_sum_set [OF fileAll_distinct])
    also have "\<dots> = (\<Sum>b \<in> set ?bs. f (?new b) - f (binValue mm b))"
      using bins match unfolding faultsMatch_def by (intro sum.cong refl) auto
    also have "\<dots> = (\<Sum>b \<in> ?B. f (?new b) - f (binValue mm b))"
      using bins quiet by (intro sum.mono_neutral_left finite_bins) auto
    finally show ?thesis .
  qed
  ultimately show ?thesis
    using same total new by (auto simp: sum_subtractf)
qed

text \<open>Canarying moves from committed values that the committed weights belong to.\<close>

lemma canary_values:
  assumes t: "bin_tree (et_assignmentTree e)" "getChildDomain (et_assignmentTree e) 1 = Some 0"
    and bins: "hasBins (et_assignmentTree e)"
    and s: "okState s" "ss_movementMap s = Some m" "\<And>i. getNextBin m i = None"
    and mv: "movable (et_assignmentTree e) C K" and shards: "\<forall>i \<in> dom (getNextBin K). okShard i"
    and rec: "recorded f (et_assignmentTree e) (et_metricsMap e) faults" and fuel: "0 < fuel"
  shows "\<exists>mm faults' s'. expr_canaryMoves fuel calc s C K (e, (cm_clear faults, s)) =
       Inr (e\<lparr>et_metricsMap := mm\<rparr>, (faults', s')) \<and>
     sameCommitted (et_metricsMap e, (faults, s)) (mm, (faults', s')) \<and>
     (\<forall>b. hasNode (et_assignmentTree e) 1 b \<longrightarrow>
        binValue mm b = committedValue (et_metricsMap e) b +
          recount c (arrivals w K b) (departures w (et_assignmentTree e) K b) \<and>
        weight_or0 (cm_get faults' b) = f (binValue mm b)) \<and>
     totalOf s' = totalOf s + (\<Sum>b | hasNode (et_assignmentTree e) 1 b. f (binValue mm b))
       - (\<Sum>b | hasNode (et_assignmentTree e) 1 b. f (committedValue (et_metricsMap e) b))"
proof -
  let ?t = "et_assignmentTree e" and ?mm = "cm2_clear (et_metricsMap e)"
  let ?env = "(cm_clear faults, s)" and ?ms = "[m, C, K]"
  let ?ids = "map fst (getAllMovements K)"
  have maps: "canaryMaps s C K = map Some ?ms" by (simp add: canaryMaps_def s)
  have ids: "set ?ids = dom (getNextBin K)" by (rule getAllMovements_keys)
  have get: "cm2_get ?mm a b = cm2_getFromCommittedMap (et_metricsMap e) a b" for a b
    using fun_cong [OF cm2.get_clear, of "et_metricsMap e" "(a, b)"] by simp
  have old: "binValue ?mm b = committedValue (et_metricsMap e) b" for b
    by (simp add: binValue_def committedValue_def get)
  have match: "faultsMatch f ?t ?mm ?env"
    using rec by (simp add: faultsMatch_def old recorded_def faultOf_def cm.get_clear)
  have dist: "\<forall>i \<in> set ?ids. distinct (filedBins ?t ?ms i)"
    unfolding ids using filedBins_distinct_canary [OF t s(3) mv] by blast
  have sh: "\<forall>b. \<forall>i \<in> set (changedAt ?t ?ms ?ids b). okShard i"
    using shards unfolding set_filter ids by blast
  have okenv: "okState (snd ?env)" using s(1) by simp
  obtain mm env' where
    run: "propagateChanges fuel calc ?t (map Some ?ms) (wrapRow (fileAll (filedBins ?t ?ms) ?ids)) (?mm, ?env) =
        Inr (mm, env')"
    and same: "sameCommitted (?mm, ?env) (mm, env')" and match': "faultsMatch f ?t mm env'"
    and vals: "\<forall>b. binValue mm b = binValue ?mm b + shift c w ?ms (changedAt ?t ?ms ?ids b) b"
    and total: "totalOf (snd env') = totalOf (snd ?env) +
       (\<Sum>b | hasNode ?t 1 b. f (binValue mm b)) - (\<Sum>b | hasNode ?t 1 b. f (binValue ?mm b))"
    using propagate_bins [OF t okenv sh fuel dist match] by blast
  have "expr_canaryMoves fuel calc s C K (e, ?env) = Inr (e\<lparr>et_metricsMap := mm\<rparr>, env')"
    using ok_domains [OF s(1)] run bin_tree_collect [OF t(1) bins, of ?ms ?ids]
    by (simp add: expr_canaryMoves_def Let_def maps)
  moreover have "sameCommitted (et_metricsMap e, (faults, s)) (mm, env')"
    using same unfolding sameCommitted_def
    using cm2.committed_clear [of "et_metricsMap e"] cm.committed_clear [of faults]
      cm2.ok_clear [of "et_metricsMap e"] cm.ok_clear [of faults]
    by (auto simp: fun_eq_iff)
  moreover have "binValue mm b = committedValue (et_metricsMap e) b +
      recount c (arrivals w K b) (departures w ?t K b)" if "hasNode ?t 1 b" for b
    using vals shift_canary [OF t s(3) mv that, of c w] by (simp add: old)
  moreover have "weight_or0 (cm_get (fst env') b) = f (binValue mm b)" if "hasNode ?t 1 b" for b
    using match' that unfolding faultsMatch_def faultOf_def by simp
  moreover have "totalOf (snd env') = totalOf s + (\<Sum>b | hasNode ?t 1 b. f (binValue mm b))
       - (\<Sum>b | hasNode ?t 1 b. f (committedValue (et_metricsMap e) b))"
    using total by (simp add: old)
  ultimately show ?thesis by (cases env') auto
qed

text \<open>Under AFTER, values that are loads become the loads after the canaried moves.\<close>

lemma canary_moves:
  assumes after: "c = AFTER"
    and t: "bin_tree (et_assignmentTree e)" "getChildDomain (et_assignmentTree e) 1 = Some 0"
    and bins: "hasBins (et_assignmentTree e)"
    and s: "okState s" "ss_movementMap s = Some m" "\<And>i. getNextBin m i = None"
    and mv: "movable (et_assignmentTree e) C K" and shards: "\<forall>i \<in> dom (getNextBin K). okShard i"
    and counted: "counted w f (et_assignmentTree e) C (et_metricsMap e) faults" and fuel: "0 < fuel"
  shows "\<exists>mm faults' s'. expr_canaryMoves fuel calc s C K (e, (cm_clear faults, s)) =
       Inr (e\<lparr>et_metricsMap := mm\<rparr>, (faults', s')) \<and>
     sameCommitted (et_metricsMap e, (faults, s)) (mm, (faults', s')) \<and>
     (\<forall>b. hasNode (et_assignmentTree e) 1 b \<longrightarrow>
        binValue mm b = load w (et_assignmentTree e) (addMovements K C) b \<and>
        weight_or0 (cm_get faults' b) = f (load w (et_assignmentTree e) (addMovements K C) b)) \<and>
     totalOf s' = totalOf s + totalFault w f (et_assignmentTree e) (addMovements K C)
       - totalFault w f (et_assignmentTree e) C"
proof -
  let ?t = "et_assignmentTree e"
  obtain mm faults' s' where
    run: "expr_canaryMoves fuel calc s C K (e, (cm_clear faults, s)) = Inr (e\<lparr>et_metricsMap := mm\<rparr>, (faults', s'))"
    and same: "sameCommitted (et_metricsMap e, (faults, s)) (mm, (faults', s'))"
    and vals: "\<And>b. hasNode ?t 1 b \<Longrightarrow> binValue mm b = committedValue (et_metricsMap e) b +
          recount c (arrivals w K b) (departures w ?t K b) \<and> weight_or0 (cm_get faults' b) = f (binValue mm b)"
    and total: "totalOf s' = totalOf s + (\<Sum>b | hasNode ?t 1 b. f (binValue mm b))
       - (\<Sum>b | hasNode ?t 1 b. f (committedValue (et_metricsMap e) b))"
    using canary_values [OF t bins s mv shards counted_recorded [OF counted] fuel] by blast
  have old: "committedValue (et_metricsMap e) b = load w ?t C b" if "hasNode ?t 1 b" for b
    using counted that by (simp add: counted_def committedValue_def)
  have new: "binValue mm b = load w ?t (addMovements K C) b" if "hasNode ?t 1 b" for b
    using vals [OF that] load_canary [OF mv, of w b] old [OF that] by (simp add: after)
  have "(\<Sum>b | hasNode ?t 1 b. f (binValue mm b)) = totalFault w f ?t (addMovements K C)"
    unfolding totalFault_def by (rule sum.cong [OF refl]) (metis mem_Collect_eq new)
  moreover have "(\<Sum>b | hasNode ?t 1 b. f (committedValue (et_metricsMap e) b)) = totalFault w f ?t C"
    unfolding totalFault_def by (rule sum.cong [OF refl]) (metis mem_Collect_eq old)
  ultimately have "totalOf s' = totalOf s + totalFault w f ?t (addMovements K C) - totalFault w f ?t C"
    using total by simp
  moreover have "binValue mm b = load w ?t (addMovements K C) b \<and>
      weight_or0 (cm_get faults' b) = f (load w ?t (addMovements K C) b)" if "hasNode ?t 1 b" for b
    using vals [OF that] new [OF that] by simp
  ultimately show ?thesis using run same by blast
qed

text \<open>The evaluation of all bins by the constructor of the expression tree.\<close>

lemma initial_state:
  assumes t: "bin_tree t" "getChildDomain t 1 = Some 0" "getChildDomain t 0 = None"
    and wf: "rows_distinct t" "hasBins t"
    and s: "okState s" "ss_movementMap s = Some m" "\<And>i. getNextBin m i = None"
    and shards: "\<forall>b. \<forall>i \<in> set (mappedChildren t 1 b). okShard i" and zero: "f 0 = 0" and fuel: "0 < fuel"
  shows "\<exists>mm faults s'. newExpressionTree fuel calc s t (cm_empty, s) =
       Inr (\<lparr>et_assignmentTree = snd (getAllDomainIds 0 t), et_metricsMap = mm\<rparr>, (faults, s')) \<and>
     sameCommitted (cm2_empty, (cm_empty, s)) (mm, (faults, s')) \<and>
     (\<forall>b. hasNode t 1 b \<longrightarrow>
        binValue mm b = firstCount c (load w t emptyMovementMap b) \<and>
        weight_or0 (cm_get faults b) = f (firstCount c (load w t emptyMovementMap b))) \<and>
     totalOf s' = totalOf s + (\<Sum>b | hasNode t 1 b. f (firstCount c (load w t emptyMovementMap b)))"
proof -
  let ?u = "snd (getAllDomainIds 0 t)" and ?ids = "fst (getAllDomainIds 0 t)"
  let ?env = "(cm_empty, s) :: fault_env"
  note u = enumerated_tree [OF t(1,3)]
  have child: "getChildDomain ?u 1 = Some 0" using t(2) u(4) by simp
  have leaf: "getChildDomain ?u 0 = None" using t(3) u(4) by simp
  have empty: "binValue cm2_empty b = 0" "faultOf ?env b = 0" for b
    by (simp_all add: binValue_def value_or0_def faultOf_def cm_get_def cm_empty_def)
  have filed: "filedBins ?u [m] i = filedBins t [m] i" for i
    using s(3) by (simp add: filedBins_def movedBins_def map_filter_simps treeBins_def parentIn_def
        getAllDomainIds_leaf(2) [OF t(3)])
  have dist: "\<forall>i \<in> set ?ids. distinct (filedBins ?u [m] i)"
    using s(3) by (auto simp: filed filedBins_def movedBins_def map_filter_simps treeBins_def split: option.splits)
  have match: "faultsMatch f ?u cm2_empty ?env"
    by (simp add: faultsMatch_def empty zero)
  have okenv: "okState (snd ?env)" using s(1) by simp
  have "i \<in> set (mappedChildren t 1 b)" if "b \<in> set (filedBins t [m] i)" for b i
    using that s(3) treeBins_kids [OF t(1,2), of b i] by (simp add: filedBins_def movedBins_def map_filter_simps)
  then have sh: "\<forall>b. \<forall>i \<in> set (changedAt ?u [m] ?ids b). okShard i"
    unfolding filed set_filter using shards by blast
  obtain mm env' where
    run: "propagateChanges fuel calc ?u (map Some [m]) (wrapRow (fileAll (filedBins ?u [m]) ?ids)) (cm2_empty, ?env) =
        Inr (mm, env')"
    and same: "sameCommitted (cm2_empty, ?env) (mm, env')" and match': "faultsMatch f ?u mm env'"
    and vals: "\<forall>b. binValue mm b = binValue cm2_empty b + shift c w [m] (changedAt ?u [m] ?ids b) b"
    and total: "totalOf (snd env') = totalOf (snd ?env) +
       (\<Sum>b | hasNode ?u 1 b. f (binValue mm b)) - (\<Sum>b | hasNode ?u 1 b. f (binValue cm2_empty b))"
    using propagate_bins [OF u(1) child okenv sh fuel dist match] by blast
  have new: "binValue mm b = firstCount c (load w t emptyMovementMap b)" for b
    using load_enumerated [OF t wf(1) s(3), of c w b] vals empty(1) by (simp add: filed)
  have "newExpressionTree fuel calc s t ?env =
      Inr (\<lparr>et_assignmentTree = ?u, et_metricsMap = mm\<rparr>, env')"
    using ok_domains [OF s(1)] run bin_tree_collect [OF u(1), of "[m]" ?ids] u(5) wf(2) s(2)
    by (cases "getAllDomainIds 0 t") (simp add: newExpressionTree_def initializeMetricState_def Let_def)
  moreover have "totalOf (snd env') = totalOf s + (\<Sum>b | hasNode t 1 b. f (firstCount c (load w t emptyMovementMap b)))"
    using total by (simp add: new empty(1) zero u(2))
  moreover have "weight_or0 (cm_get (fst env') b) = f (firstCount c (load w t emptyMovementMap b))"
    if "hasNode t 1 b" for b
    using match' that new u(2) unfolding faultsMatch_def faultOf_def by simp
  ultimately show ?thesis
    using new same by (cases env') auto
qed

end

end
