(* ===== verification/FaultConstraints.thy ===== *)
theory FaultConstraints
  imports FaultCounter
begin

text \<open>
  \<open>DrainConstraint.h\<close> and \<open>CapacityConstraint.h\<close> (class \<open>MetricConstraint\<close>): a fault
  weight per node of one domain, from the number of shards below it or from the sum of their
  metric over a capacity.
\<close>

section \<open>DrainConstraint\<close>

record drain_constraint =
  dc_consistency :: movement_consistency
  dc_domain :: Domain
  dc_metric :: Metric
  dc_faultWeight :: i32
  dc_expressionTree :: expression_tree
  dc_domainFaultMap :: "(DomainId, i64) cmap"

definition dc_weight :: "i32 \<Rightarrow> i64 \<Rightarrow> i64" where
  "dc_weight faultWeight val = val * i64_of_i32 faultWeight"

definition dc_updateWeightIfPossible ::
    "Domain \<Rightarrow> i32 \<Rightarrow> Domain \<times> DomainId \<Rightarrow> i64 \<Rightarrow> fault_env \<Rightarrow> fault_env" where
  "dc_updateWeightIfPossible domain faultWeight node val env =
     (if fst node = domain then setNodeWeight domain (snd node) (dc_weight faultWeight val) env
      else env)"

definition dc_calculate ::
    "movement_consistency \<Rightarrow> Domain \<Rightarrow> i32 \<Rightarrow> fault_env calc_func" where
  "dc_calculate consistency domain faultWeight t mms mm changedChildren node env =
     rbind (shardCountOperator (snd env) t mms mm changedChildren node consistency) (\<lambda>val.
       Inr (val, dc_updateWeightIfPossible domain faultWeight node (i64_of_i32 val) env))"

definition dc_canaryMoves ::
    "nat \<Rightarrow> movement_map \<Rightarrow> movement_map \<Rightarrow> drain_constraint \<times> solving_state
     \<Rightarrow> fault + drain_constraint \<times> solving_state" where
  "dc_canaryMoves fuel committedMoves canaryMoves cs =
     (case cs of (dc, s) \<Rightarrow>
        rbind (expr_canaryMoves fuel
                 (dc_calculate (dc_consistency dc) (dc_domain dc) (dc_faultWeight dc))
                 s committedMoves canaryMoves
                 (dc_expressionTree dc, (cm_clear (dc_domainFaultMap dc), s)))
          (\<lambda>(e, (faults, s')).
             Inr (dc\<lparr>dc_expressionTree := e, dc_domainFaultMap := faults\<rparr>, s')))"

definition dc_commitMoves :: "drain_constraint \<Rightarrow> drain_constraint" where
  "dc_commitMoves dc =
     dc\<lparr>dc_expressionTree := expr_commitMoves (dc_expressionTree dc),
        dc_domainFaultMap := cm_commit (dc_domainFaultMap dc)\<rparr>"

definition newDrainConstraint ::
    "nat \<Rightarrow> movement_consistency \<Rightarrow> Domain \<Rightarrow> DomainId list \<Rightarrow> i32 \<Rightarrow> solving_state
     \<Rightarrow> fault + drain_constraint \<times> solving_state" where
  "newDrainConstraint fuel consistency domain domainIds faultWeight s =
     (case createPartialTree (assignmentTree s) domain domainIds of
        None \<Rightarrow> Inl NoReturn
      | Some partialTree \<Rightarrow>
          rbind (newExpressionTree fuel (dc_calculate consistency domain faultWeight) s partialTree
                   (cm_empty, s))
            (\<lambda>(e, (faults, s')).
               Inr (dc_commitMoves
                      \<lparr>dc_consistency = consistency, dc_domain = domain,
                       dc_metric = kShardCountMetric, dc_faultWeight = faultWeight,
                       dc_expressionTree = e, dc_domainFaultMap = faults\<rparr>,
                    commitWeights s')))"

section \<open>MetricConstraint\<close>

record metric_constraint =
  mc_consistency :: movement_consistency
  mc_domain :: Domain
  mc_metric :: Metric
  mc_capacity :: i32
  mc_faultWeight :: i32
  mc_expressionTree :: expression_tree
  mc_domainFaultMap :: "(DomainId, i64) cmap"

text \<open>
  \<open>currentWeight\<close> is declared \<open>auto currentWeight = 0\<close>, an \<open>int\<close>: the 64-bit product
  assigned to it is cut to 32 bits and widened again.
\<close>

definition mc_weight :: "i32 \<Rightarrow> i32 \<Rightarrow> i64 \<Rightarrow> i64" where
  "mc_weight capacity faultWeight val =
     (if i64_of_i32 capacity <s val
      then i64_of_i32 (i32_of_i64 ((val - i64_of_i32 capacity) * i64_of_i32 faultWeight))
      else 0)"

definition mc_updateWeightIfPossible ::
    "Domain \<Rightarrow> i32 \<Rightarrow> i32 \<Rightarrow> Domain \<times> DomainId \<Rightarrow> i64 \<Rightarrow> fault_env \<Rightarrow> fault_env" where
  "mc_updateWeightIfPossible domain capacity faultWeight node val env =
     (if fst node = domain
      then setNodeWeight domain (snd node) (mc_weight capacity faultWeight val) env
      else env)"

definition mc_calculate ::
    "movement_consistency \<Rightarrow> Domain \<Rightarrow> Metric \<Rightarrow> i32 \<Rightarrow> i32 \<Rightarrow> fault_env calc_func" where
  "mc_calculate consistency domain metric capacity faultWeight t mms mm changedChildren node env =
     rbind (sumOperator (snd env) metric t mms mm changedChildren node consistency) (\<lambda>val.
       Inr (val, mc_updateWeightIfPossible domain capacity faultWeight node (i64_of_i32 val) env))"

definition mc_canaryMoves ::
    "nat \<Rightarrow> movement_map \<Rightarrow> movement_map \<Rightarrow> metric_constraint \<times> solving_state
     \<Rightarrow> fault + metric_constraint \<times> solving_state" where
  "mc_canaryMoves fuel committedMoves canaryMoves cs =
     (case cs of (mc, s) \<Rightarrow>
        rbind (expr_canaryMoves fuel
                 (mc_calculate (mc_consistency mc) (mc_domain mc) (mc_metric mc)
                    (mc_capacity mc) (mc_faultWeight mc))
                 s committedMoves canaryMoves
                 (mc_expressionTree mc, (cm_clear (mc_domainFaultMap mc), s)))
          (\<lambda>(e, (faults, s')).
             Inr (mc\<lparr>mc_expressionTree := e, mc_domainFaultMap := faults\<rparr>, s')))"

definition mc_commitMoves :: "metric_constraint \<Rightarrow> metric_constraint" where
  "mc_commitMoves mc =
     mc\<lparr>mc_expressionTree := expr_commitMoves (mc_expressionTree mc),
        mc_domainFaultMap := cm_commit (mc_domainFaultMap mc)\<rparr>"

definition newMetricConstraint ::
    "nat \<Rightarrow> movement_consistency \<Rightarrow> Domain \<Rightarrow> DomainId list \<Rightarrow> Metric \<Rightarrow> i32 \<Rightarrow> i32 \<Rightarrow> solving_state
     \<Rightarrow> fault + metric_constraint \<times> solving_state" where
  "newMetricConstraint fuel consistency domain domainIds metric capacity faultWeight s =
     (case createPartialTree (assignmentTree s) domain domainIds of
        None \<Rightarrow> Inl NoReturn
      | Some partialTree \<Rightarrow>
          rbind (newExpressionTree fuel
                   (mc_calculate consistency domain metric capacity faultWeight) s partialTree
                   (cm_empty, s))
            (\<lambda>(e, (faults, s')).
               Inr (mc_commitMoves
                      \<lparr>mc_consistency = consistency, mc_domain = domain, mc_metric = metric,
                       mc_capacity = capacity, mc_faultWeight = faultWeight,
                       mc_expressionTree = e, mc_domainFaultMap = faults\<rparr>,
                    commitWeights s')))"

section \<open>Both constraints are fault counters\<close>

lemma counts_bin:
  "ss_binDomain s = 1 \<Longrightarrow> counts s c ms (1, b) = (\<lambda>ch. considered c ms ch b)"
  by (simp add: counts_def fun_eq_iff)

lemma sum_list_ones: "(\<Sum>x \<leftarrow> xs. (1 :: i32)) = of_nat (length xs)"
  by (induction xs) auto

interpretation drain: fault_counter c "dc_calculate c 1 faultWeight" "\<lambda>_. 1"
  "\<lambda>v. dc_weight faultWeight (i64_of_i32 v)" two_domains "\<lambda>_. True" for c faultWeight
proof unfold_locales
  fix env :: fault_env and t ms mm cs b
  assume "two_domains (snd env)"
  then have "counts (snd env) c ms (1, b) = (\<lambda>ch. considered c ms ch b)"
    by (simp add: counts_bin [unfolded One_nat_def] two_domains_def)
  then show "dc_calculate c 1 faultWeight t (map Some ms) mm cs (1, b) env =
      Inr (binValue mm b + shift c (\<lambda>_. 1) ms cs b,
           setNodeWeight 1 b (dc_weight faultWeight
             (i64_of_i32 (binValue mm b + shift c (\<lambda>_. 1) ms cs b))) env)"
    using shardCountOperator_value [of "snd env" t ms mm cs "(1, b)" c]
    by (simp add: dc_calculate_def dc_updateWeightIfPossible_def shift_def binValue_def
        sum_list_ones algebra_simps)
qed (auto simp: two_domains_same, auto simp: two_domains_def)

interpretation metric: fault_counter c "mc_calculate c 1 metric capacity faultWeight"
  "\<lambda>ch. row ! ch" "\<lambda>v. mc_weight capacity faultWeight (i64_of_i32 v)"
  "\<lambda>s. two_domains s \<and> metricVectors s \<noteq> [] \<and> hd (metricVectors s) = row"
  "\<lambda>ch. ch < length row" for c metric capacity faultWeight row
proof unfold_locales
  fix env :: fault_env and t ms mm cs b
  assume s: "two_domains (snd env) \<and> metricVectors (snd env) \<noteq> [] \<and> hd (metricVectors (snd env)) = row"
    and child: "getChildDomain t 1 = Some 0" and cs: "\<forall>ch \<in> set cs. ch < length row"
  have row: "metricVectors (snd env) ! 0 = row" using s by (metis hd_conv_nth)
  have w: "shardMetric0 (snd env) = (\<lambda>ch. row ! ch)"
    by (simp add: shardMetric0_def row fun_eq_iff)
  have "sumOperator (snd env) metric t (map Some ms) mm cs (1, b) c =
      Inr (binValue mm b + shift c (\<lambda>ch. row ! ch) ms cs b)"
    using sumOperator_value [of t "(1, b)" "snd env" cs metric ms mm c] s child cs row
      counts_bin [of "snd env" c ms b]
    by (simp add: shift_def binValue_def w algebra_simps two_domains_def)
  then show "mc_calculate c 1 metric capacity faultWeight t (map Some ms) mm cs (1, b) env =
      Inr (binValue mm b + shift c (\<lambda>ch. row ! ch) ms cs b,
           setNodeWeight 1 b (mc_weight capacity faultWeight
             (i64_of_i32 (binValue mm b + shift c (\<lambda>ch. row ! ch) ms cs b))) env)"
    by (simp add: mc_calculate_def mc_updateWeightIfPossible_def)
qed (auto simp: two_domains_same sameProblem_fields, auto simp: two_domains_def)

lemma metric_zero: "0 \<le> sint capacity \<Longrightarrow> mc_weight capacity faultWeight (i64_of_i32 0) = 0"
  by (auto simp: mc_weight_def word_sless_alt sint_i64_of_i32)

lemma drain_zero: "dc_weight faultWeight (i64_of_i32 0) = 0"
  by (simp add: dc_weight_def i64_of_i32_def)

section \<open>The objective of a constraint and its invariant\<close>

text \<open>What a constraint over bins charges for an assignment, computed from scratch.\<close>

definition drain_objective :: "drain_constraint \<Rightarrow> movement_map \<Rightarrow> i64" where
  "drain_objective dc C =
     totalFault (\<lambda>_. 1) (\<lambda>v. dc_weight (dc_faultWeight dc) (i64_of_i32 v))
       (et_assignmentTree (dc_expressionTree dc)) C"

definition metric_objective :: "MetricValue list \<Rightarrow> metric_constraint \<Rightarrow> movement_map \<Rightarrow> i64" where
  "metric_objective row mc C =
     totalFault (\<lambda>i. row ! i) (\<lambda>v. mc_weight (mc_capacity mc) (mc_faultWeight mc) (i64_of_i32 v))
       (et_assignmentTree (mc_expressionTree mc)) C"

text \<open>
  Under any consistency: the value a constraint has committed for a bin, what it charges for its
  committed values, and that the charges it has committed belong to these values.
\<close>

definition drain_value :: "drain_constraint \<Rightarrow> DomainId \<Rightarrow> i32" where
  "drain_value dc b = committedValue (et_metricsMap (dc_expressionTree dc)) b"

definition drain_charge :: "drain_constraint \<Rightarrow> i64" where
  "drain_charge dc = (\<Sum>b | hasNode (et_assignmentTree (dc_expressionTree dc)) 1 b.
     dc_weight (dc_faultWeight dc) (i64_of_i32 (drain_value dc b)))"

definition drain_recorded :: "drain_constraint \<Rightarrow> bool" where
  "drain_recorded dc \<longleftrightarrow> dc_domain dc = 1 \<and> counter_tree (et_assignmentTree (dc_expressionTree dc)) \<and>
     recorded (\<lambda>v. dc_weight (dc_faultWeight dc) (i64_of_i32 v))
       (et_assignmentTree (dc_expressionTree dc)) (et_metricsMap (dc_expressionTree dc)) (dc_domainFaultMap dc)"

definition metric_value :: "metric_constraint \<Rightarrow> DomainId \<Rightarrow> i32" where
  "metric_value mc b = committedValue (et_metricsMap (mc_expressionTree mc)) b"

definition metric_charge :: "metric_constraint \<Rightarrow> i64" where
  "metric_charge mc = (\<Sum>b | hasNode (et_assignmentTree (mc_expressionTree mc)) 1 b.
     mc_weight (mc_capacity mc) (mc_faultWeight mc) (i64_of_i32 (metric_value mc b)))"

definition metric_recorded :: "metric_constraint \<Rightarrow> bool" where
  "metric_recorded mc \<longleftrightarrow> mc_domain mc = 1 \<and> counter_tree (et_assignmentTree (mc_expressionTree mc)) \<and>
     recorded (\<lambda>v. mc_weight (mc_capacity mc) (mc_faultWeight mc) (i64_of_i32 v))
       (et_assignmentTree (mc_expressionTree mc)) (et_metricsMap (mc_expressionTree mc)) (mc_domainFaultMap mc)"

text \<open>The committed layers describe the assignment in which the moves of \<open>C\<close> are done.\<close>

definition drain_ok :: "movement_map \<Rightarrow> drain_constraint \<Rightarrow> bool" where
  "drain_ok C dc \<longleftrightarrow> dc_consistency dc = AFTER \<and> dc_domain dc = 1 \<and>
     counter_tree (et_assignmentTree (dc_expressionTree dc)) \<and>
     counted (\<lambda>_. 1) (\<lambda>v. dc_weight (dc_faultWeight dc) (i64_of_i32 v))
       (et_assignmentTree (dc_expressionTree dc)) C (et_metricsMap (dc_expressionTree dc)) (dc_domainFaultMap dc)"

definition metric_ok :: "MetricValue list \<Rightarrow> movement_map \<Rightarrow> metric_constraint \<Rightarrow> bool" where
  "metric_ok row C mc \<longleftrightarrow> mc_consistency mc = AFTER \<and> mc_domain mc = 1 \<and> 0 \<le> sint (mc_capacity mc) \<and>
     counter_tree (et_assignmentTree (mc_expressionTree mc)) \<and>
     counted (\<lambda>i. row ! i) (\<lambda>v. mc_weight (mc_capacity mc) (mc_faultWeight mc) (i64_of_i32 v))
       (et_assignmentTree (mc_expressionTree mc)) C (et_metricsMap (mc_expressionTree mc)) (mc_domainFaultMap mc)"

definition measured :: "MetricValue list \<Rightarrow> solving_state \<Rightarrow> bool" where
  "measured row s \<longleftrightarrow> searchable s \<and> metricVectors s \<noteq> [] \<and> hd (metricVectors s) = row"

lemma drain_ok_recorded: "drain_ok C dc \<Longrightarrow> drain_recorded dc"
  by (auto simp: drain_ok_def drain_recorded_def intro: counted_recorded)

lemma metric_ok_recorded: "metric_ok row C mc \<Longrightarrow> metric_recorded mc"
  by (auto simp: metric_ok_def metric_recorded_def intro: counted_recorded)

lemma arrivals_ones: "arrivals (\<lambda>_. 1) K b = of_nat (card {i. getNextBin K i = Some b})"
  and departures_ones: "departures (\<lambda>_. 1) t K b =
    of_nat (card {i \<in> set (mappedChildren t 1 b). getNextBin K i \<noteq> None})"
  by (simp_all add: arrivals_def departures_def dom_def conj_commute)

lemma recorded_same:
  assumes "sameCommitted (mm, (faults, s)) (mm', (faults', s'))" and "recorded f t mm faults"
  shows "recorded f t mm' faults'" "committedValue mm' = committedValue mm"
  using assms unfolding sameCommitted_def recorded_def committedValue_def [abs_def] by simp_all

lemma committedValue_commit: "cm2_ok mm \<Longrightarrow> committedValue (cm2_commit mm) b = binValue mm b"
  using fun_cong [OF cm2.committed_commit, of mm "(1, b)"] by (simp add: committedValue_def binValue_def)

lemma recorded_commit:
  assumes "cm2_ok mm" and "cm_ok faults" and "\<And>b. hasNode t 1 b \<Longrightarrow> weight_or0 (cm_get faults b) = f (binValue mm b)"
  shows "recorded f t (cm2_commit mm) (cm_commit faults)"
  using assms cm2.ok_commit [OF assms(1)] cm.ok_commit [OF assms(2)]
  by (simp add: recorded_def committedValue_commit cm.committed_commit)

lemma measured_same: "measured row s \<Longrightarrow> sameProblem s s' \<Longrightarrow> measured row s'"
  using searchable_same by (auto simp: measured_def sameProblem_fields)

lemma drain_canary:
  assumes dc: "drain_ok C dc" and s: "searchable s"
    and mv: "movable (et_assignmentTree (dc_expressionTree dc)) C K" and fuel: "0 < fuel"
  shows "\<exists>dc' s'. dc_canaryMoves fuel C K (dc, s) = Inr (dc', s') \<and>
     totalOf s' = totalOf s + drain_objective dc (addMovements K C) - drain_objective dc C \<and>
     committedTotal s' = committedTotal s \<and> sameProblem s s' \<and>
     et_assignmentTree (dc_expressionTree dc') = et_assignmentTree (dc_expressionTree dc) \<and>
     drain_objective dc' = drain_objective dc \<and> drain_objective (dc_commitMoves dc') = drain_objective dc \<and>
     drain_ok C dc' \<and> drain_ok (addMovements K C) (dc_commitMoves dc')"
proof -
  let ?e = "dc_expressionTree dc" and ?w = "\<lambda>_ :: DomainId. 1 :: i32"
  let ?f = "\<lambda>v. dc_weight (dc_faultWeight dc) (i64_of_i32 v)"
  obtain m where m: "ss_shardDomain s = 0" "ss_binDomain s = 1" "ss_movementMap s = Some m"
    "\<And>i. getNextBin m i = None" using searchableE [OF s] by blast
  have dom: "two_domains s" using m by (simp add: two_domains_def)
  have cfg: "dc_consistency dc = AFTER" "dc_domain dc = 1" "counter_tree (et_assignmentTree ?e)"
    and cnt: "counted ?w ?f (et_assignmentTree ?e) C (et_metricsMap ?e) (dc_domainFaultMap dc)"
    using dc by (simp_all add: drain_ok_def)
  note t = counter_treeD [OF cfg(3)]
  obtain mm faults s' where
    run: "expr_canaryMoves fuel (dc_calculate AFTER 1 (dc_faultWeight dc)) s C K
        (?e, (cm_clear (dc_domainFaultMap dc), s)) = Inr (?e\<lparr>et_metricsMap := mm\<rparr>, (faults, s'))"
    and same: "sameCommitted (et_metricsMap ?e, (dc_domainFaultMap dc, s)) (mm, (faults, s'))"
    and vals: "\<And>b. hasNode (et_assignmentTree ?e) 1 b \<Longrightarrow>
        binValue mm b = load ?w (et_assignmentTree ?e) (addMovements K C) b \<and>
        weight_or0 (cm_get faults b) = ?f (load ?w (et_assignmentTree ?e) (addMovements K C) b)"
    and total: "totalOf s' = totalOf s + totalFault ?w ?f (et_assignmentTree ?e) (addMovements K C)
       - totalFault ?w ?f (et_assignmentTree ?e) C"
    using drain.canary_moves [OF refl t(1,2,4) dom m(3,4) mv _ cnt fuel] by blast
  have oks: "cm2_ok mm" "cm_ok faults"
    using same cnt by (simp_all add: sameCommitted_def counted_def)
  have frame: "committedTotal s' = committedTotal s" "sameProblem s s'"
    using same by (simp_all add: sameCommitted_def)
  let ?dc = "dc\<lparr>dc_expressionTree := ?e\<lparr>et_metricsMap := mm\<rparr>, dc_domainFaultMap := faults\<rparr>"
  have "dc_canaryMoves fuel C K (dc, s) = Inr (?dc, s')"
    using run by (simp add: dc_canaryMoves_def cfg(1,2))
  moreover have "drain_ok C ?dc"
    using cfg counted_same [OF same cnt] by (simp add: drain_ok_def)
  moreover have "drain_ok (addMovements K C) (dc_commitMoves ?dc)"
    using cfg counted_commit [OF oks, of "et_assignmentTree ?e" ?w "addMovements K C" ?f] vals
    by (simp add: drain_ok_def dc_commitMoves_def expr_commitMoves_def)
  moreover have "drain_objective ?dc = drain_objective dc" "drain_objective (dc_commitMoves ?dc) = drain_objective dc"
    by (simp_all add: drain_objective_def [abs_def] dc_commitMoves_def expr_commitMoves_def)
  ultimately show ?thesis
    using frame total unfolding drain_objective_def [of dc] by (intro exI [of _ ?dc] exI [of _ s']) simp
qed

lemma metric_canary:
  assumes mc: "metric_ok row C mc" and s: "measured row s"
    and mv: "movable (et_assignmentTree (mc_expressionTree mc)) C K"
    and sh: "\<forall>i \<in> dom (getNextBin K). i < length row" and fuel: "0 < fuel"
  shows "\<exists>mc' s'. mc_canaryMoves fuel C K (mc, s) = Inr (mc', s') \<and>
     totalOf s' = totalOf s + metric_objective row mc (addMovements K C) - metric_objective row mc C \<and>
     committedTotal s' = committedTotal s \<and> sameProblem s s' \<and>
     et_assignmentTree (mc_expressionTree mc') = et_assignmentTree (mc_expressionTree mc) \<and>
     metric_objective row mc' = metric_objective row mc \<and>
     metric_objective row (mc_commitMoves mc') = metric_objective row mc \<and>
     metric_ok row C mc' \<and> metric_ok row (addMovements K C) (mc_commitMoves mc')"
proof -
  let ?e = "mc_expressionTree mc" and ?w = "\<lambda>i. row ! i"
  let ?f = "\<lambda>v. mc_weight (mc_capacity mc) (mc_faultWeight mc) (i64_of_i32 v)"
  obtain m where m: "ss_shardDomain s = 0" "ss_binDomain s = 1" "ss_movementMap s = Some m"
    "\<And>i. getNextBin m i = None" using s searchableE unfolding measured_def by blast
  have cfg: "mc_consistency mc = AFTER" "mc_domain mc = 1" "counter_tree (et_assignmentTree ?e)"
    and cap: "0 \<le> sint (mc_capacity mc)"
    and cnt: "counted ?w ?f (et_assignmentTree ?e) C (et_metricsMap ?e) (mc_domainFaultMap mc)"
    using mc by (simp_all add: metric_ok_def)
  note t = counter_treeD [OF cfg(3)]
  have ok: "two_domains s \<and> metricVectors s \<noteq> [] \<and> hd (metricVectors s) = row"
    using m s by (simp add: measured_def two_domains_def)
  obtain mm faults s' where
    run: "expr_canaryMoves fuel (mc_calculate AFTER 1 (mc_metric mc) (mc_capacity mc) (mc_faultWeight mc)) s C K
        (?e, (cm_clear (mc_domainFaultMap mc), s)) = Inr (?e\<lparr>et_metricsMap := mm\<rparr>, (faults, s'))"
    and same: "sameCommitted (et_metricsMap ?e, (mc_domainFaultMap mc, s)) (mm, (faults, s'))"
    and vals: "\<And>b. hasNode (et_assignmentTree ?e) 1 b \<Longrightarrow>
        binValue mm b = load ?w (et_assignmentTree ?e) (addMovements K C) b \<and>
        weight_or0 (cm_get faults b) = ?f (load ?w (et_assignmentTree ?e) (addMovements K C) b)"
    and total: "totalOf s' = totalOf s + totalFault ?w ?f (et_assignmentTree ?e) (addMovements K C)
       - totalFault ?w ?f (et_assignmentTree ?e) C"
    using metric.canary_moves [OF refl t(1,2,4) ok m(3,4) mv sh cnt fuel] by blast
  have oks: "cm2_ok mm" "cm_ok faults"
    using same cnt by (simp_all add: sameCommitted_def counted_def)
  have frame: "committedTotal s' = committedTotal s" "sameProblem s s'"
    using same by (simp_all add: sameCommitted_def)
  let ?mc = "mc\<lparr>mc_expressionTree := ?e\<lparr>et_metricsMap := mm\<rparr>, mc_domainFaultMap := faults\<rparr>"
  have "mc_canaryMoves fuel C K (mc, s) = Inr (?mc, s')"
    using run by (simp add: mc_canaryMoves_def cfg(1,2))
  moreover have "metric_ok row C ?mc"
    using cfg cap counted_same [OF same cnt] by (simp add: metric_ok_def)
  moreover have "metric_ok row (addMovements K C) (mc_commitMoves ?mc)"
    using cfg cap counted_commit [OF oks, of "et_assignmentTree ?e" ?w "addMovements K C" ?f] vals
    by (simp add: metric_ok_def mc_commitMoves_def expr_commitMoves_def)
  moreover have "metric_objective row ?mc = metric_objective row mc"
    "metric_objective row (mc_commitMoves ?mc) = metric_objective row mc"
    by (simp_all add: metric_objective_def [abs_def] mc_commitMoves_def expr_commitMoves_def)
  ultimately show ?thesis
    using frame total unfolding metric_objective_def [of row mc] by (intro exI [of _ ?mc] exI [of _ s']) simp
qed

text \<open>One canary under any consistency, from committed values whose charges are recorded.\<close>

lemma drain_canary_values:
  assumes dc: "drain_recorded dc" and s: "two_domains s" "ss_movementMap s = Some m" "\<And>i. getNextBin m i = None"
    and mv: "movable (et_assignmentTree (dc_expressionTree dc)) C K" and fuel: "0 < fuel"
  shows "\<exists>dc' s'. dc_canaryMoves fuel C K (dc, s) = Inr (dc', s') \<and>
     sameProblem s s' \<and> committedTotal s' = committedTotal s \<and>
     totalOf s' = totalOf s + drain_charge (dc_commitMoves dc') - drain_charge dc \<and>
     drain_recorded dc' \<and> drain_value dc' = drain_value dc \<and> drain_recorded (dc_commitMoves dc') \<and>
     (\<forall>b. hasNode (et_assignmentTree (dc_expressionTree dc)) 1 b \<longrightarrow>
        drain_value (dc_commitMoves dc') b = drain_value dc b + recount (dc_consistency dc)
          (arrivals (\<lambda>_. 1) K b) (departures (\<lambda>_. 1) (et_assignmentTree (dc_expressionTree dc)) K b))"
proof -
  let ?e = "dc_expressionTree dc" and ?f = "\<lambda>v. dc_weight (dc_faultWeight dc) (i64_of_i32 v)"
  have cfg: "dc_domain dc = 1" "counter_tree (et_assignmentTree ?e)"
    and rec: "recorded ?f (et_assignmentTree ?e) (et_metricsMap ?e) (dc_domainFaultMap dc)"
    using dc by (simp_all add: drain_recorded_def)
  note t = counter_treeD [OF cfg(2)]
  obtain mm faults s' where
    run: "expr_canaryMoves fuel (dc_calculate (dc_consistency dc) 1 (dc_faultWeight dc)) s C K
        (?e, (cm_clear (dc_domainFaultMap dc), s)) = Inr (?e\<lparr>et_metricsMap := mm\<rparr>, (faults, s'))"
    and same: "sameCommitted (et_metricsMap ?e, (dc_domainFaultMap dc, s)) (mm, (faults, s'))"
    and vals: "\<And>b. hasNode (et_assignmentTree ?e) 1 b \<Longrightarrow>
        binValue mm b = committedValue (et_metricsMap ?e) b + recount (dc_consistency dc)
          (arrivals (\<lambda>_. 1) K b) (departures (\<lambda>_. 1) (et_assignmentTree ?e) K b) \<and>
        weight_or0 (cm_get faults b) = ?f (binValue mm b)"
    and total: "totalOf s' = totalOf s + (\<Sum>b | hasNode (et_assignmentTree ?e) 1 b. ?f (binValue mm b))
       - (\<Sum>b | hasNode (et_assignmentTree ?e) 1 b. ?f (committedValue (et_metricsMap ?e) b))"
    using drain.canary_values [OF t(1,2,4) s mv _ rec fuel] by blast
  have oks: "cm2_ok mm" "cm_ok faults"
    using same rec by (simp_all add: sameCommitted_def recorded_def)
  let ?dc = "dc\<lparr>dc_expressionTree := ?e\<lparr>et_metricsMap := mm\<rparr>, dc_domainFaultMap := faults\<rparr>"
  have new: "drain_value (dc_commitMoves ?dc) b = binValue mm b" for b
    by (simp add: drain_value_def dc_commitMoves_def expr_commitMoves_def committedValue_commit [OF oks(1)])
  have "dc_canaryMoves fuel C K (dc, s) = Inr (?dc, s')"
    using run by (simp add: dc_canaryMoves_def cfg(1))
  moreover have "drain_recorded ?dc" "drain_value ?dc = drain_value dc"
    using cfg recorded_same [OF same rec] by (simp_all add: drain_recorded_def drain_value_def [abs_def])
  moreover have "drain_recorded (dc_commitMoves ?dc)"
    using cfg recorded_commit [OF oks, of "et_assignmentTree ?e" ?f] vals
    by (simp add: drain_recorded_def dc_commitMoves_def expr_commitMoves_def)
  moreover have "drain_charge (dc_commitMoves ?dc) = (\<Sum>b | hasNode (et_assignmentTree ?e) 1 b. ?f (binValue mm b))"
    unfolding drain_charge_def new by (simp add: dc_commitMoves_def expr_commitMoves_def)
  moreover have "drain_charge dc = (\<Sum>b | hasNode (et_assignmentTree ?e) 1 b. ?f (committedValue (et_metricsMap ?e) b))"
    by (simp add: drain_charge_def drain_value_def)
  moreover have "drain_value (dc_commitMoves ?dc) b = drain_value dc b + recount (dc_consistency dc)
      (arrivals (\<lambda>_. 1) K b) (departures (\<lambda>_. 1) (et_assignmentTree ?e) K b)"
    if "hasNode (et_assignmentTree ?e) 1 b" for b
    unfolding new using vals [OF that] by (simp add: drain_value_def)
  ultimately show ?thesis
    using same total unfolding sameCommitted_def by (intro exI [of _ ?dc] exI [of _ s']) simp
qed

lemma metric_canary_values:
  assumes mc: "metric_recorded mc" and s: "two_domains s" "ss_movementMap s = Some m" "\<And>i. getNextBin m i = None"
    and row: "metricVectors s \<noteq> []" "hd (metricVectors s) = row"
    and mv: "movable (et_assignmentTree (mc_expressionTree mc)) C K"
    and sh: "\<forall>i \<in> dom (getNextBin K). i < length row" and fuel: "0 < fuel"
  shows "\<exists>mc' s'. mc_canaryMoves fuel C K (mc, s) = Inr (mc', s') \<and>
     sameProblem s s' \<and> committedTotal s' = committedTotal s \<and>
     totalOf s' = totalOf s + metric_charge (mc_commitMoves mc') - metric_charge mc \<and>
     metric_recorded mc' \<and> metric_value mc' = metric_value mc \<and> metric_recorded (mc_commitMoves mc') \<and>
     (\<forall>b. hasNode (et_assignmentTree (mc_expressionTree mc)) 1 b \<longrightarrow>
        metric_value (mc_commitMoves mc') b = metric_value mc b + recount (mc_consistency mc)
          (arrivals (\<lambda>i. row ! i) K b) (departures (\<lambda>i. row ! i) (et_assignmentTree (mc_expressionTree mc)) K b))"
proof -
  let ?e = "mc_expressionTree mc" and ?w = "\<lambda>i. row ! i"
  let ?f = "\<lambda>v. mc_weight (mc_capacity mc) (mc_faultWeight mc) (i64_of_i32 v)"
  have cfg: "mc_domain mc = 1" "counter_tree (et_assignmentTree ?e)"
    and rec: "recorded ?f (et_assignmentTree ?e) (et_metricsMap ?e) (mc_domainFaultMap mc)"
    using mc by (simp_all add: metric_recorded_def)
  note t = counter_treeD [OF cfg(2)]
  have ok: "two_domains s \<and> metricVectors s \<noteq> [] \<and> hd (metricVectors s) = row" using s row by simp
  obtain mm faults s' where
    run: "expr_canaryMoves fuel (mc_calculate (mc_consistency mc) 1 (mc_metric mc) (mc_capacity mc) (mc_faultWeight mc)) s C K
        (?e, (cm_clear (mc_domainFaultMap mc), s)) = Inr (?e\<lparr>et_metricsMap := mm\<rparr>, (faults, s'))"
    and same: "sameCommitted (et_metricsMap ?e, (mc_domainFaultMap mc, s)) (mm, (faults, s'))"
    and vals: "\<And>b. hasNode (et_assignmentTree ?e) 1 b \<Longrightarrow>
        binValue mm b = committedValue (et_metricsMap ?e) b + recount (mc_consistency mc)
          (arrivals ?w K b) (departures ?w (et_assignmentTree ?e) K b) \<and>
        weight_or0 (cm_get faults b) = ?f (binValue mm b)"
    and total: "totalOf s' = totalOf s + (\<Sum>b | hasNode (et_assignmentTree ?e) 1 b. ?f (binValue mm b))
       - (\<Sum>b | hasNode (et_assignmentTree ?e) 1 b. ?f (committedValue (et_metricsMap ?e) b))"
    using metric.canary_values [OF t(1,2,4) ok s(2,3) mv sh rec fuel] by blast
  have oks: "cm2_ok mm" "cm_ok faults"
    using same rec by (simp_all add: sameCommitted_def recorded_def)
  let ?mc = "mc\<lparr>mc_expressionTree := ?e\<lparr>et_metricsMap := mm\<rparr>, mc_domainFaultMap := faults\<rparr>"
  have new: "metric_value (mc_commitMoves ?mc) b = binValue mm b" for b
    by (simp add: metric_value_def mc_commitMoves_def expr_commitMoves_def committedValue_commit [OF oks(1)])
  have "mc_canaryMoves fuel C K (mc, s) = Inr (?mc, s')"
    using run by (simp add: mc_canaryMoves_def cfg(1))
  moreover have "metric_recorded ?mc" "metric_value ?mc = metric_value mc"
    using cfg recorded_same [OF same rec] by (simp_all add: metric_recorded_def metric_value_def [abs_def])
  moreover have "metric_recorded (mc_commitMoves ?mc)"
    using cfg recorded_commit [OF oks, of "et_assignmentTree ?e" ?f] vals
    by (simp add: metric_recorded_def mc_commitMoves_def expr_commitMoves_def)
  moreover have "metric_charge (mc_commitMoves ?mc) = (\<Sum>b | hasNode (et_assignmentTree ?e) 1 b. ?f (binValue mm b))"
    unfolding metric_charge_def new by (simp add: mc_commitMoves_def expr_commitMoves_def)
  moreover have "metric_charge mc = (\<Sum>b | hasNode (et_assignmentTree ?e) 1 b. ?f (committedValue (et_metricsMap ?e) b))"
    by (simp add: metric_charge_def metric_value_def)
  moreover have "metric_value (mc_commitMoves ?mc) b = metric_value mc b + recount (mc_consistency mc)
      (arrivals ?w K b) (departures ?w (et_assignmentTree ?e) K b)"
    if "hasNode (et_assignmentTree ?e) 1 b" for b
    unfolding new using vals [OF that] by (simp add: metric_value_def)
  ultimately show ?thesis
    using same total unfolding sameCommitted_def by (intro exI [of _ ?mc] exI [of _ s']) simp
qed

text \<open>And with a null movement map.\<close>

lemma fault_canary_null:
  assumes "two_domains s" and "ss_movementMap s = None" and "getNextBin K \<noteq> Map.empty"
  shows "shardDomain (et_assignmentTree (dc_expressionTree dc)) = 0 \<Longrightarrow> dc_canaryMoves fuel C K (dc, s) = Inl NullDeref"
    and "shardDomain (et_assignmentTree (mc_expressionTree mc)) = 0 \<Longrightarrow> mc_canaryMoves fuel C K (mc, s) = Inl NullDeref"
  by (simp_all add: dc_canaryMoves_def mc_canaryMoves_def canary_null [OF assms(1,2) _ assms(3)])

lemma counter_tree_shards: "counter_tree t \<Longrightarrow> shardDomain t = 0"
  by (simp add: counter_tree_def std_tree_def)

section \<open>Construction\<close>

lemma enumerated_counter_tree:
  assumes "counter_tree t"
  shows "counter_tree (snd (getAllDomainIds 0 t))"
  using assms enumerated_tree [OF counter_treeD(1,3) [OF assms]] by (simp add: counter_tree_def)

lemma drain_new_values:
  assumes t: "two_level (assignmentTree s)" and s: "two_domains s" "ss_movementMap s = Some m" "\<And>i. getNextBin m i = None"
    and ids: "ids \<noteq> []" and fuel: "0 < fuel"
  shows "\<exists>dc s'. newDrainConstraint fuel c 1 ids faultWeight s = Inr (dc, s') \<and>
     dc_consistency dc = c \<and> dc_faultWeight dc = faultWeight \<and> drain_recorded dc \<and>
     sameProblem s s' \<and> committedTotal s' = totalOf s' \<and> totalOf s' = totalOf s + drain_charge dc \<and>
     (\<forall>b. hasNode (et_assignmentTree (dc_expressionTree dc)) 1 b \<longleftrightarrow> b \<in> set ids) \<and>
     (\<forall>b. mappedChildren (et_assignmentTree (dc_expressionTree dc)) 1 b =
        (if b \<in> set ids then mappedChildren (assignmentTree s) 1 b else [])) \<and>
     (\<forall>b \<in> set ids. drain_value dc b =
        firstCount c (load (\<lambda>_. 1) (et_assignmentTree (dc_expressionTree dc)) emptyMovementMap b))"
proof -
  let ?w = "\<lambda>_ :: DomainId. 1 :: i32" and ?f = "\<lambda>v. dc_weight faultWeight (i64_of_i32 v)"
  obtain r where r: "createPartialTree (assignmentTree s) 1 ids = Some r" "counter_tree r" "rows_distinct r"
    "\<And>b. hasNode r 1 b \<longleftrightarrow> b \<in> set ids"
    "\<And>b. mappedChildren r 1 b = (if b \<in> set ids then mappedChildren (assignmentTree s) 1 b else [])"
    using partial_bin_tree [OF t ids] by metis
  let ?u = "snd (getAllDomainIds 0 r)"
  note rt = counter_treeD [OF r(2)]
  note u = enumerated_tree [OF rt(1,3)]
  obtain mm faults s' where
    run: "newExpressionTree fuel (dc_calculate c 1 faultWeight) s r (cm_empty, s) =
       Inr (\<lparr>et_assignmentTree = ?u, et_metricsMap = mm\<rparr>, (faults, s'))"
    and same: "sameCommitted (cm2_empty, (cm_empty, s)) (mm, (faults, s'))"
    and vals: "\<And>b. hasNode r 1 b \<Longrightarrow> binValue mm b = firstCount c (load ?w r emptyMovementMap b) \<and>
        weight_or0 (cm_get faults b) = ?f (firstCount c (load ?w r emptyMovementMap b))"
    and total: "totalOf s' = totalOf s + (\<Sum>b | hasNode r 1 b. ?f (firstCount c (load ?w r emptyMovementMap b)))"
    using drain.initial_state [OF rt(1,2,3) r(3) rt(4) s _ drain_zero fuel] by blast
  have oks: "cm2_ok mm" "cm_ok faults" using same by (simp_all add: sameCommitted_def)
  let ?dc = "dc_commitMoves \<lparr>dc_consistency = c, dc_domain = 1, dc_metric = kShardCountMetric,
      dc_faultWeight = faultWeight, dc_expressionTree = \<lparr>et_assignmentTree = ?u, et_metricsMap = mm\<rparr>,
      dc_domainFaultMap = faults\<rparr>"
  have tree: "et_assignmentTree (dc_expressionTree ?dc) = ?u"
    by (simp add: dc_commitMoves_def expr_commitMoves_def)
  have val: "drain_value ?dc b = binValue mm b" for b
    by (simp add: drain_value_def dc_commitMoves_def expr_commitMoves_def committedValue_commit [OF oks(1)])
  have "newDrainConstraint fuel c 1 ids faultWeight s = Inr (?dc, commitWeights s')"
    using run r(1) by (simp add: newDrainConstraint_def)
  moreover have "drain_recorded ?dc"
    using recorded_commit [OF oks, of ?u ?f] vals enumerated_counter_tree [OF r(2)]
    by (simp add: drain_recorded_def dc_commitMoves_def expr_commitMoves_def u)
  moreover have "drain_charge ?dc = (\<Sum>b | hasNode r 1 b. ?f (firstCount c (load ?w r emptyMovementMap b)))"
    unfolding drain_charge_def val tree u
    using vals by (intro sum.cong) (simp_all add: dc_commitMoves_def)
  then have "totalOf (commitWeights s') = totalOf s + drain_charge ?dc" using total by simp
  moreover have "sameProblem s (commitWeights s')"
    using same sameProblem_trans by (auto simp: sameCommitted_def)
  moreover have "drain_value ?dc b = firstCount c (load ?w ?u emptyMovementMap b)" if "b \<in> set ids" for b
    unfolding val u using vals that r(4) by simp
  ultimately show ?thesis
    using r(4,5) tree u by (intro exI [of _ ?dc] exI [of _ "commitWeights s'"] conjI) (simp_all add: dc_commitMoves_def)
qed

lemma drain_new:
  assumes t: "two_level (assignmentTree s)" and s: "searchable s" and ids: "ids \<noteq> []" and fuel: "0 < fuel"
  shows "\<exists>dc s'. newDrainConstraint fuel AFTER 1 ids faultWeight s = Inr (dc, s') \<and>
     totalOf s' = totalOf s + drain_objective dc emptyMovementMap \<and> committedTotal s' = totalOf s' \<and>
     sameProblem s s' \<and> drain_ok emptyMovementMap dc \<and> dc_faultWeight dc = faultWeight \<and>
     (\<forall>b. hasNode (et_assignmentTree (dc_expressionTree dc)) 1 b \<longleftrightarrow> b \<in> set ids) \<and>
     (\<forall>b. mappedChildren (et_assignmentTree (dc_expressionTree dc)) 1 b =
        (if b \<in> set ids then mappedChildren (assignmentTree s) 1 b else []))"
proof -
  obtain m where m: "ss_shardDomain s = 0" "ss_binDomain s = 1" "ss_movementMap s = Some m"
    "\<And>i. getNextBin m i = None" using searchableE [OF s] by blast
  then have dom: "two_domains s" by (simp add: two_domains_def)
  obtain dc s' where new: "newDrainConstraint fuel AFTER 1 ids faultWeight s = Inr (dc, s')"
    "dc_consistency dc = AFTER" "dc_faultWeight dc = faultWeight" "drain_recorded dc" "sameProblem s s'"
    "committedTotal s' = totalOf s'" "totalOf s' = totalOf s + drain_charge dc"
    and node: "\<forall>b. hasNode (et_assignmentTree (dc_expressionTree dc)) 1 b \<longleftrightarrow> b \<in> set ids"
    and kids: "\<forall>b. mappedChildren (et_assignmentTree (dc_expressionTree dc)) 1 b =
        (if b \<in> set ids then mappedChildren (assignmentTree s) 1 b else [])"
    and val: "\<forall>b \<in> set ids. drain_value dc b =
        firstCount AFTER (load (\<lambda>_. 1) (et_assignmentTree (dc_expressionTree dc)) emptyMovementMap b)"
    using drain_new_values [OF t dom m(3,4) ids fuel, of AFTER faultWeight] by blast
  have "drain_ok emptyMovementMap dc"
    using new(2,4) node val unfolding drain_ok_def drain_recorded_def recorded_def counted_def
    by (simp add: drain_value_def committedValue_def)
  moreover have "drain_charge dc = drain_objective dc emptyMovementMap"
    unfolding drain_charge_def drain_objective_def totalFault_def using node val by (intro sum.cong) auto
  ultimately show ?thesis using new node kids by (intro exI [of _ dc] exI [of _ s']) simp
qed

lemma metric_new:
  assumes t: "two_level (assignmentTree s)" and s: "measured row s" and ids: "ids \<noteq> []"
    and cap: "0 \<le> sint capacity" and fuel: "0 < fuel"
    and sh: "\<forall>b \<in> set ids. \<forall>i \<in> set (mappedChildren (assignmentTree s) 1 b). i < length row"
  shows "\<exists>mc s'. newMetricConstraint fuel AFTER 1 ids metric capacity faultWeight s = Inr (mc, s') \<and>
     totalOf s' = totalOf s + metric_objective row mc emptyMovementMap \<and> committedTotal s' = totalOf s' \<and>
     sameProblem s s' \<and> metric_ok row emptyMovementMap mc \<and>
     mc_capacity mc = capacity \<and> mc_faultWeight mc = faultWeight \<and>
     (\<forall>b. hasNode (et_assignmentTree (mc_expressionTree mc)) 1 b \<longleftrightarrow> b \<in> set ids) \<and>
     (\<forall>b. mappedChildren (et_assignmentTree (mc_expressionTree mc)) 1 b =
        (if b \<in> set ids then mappedChildren (assignmentTree s) 1 b else []))"
proof -
  let ?w = "\<lambda>i. row ! i" and ?f = "\<lambda>v. mc_weight capacity faultWeight (i64_of_i32 v)"
  obtain r where r: "createPartialTree (assignmentTree s) 1 ids = Some r" "counter_tree r" "rows_distinct r"
    "\<And>b. hasNode r 1 b \<longleftrightarrow> b \<in> set ids"
    "\<And>b. mappedChildren r 1 b = (if b \<in> set ids then mappedChildren (assignmentTree s) 1 b else [])"
    using partial_bin_tree [OF t ids] by metis
  let ?u = "snd (getAllDomainIds 0 r)"
  note rt = counter_treeD [OF r(2)]
  note u = enumerated_tree [OF rt(1,3)]
  obtain m where m: "ss_shardDomain s = 0" "ss_binDomain s = 1" "ss_movementMap s = Some m"
    "\<And>i. getNextBin m i = None" using s searchableE unfolding measured_def by blast
  have ok: "two_domains s \<and> metricVectors s \<noteq> [] \<and> hd (metricVectors s) = row"
    using m s by (simp add: measured_def two_domains_def)
  have sh': "\<forall>b. \<forall>i \<in> set (mappedChildren r 1 b). i < length row"
    using sh unfolding r(5) by auto
  obtain mm faults s' where
    run: "newExpressionTree fuel (mc_calculate AFTER 1 metric capacity faultWeight) s r (cm_empty, s) =
       Inr (\<lparr>et_assignmentTree = ?u, et_metricsMap = mm\<rparr>, (faults, s'))"
    and same: "sameCommitted (cm2_empty, (cm_empty, s)) (mm, (faults, s'))"
    and vals: "\<And>b. hasNode r 1 b \<Longrightarrow> binValue mm b = load ?w r emptyMovementMap b \<and>
        weight_or0 (cm_get faults b) = ?f (load ?w r emptyMovementMap b)"
    and total: "totalOf s' = totalOf s + totalFault ?w ?f r emptyMovementMap"
    using metric.initial_state [where c = AFTER, OF rt(1,2,3) r(3) rt(4) ok m(3,4) sh' metric_zero [OF cap] fuel]
    unfolding totalFault_def firstCount.simps by blast
  have oks: "cm2_ok mm" "cm_ok faults" using same by (simp_all add: sameCommitted_def)
  let ?mc = "mc_commitMoves \<lparr>mc_consistency = AFTER, mc_domain = 1, mc_metric = metric,
      mc_capacity = capacity, mc_faultWeight = faultWeight,
      mc_expressionTree = \<lparr>et_assignmentTree = ?u, et_metricsMap = mm\<rparr>, mc_domainFaultMap = faults\<rparr>"
  have tree: "et_assignmentTree (mc_expressionTree ?mc) = ?u"
    by (simp add: mc_commitMoves_def expr_commitMoves_def)
  have "newMetricConstraint fuel AFTER 1 ids metric capacity faultWeight s = Inr (?mc, commitWeights s')"
    using run r(1) by (simp add: newMetricConstraint_def)
  moreover have "counted ?w ?f ?u emptyMovementMap (cm2_commit mm) (cm_commit faults)"
    using counted_commit [OF oks, of ?u ?w emptyMovementMap ?f] vals by (simp add: u)
  then have "metric_ok row emptyMovementMap ?mc"
    using enumerated_counter_tree [OF r(2)] cap
    by (simp add: metric_ok_def mc_commitMoves_def expr_commitMoves_def)
  moreover have "totalOf (commitWeights s') = totalOf s + metric_objective row ?mc emptyMovementMap"
    using total by (simp add: metric_objective_def mc_commitMoves_def expr_commitMoves_def u)
  moreover have "sameProblem s (commitWeights s')"
    using same sameProblem_trans by (auto simp: sameCommitted_def)
  ultimately show ?thesis
    using r(4,5) tree u by (intro exI [of _ ?mc] exI [of _ "commitWeights s'"] conjI) (simp_all add: mc_commitMoves_def)
qed

text \<open>With a null movement map the constructors dereference it at the first shard they count.\<close>

lemma constructors_null:
  assumes t: "two_level (assignmentTree s)" and s: "two_domains s" "ss_movementMap s = None"
    and ids: "ids \<noteq> []"
  shows "(\<exists>b \<in> set ids. mappedChildren (assignmentTree s) 1 b \<noteq> []) \<longrightarrow>
     newDrainConstraint fuel c 1 ids faultWeight s = Inl NullDeref"
    and "(\<exists>b \<in> set ids. mappedChildren (assignmentTree s) 1 b \<noteq> []) \<longrightarrow>
     newMetricConstraint fuel c 1 ids metric capacity faultWeight s = Inl NullDeref"
proof -
  obtain r where r: "createPartialTree (assignmentTree s) 1 ids = Some r" "counter_tree r"
    "\<And>b. mappedChildren r 1 b = (if b \<in> set ids then mappedChildren (assignmentTree s) 1 b else [])"
    using partial_bin_tree [OF t ids] by metis
  note rt = counter_treeD [OF r(2)]
  have "newExpressionTree fuel calc s r x = Inl NullDeref"
    if b: "b \<in> set ids" "mappedChildren (assignmentTree s) 1 b \<noteq> []"
    for b and calc :: "fault_env calc_func" and x
  proof -
    obtain i where "i \<in> set (mappedChildren r 1 b)"
      using r(3) [of b] b by (metis list.set_intros(1) neq_Nil_conv)
    then have "treeParents r 0 i \<noteq> []"
      using treeBins_kids [OF rt(1,2), of b i] bin_tree_below [OF rt(1), of i] by auto
    then have "i \<in> set (fst (getAllDomainIds 0 r))" by (rule getAllDomainIds_parent [OF rt(3)])
    then obtain j js where "fst (getAllDomainIds 0 r) = j # js" by (cases "fst (getAllDomainIds 0 r)") auto
    moreover have "shardDomain (snd (getAllDomainIds 0 r)) = 0"
      using enumerated_tree(1) [OF rt(1,3)] by (simp add: std_tree_def)
    ultimately show ?thesis
      using getParents_null [of "snd (getAllDomainIds 0 r)" j "[]"] s
      by (cases "getAllDomainIds 0 r")
        (simp add: newExpressionTree_def initializeMetricState_def collectUpdates_def two_domains_def)
  qed
  then show "(\<exists>b \<in> set ids. mappedChildren (assignmentTree s) 1 b \<noteq> []) \<longrightarrow>
     newDrainConstraint fuel c 1 ids faultWeight s = Inl NullDeref"
    "(\<exists>b \<in> set ids. mappedChildren (assignmentTree s) 1 b \<noteq> []) \<longrightarrow>
     newMetricConstraint fuel c 1 ids metric capacity faultWeight s = Inl NullDeref"
    unfolding newDrainConstraint_def newMetricConstraint_def r(1) by auto
qed

section \<open>Properties\<close>

text \<open>C4: Evaluating canaried moves of a drain constraint over bins, under any of the four
  consistencies and in any state. With a null movement map, which is how the program leaves it,
  the first moved shard dereferences it. With a movement map that moves nothing the
  evaluation returns and changes nothing committed; the value it computes for a bin is the
  committed one, plus the arriving and minus the leaving shards under AFTER, the reverse
  under BEFORE, and plus both under BOTH and DURING; the total changes by the charges of the
  values; and committing makes these values the committed ones. Under AFTER, a constraint that
  describes the assignment after the moves of \<open>C\<close> goes on describing it, describes the assignment
  after the canaried moves when committed, and the total moves from the one's charge to the
  other's, both computed from scratch.\<close>

theorem drain_incremental:
  assumes dc: "drain_recorded dc" and s: "two_domains s"
    and mv: "movable (et_assignmentTree (dc_expressionTree dc)) C K" and fuel: "0 < fuel"
  shows "case ss_movementMap s of
      None \<Rightarrow> getNextBin K \<noteq> Map.empty \<longrightarrow> dc_canaryMoves fuel C K (dc, s) = Inl NullDeref
    | Some m \<Rightarrow> getNextBin m = Map.empty \<longrightarrow>
        (\<exists>dc' s'. dc_canaryMoves fuel C K (dc, s) = Inr (dc', s') \<and>
           sameProblem s s' \<and> committedTotal s' = committedTotal s \<and>
           totalOf s' = totalOf s + drain_charge (dc_commitMoves dc') - drain_charge dc \<and>
           drain_recorded dc' \<and> drain_value dc' = drain_value dc \<and> drain_recorded (dc_commitMoves dc') \<and>
           (\<forall>b. hasNode (et_assignmentTree (dc_expressionTree dc)) 1 b \<longrightarrow>
              drain_value (dc_commitMoves dc') b = drain_value dc b + recount (dc_consistency dc)
                (of_nat (card {i. getNextBin K i = Some b}))
                (of_nat (card {i \<in> set (mappedChildren (et_assignmentTree (dc_expressionTree dc)) 1 b).
                   getNextBin K i \<noteq> None}))) \<and>
           (drain_ok C dc \<longrightarrow> drain_ok C dc' \<and> drain_ok (addMovements K C) (dc_commitMoves dc') \<and>
              totalOf s' = totalOf s + drain_objective dc (addMovements K C) - drain_objective dc C))"
proof (cases "ss_movementMap s")
  case None
  then show ?thesis
    using fault_canary_null(1) [OF s None] dc by (simp add: drain_recorded_def counter_tree_shards)
next
  case (Some m)
  have "\<exists>dc' s'. dc_canaryMoves fuel C K (dc, s) = Inr (dc', s') \<and> drain_ok C dc' \<and>
      drain_ok (addMovements K C) (dc_commitMoves dc') \<and>
      totalOf s' = totalOf s + drain_objective dc (addMovements K C) - drain_objective dc C"
    if "getNextBin m = Map.empty" "drain_ok C dc"
    using drain_canary [OF that(2) _ mv fuel, of s] that(1) s Some by (auto simp: searchable_def)
  then show ?thesis
    using drain_canary_values [OF dc s Some _ mv fuel] Some
    unfolding arrivals_ones departures_ones by (fastforce split del: if_split)
qed

definition exampleMapping :: "DomainId list list list" where
  "exampleMapping = [[[0, 1, 5], [2, 3, 6]]]"

definition exampleState :: solving_state where
  "exampleState =
     (newSolvingState [] [[4, 5, 6, 7, 8, 9, 10]] exampleMapping)\<lparr>ss_movementMap := Some emptyMovementMap\<rparr>"

lemma exampleState_facts:
  "two_level (assignmentTree exampleState)" "searchable exampleState"
  "measured [4, 5, 6, 7, 8, 9, 10] exampleState" "totalOf exampleState = 0"
  "mappedChildren (assignmentTree exampleState) 1 b = (if b = 0 then [0, 1, 5] else if b = 1 then [2, 3, 6] else [])"
  using two_level_new [of exampleMapping "[]" "[[4, 5, 6, 7, 8, 9, 10]]"]
    newSolvingState_kids [of "[]" "[[4, 5, 6, 7, 8, 9, 10]]" exampleMapping b]
  by (auto simp: exampleState_def exampleMapping_def searchable_def two_domains_def measured_def totalOf_def
      emptyBinWeightInfo_def ck_empty_def ck_get_def nth_Cons split: nat.splits)

lemma example_rows:
  "\<forall>b \<in> set ids. \<forall>i \<in> set (mappedChildren (assignmentTree exampleState) 1 b).
     i < length [4 :: i32, 5, 6, 7, 8, 9, 10]"
  using exampleState_facts(5) by (auto split: if_splits)

lemma example_movable:
  assumes "\<And>b. mappedChildren t 1 b = (if b \<in> set [0, 1] then mappedChildren (assignmentTree exampleState) 1 b else [])"
  shows "movable t emptyMovementMap (addMovement 1 1 emptyMovementMap)"
  using assms exampleState_facts(5) by (auto simp: movable_def)

theorem drain_incremental_witness:
  "\<exists>dc s dc' s'. newDrainConstraint 1 BOTH 1 [0, 1] 7 exampleState = Inr (dc, s) \<and>
     dc_canaryMoves 1 emptyMovementMap (addMovement 1 1 emptyMovementMap) (dc, s) = Inr (dc', s') \<and>
     drain_value (dc_commitMoves dc') 0 = drain_value dc 0 + 1 \<and>
     dc_canaryMoves 1 emptyMovementMap (addMovement 1 1 emptyMovementMap) (dc, s\<lparr>ss_movementMap := None\<rparr>) = Inl NullDeref"
proof -
  have m: "ss_movementMap exampleState = Some emptyMovementMap" by (simp add: exampleState_def)
  have dom: "two_domains exampleState" using exampleState_facts(2) by (simp add: searchable_def)
  obtain dc s where new: "newDrainConstraint 1 BOTH 1 [0, 1] 7 exampleState = Inr (dc, s)"
    "sameProblem exampleState s" "drain_recorded dc" "dc_consistency dc = BOTH"
    "\<And>b. hasNode (et_assignmentTree (dc_expressionTree dc)) 1 b \<longleftrightarrow> b \<in> set [0, 1]"
    "\<And>b. mappedChildren (et_assignmentTree (dc_expressionTree dc)) 1 b =
        (if b \<in> set [0, 1] then mappedChildren (assignmentTree exampleState) 1 b else [])"
    using drain_new_values [OF exampleState_facts(1) dom m, of "[0, 1]" 1 BOTH 7] by auto
  have s: "two_domains s" "ss_movementMap s = Some emptyMovementMap" "two_domains (s\<lparr>ss_movementMap := None\<rparr>)"
    using two_domains_same [OF new(2)] dom m sameProblem_fields [OF new(2)] by (simp_all add: two_domains_def)
  let ?K = "addMovement 1 1 emptyMovementMap" and ?t = "et_assignmentTree (dc_expressionTree dc)"
  note mv = example_movable [OF new(6)]
  have "{i. getNextBin ?K i = Some 0} = {}" "{i \<in> set (mappedChildren ?t 1 0). getNextBin ?K i \<noteq> None} = {1}"
    using new(6) [of 0] exampleState_facts(5) [of 0] by auto
  then have cards: "card {i. getNextBin ?K i = Some 0} = 0"
    "card {i \<in> set (mappedChildren ?t 1 0). getNextBin ?K i \<noteq> None} = 1" by simp_all
  have node: "hasNode ?t 1 0" using new(5) by simp
  obtain dc' s' where run: "dc_canaryMoves 1 emptyMovementMap ?K (dc, s) = Inr (dc', s')"
    and val: "drain_value (dc_commitMoves dc') 0 = drain_value dc 0 + recount BOTH 0 1"
    using drain_incremental [OF new(3) s(1) mv, of 1] cards node new(4) unfolding s(2) option.case
    by (auto simp del: One_nat_def)
  have "dc_canaryMoves 1 emptyMovementMap ?K (dc, s\<lparr>ss_movementMap := None\<rparr>) = Inl NullDeref"
    using drain_incremental [OF new(3) s(3) mv, of 1] by (simp add: fun_eq_iff exI [of _ "1 :: nat"])
  with run val new(1) show ?thesis by simp
qed

text \<open>C5: The same for a metric constraint over bins, under any consistency and with any capacity,
  when the moved shards have an entry in row 0 of the metric table: that row is what is added
  and subtracted, whichever metric the constraint is built for, and the charge of a bin is the
  overload of its value. The last part, for a constraint under AFTER that describes the
  assignment after the moves of \<open>C\<close>, is about capacities that are not negative.\<close>

theorem metric_incremental:
  assumes mc: "metric_recorded mc" and s: "two_domains s" "metricVectors s \<noteq> []" "hd (metricVectors s) = row"
    and mv: "movable (et_assignmentTree (mc_expressionTree mc)) C K"
    and sh: "\<forall>i \<in> dom (getNextBin K). i < length row" and fuel: "0 < fuel"
  shows "case ss_movementMap s of
      None \<Rightarrow> getNextBin K \<noteq> Map.empty \<longrightarrow> mc_canaryMoves fuel C K (mc, s) = Inl NullDeref
    | Some m \<Rightarrow> getNextBin m = Map.empty \<longrightarrow>
        (\<exists>mc' s'. mc_canaryMoves fuel C K (mc, s) = Inr (mc', s') \<and>
           sameProblem s s' \<and> committedTotal s' = committedTotal s \<and>
           totalOf s' = totalOf s + metric_charge (mc_commitMoves mc') - metric_charge mc \<and>
           metric_recorded mc' \<and> metric_value mc' = metric_value mc \<and> metric_recorded (mc_commitMoves mc') \<and>
           (\<forall>b. hasNode (et_assignmentTree (mc_expressionTree mc)) 1 b \<longrightarrow>
              metric_value (mc_commitMoves mc') b = metric_value mc b + recount (mc_consistency mc)
                (arrivals (\<lambda>i. row ! i) K b)
                (departures (\<lambda>i. row ! i) (et_assignmentTree (mc_expressionTree mc)) K b)) \<and>
           (metric_ok row C mc \<longrightarrow> metric_ok row C mc' \<and> metric_ok row (addMovements K C) (mc_commitMoves mc') \<and>
              totalOf s' = totalOf s + metric_objective row mc (addMovements K C) - metric_objective row mc C))"
proof (cases "ss_movementMap s")
  case None
  then show ?thesis
    using fault_canary_null(2) [OF s(1) None] mc by (simp add: metric_recorded_def counter_tree_shards)
next
  case (Some m)
  have "\<exists>mc' s'. mc_canaryMoves fuel C K (mc, s) = Inr (mc', s') \<and> metric_ok row C mc' \<and>
      metric_ok row (addMovements K C) (mc_commitMoves mc') \<and>
      totalOf s' = totalOf s + metric_objective row mc (addMovements K C) - metric_objective row mc C"
    if "getNextBin m = Map.empty" "metric_ok row C mc"
    using metric_canary [OF that(2) _ mv sh fuel, of s] that(1) s Some by (auto simp: searchable_def measured_def)
  then show ?thesis
    using metric_canary_values [OF mc s(1) Some _ s(2,3) mv sh fuel] Some by (fastforce split del: if_split)
qed

theorem metric_incremental_witness:
  "\<exists>mc s mc' s'. newMetricConstraint 1 AFTER 1 [0, 1] 3 20 7 exampleState = Inr (mc, s) \<and>
     mc_canaryMoves 1 emptyMovementMap (addMovement 1 1 emptyMovementMap) (mc, s) = Inr (mc', s') \<and>
     metric_ok [4, 5, 6, 7, 8, 9, 10] (addMovements (addMovement 1 1 emptyMovementMap) emptyMovementMap)
       (mc_commitMoves mc') \<and>
     mc_canaryMoves 1 emptyMovementMap (addMovement 1 1 emptyMovementMap) (mc, s\<lparr>ss_movementMap := None\<rparr>) = Inl NullDeref"
proof -
  let ?row = "[4, 5, 6, 7, 8, 9, 10] :: i32 list" and ?K = "addMovement 1 1 emptyMovementMap"
  obtain mc s where new: "newMetricConstraint 1 AFTER 1 [0, 1] 3 20 7 exampleState = Inr (mc, s)"
    "sameProblem exampleState s" "metric_ok ?row emptyMovementMap mc"
    "\<And>b. mappedChildren (et_assignmentTree (mc_expressionTree mc)) 1 b =
        (if b \<in> set [0, 1] then mappedChildren (assignmentTree exampleState) 1 b else [])"
    using metric_new [OF exampleState_facts(1,3) _ _ _ example_rows, where ids = "[0, 1]" and capacity = 20
        and fuel = 1 and metric = 3 and faultWeight = 7]
    by auto
  have m: "ss_movementMap s = Some emptyMovementMap"
    using sameProblem_fields [OF new(2)] by (simp add: exampleState_def)
  have s: "two_domains s" "metricVectors s \<noteq> []" "hd (metricVectors s) = ?row"
    "two_domains (s\<lparr>ss_movementMap := None\<rparr>)"
    using measured_same [OF exampleState_facts(3) new(2)]
    by (simp_all add: measured_def searchable_def two_domains_def)
  note rec = metric_ok_recorded [OF new(3)] and mv = example_movable [OF new(4)]
  have sh: "\<forall>i \<in> dom (getNextBin ?K). i < length ?row" by simp
  obtain mc' s' where run: "mc_canaryMoves 1 emptyMovementMap ?K (mc, s) = Inr (mc', s')"
    and ok: "metric_ok ?row (addMovements ?K emptyMovementMap) (mc_commitMoves mc')"
    using metric_incremental [OF rec s(1-3) mv sh, of 1] new(3) unfolding m option.case by auto
  have "mc_canaryMoves 1 emptyMovementMap ?K (mc, s\<lparr>ss_movementMap := None\<rparr>) = Inl NullDeref"
    using metric_incremental [OF rec s(4) _ _ mv sh, of 1] s(2,3) by (simp add: fun_eq_iff exI [of _ "1 :: nat"])
  with run ok new(1) show ?thesis by blast
qed

text \<open>C8: Constructing a drain constraint over bins of a two-level problem, under any of the four
  consistencies and in any state. With a null movement map, which is how the program leaves it,
  it dereferences it when a listed bin has a shard. With a movement map that moves nothing it
  returns; each listed bin is given the number of its shards as its value under AFTER and BOTH,
  and minus that number under BEFORE and DURING; and the total grows by the fault weight times
  these values, which is committed.\<close>

theorem drain_constructed:
  assumes t: "two_level (assignmentTree s)" and s: "two_domains s" and ids: "ids \<noteq> []" and fuel: "0 < fuel"
  shows "case ss_movementMap s of
      None \<Rightarrow> (\<exists>b \<in> set ids. mappedChildren (assignmentTree s) 1 b \<noteq> []) \<longrightarrow>
        newDrainConstraint fuel c 1 ids faultWeight s = Inl NullDeref
    | Some m \<Rightarrow> getNextBin m = Map.empty \<longrightarrow>
        (\<exists>dc s'. newDrainConstraint fuel c 1 ids faultWeight s = Inr (dc, s') \<and>
           drain_recorded dc \<and> sameProblem s s' \<and>
           (\<forall>b \<in> set ids. drain_value dc b =
              firstCount c (of_nat (card (set (mappedChildren (assignmentTree s) 1 b))))) \<and>
           committedTotal s' = totalOf s' \<and>
           totalOf s' = totalOf s + (\<Sum>b \<in> set ids. dc_weight faultWeight
             (i64_of_i32 (firstCount c (of_nat (card (set (mappedChildren (assignmentTree s) 1 b))))))))"
proof (cases "ss_movementMap s")
  case None
  then show ?thesis using constructors_null [OF t s None ids] by simp
next
  case (Some m)
  have "\<exists>dc s'. newDrainConstraint fuel c 1 ids faultWeight s = Inr (dc, s') \<and>
       drain_recorded dc \<and> sameProblem s s' \<and>
       (\<forall>b \<in> set ids. drain_value dc b =
          firstCount c (of_nat (card (set (mappedChildren (assignmentTree s) 1 b))))) \<and>
       committedTotal s' = totalOf s' \<and>
       totalOf s' = totalOf s + (\<Sum>b \<in> set ids. dc_weight faultWeight
         (i64_of_i32 (firstCount c (of_nat (card (set (mappedChildren (assignmentTree s) 1 b)))))))"
    if idle: "getNextBin m = Map.empty"
  proof -
    obtain dc s' where new: "newDrainConstraint fuel c 1 ids faultWeight s = Inr (dc, s')"
      "dc_faultWeight dc = faultWeight" "drain_recorded dc" "sameProblem s s'"
      "committedTotal s' = totalOf s'" "totalOf s' = totalOf s + drain_charge dc"
      and node: "\<forall>b. hasNode (et_assignmentTree (dc_expressionTree dc)) 1 b \<longleftrightarrow> b \<in> set ids"
      and kids: "\<forall>b. mappedChildren (et_assignmentTree (dc_expressionTree dc)) 1 b =
          (if b \<in> set ids then mappedChildren (assignmentTree s) 1 b else [])"
      and val: "\<forall>b \<in> set ids. drain_value dc b =
          firstCount c (load (\<lambda>_. 1) (et_assignmentTree (dc_expressionTree dc)) emptyMovementMap b)"
      using drain_new_values [OF t s Some _ ids fuel, of c faultWeight] idle by auto
    have load: "load (\<lambda>_. 1) (et_assignmentTree (dc_expressionTree dc)) emptyMovementMap b =
        of_nat (card (set (mappedChildren (assignmentTree s) 1 b)))" if "b \<in> set ids" for b
      using kids that by (simp add: load_def located_def)
    have "drain_charge dc = (\<Sum>b \<in> set ids. dc_weight faultWeight
         (i64_of_i32 (firstCount c (of_nat (card (set (mappedChildren (assignmentTree s) 1 b)))))))"
      unfolding drain_charge_def new(2) using node val load by (intro sum.cong) auto
    with new val load show ?thesis by auto
  qed
  then show ?thesis using Some by simp
qed

theorem drain_constructed_witness:
  "(\<exists>dc s'. newDrainConstraint 1 AFTER 1 [0, 1] 7 exampleState = Inr (dc, s') \<and> totalOf s' = 42) \<and>
   (\<exists>dc s'. newDrainConstraint 1 BEFORE 1 [0, 1] 7 exampleState = Inr (dc, s') \<and> totalOf s' = - 42)"
proof -
  have s: "two_domains exampleState" "ss_movementMap exampleState = Some emptyMovementMap"
    using exampleState_facts(2) by (simp_all add: searchable_def exampleState_def)
  have c: "card {0 :: nat, 1, 5} = 3" "card {2 :: nat, 3, 6} = 3" by simp_all
  have w: "dc_weight 7 (i64_of_i32 3) = 21" "dc_weight 7 (i64_of_i32 (- 3)) = - 21" by code_simp+
  show ?thesis
    using drain_constructed [OF exampleState_facts(1) s(1), of "[0, 1]" 1 AFTER 7]
      drain_constructed [OF exampleState_facts(1) s(1), of "[0, 1]" 1 BEFORE 7]
    unfolding s(2) option.case
    by (auto simp: exampleState_facts [unfolded One_nat_def] c [unfolded One_nat_def] w)
qed

text \<open>C10: In a state as the constructor of \<open>SolvingState\<close> leaves it, the movement map is null,
  and building a drain or a metric constraint over a bin that has a shard dereferences it,
  whatever the consistency.\<close>

theorem constraints_need_movement_map:
  fixes si ms dm
  defines "s \<equiv> newSolvingState si ms dm"
  assumes dist: "\<forall>level \<in> set dm. distinct (concat level)" and dm: "dm \<noteq> []" "b < length (hd dm)" "hd dm ! b \<noteq> []"
    and b: "b \<in> set ids"
  shows "newDrainConstraint fuel c 1 ids faultWeight s = Inl NullDeref \<and>
     newMetricConstraint fuel c 1 ids metric capacity faultWeight s = Inl NullDeref"
proof -
  have t: "two_level (assignmentTree s)"
    unfolding s_def by (rule two_level_new [OF dist dm(1)]) (use dm(2) in auto)
  have "ids \<noteq> []" using b by auto
  moreover have "mappedChildren (assignmentTree s) 1 b \<noteq> []"
    using dm newSolvingState_kids [of si ms dm b] by (simp add: s_def)
  moreover have "two_domains s" "ss_movementMap s = None" by (simp_all add: s_def)
  ultimately show ?thesis using constructors_null [OF t] b by blast
qed

theorem constraints_need_movement_map_witness:
  "newDrainConstraint 9 BOTH 1 [1] 5 (newSolvingState [] [] exampleMapping) = Inl NullDeref"
  using constraints_need_movement_map [of exampleMapping 1 "[1]" 9 BOTH 5 "[]" "[]"]
  by (simp add: exampleMapping_def)

text \<open>The fault of an overloaded bin passes through an \<open>int\<close>: it is the 64-bit product when
  that product fits 32 bits, and otherwise not: an overload of 65536 at a fault weight of
  65536 costs nothing.\<close>

theorem metric_weight_truncated:
  "sint (mc_weight capacity faultWeight val) =
     (if sint capacity < sint val
      then signed_take_bit 31 ((sint val - sint capacity) * sint faultWeight) else 0) \<and>
   mc_weight 0 65536 65536 = 0"
proof -
  have ucast: "sint (i32_of_i64 (word_of_int i)) = signed_take_bit 31 i" for i
    unfolding i32_of_i64_def by (simp add: sint_uint take_bit_eq_mod[symmetric] unsigned_ucast_eq
        signed_take_bit_take_bit uint_word_of_int_eq)
  have prod: "(val - i64_of_i32 capacity) * i64_of_i32 faultWeight =
      word_of_int ((sint val - sint capacity) * sint faultWeight)"
  proof -
    have "word_of_int ((sint val - sint capacity) * sint faultWeight) =
        (word_of_int (sint val) - word_of_int (sint capacity)) * (word_of_int (sint faultWeight) :: i64)" by simp
    moreover have "(word_of_int (sint capacity) :: i64) = i64_of_i32 capacity"
      "(word_of_int (sint faultWeight) :: i64) = i64_of_i32 faultWeight"
      unfolding i64_of_i32_def by simp_all
    ultimately show ?thesis by simp
  qed
  have "sint (i32_of_i64 ((val - i64_of_i32 capacity) * i64_of_i32 faultWeight)) =
      signed_take_bit 31 ((sint val - sint capacity) * sint faultWeight)"
    by (subst prod) (rule ucast)
  moreover have "mc_weight 0 65536 65536 = 0" by code_simp
  ultimately show ?thesis
    unfolding mc_weight_def word_sless_alt sint_i64_of_i32 by simp
qed

end
