(* ===== verification/LoadBalancing.thy ===== *)
theory LoadBalancing
  imports FaultCounter
begin

text \<open>
  \<open>psychopomp/placer/constraints/LoadBalancingConstraint.h\<close>: two expression trees over one
  partial tree, one for the minimum and one for the maximum of a metric, and a fault for
  every node of the constraint's domain that is further than \<open>maxDelta\<close> from the minimum.
  The theory shows what the closure computes at a bin and above the bins, and that the
  weights of the constraint only ever grow.
\<close>

section \<open>The weight of a difference\<close>

text \<open>
  The multiplier is a \<open>double\<close>, kept as the mantissa and the exponent of its value. The
  product of an integer and a double is rounded to 53 significant bits, half to even, and
  cut to an \<open>int64_t\<close>.
\<close>

record double =
  mantissa :: int
  exponent :: int

function excessBits :: "int \<Rightarrow> nat" where
  "excessBits n = (if n < 2 ^ 53 then 0 else Suc (excessBits (n div 2)))"
  by pat_completeness auto

termination
  by (relation "measure nat") auto

declare excessBits.simps [simp del]

definition roundBits :: "int \<Rightarrow> nat \<Rightarrow> int" where
  "roundBits n k =
     (let q = n div 2 ^ k; r = n mod 2 ^ k in
      if 0 < k \<and> (2 ^ (k - 1) < r \<or> (r = 2 ^ (k - 1) \<and> odd q)) then q + 1 else q)"

definition mulDouble :: "int \<Rightarrow> double \<Rightarrow> double" where
  "mulDouble i d =
     (let n = \<bar>i * mantissa d\<bar>; k = excessBits n in
      \<lparr>mantissa = sgn (i * mantissa d) * roundBits n k, exponent = exponent d + int k\<rparr>)"

definition truncDouble :: "double \<Rightarrow> int" where
  "truncDouble d =
     (if 0 \<le> exponent d then mantissa d * 2 ^ nat (exponent d)
      else sgn (mantissa d) * (\<bar>mantissa d\<bar> div 2 ^ nat (- exponent d)))"

definition int64OfDouble :: "double \<Rightarrow> fault + i64" where
  "int64OfDouble d =
     (if fits64 (truncDouble d) then Inr (word_of_int (truncDouble d)) else Inl BadConversion)"

definition absI32 :: "i32 \<Rightarrow> i32" where
  "absI32 x = (if x <s 0 then - x else x)"

definition lb_weight :: "i32 \<Rightarrow> double \<Rightarrow> i32 \<Rightarrow> i32 \<Rightarrow> fault + i64" where
  "lb_weight maxDelta multiplier maxMetric minMetric =
     (let delta = absI32 (maxMetric - minMetric) in
      if maxDelta \<le>s delta then int64OfDouble (mulDouble (sint (delta - maxDelta)) multiplier)
      else Inr 0)"

section \<open>State and operations\<close>

record load_balancing_constraint =
  lb_domain :: Domain
  loadBalancingDomain :: Domain
  lb_metric :: Metric
  lb_maxDelta :: i32
  faultWeightMultiplier :: double
  minExpressionTree :: expression_tree
  maxExpressionTree :: expression_tree
  domainUpdatedSet :: "DomainId list"
  lb_domainFaultMap :: "(DomainId, i64) cmap"

text \<open>\<open>std::min_element\<close>: the first element that no other precedes.\<close>

fun minElement :: "(i32 \<Rightarrow> i32 \<Rightarrow> bool) \<Rightarrow> i32 list \<Rightarrow> i32" where
  "minElement cmp [] = 0"
| "minElement cmp (x # xs) = fold (\<lambda>y best. if cmp y best then y else best) xs x"

definition lb_less :: "i32 \<Rightarrow> i32 \<Rightarrow> bool" where
  "lb_less a b \<longleftrightarrow> a <s b"

definition lb_greater :: "i32 \<Rightarrow> i32 \<Rightarrow> bool" where
  "lb_greater a b \<longleftrightarrow> b <s a"

text \<open>The closure. It only reads the state, and writes \<open>domainUpdatedSet_\<close>.\<close>

definition lb_calculate ::
    "solving_state \<Rightarrow> Domain \<Rightarrow> Metric \<Rightarrow> (i32 \<Rightarrow> i32 \<Rightarrow> bool) \<Rightarrow> DomainId list calc_func" where
  "lb_calculate s domain metric cmp t mms mm changedChildren node updated =
     rbind (getChildren t (fst node) (snd node) mms) (\<lambda>(childDomain, childVector).
       let updated' = (if fst node = domain then hs_insert (snd node) updated else updated) in
       if fst node = ss_binDomain s
       then rbind (rfold (\<lambda>child sum.
                rbind (shouldConsiderShard AFTER mms child (snd node)) (\<lambda>here.
                  if here then rbind (getShardMetric s metric child) (\<lambda>m. Inr (sum + m))
                  else Inr sum)) childVector 0)
              (\<lambda>sum. Inr (sum, updated'))
       else let metrics = List.map_filter (cm2_get mm childDomain) childVector in
            Inr (if metrics = [] then 0 else minElement cmp metrics, updated'))"

definition lb_updateWeights ::
    "load_balancing_constraint \<Rightarrow> solving_state \<Rightarrow> fault + solving_state" where
  "lb_updateWeights lb s =
     (let minMetric = value_or0 (cm2_get (et_metricsMap (minExpressionTree lb)) (loadBalancingDomain lb) 0) in
      rfold (\<lambda>domainId s.
          let prevWeight = weight_or0 (cm_get (lb_domainFaultMap lb) domainId);
              maxMetric = value_or0 (cm2_get (et_metricsMap (maxExpressionTree lb)) (lb_domain lb) domainId)
          in rbind (lb_weight (lb_maxDelta lb) (faultWeightMultiplier lb) maxMetric minMetric)
               (\<lambda>newWeight. Inr (addBinWeight domainId (newWeight - prevWeight) s)))
        (domainUpdatedSet lb) s)"

definition lb_canaryMoves ::
    "nat \<Rightarrow> movement_map \<Rightarrow> movement_map \<Rightarrow> load_balancing_constraint \<times> solving_state
     \<Rightarrow> fault + load_balancing_constraint \<times> solving_state" where
  "lb_canaryMoves fuel committedMoves canaryMoves cs =
     (case cs of (lb, s) \<Rightarrow>
        rbind (expr_canaryMoves fuel (lb_calculate s (lb_domain lb) (lb_metric lb) lb_less)
                 s committedMoves canaryMoves (minExpressionTree lb, []))
          (\<lambda>(minE, updated).
        rbind (expr_canaryMoves fuel (lb_calculate s (lb_domain lb) (lb_metric lb) lb_greater)
                 s committedMoves canaryMoves (maxExpressionTree lb, updated))
          (\<lambda>(maxE, updated').
            let lb' = lb\<lparr>minExpressionTree := minE, maxExpressionTree := maxE,
                         domainUpdatedSet := updated',
                         lb_domainFaultMap := cm_clear (lb_domainFaultMap lb)\<rparr>
            in rbind (lb_updateWeights lb' s) (\<lambda>s'. Inr (lb', s')))))"

definition lb_commitMoves :: "load_balancing_constraint \<Rightarrow> load_balancing_constraint" where
  "lb_commitMoves lb =
     lb\<lparr>minExpressionTree := expr_commitMoves (minExpressionTree lb),
        maxExpressionTree := expr_commitMoves (maxExpressionTree lb),
        lb_domainFaultMap := cm_commit (lb_domainFaultMap lb)\<rparr>"

text \<open>
  Both expression trees share the partial tree, and the first one's enumeration of the shards
  may have added an empty row to it before the second one is built.
\<close>

definition newLoadBalancingConstraint ::
    "nat \<Rightarrow> Domain \<Rightarrow> DomainId list \<Rightarrow> Metric \<Rightarrow> i32 \<Rightarrow> double \<Rightarrow> solving_state
     \<Rightarrow> fault + load_balancing_constraint \<times> solving_state" where
  "newLoadBalancingConstraint fuel domain domainIds metric maxDelta multiplier s =
     (case createPartialTree (assignmentTree s) domain domainIds of
        None \<Rightarrow> Inl NoReturn
      | Some partialTree \<Rightarrow>
          let t = addMapping (kDomainLimit, 0) domain domainIds partialTree in
          rbind (newExpressionTree fuel (lb_calculate s domain metric lb_less) s t []) (\<lambda>(minE, updated).
          rbind (newExpressionTree fuel (lb_calculate s domain metric lb_greater) s
                   (et_assignmentTree minE) updated) (\<lambda>(maxE, updated').
            let lb = \<lparr>lb_domain = domain, loadBalancingDomain = kDomainLimit, lb_metric = metric,
                      lb_maxDelta = maxDelta, faultWeightMultiplier = multiplier,
                      minExpressionTree = minE, maxExpressionTree = maxE,
                      domainUpdatedSet = updated', lb_domainFaultMap = cm_empty\<rparr>
            in rbind (lb_updateWeights lb s) (\<lambda>s'. Inr (lb_commitMoves lb, commitWeights s')))))"

section \<open>Minimum and maximum\<close>

lemma fold_least:
  "sint (fold (\<lambda>y best. if lb_less y best then y else best) xs x) = Min (insert (sint x) (sint ` set xs))"
proof (induction xs arbitrary: x)
  case (Cons y ys)
  show ?case
    using Cons [of "if lb_less y x then y else x"]
    by (cases "ys = []") (auto simp: lb_less_def word_sless_alt min_def)
qed simp

lemma fold_greatest:
  "sint (fold (\<lambda>y best. if lb_greater y best then y else best) xs x) = Max (insert (sint x) (sint ` set xs))"
proof (induction xs arbitrary: x)
  case (Cons y ys)
  show ?case
    using Cons [of "if lb_greater y x then y else x"]
    by (cases "ys = []") (auto simp: lb_greater_def word_sless_alt max_def)
qed simp

lemma minElement_values:
  assumes "xs \<noteq> []"
  shows "sint (minElement lb_less xs) = Min (sint ` set xs)"
    and "sint (minElement lb_greater xs) = Max (sint ` set xs)"
  using assms fold_least fold_greatest by (cases xs; simp)+

section \<open>The load of a bin\<close>

lemma rfold_located_sum:
  assumes "metric < length (metricVectors s)"
    and "\<And>i. i \<in> set cs \<Longrightarrow> staysIn ms i b \<Longrightarrow> i < length (metricVectors s ! metric)"
  shows "rfold (\<lambda>child sum.
      rbind (shouldConsiderShard AFTER (map Some ms) child b) (\<lambda>here.
        if here then rbind (getShardMetric s metric child) (\<lambda>m. Inr (sum + m)) else Inr sum)) cs x =
    Inr (x + (\<Sum>i \<leftarrow> filter (\<lambda>i. staysIn ms i b) cs. metricVectors s ! metric ! i))"
  using assms(2)
  by (induction cs arbitrary: x) (auto simp: considered_def getShardMetric_def assms(1))

text \<open>Movement maps that agree, and in which no shard is moved to the bin the tree has it in.\<close>

definition properMoves :: "sparse_mapping_tree \<Rightarrow> movement_map \<Rightarrow> bool" where
  "properMoves t C \<longleftrightarrow> mm_wf C \<and> mm_agree C \<and>
     (\<forall>i b. getNextBin C i = Some b \<longrightarrow> i \<notin> set (mappedChildren t 1 b))"

definition binShards :: "sparse_mapping_tree \<Rightarrow> movement_map list \<Rightarrow> DomainId \<Rightarrow> DomainId list" where
  "binShards t ms b =
     filter (\<lambda>i. staysIn ms i b) (concat (map (\<lambda>m. incomingShards m b) ms) @ mappedChildren t 1 b)"

lemma binShards_located:
  assumes C: "properMoves t C" and K: "properMoves t K" and m: "mm_agree m" "\<And>i. getNextBin m i = None"
    and once: "\<And>i. getNextBin K i \<noteq> None \<Longrightarrow> getNextBin C i = None"
    and kids: "distinct (mappedChildren t 1 b)"
  shows "distinct (binShards t [m, C, K] b)"
    and "set (binShards t [m, C, K] b) = {i. located t (addMovements K C) b i}"
proof -
  have incC: "i \<in> set (incomingShards C b) \<longleftrightarrow> getNextBin C i = Some b" for i
    using C unfolding properMoves_def mm_agree_def by blast
  have incK: "i \<in> set (incomingShards K b) \<longleftrightarrow> getNextBin K i = Some b" for i
    using K unfolding properMoves_def mm_agree_def by blast
  have "i \<notin> set (incomingShards m b)" for i
    using m unfolding mm_agree_def by simp
  then have incm: "incomingShards m b = []" by (metis list.set_intros(1) neq_Nil_conv)
  note inc = incC incK incm
  have dist: "distinct (incomingShards C b)" "distinct (incomingShards K b)"
    using C K unfolding properMoves_def mm_wf_def by blast+
  have far: "getNextBin C i = Some b \<Longrightarrow> i \<notin> set (mappedChildren t 1 b)"
    "getNextBin K i = Some b \<Longrightarrow> i \<notin> set (mappedChildren t 1 b)" for i
    using C K unfolding properMoves_def by blast+
  have disj: "getNextBin K i = Some b \<Longrightarrow> getNextBin C i = None" for i
    using once [of i] by simp
  have "distinct (incomingShards C b @ incomingShards K b @ mappedChildren t 1 b)"
    using dist kids far disj unfolding distinct_append by (force simp: inc)
  then show "distinct (binShards t [m, C, K] b)"
    unfolding binShards_def by (intro distinct_filter) (simp add: inc(3))
  have "getNextBin (addMovements K C) = getNextBin C ++ getNextBin K"
    using C K by (intro getNextBin_addMovements) (simp_all add: properMoves_def)
  then have nxt: "getNextBin (addMovements K C) i =
      (case getNextBin K i of Some k \<Rightarrow> Some k | None \<Rightarrow> getNextBin C i)" for i
    by (simp add: map_add_def)
  have "i \<in> set (binShards t [m, C, K] b) \<longleftrightarrow> located t (addMovements K C) b i" for i
    unfolding binShards_def located_def nxt
    using m(2) far [of i] once [of i]
    by (cases "getNextBin K i"; cases "getNextBin C i") (auto simp: inc staysIn_def)
  then show "set (binShards t [m, C, K] b) = {i. located t (addMovements K C) b i}" by blast
qed

section \<open>Weights\<close>

lemma roundBits_nonneg: "0 \<le> n \<Longrightarrow> 0 \<le> roundBits n k"
proof -
  assume "0 \<le> n"
  then have "0 \<le> n div 2 ^ k" by (simp add: pos_imp_zdiv_nonneg_iff)
  then show ?thesis by (auto simp: roundBits_def Let_def)
qed

lemma mulDouble_nonneg: "0 \<le> i \<Longrightarrow> 0 \<le> mantissa d \<Longrightarrow> 0 \<le> mantissa (mulDouble i d)"
  by (simp add: mulDouble_def Let_def roundBits_nonneg sgn_if)

lemma truncDouble_nonneg: "0 \<le> mantissa d \<Longrightarrow> 0 \<le> truncDouble d"
  by (auto simp: truncDouble_def pos_imp_zdiv_nonneg_iff sgn_if)

lemma int64OfDouble_value: "int64OfDouble d = Inr v \<Longrightarrow> sint v = truncDouble d"
  by (auto simp: int64OfDouble_def sint_of_int64 split: if_splits)

lemma lb_weight_nonneg:
  assumes "0 \<le> sint maxDelta" and "0 \<le> mantissa multiplier"
    and w: "lb_weight maxDelta multiplier maxMetric minMetric = Inr w"
  shows "0 \<le> sint w"
proof -
  let ?delta = "absI32 (maxMetric - minMetric)"
  show ?thesis
  proof (cases "maxDelta \<le>s ?delta")
    case True
    then have le: "sint maxDelta \<le> sint ?delta" by (simp add: word_sle_eq)
    then have "fits32 (sint ?delta - sint maxDelta)"
      using assms(1) sint_fits32 [of ?delta] by (simp add: fits32_def)
    then have "0 \<le> sint (?delta - maxDelta)" using le by (simp add: sint_sub32)
    then show ?thesis
      using w True int64OfDouble_value truncDouble_nonneg [OF mulDouble_nonneg [OF _ assms(2)]]
      by (auto simp: lb_weight_def)
  next
    case False
    then show ?thesis using w by (simp add: lb_weight_def)
  qed
qed

lemma sint_add_sum64:
  assumes "fits64 (sint x + (\<Sum>w \<leftarrow> ws. sint (w :: i64)))"
  shows "sint (x + sum_list ws) = sint x + (\<Sum>w \<leftarrow> ws. sint w)"
proof -
  have "sum_list ws = word_of_int (\<Sum>w \<leftarrow> ws. sint w)"
    by (induction ws) simp_all
  then have "x + sum_list ws = word_of_int (sint x + (\<Sum>w \<leftarrow> ws. sint w))" by simp
  then show ?thesis using sint_of_int64 [OF assms] by simp
qed

lemma lb_updateWeights_grow:
  assumes delta: "0 \<le> sint (lb_maxDelta lb)" "0 \<le> mantissa (faultWeightMultiplier lb)"
    and fresh: "lb_domainFaultMap lb = cm_empty" and run: "lb_updateWeights lb s = Inr s'"
  shows "\<exists>ws. length ws = length (domainUpdatedSet lb) \<and> totalOf s' = totalOf s + sum_list ws \<and>
    (\<forall>w \<in> set ws. 0 \<le> sint w)"
proof -
  have zero: "weight_or0 (cm_get (cm_empty :: (DomainId, i64) cmap) d) = 0" for d
    by (simp add: cm_get_def cm_empty_def)
  let ?minMetric = "value_or0 (cm2_get (et_metricsMap (minExpressionTree lb)) (loadBalancingDomain lb) 0)"
  let ?maxMetric = "\<lambda>d. value_or0 (cm2_get (et_metricsMap (maxExpressionTree lb)) (lb_domain lb) d)"
  let ?step = "\<lambda>d s. rbind (lb_weight (lb_maxDelta lb) (faultWeightMultiplier lb) (?maxMetric d) ?minMetric)
      (\<lambda>w. Inr (addBinWeight d (w - 0) s))"
  have "rfold ?step ds s = Inr s' \<Longrightarrow>
      \<exists>ws. length ws = length ds \<and> totalOf s' = totalOf s + sum_list ws \<and> (\<forall>w \<in> set ws. 0 \<le> sint w)" for ds
  proof (induction ds arbitrary: s)
    case (Cons d ds)
    then obtain w where w: "lb_weight (lb_maxDelta lb) (faultWeightMultiplier lb) (?maxMetric d) ?minMetric = Inr w"
      and rest: "rfold ?step ds (addBinWeight d w s) = Inr s'"
      by (auto simp: res_simps)
    from Cons.IH [OF rest] obtain ws where "length ws = length ds"
      "totalOf s' = totalOf (addBinWeight d w s) + sum_list ws" "\<forall>w \<in> set ws. 0 \<le> sint w" by blast
    then show ?case
      using lb_weight_nonneg [OF delta w] by (intro exI [of _ "w # ws"]) (simp add: algebra_simps)
  qed simp
  then show ?thesis
    using run by (simp add: lb_updateWeights_def Let_def fresh zero)
qed

section \<open>Properties\<close>

text \<open>C9: At a bin the closure recomputes, from the shards the tree and the movement maps give
  it, the sum of the metric over exactly the shards that are located there after the
  committed and the canaried moves, each counted once, and records the bin as updated.\<close>

theorem load_balancing_bin_load:
  assumes t: "getChildDomain t 1 = Some 0" "hasNode t 1 b" "binDomain t = 1" and s: "ss_binDomain s = 1"
    and C: "properMoves t C" and K: "properMoves t K" and m: "mm_agree m" "\<And>i. getNextBin m i = None"
    and once: "\<And>i. getNextBin K i \<noteq> None \<Longrightarrow> getNextBin C i = None"
    and kids: "distinct (mappedChildren t 1 b)" and row: "metric < length (metricVectors s)"
    and shards: "\<And>i. located t (addMovements K C) b i \<Longrightarrow> i < length (metricVectors s ! metric)"
  shows "lb_calculate s 1 metric cmp t [Some m, Some C, Some K] mm cs (1, b) updated =
     Inr (load (\<lambda>i. metricVectors s ! metric ! i) t (addMovements K C) b, hs_insert b updated)"
proof -
  let ?ms = "[m, C, K]"
  let ?L = "concat (map (\<lambda>m. incomingShards m b) ?ms) @ mappedChildren t 1 b"
  note L = binShards_located [OF C K m once kids]
  have "i < length (metricVectors s ! metric)" if "i \<in> set ?L" "staysIn ?ms i b" for i
  proof -
    have "i \<in> set (binShards t ?ms b)" unfolding binShards_def using that by simp
    then have "i \<in> {i. located t (addMovements K C) b i}" using L(2) by blast
    then show ?thesis using shards by simp
  qed
  then have "rfold (\<lambda>child sum.
      rbind (shouldConsiderShard AFTER (map Some ?ms) child b) (\<lambda>here.
        if here then rbind (getShardMetric s metric child) (\<lambda>m. Inr (sum + m)) else Inr sum)) ?L 0 =
    Inr (\<Sum>i \<leftarrow> binShards t ?ms b. metricVectors s ! metric ! i)"
    using rfold_located_sum [OF row, of ?L ?ms b 0] unfolding binShards_def by simp
  moreover have "(\<Sum>i \<leftarrow> binShards t ?ms b. metricVectors s ! metric ! i) =
      load (\<lambda>i. metricVectors s ! metric ! i) t (addMovements K C) b"
    by (simp add: sum_list_distinct_conv_sum_set [OF L(1)] L(2) load_def)
  moreover have "getChildren t 1 b (map Some ?ms) = Inr (0, ?L)"
    using getChildren_overlay [OF t(1,2), of ?ms] t(3) by simp
  ultimately show ?thesis
    using s by (simp add: lb_calculate_def)
qed

definition exampleBalancerTree :: sparse_mapping_tree where
  "exampleBalancerTree = addMapping (kDomainLimit, 0) 1 [0, 1] exampleTree"

definition exampleBalancerState :: solving_state where
  "exampleBalancerState =
     (newSolvingState [] [[4, 5, 6, 7, 8, 9, 10]] [])\<lparr>ss_movementMap := Some emptyMovementMap\<rparr>"

theorem load_balancing_bin_load_witness:
  "lb_calculate exampleBalancerState 1 0 lb_less exampleTree
     [Some emptyMovementMap, Some emptyMovementMap, Some (addMovement 1 1 emptyMovementMap)]
     cm2_empty [1] (1, 1) [] =
   Inr (load (\<lambda>i. metricVectors exampleBalancerState ! 0 ! i) exampleTree
          (addMovements (addMovement 1 1 emptyMovementMap) emptyMovementMap) 1, [1])"
proof -
  have kids: "mappedChildren exampleTree 1 b = (if b = 0 then [0, 1, 5] else if b = 1 then [2, 3, 6] else [])" for b
    by (simp add: exampleTree_def add_simps accepts_def)
  have nxt: "getNextBin (addMovements (addMovement 1 1 emptyMovementMap) emptyMovementMap) = [1 \<mapsto> 1]"
    by (subst getNextBin_addMovements) (auto intro!: mm_wf_add)
  have "properMoves exampleTree (addMovement 1 1 emptyMovementMap)" "properMoves exampleTree emptyMovementMap"
    by (auto simp: properMoves_def kids [unfolded One_nat_def] mm_agree_def)
  moreover have "getChildDomain exampleTree 1 = Some 0" "hasNode exampleTree 1 1" "binDomain exampleTree = 1"
    by (simp_all add: exampleTree_def add_simps accepts_def hasNode_def)
  ultimately show ?thesis
    by (subst load_balancing_bin_load)
      (auto simp: kids [unfolded One_nat_def] nxt [unfolded One_nat_def] exampleBalancerState_def mm_agree_def
        located_def hs_insert_def split: if_splits)
qed

text \<open>\<open>updateWeights\<close> compares with the recorded fault map, and nothing ever writes to that
  map, so the previous weight it subtracts is always 0: a canary evaluation adds the
  present fault of every updated node to the total and never takes anything off. With a
  non-negative threshold and multiplier the constraint cannot lower the weight.\<close>

theorem load_balancing_never_lowers:
  assumes delta: "0 \<le> sint (lb_maxDelta lb)" "0 \<le> mantissa (faultWeightMultiplier lb)"
    and fresh: "lb_domainFaultMap lb = cm_empty"
    and run: "lb_canaryMoves fuel C K (lb, s) = Inr (lb', s')"
  shows "lb_domainFaultMap (lb_commitMoves lb') = cm_empty \<and>
    (\<exists>ws. totalOf s' = totalOf s + sum_list ws \<and> (\<forall>w \<in> set ws. 0 \<le> sint w) \<and>
       (fits64 (sint (totalOf s) + (\<Sum>w \<leftarrow> ws. sint w)) \<longrightarrow> sint (totalOf s) \<le> sint (totalOf s')))"
proof -
  obtain minE maxE updated where
    lb': "lb' = lb\<lparr>minExpressionTree := minE, maxExpressionTree := maxE, domainUpdatedSet := updated,
            lb_domainFaultMap := cm_clear (lb_domainFaultMap lb)\<rparr>"
    and w: "lb_updateWeights lb' s = Inr s'"
    using run by (auto simp: lb_canaryMoves_def res_simps Let_def)
  have empty: "cm_clear cm_empty = (cm_empty :: (DomainId, i64) cmap)"
    "cm_commit cm_empty = (cm_empty :: (DomainId, i64) cmap)"
    by (simp_all add: cm_clear_def cm_empty_def cm_commit_def cm_copyChanges_def)
  have fresh': "lb_domainFaultMap lb' = cm_empty" by (simp add: lb' fresh empty)
  obtain ws where ws: "totalOf s' = totalOf s + sum_list ws" "\<forall>w \<in> set ws. 0 \<le> sint w"
    using lb_updateWeights_grow [OF _ _ fresh' w] delta by (auto simp: lb')
  have "0 \<le> (\<Sum>w \<leftarrow> ws. sint w)" using ws(2) by (induction ws) auto
  then have "fits64 (sint (totalOf s) + (\<Sum>w \<leftarrow> ws. sint w)) \<Longrightarrow> sint (totalOf s) \<le> sint (totalOf s')"
    using ws(1) by (simp add: sint_add_sum64)
  then show ?thesis using ws fresh' empty by (auto simp: lb_commitMoves_def)
qed

definition exampleBalancer :: load_balancing_constraint where
  "exampleBalancer = \<lparr>lb_domain = 1, loadBalancingDomain = kDomainLimit, lb_metric = 0, lb_maxDelta = 3,
     faultWeightMultiplier = \<lparr>mantissa = 5, exponent = - 1\<rparr>,
     minExpressionTree = \<lparr>et_assignmentTree = exampleBalancerTree, et_metricsMap = cm2_empty\<rparr>,
     maxExpressionTree = \<lparr>et_assignmentTree = exampleBalancerTree, et_metricsMap = cm2_empty\<rparr>,
     domainUpdatedSet = [], lb_domainFaultMap = cm_empty\<rparr>"

theorem load_balancing_never_lowers_witness:
  "\<exists>lb' s'. lb_canaryMoves 5 emptyMovementMap (addMovement 1 1 emptyMovementMap)
      (exampleBalancer, exampleBalancerState) = Inr (lb', s') \<and>
    lb_domainFaultMap (lb_commitMoves lb') = cm_empty"
proof -
  have "case lb_canaryMoves 5 emptyMovementMap (addMovement 1 1 emptyMovementMap)
      (exampleBalancer, exampleBalancerState) of Inl _ \<Rightarrow> False | Inr _ \<Rightarrow> True"
    by code_simp
  then obtain lb' s' where run: "lb_canaryMoves 5 emptyMovementMap (addMovement 1 1 emptyMovementMap)
      (exampleBalancer, exampleBalancerState) = Inr (lb', s')"
    by (auto split: sum.splits)
  have "0 \<le> sint (lb_maxDelta exampleBalancer)" "0 \<le> mantissa (faultWeightMultiplier exampleBalancer)"
    "lb_domainFaultMap exampleBalancer = cm_empty"
    by (simp_all add: exampleBalancer_def)
  from load_balancing_never_lowers [OF this run] run show ?thesis by blast
qed

end
