(* ===== verification/Exclusion.thy ===== *)
theory Exclusion
  imports Constraint
begin

text \<open>
  \<open>psychopomp/placer/constraints/ExclusionConstraint.h\<close>: counts, per node of an exclusion
  domain, the shards of one range. The class does not override the pure virtual functions
  of \<open>Constraint\<close>, and it calls \<open>SolvingState::getBinParentInDomain\<close> and reads
  \<open>ShardInfo::shardRangeId\<close>, neither of which is declared; both are parameters here.
  The theory shows that the constructor evaluates nothing and that the recount of a shard
  changes nothing.
\<close>

section \<open>State and operations\<close>

type_synonym range_counts = "(DomainId, (nat, u64) hmap) hmap"

record exclusion_constraint =
  exclusionDomain :: Domain
  ex_faultWeight :: i32
  ex_expressionTree :: expression_tree
  shardRangeIdCount :: range_counts

type_synonym exclusion_env = "range_counts \<times> solving_state"

text \<open>\<open>faultWeight_ * (count > 1 ? count : 0)\<close>, a product of an \<open>int32_t\<close> and a \<open>size_t\<close>.\<close>

definition ex_weight :: "i32 \<Rightarrow> u64 \<Rightarrow> i64" where
  "ex_weight faultWeight n = i64_of_i32 faultWeight * (if 1 < n then n else 0)"

definition rangeCount :: "range_counts \<Rightarrow> DomainId \<Rightarrow> nat \<Rightarrow> u64" where
  "rangeCount rcs p r = hm_get 0 (hm_get [] rcs p) r"

definition changeShardRangeCount ::
    "(solving_state \<Rightarrow> DomainId \<Rightarrow> Domain \<Rightarrow> DomainId option) \<Rightarrow> Domain \<Rightarrow> i32
     \<Rightarrow> DomainId \<Rightarrow> nat \<Rightarrow> i32 \<Rightarrow> exclusion_env \<Rightarrow> fault + exclusion_env" where
  "changeShardRangeCount getBinParentInDomain exclusionD faultWeight binId shardRangeId change env =
     (case env of (rcs, s) \<Rightarrow>
        (case getBinParentInDomain s binId exclusionD of
           None \<Rightarrow> Inl EmptyOptional
         | Some binParent \<Rightarrow>
             let prevCount = rangeCount rcs binParent shardRangeId;
                 currentCount = prevCount + i64_of_i32 change;
                 rcs' = hm2_set binParent shardRangeId currentCount rcs;
                 delta = ex_weight faultWeight currentCount - ex_weight faultWeight prevCount
             in Inr (rcs', addTotalWeight delta s)))"

text \<open>Both calls pass \<open>futureBin\<close>.\<close>

definition addBinCount ::
    "(solving_state \<Rightarrow> DomainId \<Rightarrow> Domain \<Rightarrow> DomainId option) \<Rightarrow> (shard_info \<Rightarrow> nat)
     \<Rightarrow> Domain \<Rightarrow> i32 \<Rightarrow> exclusion_env calc_func" where
  "addBinCount getBinParentInDomain shardRangeId exclusionD faultWeight t mms mm changedChildren node env =
     (let s = snd env; shardD = ss_shardDomain s in
      if fst node = shardD
      then rbind (getCurrentBin t shardD (snd node) (ss_binDomain s)) (\<lambda>currentBin.
        rbind (getFutureBin t mms shardD (snd node) (ss_binDomain s)) (\<lambda>futureBin.
        rbind (if currentBin \<noteq> kDefaultBin
               then rbind (getShardInfo s (snd node)) (\<lambda>info.
                      changeShardRangeCount getBinParentInDomain exclusionD faultWeight futureBin
                        (shardRangeId info) (- 1) env)
               else Inr env) (\<lambda>env.
        rbind (if futureBin \<noteq> kDefaultBin
               then rbind (getShardInfo s (snd node)) (\<lambda>info.
                      changeShardRangeCount getBinParentInDomain exclusionD faultWeight futureBin
                        (shardRangeId info) 1 env)
               else Inr env) (\<lambda>env. Inr (0, env)))))
      else Inr (0, env))"

definition newExclusionConstraint ::
    "nat \<Rightarrow> (solving_state \<Rightarrow> DomainId \<Rightarrow> Domain \<Rightarrow> DomainId option) \<Rightarrow> (shard_info \<Rightarrow> nat)
     \<Rightarrow> Domain \<Rightarrow> DomainId list \<Rightarrow> i32 \<Rightarrow> solving_state \<Rightarrow> fault + exclusion_constraint \<times> solving_state" where
  "newExclusionConstraint fuel getBinParentInDomain shardRangeId exclusionD shardIds faultWeight s =
     (case createPartialTree (assignmentTree s) (ss_shardDomain s) shardIds of
        None \<Rightarrow> Inl NoReturn
      | Some partialTree \<Rightarrow>
          rbind (newExpressionTree fuel
                   (addBinCount getBinParentInDomain shardRangeId exclusionD faultWeight) s partialTree
                   ([], s))
            (\<lambda>(e, (rcs, s')).
               Inr (\<lparr>exclusionDomain = exclusionD, ex_faultWeight = faultWeight,
                     ex_expressionTree = e, shardRangeIdCount = rcs\<rparr>, s')))"

section \<open>Lemmas\<close>

lemma partialTreeLoop_leaves:
  "getChildDomain t d = None \<Longrightarrow> partialTreeLoop t (map (Pair d) roots) p = Some p"
  by (induction roots) (simp_all add: partialTreeLoop.simps)

lemma newExpressionTree_empty:
  assumes "0 < fuel"
  shows "newExpressionTree fuel calc s (newTree sd bd) c =
     Inr (\<lparr>et_assignmentTree = snd (getAllDomainIds (ss_shardDomain s) (newTree sd bd)),
           et_metricsMap = cm2_empty\<rparr>, c)"
  using assms
  by (cases fuel) (simp_all add: newExpressionTree_def initializeMetricState_def getAllDomainIds_def newTree_def
      collectUpdates_def updateLevel_def hm_get_def)

lemma rangeCount_set:
  "rangeCount (hm2_set a b v rcs) p r = (if p = a \<and> r = b then v else rangeCount rcs p r)"
  by (simp add: rangeCount_def hmap_simps)

lemma changeShardRangeCount_value:
  assumes "gp s b d = Some p"
  shows "\<exists>rcs'. changeShardRangeCount gp d w b r change (rcs, s) =
      Inr (rcs', addTotalWeight
        (ex_weight w (rangeCount rcs p r + i64_of_i32 change) - ex_weight w (rangeCount rcs p r)) s) \<and>
    (\<forall>p' r'. rangeCount rcs' p' r' =
      (if p' = p \<and> r' = r then rangeCount rcs p r + i64_of_i32 change else rangeCount rcs p' r'))"
  using assms by (simp add: changeShardRangeCount_def Let_def rangeCount_set)

section \<open>Properties\<close>

text \<open>The partial tree under a list of shards holds no node, because shards have no child
  domain, so the constructor never calls the counting function: the counts are empty and
  the state is untouched, whatever shards it is given.\<close>

theorem exclusion_never_evaluated:
  assumes "getChildDomain (assignmentTree s) (ss_shardDomain s) = None" and "0 < fuel"
  shows "\<exists>e. newExclusionConstraint fuel gp rid d shardIds w s =
     Inr (\<lparr>exclusionDomain = d, ex_faultWeight = w, ex_expressionTree = e, shardRangeIdCount = []\<rparr>, s) \<and>
     et_metricsMap e = cm2_empty"
  using assms
  by (simp add: newExclusionConstraint_def createPartialTree_def partialTreeLoop_leaves newExpressionTree_empty)

theorem exclusion_never_evaluated_witness:
  "\<exists>e. newExclusionConstraint 1 (\<lambda>_ b _. Some b) (\<lambda>_. 0) 2 [0, 1]  7 (newSolvingState [] [] [[[0, 1]]]) =
     Inr (\<lparr>exclusionDomain = 2, ex_faultWeight = 7, ex_expressionTree = e, shardRangeIdCount = []\<rparr>,
       newSolvingState [] [] [[[0, 1]]]) \<and> et_metricsMap e = cm2_empty"
  by (rule exclusion_never_evaluated)
    (use newSolvingState_tree [of "[]" "[]" "[[[0, 1]]]" 0 0] in simp_all)

text \<open>Were the counting function called, for a shard that is in a bin and moves to another:
  both updates go to the node above the future bin, one down and one up, so no count and no
  weight changes, and a move is never charged.\<close>

theorem exclusion_recount_cancels:
  assumes node: "fst node = ss_shardDomain s"
    and bins: "getCurrentBin t (ss_shardDomain s) (snd node) (ss_binDomain s) = Inr a" "a \<noteq> kDefaultBin"
      "getFutureBin t mms (ss_shardDomain s) (snd node) (ss_binDomain s) = Inr b" "b \<noteq> kDefaultBin"
    and info: "getShardInfo s (snd node) = Inr si"
    and parent: "\<And>s'. sameProblem s s' \<Longrightarrow> gp s' b d = Some p"
  shows "\<exists>rcs' s'. addBinCount gp rid d w t mms mm cs node (rcs, s) = Inr (0, (rcs', s')) \<and>
    rangeCount rcs' = rangeCount rcs \<and> totalOf s' = totalOf s \<and> sameProblem s s'"
proof -
  let ?r = "rid si"
  obtain rcs1 where one: "changeShardRangeCount gp d w b ?r (- 1) (rcs, s) =
      Inr (rcs1, addTotalWeight
        (ex_weight w (rangeCount rcs p ?r + i64_of_i32 (- 1)) - ex_weight w (rangeCount rcs p ?r)) s)"
    "\<And>p' r'. rangeCount rcs1 p' r' =
      (if p' = p \<and> r' = ?r then rangeCount rcs p ?r + i64_of_i32 (- 1) else rangeCount rcs p' r')"
    using changeShardRangeCount_value [of gp s b d p] parent [OF sameProblem_refl] by blast
  let ?s1 = "addTotalWeight
    (ex_weight w (rangeCount rcs p ?r + i64_of_i32 (- 1)) - ex_weight w (rangeCount rcs p ?r)) s"
  obtain rcs2 where two: "changeShardRangeCount gp d w b ?r 1 (rcs1, ?s1) =
      Inr (rcs2, addTotalWeight
        (ex_weight w (rangeCount rcs1 p ?r + i64_of_i32 1) - ex_weight w (rangeCount rcs1 p ?r)) ?s1)"
    "\<And>p' r'. rangeCount rcs2 p' r' =
      (if p' = p \<and> r' = ?r then rangeCount rcs1 p ?r + i64_of_i32 1 else rangeCount rcs1 p' r')"
    using changeShardRangeCount_value [of gp ?s1 b d p] parent by (meson sameProblem_weights(1))
  have units: "i64_of_i32 (- 1) = - 1" "i64_of_i32 1 = 1" by (simp_all add: i64_of_i32_def)
  have "rangeCount rcs2 = rangeCount rcs"
    by (simp add: fun_eq_iff two(2) one(2) units)
  moreover have "addBinCount gp rid d w t mms mm cs node (rcs, s) = Inr (0, (rcs2, addTotalWeight
        (ex_weight w (rangeCount rcs1 p ?r + i64_of_i32 1) - ex_weight w (rangeCount rcs1 p ?r)) ?s1))"
    using node bins info one(1) two(1) by (simp add: addBinCount_def)
  ultimately show ?thesis
    using sameProblem_trans [OF sameProblem_weights(1) sameProblem_weights(1)]
    by (auto simp: one(2) units)
qed

definition exampleShardInfo :: shard_info where
  "exampleShardInfo = \<lparr>si_shard = \<lparr>sh_range = \<lparr>range_start = 0, range_end = 9\<rparr>,
     sh_type = SHARD_TYPE_PRIMARY, sh_id = 4\<rparr>, si_metrics = [], si_status = SHARD_RANGE_STATUS_ADDED\<rparr>"

theorem exclusion_recount_cancels_witness:
  "\<exists>rcs s'. addBinCount (\<lambda>_ b _. Some b) (\<lambda>_. 3) 1 9 exampleTree
      [Some (addMovement 2 5 emptyMovementMap)] cm2_empty [] (0, 2)
      ([], newSolvingState (replicate 7 exampleShardInfo) [] []) = Inr (0, (rcs, s')) \<and>
    rangeCount rcs = rangeCount [] \<and> totalOf s' = totalOf (newSolvingState (replicate 7 exampleShardInfo) [] [])"
proof -
  let ?s = "newSolvingState (replicate 7 exampleShardInfo) [] []"
  have "getCurrentBin exampleTree 0 2 1 = Inr 1" by code_simp
  moreover have "getFutureBin exampleTree [Some (addMovement 2 5 emptyMovementMap)] 0 2 1 = Inr 5" by code_simp
  moreover have "getShardInfo ?s 2 = Inr exampleShardInfo" by (simp add: getShardInfo_def)
  ultimately show ?thesis
    using exclusion_recount_cancels [where s = ?s and node = "(0, 2)" and t = exampleTree
        and mms = "[Some (addMovement 2 5 emptyMovementMap)]" and gp = "\<lambda>_ b _. Some b" and a = 1 and b = 5
        and p = 5 and si = exampleShardInfo and d = 1 and rid = "\<lambda>_. 3" and w = 9 and mm = cm2_empty
        and cs = "[]" and rcs = "[]"]
    by (auto simp: kDefaultBin_def)
qed

end
