(* ===== verification/Constraints.thy ===== *)
theory Constraints
  imports FaultConstraints LoadBalancing Exclusion
begin

text \<open>
  The virtual dispatch of \<open>Constraint::canaryMoves\<close> and \<open>Constraint::commit\<close>, and the
  contract the search relies on: a canary evaluation moves the total by the change of the
  constraint's objective. The contract is a locale; its lemmas carry it over to the list of
  constraints of a problem, and the drain and metric constraints interpret it.
\<close>

section \<open>Dispatch\<close>

text \<open>
  The concrete classes. \<open>ExclusionConstraint\<close> leaves the virtual functions abstract, so no
  object of it can be in a list of constraints.
\<close>

datatype constraint =
    Drain drain_constraint
  | MetricC metric_constraint
  | LoadBalancing load_balancing_constraint

fun constraint_canaryMoves ::
    "nat \<Rightarrow> movement_map \<Rightarrow> movement_map \<Rightarrow> constraint \<times> solving_state
     \<Rightarrow> fault + constraint \<times> solving_state" where
  "constraint_canaryMoves fuel C K (Drain dc, s) =
     rbind (dc_canaryMoves fuel C K (dc, s)) (\<lambda>(dc', s'). Inr (Drain dc', s'))"
| "constraint_canaryMoves fuel C K (MetricC mc, s) =
     rbind (mc_canaryMoves fuel C K (mc, s)) (\<lambda>(mc', s'). Inr (MetricC mc', s'))"
| "constraint_canaryMoves fuel C K (LoadBalancing lb, s) =
     rbind (lb_canaryMoves fuel C K (lb, s)) (\<lambda>(lb', s'). Inr (LoadBalancing lb', s'))"

fun constraint_commitMoves :: "constraint \<Rightarrow> constraint" where
  "constraint_commitMoves (Drain dc) = Drain (dc_commitMoves dc)"
| "constraint_commitMoves (MetricC mc) = MetricC (mc_commitMoves mc)"
| "constraint_commitMoves (LoadBalancing lb) = LoadBalancing (lb_commitMoves lb)"

text \<open>\<open>Constraint::commit\<close>: the constraint's own maps, then the weights of the shared state.\<close>

definition constraint_commit :: "constraint \<times> solving_state \<Rightarrow> constraint \<times> solving_state" where
  "constraint_commit cs = (constraint_commitMoves (fst cs), commitWeights (snd cs))"

text \<open>The loop over the constraints of a problem, each evaluated on the state the one before
  it left.\<close>

fun overAll :: "('k \<times> 's \<Rightarrow> fault + 'k \<times> 's) \<Rightarrow> 'k list \<Rightarrow> 's \<Rightarrow> fault + 'k list \<times> 's" where
  "overAll f [] s = Inr ([], s)"
| "overAll f (k # ks) s =
     rbind (f (k, s)) (\<lambda>(k', s').
       rbind (overAll f ks s') (\<lambda>(ks', s''). Inr (k' # ks', s'')))"

lemma overAll_length: "overAll f ks s = Inr (ks', s') \<Longrightarrow> length ks' = length ks"
  by (induction ks arbitrary: s ks') (auto simp: res_simps)

section \<open>The contract of a constraint\<close>

text \<open>What the search may canary where the state has a movement map: shards of the assignment
  tree that have no committed move, to bins they are not in.\<close>

definition move_ok :: "solving_state \<Rightarrow> movement_map \<Rightarrow> movement_map \<Rightarrow> bool" where
  "move_ok s C K \<longleftrightarrow> searchable s \<and> movable (assignmentTree s) C K \<and>
     (\<forall>i \<in> dom (getNextBin K). \<exists>a. i \<in> set (mappedChildren (assignmentTree s) 1 a))"

lemma move_ok_same: "sameProblem s s' \<Longrightarrow> move_ok s' C K = move_ok s C K"
  by (simp add: move_ok_def searchable_def two_domains_same sameProblem_fields)

text \<open>The contract over a list of constraints.\<close>

definition all_ok ::
    "(solving_state \<Rightarrow> movement_map \<Rightarrow> 'k \<Rightarrow> bool) \<Rightarrow> solving_state \<Rightarrow> movement_map \<Rightarrow> 'k list \<Rightarrow> bool" where
  "all_ok ok s C ks = list_all (ok s C) ks"

definition charge ::
    "(solving_state \<Rightarrow> 'k \<Rightarrow> movement_map \<Rightarrow> i64) \<Rightarrow> solving_state \<Rightarrow> 'k list \<Rightarrow> movement_map \<Rightarrow> i64" where
  "charge objective s ks C = (\<Sum>k \<leftarrow> ks. objective s k C)"

lemma charge_simps [simp]:
  "charge f s [] C = 0" "charge f s (k # ks) C = f s k C + charge f s ks C"
  by (simp_all add: charge_def)

lemma all_ok_simps [simp]:
  "all_ok ok s C []" "all_ok ok s C (k # ks) \<longleftrightarrow> ok s C k \<and> all_ok ok s C ks"
  by (simp_all add: all_ok_def)

locale constraint_contract =
  fixes canary :: "movement_map \<Rightarrow> movement_map \<Rightarrow> 'k \<times> solving_state \<Rightarrow> fault + 'k \<times> solving_state"
    and commit :: "'k \<Rightarrow> 'k"
    and objective :: "solving_state \<Rightarrow> 'k \<Rightarrow> movement_map \<Rightarrow> i64"
    and ok :: "solving_state \<Rightarrow> movement_map \<Rightarrow> 'k \<Rightarrow> bool"
  assumes canary_charge: "ok s C k \<Longrightarrow> move_ok s C K \<Longrightarrow>
      \<exists>k' s'. canary C K (k, s) = Inr (k', s') \<and> sameProblem s s' \<and> committedTotal s' = committedTotal s \<and>
        totalOf s' = totalOf s + objective s k (addMovements K C) - objective s k C \<and>
        ok s C k' \<and> objective s k' = objective s k \<and>
        ok s (addMovements K C) (commit k') \<and> objective s (commit k') = objective s k"
    and same: "sameProblem s s' \<Longrightarrow> ok s' C k = ok s C k"
      "sameProblem s s' \<Longrightarrow> objective s' k C = objective s k C"
begin

lemma all_same:
  "sameProblem s s' \<Longrightarrow> all_ok ok s' C ks = all_ok ok s C ks"
  "sameProblem s s' \<Longrightarrow> charge objective s' ks C = charge objective s ks C"
  by (simp_all add: all_ok_def list_all_iff charge_def same)

lemma canary_all:
  assumes "all_ok ok s C ks" and "move_ok s C K"
  shows "\<exists>ks' s'. overAll (canary C K) ks s = Inr (ks', s') \<and> sameProblem s s' \<and>
     committedTotal s' = committedTotal s \<and>
     totalOf s' = totalOf s + charge objective s ks (addMovements K C) - charge objective s ks C \<and>
     all_ok ok s C ks' \<and> charge objective s ks' = charge objective s ks \<and>
     all_ok ok s (addMovements K C) (map commit ks') \<and> charge objective s (map commit ks') = charge objective s ks"
  using assms
proof (induction ks arbitrary: s)
  case Nil
  then show ?case by (auto simp: charge_def)
next
  case (Cons k ks)
  obtain k' s1 where k: "canary C K (k, s) = Inr (k', s1)" "sameProblem s s1"
      "committedTotal s1 = committedTotal s"
      "totalOf s1 = totalOf s + objective s k (addMovements K C) - objective s k C"
      "ok s C k'" "objective s k' = objective s k"
      "ok s (addMovements K C) (commit k')" "objective s (commit k') = objective s k"
    using canary_charge [of s C k K] Cons.prems by auto
  note s1 = all_same [OF k(2)]
  obtain ks' s2 where ks: "overAll (canary C K) ks s1 = Inr (ks', s2)" "sameProblem s1 s2"
      "committedTotal s2 = committedTotal s1"
      "totalOf s2 = totalOf s1 + charge objective s ks (addMovements K C) - charge objective s ks C"
      "all_ok ok s C ks'" "charge objective s ks' = charge objective s ks"
      "all_ok ok s (addMovements K C) (map commit ks')" "charge objective s (map commit ks') = charge objective s ks"
    using Cons.IH [of s1] Cons.prems move_ok_same [OF k(2)] s1 by (auto simp: fun_eq_iff)
  have "overAll (canary C K) (k # ks) s = Inr (k' # ks', s2)" using k(1) ks(1) by simp
  moreover have "charge objective s (k' # ks') = charge objective s (k # ks)" "charge objective s (map commit (k' # ks')) = charge objective s (k # ks)"
    using k(6,8) ks(6,8) by (simp_all add: fun_eq_iff)
  ultimately show ?case
    using k ks sameProblem_trans [OF k(2) ks(2)] by (intro exI conjI) (assumption | simp)+
qed

end

section \<open>The drain and the metric constraint keep the contract\<close>

definition within :: "sparse_mapping_tree \<Rightarrow> sparse_mapping_tree \<Rightarrow> bool" where
  "within t u \<longleftrightarrow> (\<forall>b. set (mappedChildren t 1 b) \<subseteq> set (mappedChildren u 1 b))"

lemma movable_within: "movable u C K \<Longrightarrow> within t u \<Longrightarrow> movable t C K"
  unfolding movable_def within_def by blast

definition metricRow :: "solving_state \<Rightarrow> MetricValue list" where
  "metricRow s = hd (metricVectors s)"

fun constraint_ok :: "solving_state \<Rightarrow> movement_map \<Rightarrow> constraint \<Rightarrow> bool" where
  "constraint_ok s C (Drain dc) \<longleftrightarrow> drain_ok C dc \<and>
     within (et_assignmentTree (dc_expressionTree dc)) (assignmentTree s)"
| "constraint_ok s C (MetricC mc) \<longleftrightarrow> metricVectors s \<noteq> [] \<and> metric_ok (metricRow s) C mc \<and>
     within (et_assignmentTree (mc_expressionTree mc)) (assignmentTree s) \<and>
     (\<forall>a. \<forall>i \<in> set (mappedChildren (assignmentTree s) 1 a). i < length (metricRow s))"
| "constraint_ok s C (LoadBalancing lb) \<longleftrightarrow> False"

text \<open>What a constraint charges for the assignment in which the moves of \<open>C\<close> are done,
  computed from scratch.\<close>

fun objective :: "solving_state \<Rightarrow> constraint \<Rightarrow> movement_map \<Rightarrow> i64" where
  "objective s (Drain dc) C = drain_objective dc C"
| "objective s (MetricC mc) C = metric_objective (metricRow s) mc C"
| "objective s (LoadBalancing lb) C = 0"

lemma drain_within:
  "et_assignmentTree (dc_expressionTree (dc_commitMoves dc)) = et_assignmentTree (dc_expressionTree dc)"
  by (simp add: dc_commitMoves_def expr_commitMoves_def)

lemma metric_within:
  "et_assignmentTree (mc_expressionTree (mc_commitMoves mc)) = et_assignmentTree (mc_expressionTree mc)"
  by (simp add: mc_commitMoves_def expr_commitMoves_def)

interpretation charges: constraint_contract "constraint_canaryMoves (Suc fuel)" constraint_commitMoves
  objective constraint_ok for fuel
proof unfold_locales
  fix s C k K
  assume ok: "constraint_ok s C k" and mv: "move_ok s C K"
  have movable: "movable t C K" if "within t (assignmentTree s)" for t
    using mv movable_within that unfolding move_ok_def by blast
  show "\<exists>k' s'. constraint_canaryMoves (Suc fuel) C K (k, s) = Inr (k', s') \<and> sameProblem s s' \<and>
        committedTotal s' = committedTotal s \<and>
        totalOf s' = totalOf s + objective s k (addMovements K C) - objective s k C \<and>
        constraint_ok s C k' \<and> objective s k' = objective s k \<and>
        constraint_ok s (addMovements K C) (constraint_commitMoves k') \<and>
        objective s (constraint_commitMoves k') = objective s k"
  proof (cases k)
    case (Drain dc)
    then have dc: "drain_ok C dc" "searchable s" "within (et_assignmentTree (dc_expressionTree dc)) (assignmentTree s)"
      using ok mv by (simp_all add: move_ok_def)
    obtain dc' s' where "dc_canaryMoves (Suc fuel) C K (dc, s) = Inr (dc', s')"
      "totalOf s' = totalOf s + drain_objective dc (addMovements K C) - drain_objective dc C"
      "committedTotal s' = committedTotal s" "sameProblem s s'"
      "et_assignmentTree (dc_expressionTree dc') = et_assignmentTree (dc_expressionTree dc)"
      "drain_objective dc' = drain_objective dc" "drain_objective (dc_commitMoves dc') = drain_objective dc"
      "drain_ok C dc'" "drain_ok (addMovements K C) (dc_commitMoves dc')"
      using drain_canary [OF dc(1,2) movable [OF dc(3)] zero_less_Suc [of fuel]] by blast
    then show ?thesis
      using Drain dc by (intro exI [of _ "Drain dc'"] exI [of _ s']) (simp add: fun_eq_iff drain_within)
  next
    case (MetricC mc)
    then have mc: "metric_ok (metricRow s) C mc" "measured (metricRow s) s"
      "within (et_assignmentTree (mc_expressionTree mc)) (assignmentTree s)"
      and rows: "\<forall>a. \<forall>i \<in> set (mappedChildren (assignmentTree s) 1 a). i < length (metricRow s)"
      using ok mv by (simp_all add: move_ok_def measured_def metricRow_def)
    have sh: "\<forall>i \<in> dom (getNextBin K). i < length (metricRow s)"
      using mv rows unfolding move_ok_def by blast
    obtain mc' s' where "mc_canaryMoves (Suc fuel) C K (mc, s) = Inr (mc', s')"
      "totalOf s' = totalOf s + metric_objective (metricRow s) mc (addMovements K C) - metric_objective (metricRow s) mc C"
      "committedTotal s' = committedTotal s" "sameProblem s s'"
      "et_assignmentTree (mc_expressionTree mc') = et_assignmentTree (mc_expressionTree mc)"
      "metric_objective (metricRow s) mc' = metric_objective (metricRow s) mc"
      "metric_objective (metricRow s) (mc_commitMoves mc') = metric_objective (metricRow s) mc"
      "metric_ok (metricRow s) C mc'" "metric_ok (metricRow s) (addMovements K C) (mc_commitMoves mc')"
      using metric_canary [OF mc(1,2) movable [OF mc(3)] sh zero_less_Suc [of fuel]] by blast
    then show ?thesis
      using MetricC mc rows by (intro exI [of _ "MetricC mc'"] exI [of _ s']) (simp add: fun_eq_iff metric_within measured_def)
  next
    case (LoadBalancing lb)
    then show ?thesis using ok by simp
  qed
next
  fix s s' :: solving_state and C k
  assume s: "sameProblem s s'"
  have row: "metricRow s' = metricRow s" by (simp add: metricRow_def sameProblem_fields(3) [OF s])
  show "constraint_ok s' C k = constraint_ok s C k"
    by (cases k) (simp_all add: row sameProblem_fields(3,5) [OF s])
  show "objective s' k C = objective s k C" by (cases k) (simp_all add: row)
qed

section \<open>Constraints on a null movement map\<close>

text \<open>The tree over which a constraint is evaluated first. Its shard domain is that of the state,
  which is 0.\<close>

fun constraintTree :: "constraint \<Rightarrow> sparse_mapping_tree" where
  "constraintTree (Drain dc) = et_assignmentTree (dc_expressionTree dc)"
| "constraintTree (MetricC mc) = et_assignmentTree (mc_expressionTree mc)"
| "constraintTree (LoadBalancing lb) = et_assignmentTree (minExpressionTree lb)"

lemma constraint_null:
  assumes "two_domains s" and "ss_movementMap s = None" and "shardDomain (constraintTree k) = 0"
    and "getNextBin K \<noteq> Map.empty"
  shows "constraint_canaryMoves fuel C K (k, s) = Inl NullDeref"
  using assms(3)
  by (cases k) (simp_all add: lb_canaryMoves_def fault_canary_null [OF assms(1,2,4)] canary_null [OF assms(1,2) _ assms(4)])

lemma overAll_null:
  assumes "two_domains s" and "ss_movementMap s = None" and "list_all (\<lambda>k. shardDomain (constraintTree k) = 0) ks"
    and "getNextBin K \<noteq> Map.empty" and "ks \<noteq> []"
  shows "overAll (constraint_canaryMoves fuel C K) ks s = Inl NullDeref"
  using assms constraint_null [OF assms(1,2) _ assms(4)] by (cases ks) simp_all

lemma constraint_ok_shards: "constraint_ok s C k \<Longrightarrow> shardDomain (constraintTree k) = 0"
  by (cases k) (simp_all add: drain_ok_def metric_ok_def counter_tree_shards)

section \<open>The frame of a constraint\<close>

text \<open>No evaluation of any constraint changes more of the state than its weights.\<close>

lemma calculate_frames:
  "calc_keeps (dc_calculate c d w) (\<lambda>env. sameProblem s (snd env))"
  "calc_keeps (mc_calculate c d m k w) (\<lambda>env. sameProblem s (snd env))"
proof -
  have "sameProblem (snd env) (snd (dc_updateWeightIfPossible d w node v env))"
    "sameProblem (snd env) (snd (mc_updateWeightIfPossible d k w node v env))" for node v env
    by (simp_all add: dc_updateWeightIfPossible_def mc_updateWeightIfPossible_def setNodeWeight_frame(1))
  then have "sameProblem s (snd (dc_updateWeightIfPossible d w node v env))"
    "sameProblem s (snd (mc_updateWeightIfPossible d k w node v env))" if "sameProblem s (snd env)" for node v env
    using sameProblem_trans that by blast+
  then show "calc_keeps (dc_calculate c d w) (\<lambda>env. sameProblem s (snd env))"
    "calc_keeps (mc_calculate c d m k w) (\<lambda>env. sameProblem s (snd env))"
    unfolding calc_keeps_def dc_calculate_def mc_calculate_def by (simp_all only: rbind_eq_Inr sum.inject prod.inject) blast+
qed

lemma lb_updateWeights_frame:
  assumes "lb_updateWeights lb s = Inr s'"
  shows "sameProblem s s'"
  using assms unfolding lb_updateWeights_def Let_def
  by (rule rfold_invariant [where P = "sameProblem s"])
    (auto simp: res_simps intro: sameProblem_trans sameProblem_weights(2))

lemma constraint_frame:
  assumes "constraint_canaryMoves fuel C K (k, s) = Inr (k', s')"
  shows "sameProblem s s'"
proof (cases k)
  case (Drain dc)
  then show ?thesis
    using assms expr_canaryMoves_keeps [OF calculate_frames(1)]
    by (fastforce simp: dc_canaryMoves_def res_simps)
next
  case (MetricC mc)
  then show ?thesis
    using assms expr_canaryMoves_keeps [OF calculate_frames(2)]
    by (fastforce simp: mc_canaryMoves_def res_simps)
next
  case (LoadBalancing lb)
  then show ?thesis
    using assms lb_updateWeights_frame by (auto simp: lb_canaryMoves_def Let_def res_simps)
qed

lemma overAll_frame:
  "overAll (constraint_canaryMoves fuel C K) ks s = Inr (ks', s') \<Longrightarrow> sameProblem s s'"
proof (induction ks arbitrary: s ks')
  case (Cons k ks)
  then obtain k1 s1 ks1 where "constraint_canaryMoves fuel C K (k, s) = Inr (k1, s1)"
    "overAll (constraint_canaryMoves fuel C K) ks s1 = Inr (ks1, s')"
    by (auto simp: res_simps)
  with Cons.IH show ?case using constraint_frame sameProblem_trans by blast
qed simp

section \<open>Constructed constraints keep the contract\<close>

lemma new_drain_ok:
  assumes "two_level (assignmentTree s)" and "searchable s" and "ids \<noteq> []" and "0 < fuel"
  shows "\<exists>dc s'. newDrainConstraint fuel AFTER 1 ids faultWeight s = Inr (dc, s') \<and>
     constraint_ok s' emptyMovementMap (Drain dc) \<and> sameProblem s s' \<and> committedTotal s' = totalOf s' \<and>
     totalOf s' = totalOf s + objective s' (Drain dc) emptyMovementMap"
proof -
  obtain dc s' where new: "newDrainConstraint fuel AFTER 1 ids faultWeight s = Inr (dc, s')"
    "totalOf s' = totalOf s + drain_objective dc emptyMovementMap" "committedTotal s' = totalOf s'"
    "sameProblem s s'" "drain_ok emptyMovementMap dc"
    "\<forall>b. mappedChildren (et_assignmentTree (dc_expressionTree dc)) 1 b =
        (if b \<in> set ids then mappedChildren (assignmentTree s) 1 b else [])"
    using drain_new [OF assms] by blast
  have "within (et_assignmentTree (dc_expressionTree dc)) (assignmentTree s')"
    unfolding within_def using new(6) sameProblem_fields(5) [OF new(4)] by auto
  then show ?thesis using new by (intro exI [of _ dc] exI [of _ s']) simp
qed

lemma new_metric_ok:
  assumes "two_level (assignmentTree s)" and s: "measured row s" and "ids \<noteq> []" and "0 \<le> sint capacity"
    and "0 < fuel" and sh: "\<forall>b. \<forall>i \<in> set (mappedChildren (assignmentTree s) 1 b). i < length row"
  shows "\<exists>mc s'. newMetricConstraint fuel AFTER 1 ids metric capacity faultWeight s = Inr (mc, s') \<and>
     constraint_ok s' emptyMovementMap (MetricC mc) \<and> sameProblem s s' \<and> committedTotal s' = totalOf s' \<and>
     totalOf s' = totalOf s + objective s' (MetricC mc) emptyMovementMap"
proof -
  have sh': "\<forall>b \<in> set ids. \<forall>i \<in> set (mappedChildren (assignmentTree s) 1 b). i < length row"
    using sh by blast
  obtain mc s' where new: "newMetricConstraint fuel AFTER 1 ids metric capacity faultWeight s = Inr (mc, s')"
    "totalOf s' = totalOf s + metric_objective row mc emptyMovementMap" "committedTotal s' = totalOf s'"
    "sameProblem s s'" "metric_ok row emptyMovementMap mc"
    "\<forall>b. mappedChildren (et_assignmentTree (mc_expressionTree mc)) 1 b =
        (if b \<in> set ids then mappedChildren (assignmentTree s) 1 b else [])"
    using metric_new [OF assms(1-5) sh'] by blast
  have "within (et_assignmentTree (mc_expressionTree mc)) (assignmentTree s')"
    unfolding within_def using new(6) sameProblem_fields(5) [OF new(4)] by auto
  moreover have "metricRow s' = row" and "measured row s'"
    using measured_same [OF s new(4)] by (simp_all add: metricRow_def measured_def)
  ultimately show ?thesis
    using new sh sameProblem_fields(5) [OF new(4)]
    by (intro exI [of _ mc] exI [of _ s']) (simp add: measured_def)
qed

end
