(* ===== verification/Search.thy ===== *)
theory Search
  imports Constraints "HOL-Library.Product_Lexorder"
begin

text \<open>
  \<open>psychopomp/placer/IterativeLocalSearch.h\<close>: the search that moves one shard at a time to a
  bin that lowers the total weight. The random source is a parameter. The theory shows that
  the moves it returns are sound whatever the constraints do, that every accepted move
  lowers the weight, what the search does on a state without a movement map, and that on a state
  with one, for constraints that keep the contract and a fair random source, it returns with
  the charge of the assignment it returns as its weight.
\<close>

section \<open>The random source\<close>

text \<open>
  \<open>std::mt19937\<close> and \<open>std::uniform_int_distribution\<close> on a generator state, and the order in
  which an \<open>unordered_set\<close> is iterated.
\<close>

record 'g randomness =
  nextRand :: "'g \<Rightarrow> nat \<times> 'g"
  uniformInt :: "nat \<Rightarrow> 'g \<Rightarrow> nat \<times> 'g"
  iterOrder :: "nat list \<Rightarrow> nat list"

section \<open>State\<close>

record 'g search_state =
  ls_state :: solving_state
  ls_constraints :: "constraint list"
  ls_gen :: 'g
  currentWeight :: i64

section \<open>Operations\<close>

text \<open>The rejection loop that draws the candidate bins, with fuel for its turns.\<close>

primrec pickBins ::
    "nat \<Rightarrow> 'g randomness \<Rightarrow> nat \<Rightarrow> DomainId \<Rightarrow> DomainId list \<Rightarrow> 'g \<Rightarrow> fault + DomainId list \<times> 'g" where
  "pickBins 0 rnd numBins binId binSet g = Inl NoReturn"
| "pickBins (Suc fuel) rnd numBins binId binSet g =
     (if length binSet < numBins - 1 \<and> length binSet < 50
      then case uniformInt rnd (numBins - 1) g of
             (nextBinId, g') \<Rightarrow>
               if nextBinId = binId then pickBins fuel rnd numBins binId binSet g'
               else pickBins fuel rnd numBins binId (hs_insert nextBinId binSet) g'
      else Inr (binSet, g))"

definition updateWeights ::
    "nat \<Rightarrow> movement_map \<Rightarrow> movement_map \<Rightarrow> constraint list \<Rightarrow> solving_state
     \<Rightarrow> fault + constraint list \<times> solving_state" where
  "updateWeights fuel committedMoves canaryMoves = overAll (constraint_canaryMoves fuel committedMoves canaryMoves)"

text \<open>The candidates of one shard. A cleared movement map is the empty one.\<close>

fun tryBins ::
    "nat \<Rightarrow> movement_map \<Rightarrow> DomainId \<Rightarrow> DomainId list \<Rightarrow> 'g search_state
     \<Rightarrow> fault + movement_map option \<times> 'g search_state" where
  "tryBins fuel C shard [] st = Inr (None, st)"
| "tryBins fuel C shard (nextBinId # bins) st =
     (let canariedMoves = addMovement shard nextBinId emptyMovementMap in
      rbind (updateWeights fuel C canariedMoves (ls_constraints st) (clearWeights (ls_state st)))
        (\<lambda>(constraints, s).
          let st' = st\<lparr>ls_constraints := constraints, ls_state := s\<rparr> in
          if totalOf s <s currentWeight st
          then Inr (Some canariedMoves, st'\<lparr>currentWeight := totalOf s\<rparr>)
          else tryBins fuel C shard bins st'))"

primrec tryShards ::
    "nat \<Rightarrow> nat \<Rightarrow> 'g randomness \<Rightarrow> movement_map \<Rightarrow> DomainId \<Rightarrow> DomainId list \<Rightarrow> 'g search_state
     \<Rightarrow> fault + movement_map option \<times> 'g search_state" where
  "tryShards 0 fuel rnd C binId shardsInBin st = Inr (None, st)"
| "tryShards (Suc n) fuel rnd C binId shardsInBin st =
     (let (r, g) = nextRand rnd (ls_gen st);
          shard = shardsInBin ! (r mod length shardsInBin);
          numBins = getDomainSize (ls_state st) (ss_binDomain (ls_state st)) in
      rbind (pickBins fuel rnd numBins binId [] g) (\<lambda>(binSet, g').
        rbind (tryBins fuel C shard (iterOrder rnd binSet) (st\<lparr>ls_gen := g'\<rparr>)) (\<lambda>(found, st').
          case found of
            Some K \<Rightarrow> Inr (Some K, st')
          | None \<Rightarrow> tryShards n fuel rnd C binId shardsInBin st')))"

definition unmovedShards :: "solving_state \<Rightarrow> movement_map \<Rightarrow> DomainId \<Rightarrow> DomainId list" where
  "unmovedShards s C binId =
     filter (\<lambda>shard. getNextBin C shard = None) (mappedChildren (assignmentTree s) (ss_binDomain s) binId)"

definition getMovementForBin ::
    "nat \<Rightarrow> 'g randomness \<Rightarrow> movement_map \<Rightarrow> DomainId \<Rightarrow> 'g search_state
     \<Rightarrow> fault + movement_map option \<times> 'g search_state" where
  "getMovementForBin fuel rnd C binId st =
     (let shardsInBin = unmovedShards (ls_state st) C binId in
      if shardsInBin = [] then Inr (None, st)
      else tryShards 10 fuel rnd C binId shardsInBin st)"

text \<open>
  The bins in the order they are tried: heaviest first, ties by descending id. The weights
  pass through an \<open>int32_t\<close>.
\<close>

definition binOrder :: "solving_state \<Rightarrow> nat \<Rightarrow> DomainId list" where
  "binOrder s numBins =
     map snd (sort_key (\<lambda>(weight, binId). (- sint weight, - int binId))
       (map (\<lambda>binId. (i32_of_i64 (binWeightOf s binId), binId)) [0..<numBins]))"

fun searchBins ::
    "nat \<Rightarrow> 'g randomness \<Rightarrow> movement_map \<Rightarrow> DomainId list \<Rightarrow> 'g search_state
     \<Rightarrow> fault + movement_map option \<times> 'g search_state" where
  "searchBins fuel rnd C [] st = Inr (None, st)"
| "searchBins fuel rnd C (binId # bins) st =
     rbind (getMovementForBin fuel rnd C binId st) (\<lambda>(found, st').
       case found of
         Some K \<Rightarrow> Inr (Some K, st')
       | None \<Rightarrow> searchBins fuel rnd C bins st')"

definition commitAll :: "'g search_state \<Rightarrow> 'g search_state" where
  "commitAll st =
     fold (\<lambda>c st. st\<lparr>ls_constraints := ls_constraints st @ [constraint_commitMoves c],
                    ls_state := commitWeights (ls_state st)\<rparr>)
       (ls_constraints st) (st\<lparr>ls_constraints := []\<rparr>)"

primrec solveLoop ::
    "nat \<Rightarrow> nat \<Rightarrow> 'g randomness \<Rightarrow> nat \<Rightarrow> movement_map \<Rightarrow> 'g search_state
     \<Rightarrow> fault + movement_map \<times> 'g search_state" where
  "solveLoop 0 fuel rnd numBins C st = Inr (C, st)"
| "solveLoop (Suc n) fuel rnd numBins C st =
     rbind (searchBins fuel rnd C (binOrder (ls_state st) numBins) st) (\<lambda>(found, st').
       case found of
         Some K \<Rightarrow> solveLoop n fuel rnd numBins (addMovements K C) (commitAll st')
       | None \<Rightarrow> Inr (C, st'))"

definition solve ::
    "nat \<Rightarrow> nat \<Rightarrow> 'g randomness \<Rightarrow> 'g \<Rightarrow> solving_state \<Rightarrow> constraint list
     \<Rightarrow> fault + movement_map \<times> 'g search_state" where
  "solve maxIterations fuel rnd g s constraints =
     solveLoop maxIterations fuel rnd (getDomainSize s (ss_binDomain s)) emptyMovementMap
       \<lparr>ls_state = s, ls_constraints = constraints, ls_gen = g, currentWeight = totalOf s\<rparr>"

section \<open>The candidate bins\<close>

definition inRange :: "'g randomness \<Rightarrow> bool" where
  "inRange rnd \<longleftrightarrow> (\<forall>n g. fst (uniformInt rnd n g) \<le> n) \<and> (\<forall>xs. set (iterOrder rnd xs) = set xs)"

text \<open>The first \<open>k\<close> values the distribution yields from a generator state.\<close>

primrec draws :: "'g randomness \<Rightarrow> nat \<Rightarrow> nat \<Rightarrow> 'g \<Rightarrow> nat list" where
  "draws rnd n 0 g = []"
| "draws rnd n (Suc k) g = fst (uniformInt rnd n g) # draws rnd n k (snd (uniformInt rnd n g))"

text \<open>A source that yields every value within \<open>k\<close> draws, whatever state it is in.\<close>

definition coversWithin :: "nat \<Rightarrow> 'g randomness \<Rightarrow> nat \<Rightarrow> bool" where
  "coversWithin k rnd numBins \<longleftrightarrow> (\<forall>g. {0..<numBins} \<subseteq> set (draws rnd (numBins - 1) k g))"

lemma pickBins_range:
  assumes "inRange rnd" and "binId < numBins"
  shows "pickBins fuel rnd numBins binId bs g = Inr (bs', g') \<Longrightarrow>
    \<forall>b \<in> set bs. b \<noteq> binId \<and> b < numBins \<Longrightarrow> \<forall>b \<in> set bs'. b \<noteq> binId \<and> b < numBins"
proof (induction fuel arbitrary: bs g)
  case (Suc fuel)
  obtain b g1 where b: "uniformInt rnd (numBins - 1) g = (b, g1)" by force
  have "fst (uniformInt rnd (numBins - 1) g) \<le> numBins - 1"
    using assms(1) by (simp add: inRange_def)
  then have less: "b < numBins" using b assms(2) by simp
  show ?case
  proof (cases "length bs < numBins - 1 \<and> length bs < 50")
    case True
    let ?bs = "if b = binId then bs else hs_insert b bs"
    have "pickBins fuel rnd numBins binId ?bs g1 = Inr (bs', g')"
      using Suc.prems(1) True b by (simp split: if_splits)
    moreover have "\<forall>b \<in> set ?bs. b \<noteq> binId \<and> b < numBins"
      using Suc.prems(2) less by simp
    ultimately show ?thesis by (rule Suc.IH)
  next
    case False
    then show ?thesis using Suc.prems by auto
  qed
qed simp

lemma full_set_length:
  assumes "{0..<n} - {b} \<subseteq> set bs" and "b < n"
  shows "n - 1 \<le> length bs"
proof -
  have "n - 1 = card ({0..<n} - {b})" using assms(2) by simp
  also have "\<dots> \<le> card (set bs)" by (rule card_mono) (use assms(1) in auto)
  also have "\<dots> \<le> length bs" by (rule card_length)
  finally show ?thesis .
qed

lemma pickBins_total:
  assumes "binId < numBins"
  shows "{0..<numBins} - {binId} \<subseteq> set bs \<union> set (draws rnd (numBins - 1) k g) \<Longrightarrow>
    \<exists>bs' g'. pickBins (Suc k) rnd numBins binId bs g = Inr (bs', g')"
proof (induction k arbitrary: bs g)
  case 0
  then show ?case using full_set_length [OF _ assms, of bs] by (cases "uniformInt rnd (numBins - 1) g") auto
next
  case (Suc k)
  obtain b g1 where b: "uniformInt rnd (numBins - 1) g = (b, g1)" by force
  have "{0..<numBins} - {binId} \<subseteq> set bs \<union> set (draws rnd (numBins - 1) k g1) \<or>
      b \<noteq> binId \<and> {0..<numBins} - {binId} \<subseteq> set (hs_insert b bs) \<union> set (draws rnd (numBins - 1) k g1)"
    using Suc.prems b by auto
  then show ?case
  proof (elim disjE conjE)
    assume h: "{0..<numBins} - {binId} \<subseteq> set bs \<union> set (draws rnd (numBins - 1) k g1)"
    then have "{0..<numBins} - {binId} \<subseteq> set (hs_insert b bs) \<union> set (draws rnd (numBins - 1) k g1)" by auto
    with h Suc.IH [of bs g1] Suc.IH [of "hs_insert b bs" g1] b show ?case
      by (simp del: pickBins.simps(2) add: pickBins.simps(2) [of "Suc k"])
  next
    assume "b \<noteq> binId" "{0..<numBins} - {binId} \<subseteq> set (hs_insert b bs) \<union> set (draws rnd (numBins - 1) k g1)"
    with Suc.IH [of "hs_insert b bs" g1] b show ?case
      by (simp del: pickBins.simps(2) add: pickBins.simps(2) [of "Suc k"])
  qed
qed

lemma pickBins_spins:
  assumes "\<And>g. fst (uniformInt rnd (numBins - 1) g) = binId" and "1 < numBins"
  shows "pickBins fuel rnd numBins binId [] g = Inl NoReturn"
proof (induction fuel arbitrary: g)
  case (Suc fuel)
  obtain g' where "uniformInt rnd (numBins - 1) g = (binId, g')"
    using assms(1) [of g] by (cases "uniformInt rnd (numBins - 1) g") auto
  with Suc assms(2) show ?case by simp
qed simp

section \<open>One step of the search\<close>

text \<open>
  What a part of the search that started in \<open>st\<close> may return: the problem is untouched, and
  either nothing was found and the weight to beat is the same, or one shard of a bin that has
  no committed move is sent to another bin and the total is below that weight.
\<close>

definition single_move :: "nat \<Rightarrow> solving_state \<Rightarrow> movement_map \<Rightarrow> movement_map \<Rightarrow> bool" where
  "single_move numBins s C K \<longleftrightarrow>
     (\<exists>a sh b. K = addMovement sh b emptyMovementMap \<and> a < numBins \<and> b < numBins \<and> b \<noteq> a \<and>
        sh \<in> set (unmovedShards s C a))"

definition step_ok ::
    "nat \<Rightarrow> movement_map \<Rightarrow> 'g search_state \<Rightarrow> movement_map option \<times> 'g search_state \<Rightarrow> bool" where
  "step_ok numBins C st r \<longleftrightarrow>
     (case r of (found, st') \<Rightarrow>
        sameProblem (ls_state st) (ls_state st') \<and>
        (case found of
           None \<Rightarrow> currentWeight st' = currentWeight st
         | Some K \<Rightarrow> single_move numBins (ls_state st) C K \<and>
             currentWeight st' <s currentWeight st \<and> currentWeight st' = totalOf (ls_state st')))"

lemma unmovedShards_same:
  "sameProblem s s' \<Longrightarrow> unmovedShards s' = unmovedShards s"
  by (simp add: unmovedShards_def [abs_def] sameProblem_fields)

lemma single_move_same:
  "sameProblem s s' \<Longrightarrow> single_move n s' C K = single_move n s C K"
  by (simp add: single_move_def unmovedShards_same)

lemma step_ok_refl [simp]: "step_ok n C st (None, st)"
  by (simp add: step_ok_def)

lemma step_ok_trans:
  assumes "step_ok n C st (None, st1)" and "step_ok n C st1 r"
  shows "step_ok n C st r"
proof -
  have s: "sameProblem (ls_state st) (ls_state st1)" "currentWeight st1 = currentWeight st"
    using assms(1) by (simp_all add: step_ok_def)
  show ?thesis
    using assms(2) s sameProblem_trans [OF s(1)] single_move_same [OF s(1)]
    unfolding step_ok_def by (cases r) (auto split: option.splits)
qed

lemma step_ok_gen: "step_ok n C (st\<lparr>ls_gen := g\<rparr>) r = step_ok n C st r"
  by (simp add: step_ok_def split: prod.split option.split)

lemma tryBins_step:
  assumes "a < numBins" and "shard \<in> set (unmovedShards (ls_state st) C a)"
  shows "tryBins fuel C shard bins st = Inr r \<Longrightarrow> \<forall>b \<in> set bins. b \<noteq> a \<and> b < numBins \<Longrightarrow>
    step_ok numBins C st r"
  using assms(2)
proof (induction bins arbitrary: st)
  case (Cons b bins)
  let ?K = "addMovement shard b emptyMovementMap"
  obtain ks s where run: "updateWeights fuel C ?K (ls_constraints st) (clearWeights (ls_state st)) = Inr (ks, s)"
    using Cons.prems(1) by (auto simp: res_simps Let_def)
  have "sameProblem (clearWeights (ls_state st)) s"
    using overAll_frame run unfolding updateWeights_def by blast
  then have same: "sameProblem (ls_state st) s"
    using sameProblem_trans sameProblem_weights(4) by blast
  let ?st = "st\<lparr>ls_constraints := ks, ls_state := s\<rparr>"
  show ?case
  proof (cases "totalOf s <s currentWeight st")
    case True
    then have "r = (Some ?K, ?st\<lparr>currentWeight := totalOf s\<rparr>)"
      using Cons.prems(1) run by (simp add: Let_def)
    then show ?thesis
      using True same assms(1) Cons.prems(2,3) unfolding step_ok_def single_move_def by auto
  next
    case False
    then have "tryBins fuel C shard bins ?st = Inr r"
      using Cons.prems(1) run by (simp add: Let_def)
    then have "step_ok numBins C ?st r"
      using Cons.prems(2,3) unmovedShards_same [OF same] by (intro Cons.IH) auto
    moreover have "step_ok numBins C st (None, ?st)" using same by (simp add: step_ok_def)
    ultimately show ?thesis by (rule step_ok_trans [rotated])
  qed
qed auto

lemma domainSize_same: "sameProblem s s' \<Longrightarrow> getDomainSize s' (ss_binDomain s') = getDomainSize s (ss_binDomain s)"
  by (simp add: sameProblem_fields)

lemma tryShards_step:
  assumes rnd: "inRange rnd" and a: "a < getDomainSize (ls_state st) (ss_binDomain (ls_state st))"
    and xs: "xs = unmovedShards (ls_state st) C a" "xs \<noteq> []"
  shows "tryShards n fuel rnd C a xs st = Inr r \<Longrightarrow>
    step_ok (getDomainSize (ls_state st) (ss_binDomain (ls_state st))) C st r"
  using a xs(1)
proof (induction n arbitrary: st)
  case 0
  then show ?case by auto
next
  case (Suc n)
  let ?N = "getDomainSize (ls_state st) (ss_binDomain (ls_state st))"
  obtain i g where i: "nextRand rnd (ls_gen st) = (i, g)" by force
  let ?shard = "xs ! (i mod length xs)"
  obtain bs g' where pick: "pickBins fuel rnd ?N a [] g = Inr (bs, g')"
    using Suc.prems(1) i by (auto simp: res_simps)
  let ?st = "st\<lparr>ls_gen := g'\<rparr>"
  obtain found st' where tr: "tryBins fuel C ?shard (iterOrder rnd bs) ?st = Inr (found, st')"
    using Suc.prems(1) i pick by (auto simp: res_simps)
  have "?shard \<in> set (unmovedShards (ls_state ?st) C a)"
    using Suc.prems(3) xs(2) nth_mem [of "i mod length xs" xs] by simp
  moreover have "\<forall>b \<in> set (iterOrder rnd bs). b \<noteq> a \<and> b < ?N"
    using pickBins_range [OF rnd Suc.prems(2) pick] rnd by (simp add: inRange_def)
  ultimately have step: "step_ok ?N C st (found, st')"
    using tryBins_step [OF Suc.prems(2) _ tr] by (simp add: step_ok_gen)
  show ?case
  proof (cases found)
    case None
    have same: "sameProblem (ls_state st) (ls_state st')" using step by (simp add: step_ok_def)
    have "tryShards n fuel rnd C a xs st' = Inr r"
      using Suc.prems(1) i pick tr None by simp
    then have "step_ok ?N C st' r"
      using Suc.IH [of st'] Suc.prems domainSize_same [OF same] unmovedShards_same [OF same] by simp
    then show ?thesis using step None step_ok_trans by blast
  next
    case (Some K)
    then show ?thesis using Suc.prems(1) i pick tr step by simp
  qed
qed

lemma getMovementForBin_step:
  assumes "inRange rnd" and "a < getDomainSize (ls_state st) (ss_binDomain (ls_state st))"
    and "getMovementForBin fuel rnd C a st = Inr r"
  shows "step_ok (getDomainSize (ls_state st) (ss_binDomain (ls_state st))) C st r"
  using assms tryShards_step [OF assms(1,2) refl]
  by (auto simp: getMovementForBin_def Let_def split: if_splits)

lemma searchBins_step:
  assumes rnd: "inRange rnd"
  shows "searchBins fuel rnd C bins st = Inr r \<Longrightarrow>
    \<forall>b \<in> set bins. b < getDomainSize (ls_state st) (ss_binDomain (ls_state st)) \<Longrightarrow>
    step_ok (getDomainSize (ls_state st) (ss_binDomain (ls_state st))) C st r"
proof (induction bins arbitrary: st)
  case (Cons b bins)
  obtain found st' where one: "getMovementForBin fuel rnd C b st = Inr (found, st')"
    using Cons.prems(1) by (auto simp: res_simps)
  let ?N = "getDomainSize (ls_state st) (ss_binDomain (ls_state st))"
  have step: "step_ok ?N C st (found, st')"
    using getMovementForBin_step [OF rnd _ one] Cons.prems(2) by simp
  show ?case
  proof (cases found)
    case None
    have same: "sameProblem (ls_state st) (ls_state st')" using step by (simp add: step_ok_def)
    have "step_ok ?N C st' r"
      using Cons.IH [of st'] Cons.prems one None domainSize_same [OF same] by simp
    then show ?thesis using step None step_ok_trans by blast
  next
    case (Some K)
    then show ?thesis using Cons.prems(1) one step by simp
  qed
qed auto

lemma set_binOrder: "set (binOrder s n) = {0..<n}"
  by (simp add: binOrder_def image_comp)

section \<open>The whole search\<close>

lemma addMovements_single: "addMovements (addMovement sh b emptyMovementMap) C = addMovement sh b C"
  by (simp add: addMovements_def getAllMovements_def addMovement_def emptyMovementMap_def)

lemma commitAll_frame:
  "currentWeight (commitAll st) = currentWeight st \<and> sameProblem (ls_state st) (ls_state (commitAll st)) \<and>
   ls_constraints (commitAll st) = map constraint_commitMoves (ls_constraints st) \<and>
   totalOf (ls_state (commitAll st)) = totalOf (ls_state st) \<and>
   (ls_constraints st \<noteq> [] \<longrightarrow> committedTotal (ls_state (commitAll st)) = totalOf (ls_state st))"
proof -
  let ?step = "\<lambda>c st. st\<lparr>ls_constraints := ls_constraints st @ [constraint_commitMoves c],
                    ls_state := commitWeights (ls_state st)\<rparr>"
  have "currentWeight (fold ?step cs st) = currentWeight st \<and>
      sameProblem (ls_state st) (ls_state (fold ?step cs st)) \<and>
      ls_constraints (fold ?step cs st) = ls_constraints st @ map constraint_commitMoves cs \<and>
      totalOf (ls_state (fold ?step cs st)) = totalOf (ls_state st) \<and>
      (cs \<noteq> [] \<longrightarrow> committedTotal (ls_state (fold ?step cs st)) = totalOf (ls_state st))"
    for cs and st :: "'a search_state"
  proof (induction cs arbitrary: st)
    case (Cons c cs)
    have "sameProblem (ls_state st) (ls_state (fold ?step cs (?step c st)))"
      using Cons [of "?step c st"] sameProblem_trans [OF sameProblem_weights(3)] by simp
    with Cons [of "?step c st"] show ?case by (cases "cs = []") simp_all
  qed simp
  from this [of "ls_constraints st" "st\<lparr>ls_constraints := []\<rparr>"] show ?thesis
    by (simp add: commitAll_def)
qed

text \<open>The committed moves of a search on the problem \<open>s\<close>.\<close>

definition sound_moves :: "solving_state \<Rightarrow> movement_map \<Rightarrow> bool" where
  "sound_moves s C \<longleftrightarrow> mm_wf C \<and> mm_agree C \<and>
     (\<forall>i b. getNextBin C i = Some b \<longrightarrow> b < getDomainSize s (ss_binDomain s) \<and>
        (\<exists>a < getDomainSize s (ss_binDomain s). a \<noteq> b \<and> i \<in> set (mappedChildren (assignmentTree s) (ss_binDomain s) a)))"

lemma sound_moves_empty: "sound_moves s emptyMovementMap"
  by (simp add: sound_moves_def mm_agree_def)

lemma sound_moves_add:
  assumes "sound_moves s C" and "single_move (getDomainSize s (ss_binDomain s)) s C K"
  shows "sound_moves s (addMovements K C)"
    and "card (dom (getNextBin (addMovements K C))) = Suc (card (dom (getNextBin C)))"
proof -
  obtain a sh b where K: "K = addMovement sh b emptyMovementMap"
    and ab: "a < getDomainSize s (ss_binDomain s)" "b < getDomainSize s (ss_binDomain s)" "b \<noteq> a"
    and sh: "getNextBin C sh = None" "sh \<in> set (mappedChildren (assignmentTree s) (ss_binDomain s) a)"
    using assms(2) by (auto simp: single_move_def unmovedShards_def)
  show "sound_moves s (addMovements K C)"
    using assms(1) ab sh unfolding sound_moves_def K addMovements_single
    by (auto intro: mm_agree_add)
  have "finite (dom (getNextBin C))"
    unfolding getNextBin_def [abs_def] by (rule finite_dom_map_of)
  moreover have "sh \<notin> dom (getNextBin C)" using sh(1) by (simp add: domIff)
  ultimately show "card (dom (getNextBin (addMovements K C))) = Suc (card (dom (getNextBin C)))"
    by (simp add: K addMovements_single)
qed

lemma sound_moves_same: "sameProblem s s' \<Longrightarrow> sound_moves s' C = sound_moves s C"
  by (simp add: sound_moves_def sameProblem_fields)

lemma solveLoop_sound:
  assumes rnd: "inRange rnd"
  shows "solveLoop n fuel rnd numBins C st = Inr (C', st') \<Longrightarrow>
    sound_moves (ls_state st) C \<Longrightarrow> numBins = getDomainSize (ls_state st) (ss_binDomain (ls_state st)) \<Longrightarrow>
    sound_moves (ls_state st) C' \<and> sameProblem (ls_state st) (ls_state st') \<and>
    card (dom (getNextBin C')) \<le> card (dom (getNextBin C)) + n \<and>
    sint (currentWeight st') + int (card (dom (getNextBin C'))) \<le>
      sint (currentWeight st) + int (card (dom (getNextBin C)))"
proof (induction n arbitrary: C st)
  case 0
  then show ?case by auto
next
  case (Suc n)
  let ?s = "ls_state st"
  obtain found st1 where run: "searchBins fuel rnd C (binOrder ?s numBins) st = Inr (found, st1)"
    using Suc.prems(1) by (auto simp: res_simps)
  have step: "step_ok numBins C st (found, st1)"
    using searchBins_step [OF rnd run] Suc.prems(3) by (simp add: set_binOrder)
  then have same: "sameProblem ?s (ls_state st1)" by (simp add: step_ok_def)
  show ?case
  proof (cases found)
    case None
    then have "C' = C" "st' = st1" using Suc.prems(1) run by auto
    then show ?thesis using step None Suc.prems(2) same by (simp add: step_ok_def)
  next
    case (Some K)
    let ?st = "commitAll st1" and ?C = "addMovements K C"
    have rest: "solveLoop n fuel rnd numBins ?C ?st = Inr (C', st')"
      using Suc.prems(1) run Some by simp
    have K: "single_move numBins ?s C K" "currentWeight st1 <s currentWeight st"
      using step unfolding step_ok_def Some prod.case option.case by blast+
    have same2: "sameProblem ?s (ls_state ?st)"
      using sameProblem_trans [OF same] commitAll_frame by blast
    note C = sound_moves_add [OF Suc.prems(2) K(1) [unfolded Suc.prems(3)]]
    have "sound_moves (ls_state ?st) C' \<and> sameProblem (ls_state ?st) (ls_state st') \<and>
        card (dom (getNextBin C')) \<le> card (dom (getNextBin ?C)) + n \<and>
        sint (currentWeight st') + int (card (dom (getNextBin C'))) \<le>
          sint (currentWeight ?st) + int (card (dom (getNextBin ?C)))"
      using Suc.IH [OF rest] C(1) sound_moves_same [OF same2] domainSize_same [OF same2] Suc.prems(3) by simp
    moreover have "sint (currentWeight ?st) < sint (currentWeight st)"
      using K(2) commitAll_frame [of st1] by (simp add: word_sless_alt)
    ultimately show ?thesis
      using C(2) sound_moves_same [OF same2] sameProblem_trans [OF same2] by auto
  qed
qed

section \<open>Constraints that keep the contract\<close>

text \<open>
  The state of a search on the problem \<open>s\<close> whose constraints charge \<open>F C\<close> for the moves
  \<open>C\<close>, on top of a fixed weight.
\<close>

definition tracks ::
    "solving_state \<Rightarrow> i64 \<Rightarrow> (movement_map \<Rightarrow> i64) \<Rightarrow> movement_map \<Rightarrow> 'g search_state \<Rightarrow> bool" where
  "tracks s base F C st \<longleftrightarrow> sameProblem s (ls_state st) \<and>
     all_ok constraint_ok s C (ls_constraints st) \<and> charge objective s (ls_constraints st) = F \<and>
     committedTotal (ls_state st) = base + F C \<and> currentWeight st = base + F C"

lemma tracks_gen: "tracks s base F C (st\<lparr>ls_gen := g\<rparr>) = tracks s base F C st"
  by (simp add: tracks_def)

lemma single_move_ok:
  assumes t: "two_level (assignmentTree s)" "ss_binDomain s = 1" "searchable s" and C: "sound_moves s C"
    and K: "single_move n s C K"
  shows "move_ok s C K"
proof -
  obtain a sh b where K: "K = addMovement sh b emptyMovementMap" and ab: "b \<noteq> a"
    and sh: "getNextBin C sh = None" "sh \<in> set (mappedChildren (assignmentTree s) 1 a)"
    using K t(2) by (auto simp: single_move_def unmovedShards_def)
  have par: "parentIn (assignmentTree s) 0 sh 1 = Some x \<longleftrightarrow> sh \<in> set (mappedChildren (assignmentTree s) 1 x)" for x
    using t(1) unfolding two_level_def tree_agree_def by blast
  have "sh \<notin> set (mappedChildren (assignmentTree s) 1 b)"
    using par [of a] par [of b] sh(2) ab by simp
  then show ?thesis
    using C sh t(3) by (auto simp: move_ok_def movable_def sound_moves_def K)
qed

lemma commit_tracks:
  assumes st: "sameProblem s (ls_state st)" "all_ok constraint_ok s C' (map constraint_commitMoves (ls_constraints st))"
      "charge objective s (map constraint_commitMoves (ls_constraints st)) = F"
    and w: "totalOf (ls_state st) = base + F C'" "currentWeight st = base + F C'" and ks: "ls_constraints st \<noteq> []"
  shows "tracks s base F C' (commitAll st)"
  using commitAll_frame [of st] assms sameProblem_trans [OF st(1)] unfolding tracks_def by simp

text \<open>Every part of the search returns, and keeps track of the charge.\<close>

definition tracks_step ::
    "solving_state \<Rightarrow> i64 \<Rightarrow> (movement_map \<Rightarrow> i64) \<Rightarrow> movement_map
     \<Rightarrow> movement_map option \<times> 'g search_state \<Rightarrow> bool" where
  "tracks_step s base F C r \<longleftrightarrow>
     (case r of
        (None, st') \<Rightarrow> tracks s base F C st'
      | (Some K, st') \<Rightarrow> single_move (getDomainSize s (ss_binDomain s)) s C K \<and>
          tracks s base F (addMovements K C) (commitAll st'))"

lemma tryBins_tracks:
  assumes mv: "\<forall>b \<in> set bins.
      single_move (getDomainSize s (ss_binDomain s)) s C (addMovement shard b emptyMovementMap)"
    and t: "two_level (assignmentTree s)" "ss_binDomain s = 1" "searchable s" and C: "sound_moves s C"
  shows "tracks s base F C st \<Longrightarrow>
    \<exists>r. tryBins (Suc fuel) C shard bins st = Inr r \<and> tracks_step s base F C r"
  using mv
proof (induction bins arbitrary: st)
  case Nil
  then show ?case by (simp add: tracks_step_def)
next
  case (Cons b bins)
  let ?K = "addMovement shard b emptyMovementMap" and ?u = "clearWeights (ls_state st)"
  let ?ks = "ls_constraints st"
  have K: "single_move (getDomainSize s (ss_binDomain s)) s C ?K" using Cons.prems(2) by simp
  have tr: "sameProblem s (ls_state st)" "all_ok constraint_ok s C ?ks" "charge objective s ?ks = F"
    "committedTotal (ls_state st) = base + F C" "currentWeight st = base + F C"
    using Cons.prems(1) by (simp_all add: tracks_def)
  have u: "sameProblem s ?u" using sameProblem_trans [OF tr(1)] by simp
  note all_u = charges.all_same [OF u]
  obtain ks s1 where run: "overAll (constraint_canaryMoves (Suc fuel) C ?K) ?ks ?u = Inr (ks, s1)"
    and s1: "sameProblem ?u s1" "committedTotal s1 = committedTotal ?u"
      "totalOf s1 = totalOf ?u + charge objective ?u ?ks (addMovements ?K C) - charge objective ?u ?ks C"
    and ks: "all_ok constraint_ok ?u C ks" "charge objective ?u ks = charge objective ?u ?ks"
      "all_ok constraint_ok ?u (addMovements ?K C) (map constraint_commitMoves ks)"
      "charge objective ?u (map constraint_commitMoves ks) = charge objective ?u ?ks"
    using charges.canary_all [of ?u C ?ks ?K fuel] all_u tr(2) move_ok_same [OF u] single_move_ok [OF t C K]
    by (metis (no_types, lifting))
  have total: "totalOf s1 = base + F (addMovements ?K C)"
    using s1(3) tr(3,4) by (simp add: all_u)
  have same: "sameProblem s s1" by (rule sameProblem_trans [OF u s1(1)])
  let ?st = "st\<lparr>ls_constraints := ks, ls_state := s1\<rparr>"
  show ?case
  proof (cases "totalOf s1 <s currentWeight st")
    case True
    let ?st' = "?st\<lparr>currentWeight := totalOf s1\<rparr>"
    have "ks \<noteq> []"
    proof
      assume "ks = []"
      then have "?ks = []" using overAll_length [OF run] by simp
      then have "F = (\<lambda>_. 0)" using tr(3) by (simp add: charge_def fun_eq_iff)
      then show False using True total tr(5) by simp
    qed
    then have "tracks s base F (addMovements ?K C) (commitAll ?st')"
      using same ks(3,4) total tr(3) by (intro commit_tracks) (simp_all add: all_u fun_eq_iff)
    moreover have "tryBins (Suc fuel) C shard (b # bins) st = Inr (Some ?K, ?st')"
      using run True by (simp add: updateWeights_def Let_def)
    ultimately show ?thesis using K by (auto simp: tracks_step_def)
  next
    case False
    have "tracks s base F C ?st"
      using same ks(1,2) s1(2) tr unfolding tracks_def by (simp add: all_u fun_eq_iff)
    then have "\<exists>r. tryBins (Suc fuel) C shard bins ?st = Inr r \<and> tracks_step s base F C r"
      using Cons.IH Cons.prems(2) by simp
    then show ?thesis using run False by (simp add: updateWeights_def Let_def)
  qed
qed

lemma tryShards_tracks:
  assumes rnd: "inRange rnd" "coversWithin fuel rnd (getDomainSize s (ss_binDomain s))"
    and t: "two_level (assignmentTree s)" "ss_binDomain s = 1" "searchable s" and C: "sound_moves s C"
    and a: "a < getDomainSize s (ss_binDomain s)" and xs: "xs = unmovedShards s C a" "xs \<noteq> []"
  shows "tracks s base F C st \<Longrightarrow>
    \<exists>r. tryShards n (Suc fuel) rnd C a xs st = Inr r \<and> tracks_step s base F C r"
proof (induction n arbitrary: st)
  case 0
  then show ?case by (simp add: tracks_step_def)
next
  case (Suc n)
  let ?N = "getDomainSize s (ss_binDomain s)"
  obtain i g where i: "nextRand rnd (ls_gen st) = (i, g)" by force
  let ?shard = "xs ! (i mod length xs)"
  have same: "sameProblem s (ls_state st)" using Suc.prems by (simp add: tracks_def)
  have N: "getDomainSize (ls_state st) (ss_binDomain (ls_state st)) = ?N" by (rule domainSize_same [OF same])
  have "{0..<?N} - {a} \<subseteq> set [] \<union> set (draws rnd (?N - 1) fuel g)"
    using rnd(2) unfolding coversWithin_def by auto
  from pickBins_total [OF a this]
  obtain bs g' where pick: "pickBins (Suc fuel) rnd ?N a [] g = Inr (bs, g')" by blast
  have "?shard \<in> set xs" using xs(2) by (intro nth_mem) simp
  then have sh: "?shard \<in> set (unmovedShards s C a)" using xs(1) by simp
  have "\<forall>b \<in> set (iterOrder rnd bs). single_move ?N s C (addMovement ?shard b emptyMovementMap)"
    using pickBins_range [OF rnd(1) a pick] rnd(1) a sh unfolding single_move_def inRange_def by fastforce
  from tryBins_tracks [OF this t C, where base = base and F = F and st = "st\<lparr>ls_gen := g'\<rparr>" and fuel = fuel] Suc.prems
  obtain found st' where tr: "tryBins (Suc fuel) C ?shard (iterOrder rnd bs) (st\<lparr>ls_gen := g'\<rparr>) = Inr (found, st')"
    and step: "tracks_step s base F C (found, st')"
    by (auto simp: tracks_gen)
  show ?case
  proof (cases found)
    case None
    then have "tracks s base F C st'" using step by (simp add: tracks_step_def)
    from Suc.IH [OF this] show ?thesis
      using i pick tr None by (simp add: N del: pickBins.simps)
  next
    case (Some K)
    then show ?thesis using i pick tr step by (simp add: N del: pickBins.simps)
  qed
qed

lemma searchBins_tracks:
  assumes rnd: "inRange rnd" "coversWithin fuel rnd (getDomainSize s (ss_binDomain s))"
    and t: "two_level (assignmentTree s)" "ss_binDomain s = 1" "searchable s" and C: "sound_moves s C"
  shows "\<forall>a \<in> set bins. a < getDomainSize s (ss_binDomain s) \<Longrightarrow> tracks s base F C st \<Longrightarrow>
    \<exists>r. searchBins (Suc fuel) rnd C bins st = Inr r \<and> tracks_step s base F C r"
proof (induction bins arbitrary: st)
  case Nil
  then show ?case by (simp add: tracks_step_def)
next
  case (Cons a bins)
  have "unmovedShards (ls_state st) C a = unmovedShards s C a"
    using Cons.prems(2) unmovedShards_same unfolding tracks_def by metis
  then have "\<exists>r. getMovementForBin (Suc fuel) rnd C a st = Inr r \<and> tracks_step s base F C r"
    using tryShards_tracks [OF rnd t C _ refl _ Cons.prems(2), of a 10] Cons.prems
    by (auto simp: getMovementForBin_def Let_def tracks_step_def)
  then obtain found st' where "getMovementForBin (Suc fuel) rnd C a st = Inr (found, st')"
    "tracks_step s base F C (found, st')" by auto
  then show ?case
    using Cons.IH [of st'] Cons.prems(1) by (cases found) (auto simp: tracks_step_def)
qed

lemma solveLoop_tracks:
  assumes rnd: "inRange rnd" "coversWithin fuel rnd (getDomainSize s (ss_binDomain s))"
    and t: "two_level (assignmentTree s)" "ss_binDomain s = 1" "searchable s"
  shows "sound_moves s C \<Longrightarrow> tracks s base F C st \<Longrightarrow>
    \<exists>C' st'. solveLoop n (Suc fuel) rnd (getDomainSize s (ss_binDomain s)) C st = Inr (C', st') \<and>
      tracks s base F C' st'"
proof (induction n arbitrary: C st)
  case 0
  then show ?case by simp
next
  case (Suc n)
  let ?N = "getDomainSize s (ss_binDomain s)"
  have "\<forall>a \<in> set (binOrder (ls_state st) ?N). a < ?N" by (simp add: set_binOrder)
  from searchBins_tracks [OF rnd t Suc.prems(1) this Suc.prems(2)]
  obtain found st1 where run: "searchBins (Suc fuel) rnd C (binOrder (ls_state st) ?N) st = Inr (found, st1)"
    and step: "tracks_step s base F C (found, st1)" by auto
  show ?case
  proof (cases found)
    case None
    then show ?thesis using run step by (simp add: tracks_step_def)
  next
    case (Some K)
    then have "sound_moves s (addMovements K C)" "tracks s base F (addMovements K C) (commitAll st1)"
      using step sound_moves_add(1) [OF Suc.prems(1)] by (simp_all add: tracks_step_def)
    from Suc.IH [OF this] show ?thesis using run Some by simp
  qed
qed

section \<open>A null movement map\<close>

text \<open>
  Without a movement map the search runs up to the first candidate that a constraint evaluates.
  Until then, and with no constraint at all, it only draws random numbers and clears weights.
\<close>

definition stalled :: "solving_state \<Rightarrow> constraint list \<Rightarrow> i64 \<Rightarrow> 'g search_state \<Rightarrow> bool" where
  "stalled s ks w st \<longleftrightarrow> sameProblem s (ls_state st) \<and> ls_constraints st = ks \<and>
     committedTotal (ls_state st) = w \<and> currentWeight st = w"

lemma stalled_gen [simp]: "stalled s ks w (st\<lparr>ls_gen := g\<rparr>) = stalled s ks w st"
  by (simp add: stalled_def)

definition null_problem :: "solving_state \<Rightarrow> constraint list \<Rightarrow> bool" where
  "null_problem s ks \<longleftrightarrow> two_domains s \<and> ss_movementMap s = None \<and>
     list_all (\<lambda>k. shardDomain (constraintTree k) = 0) ks"

lemma null_problem_same: "sameProblem s s' \<Longrightarrow> null_problem s' ks = null_problem s ks"
  by (simp add: null_problem_def two_domains_same sameProblem_fields)

lemma pickBins_length:
  "pickBins fuel rnd numBins binId bs g = Inr (bs', g') \<Longrightarrow> numBins - 1 \<le> length bs' \<or> 50 \<le> length bs'"
proof (induction fuel arbitrary: bs g)
  case (Suc fuel)
  then show ?case by (cases "uniformInt rnd (numBins - 1) g") (auto split: if_splits)
qed simp

lemma tryBins_null:
  assumes p: "null_problem s ks"
  shows "stalled s ks w st \<Longrightarrow>
    if ks \<noteq> [] \<and> bins \<noteq> [] then tryBins fuel C shard bins st = Inl NullDeref
    else \<exists>st'. tryBins fuel C shard bins st = Inr (None, st') \<and> stalled s ks w st'"
proof (induction bins arbitrary: st)
  case Nil
  then show ?case by simp
next
  case (Cons b bins)
  let ?K = "addMovement shard b emptyMovementMap" and ?u = "clearWeights (ls_state st)"
  have st: "sameProblem s (ls_state st)" "ls_constraints st = ks" "committedTotal (ls_state st) = w" "currentWeight st = w"
    using Cons.prems by (simp_all add: stalled_def)
  have u: "sameProblem s ?u" using sameProblem_trans [OF st(1)] by simp
  show ?case
  proof (cases "ks = []")
    case True
    let ?st = "st\<lparr>ls_constraints := [], ls_state := ?u\<rparr>"
    have total: "totalOf ?u = w" "committedTotal ?u = w" using st(3) by simp_all
    then have "stalled s ks w ?st" using u st True by (simp add: stalled_def)
    from Cons.IH [OF this] show ?thesis
      using True st(2,4) total by (simp add: updateWeights_def Let_def)
  next
    case False
    have "null_problem ?u ks" using p by (simp only: null_problem_same [OF u])
    then have "overAll (constraint_canaryMoves fuel C ?K) ks ?u = Inl NullDeref"
      using False by (intro overAll_null) (simp_all add: null_problem_def fun_eq_iff exI [of _ shard])
    then show ?thesis using False st(2) by (simp add: updateWeights_def Let_def)
  qed
qed

lemma tryShards_null:
  assumes p: "null_problem s ks"
    and rnd: "inRange rnd" "coversWithin fuel rnd (getDomainSize s (ss_binDomain s))"
    and a: "a < getDomainSize s (ss_binDomain s)"
  shows "stalled s ks w st \<Longrightarrow>
    if ks \<noteq> [] \<and> 1 < getDomainSize s (ss_binDomain s) \<and> 0 < n
    then tryShards n (Suc fuel) rnd C a xs st = Inl NullDeref
    else \<exists>st'. tryShards n (Suc fuel) rnd C a xs st = Inr (None, st') \<and> stalled s ks w st'"
proof (induction n arbitrary: st)
  case 0
  then show ?case by simp
next
  case (Suc n)
  let ?N = "getDomainSize s (ss_binDomain s)"
  have same: "sameProblem s (ls_state st)" using Suc.prems by (simp add: stalled_def)
  note N = domainSize_same [OF same]
  obtain i g where i: "nextRand rnd (ls_gen st) = (i, g)" by force
  have "{0..<?N} - {a} \<subseteq> set [] \<union> set (draws rnd (?N - 1) fuel g)"
    using rnd(2) unfolding coversWithin_def by auto
  from pickBins_total [OF a this]
  obtain bs g' where pick: "pickBins (Suc fuel) rnd ?N a [] g = Inr (bs, g')" by blast
  let ?st = "st\<lparr>ls_gen := g'\<rparr>" and ?sh = "xs ! (i mod length xs)"
  have order: "set (iterOrder rnd bs) = set bs" using rnd(1) by (simp add: inRange_def)
  have st: "stalled s ks w ?st" using Suc.prems by simp
  have run: "tryShards (Suc n) (Suc fuel) rnd C a xs st =
      rbind (tryBins (Suc fuel) C ?sh (iterOrder rnd bs) ?st) (\<lambda>(found, st').
        case found of Some K \<Rightarrow> Inr (Some K, st') | None \<Rightarrow> tryShards n (Suc fuel) rnd C a xs st')"
    by (simp add: i N pick del: pickBins.simps)
  show ?case
  proof (cases "ks \<noteq> [] \<and> 1 < ?N")
    case True
    then have "iterOrder rnd bs \<noteq> []" using pickBins_length [OF pick] order by (metis One_nat_def diff_is_0_eq leD le_zero_eq length_0_conv not_numeral_le_zero set_empty)
    then show ?thesis using run tryBins_null [OF p st, of "iterOrder rnd bs" "Suc fuel" C ?sh] True by simp
  next
    case False
    have "bs = []" if "?N \<le> 1" using pick that by (auto split: prod.splits)
    then have "ks = [] \<or> iterOrder rnd bs = []" using False order by (metis not_less set_empty)
    then obtain st' where "tryBins (Suc fuel) C ?sh (iterOrder rnd bs) ?st = Inr (None, st')" "stalled s ks w st'"
      using tryBins_null [OF p st, of "iterOrder rnd bs" "Suc fuel" C ?sh] by (auto split: if_splits)
    then show ?thesis using run Suc.IH [of st'] False by (auto split: if_splits)
  qed
qed

lemma searchBins_null:
  assumes p: "null_problem s ks"
    and rnd: "inRange rnd" "coversWithin fuel rnd (getDomainSize s (ss_binDomain s))"
  shows "\<forall>a \<in> set bins. a < getDomainSize s (ss_binDomain s) \<Longrightarrow> stalled s ks w st \<Longrightarrow>
    if ks \<noteq> [] \<and> 1 < getDomainSize s (ss_binDomain s) \<and> (\<exists>a \<in> set bins. unmovedShards s C a \<noteq> [])
    then searchBins (Suc fuel) rnd C bins st = Inl NullDeref
    else \<exists>st'. searchBins (Suc fuel) rnd C bins st = Inr (None, st') \<and> stalled s ks w st'"
proof (induction bins arbitrary: st)
  case Nil
  then show ?case by simp
next
  case (Cons a bins)
  let ?N = "getDomainSize s (ss_binDomain s)"
  have shards: "unmovedShards (ls_state st) C a = unmovedShards s C a"
    using Cons.prems(2) unmovedShards_same unfolding stalled_def by metis
  have a: "a < ?N" using Cons.prems(1) by simp
  show ?case
  proof (cases "ks \<noteq> [] \<and> 1 < ?N \<and> unmovedShards s C a \<noteq> []")
    case True
    then have "getMovementForBin (Suc fuel) rnd C a st = Inl NullDeref"
      using tryShards_null [OF p rnd a Cons.prems(2), of 10 C "unmovedShards s C a"]
      by (simp add: getMovementForBin_def shards)
    then show ?thesis using True by simp
  next
    case False
    have "\<exists>st'. getMovementForBin (Suc fuel) rnd C a st = Inr (None, st') \<and> stalled s ks w st'"
    proof (cases "unmovedShards s C a = []")
      case True
      then show ?thesis using Cons.prems(2) by (simp add: getMovementForBin_def shards)
    next
      case nonempty: False
      then have "\<not> (ks \<noteq> [] \<and> 1 < ?N \<and> 0 < (10 :: nat))" using False by blast
      then show ?thesis
        using tryShards_null [OF p rnd a Cons.prems(2), of 10 C "unmovedShards s C a"] nonempty
        unfolding getMovementForBin_def shards Let_def by (simp only: if_False)
    qed
    then obtain st' where "getMovementForBin (Suc fuel) rnd C a st = Inr (None, st')" "stalled s ks w st'" by blast
    then show ?thesis using Cons.IH [of st'] Cons.prems(1) False by (auto split: if_splits)
  qed
qed

lemma solve_null:
  assumes p: "null_problem s ks" and w: "committedTotal s = totalOf s"
    and rnd: "inRange rnd" "coversWithin fuel rnd (getDomainSize s 1)"
  shows "if 0 < maxIterations \<and> ks \<noteq> [] \<and> 1 < getDomainSize s 1 \<and>
      (\<exists>a < getDomainSize s 1. mappedChildren (assignmentTree s) 1 a \<noteq> [])
    then solve maxIterations (Suc fuel) rnd g s ks = Inl NullDeref
    else \<exists>st. solve maxIterations (Suc fuel) rnd g s ks = Inr (emptyMovementMap, st) \<and> currentWeight st = totalOf s"
proof (cases maxIterations)
  case 0
  then show ?thesis by (simp add: solve_def)
next
  case (Suc n)
  have bin: "ss_binDomain s = 1" using p by (simp add: null_problem_def two_domains_def)
  let ?N = "getDomainSize s (ss_binDomain s)"
  let ?st = "\<lparr>ls_state = s, ls_constraints = ks, ls_gen = g, currentWeight = totalOf s\<rparr>"
  have "stalled s ks (totalOf s) ?st" using w by (simp add: stalled_def)
  from searchBins_null [OF p rnd [folded bin] _ this, of "binOrder s ?N" emptyMovementMap]
  have bins: "if ks \<noteq> [] \<and> 1 < ?N \<and> (\<exists>a < ?N. unmovedShards s emptyMovementMap a \<noteq> [])
    then searchBins (Suc fuel) rnd emptyMovementMap (binOrder s ?N) ?st = Inl NullDeref
    else \<exists>st'. searchBins (Suc fuel) rnd emptyMovementMap (binOrder s ?N) ?st = Inr (None, st') \<and>
      stalled s ks (totalOf s) st'"
    unfolding set_binOrder Bex_def Ball_def atLeastLessThan_iff by simp
  have "unmovedShards s emptyMovementMap a = mappedChildren (assignmentTree s) 1 a" for a
    by (simp add: unmovedShards_def bin)
  then show ?thesis
    using bins Suc unfolding bin solve_def by (auto simp: stalled_def split: if_splits)
qed

section \<open>Properties\<close>

text \<open>C15: The rejection loop that draws the candidate bins returns within \<open>k + 1\<close> turns when
  every value comes up within \<open>k\<close> draws, and then every candidate is a bin other than the
  present one; a source that only yields the present bin keeps it turning for ever.\<close>

theorem pick_bins_terminates:
  assumes "inRange rnd" and "coversWithin k rnd numBins" and "binId < numBins"
  shows "(\<exists>bs g'. pickBins (Suc k) rnd numBins binId [] g = Inr (bs, g') \<and>
      (\<forall>b \<in> set bs. b \<noteq> binId \<and> b < numBins)) \<and>
    (1 < numBins \<longrightarrow> pickBins fuel \<lparr>nextRand = Pair 0, uniformInt = \<lambda>_. Pair binId, iterOrder = id\<rparr>
       numBins binId [] g' = Inl NoReturn)"
proof -
  have "{0..<numBins} - {binId} \<subseteq> set [] \<union> set (draws rnd (numBins - 1) k g)"
    using assms(2) unfolding coversWithin_def by auto
  from pickBins_total [OF assms(3) this]
  obtain bs g1 where run: "pickBins (Suc k) rnd numBins binId [] g = Inr (bs, g1)" by blast
  have "\<forall>b \<in> set bs. b \<noteq> binId \<and> b < numBins"
    by (rule pickBins_range [OF assms(1,3) run]) simp
  with run show ?thesis
    by (intro conjI impI pickBins_spins) (blast, simp_all)
qed

text \<open>A generator that counts.\<close>

definition counter :: "nat randomness" where
  "counter = \<lparr>nextRand = (\<lambda>g. (g, g + 1)), uniformInt = (\<lambda>n g. (g mod (n + 1), g + 1)), iterOrder = id\<rparr>"

lemma counter_inRange: "inRange counter"
  by (simp add: inRange_def counter_def less_Suc_eq_le [symmetric])

lemma counter_draws: "draws counter n k g = map (\<lambda>i. (g + i) mod (n + 1)) [0..<k]"
proof (induction k arbitrary: g)
  case (Suc k)
  have "map (\<lambda>i. (g + i) mod (n + 1)) [0..<Suc k] =
      (g mod (n + 1)) # map (\<lambda>i. (g + 1 + i) mod (n + 1)) [0..<k]"
    by (subst upt_conv_Cons) (simp_all add: map_Suc_upt [symmetric] del: upt_Suc)
  then show ?case using Suc [of "g + 1"] by (simp add: counter_def del: upt_Suc)
qed simp

lemma counter_covers:
  assumes "0 < numBins"
  shows "coversWithin numBins counter numBins"
proof -
  have "b \<in> set (draws counter (numBins - 1) numBins g)" if b: "b < numBins" for b g
  proof -
    let ?i = "(b + (numBins - g mod numBins)) mod numBins"
    have "(g + ?i) mod numBins = (g + (b + (numBins - g mod numBins))) mod numBins"
      by (simp add: mod_add_right_eq)
    also have "\<dots> = (g mod numBins + (b + (numBins - g mod numBins))) mod numBins"
      by (simp add: mod_add_left_eq)
    also have "g mod numBins + (b + (numBins - g mod numBins)) = b + numBins"
      using assms mod_less_divisor [of numBins g] by linarith
    finally have "(g + ?i) mod numBins = b" using b by simp
    moreover have "?i < numBins" using assms by simp
    ultimately show ?thesis using assms by (auto simp: counter_draws intro!: image_eqI [of _ _ ?i])
  qed
  then show ?thesis by (auto simp: coversWithin_def)
qed

theorem pick_bins_terminates_witness:
  "\<exists>bs g'. pickBins 4 counter 3 1 [] 0 = Inr (bs, g') \<and> (\<forall>b \<in> set bs. b \<noteq> 1 \<and> b < 3)"
proof -
  from pick_bins_terminates [OF counter_inRange counter_covers, of 3 1 0 0 0] show ?thesis
    by (simp add: numeral_eq_Suc del: pickBins.simps) blast
qed

text \<open>C3: Whatever the constraints compute, the movement map the search returns is well formed and
  its two indices agree; every shard in it comes from a bin that holds it in the assignment
  tree and goes to another bin of the problem; there are at most \<open>maxIterations\<close> moves,
  and each one has lowered the signed weight by at least one.\<close>

theorem search_moves_sound:
  assumes "inRange rnd" and "solve maxIterations fuel rnd g s constraints = Inr (C, st)"
  shows "mm_wf C \<and> mm_agree C \<and>
    (\<forall>i b. getNextBin C i = Some b \<longrightarrow> b < getDomainSize s (ss_binDomain s) \<and>
       (\<exists>a < getDomainSize s (ss_binDomain s). a \<noteq> b \<and> i \<in> set (mappedChildren (assignmentTree s) (ss_binDomain s) a))) \<and>
    card (dom (getNextBin C)) \<le> maxIterations \<and>
    sint (currentWeight st) + int (card (dom (getNextBin C))) \<le> sint (totalOf s) \<and>
    sameProblem s (ls_state st)"
proof -
  let ?st = "\<lparr>ls_state = s, ls_constraints = constraints, ls_gen = g, currentWeight = totalOf s\<rparr>"
  have "sound_moves s C \<and> sameProblem s (ls_state st) \<and>
      card (dom (getNextBin C)) \<le> card (dom (getNextBin emptyMovementMap)) + maxIterations \<and>
      sint (currentWeight st) + int (card (dom (getNextBin C))) \<le>
        sint (totalOf s) + int (card (dom (getNextBin emptyMovementMap)))"
    using solveLoop_sound [OF assms(1) assms(2) [unfolded solve_def]] sound_moves_empty [of s]
    unfolding search_state.select_convs by blast
  then show ?thesis unfolding sound_moves_def by simp
qed

lemma example_problem:
  "\<exists>dc s. newDrainConstraint 1 AFTER 1 [0] 7 exampleState = Inr (dc, s) \<and>
     two_level (assignmentTree s) \<and> searchable s \<and> committedTotal s = totalOf s \<and>
     all_ok constraint_ok s emptyMovementMap [Drain dc] \<and> totalOf s = charge objective s [Drain dc] emptyMovementMap \<and>
     getDomainSize s 1 = 2 \<and> sameProblem exampleState s"
proof -
  obtain dc s where new: "newDrainConstraint 1 AFTER 1 [0] 7 exampleState = Inr (dc, s)"
    "constraint_ok s emptyMovementMap (Drain dc)" "sameProblem exampleState s" "committedTotal s = totalOf s"
    "totalOf s = totalOf exampleState + objective s (Drain dc) emptyMovementMap"
    using new_drain_ok [OF exampleState_facts(1,2), of "[0]" 1 7] by auto
  have "getDomainSize exampleState (ss_binDomain exampleState) = 2"
    using newSolvingState_elements [of "[]" "[[4, 5, 6, 7, 8, 9, 10]]" exampleMapping 1]
    by (simp add: exampleState_def getDomainSize_def exampleMapping_def)
  moreover have "searchable s" by (rule searchable_same [OF exampleState_facts(2) new(3)])
  then have "ss_binDomain s = 1" by (simp add: searchable_def two_domains_def)
  ultimately show ?thesis
    using new exampleState_facts(1,4) sameProblem_fields(5) [OF new(3)] domainSize_same [OF new(3)] \<open>searchable s\<close>
    by (intro exI [of _ dc] exI [of _ s]) simp
qed

text \<open>A drain of bin 0, whose three shards go to bin 1, in a state whose movement map is set.\<close>

theorem search_moves_sound_witness:
  "\<exists>dc s C st. newDrainConstraint 1 AFTER 1 [0] 7 exampleState = Inr (dc, s) \<and>
     solve 10 3 counter 0 s [Drain dc] = Inr (C, st) \<and> getNextBin C 5 = Some 1 \<and> mm_agree C \<and>
     card (dom (getNextBin C)) \<le> 10 \<and> sameProblem s (ls_state st)"
proof -
  have "case newDrainConstraint 1 AFTER 1 [0] 7 exampleState of Inl _ \<Rightarrow> False | Inr (dc, s) \<Rightarrow>
     (case solve 10 3 counter 0 s [Drain dc] of Inl _ \<Rightarrow> False | Inr (C, st) \<Rightarrow> getNextBin C 5 = Some 1)"
    by code_simp
  then obtain dc s where new: "newDrainConstraint 1 AFTER 1 [0] 7 exampleState = Inr (dc, s)"
    and "case solve 10 3 counter 0 s [Drain dc] of Inl _ \<Rightarrow> False | Inr (C, st) \<Rightarrow> getNextBin C 5 = Some 1"
    by (cases "newDrainConstraint 1 AFTER 1 [0] 7 exampleState") auto
  then obtain C st where run: "solve 10 3 counter 0 s [Drain dc] = Inr (C, st)" "getNextBin C 5 = Some 1"
    by (cases "solve 10 3 counter 0 s [Drain dc]") auto
  from search_moves_sound [OF counter_inRange run(1)] run new show ?thesis by blast
qed

text \<open>C2: The search over drain and metric constraints, each over bins, under AFTER and describing
  the assignment without moves, on a two-level problem with a fair random source. With a
  movement map that moves nothing it returns, and the weight it has tracked through all
  canaries, rollbacks and commits is the weight it started from moved by the change of the
  constraints' charge, computed from scratch for the assignment it returns. With a null
  movement map, which is how the program leaves it, it dereferences it, unless there is no turn,
  no constraint, no second bin or no shard; then it returns no move.
  Load balancing constraints and other consistencies are not covered: their weights do not
  follow the assignment.\<close>

theorem search_weight_is_objective:
  assumes problem: "two_level (assignmentTree s)" "two_domains s"
    and constraints: "all_ok constraint_ok s emptyMovementMap ks" and committed: "committedTotal s = totalOf s"
    and rnd: "inRange rnd" "coversWithin k rnd (getDomainSize s 1)"
  shows "case ss_movementMap s of
      None \<Rightarrow>
        if 0 < maxIterations \<and> ks \<noteq> [] \<and> 1 < getDomainSize s 1 \<and>
          (\<exists>a < getDomainSize s 1. mappedChildren (assignmentTree s) 1 a \<noteq> [])
        then solve maxIterations (Suc k) rnd g s ks = Inl NullDeref
        else \<exists>st. solve maxIterations (Suc k) rnd g s ks = Inr (emptyMovementMap, st) \<and> currentWeight st = totalOf s
    | Some m \<Rightarrow> getNextBin m = Map.empty \<longrightarrow>
        (\<exists>C st. solve maxIterations (Suc k) rnd g s ks = Inr (C, st) \<and>
           currentWeight st = totalOf s + (charge objective s ks C - charge objective s ks emptyMovementMap) \<and>
           committedTotal (ls_state st) = currentWeight st \<and> all_ok constraint_ok s C (ls_constraints st))"
proof (cases "ss_movementMap s")
  case None
  have "list_all (\<lambda>k. shardDomain (constraintTree k) = 0) ks"
    using constraints constraint_ok_shards unfolding all_ok_def list_all_iff by blast
  then have "null_problem s ks" using problem(2) None by (simp add: null_problem_def)
  from solve_null [OF this committed rnd] None show ?thesis by simp
next
  case (Some m)
  have bin: "ss_binDomain s = 1" using problem(2) by (simp add: two_domains_def)
  let ?F = "charge objective s ks" and ?base = "totalOf s - charge objective s ks emptyMovementMap"
  let ?st = "\<lparr>ls_state = s, ls_constraints = ks, ls_gen = g, currentWeight = totalOf s\<rparr>"
  have tr: "tracks s ?base ?F emptyMovementMap ?st"
    using constraints committed by (simp add: tracks_def)
  have "\<exists>C st. solve maxIterations (Suc k) rnd g s ks = Inr (C, st) \<and>
      currentWeight st = totalOf s + (?F C - ?F emptyMovementMap) \<and>
      committedTotal (ls_state st) = currentWeight st \<and> all_ok constraint_ok s C (ls_constraints st)"
    if "getNextBin m = Map.empty"
  proof -
    have "searchable s" using that problem(2) Some by (simp add: searchable_def)
    from solveLoop_tracks [OF rnd [folded bin] problem(1) bin this sound_moves_empty tr, of maxIterations]
    show ?thesis by (fastforce simp: solve_def tracks_def)
  qed
  then show ?thesis using Some by simp
qed

theorem search_weight_is_objective_witness:
  "\<exists>dc s C st. newDrainConstraint 1 AFTER 1 [0] 7 exampleState = Inr (dc, s) \<and>
     solve 10 3 counter 0 s [Drain dc] = Inr (C, st) \<and> committedTotal (ls_state st) = currentWeight st \<and>
     solve 10 3 counter 0 (s\<lparr>ss_movementMap := None\<rparr>) [Drain dc] = Inl NullDeref"
proof -
  obtain dc s where p: "newDrainConstraint 1 AFTER 1 [0] 7 exampleState = Inr (dc, s)"
    "two_level (assignmentTree s)" "searchable s" "committedTotal s = totalOf s"
    "all_ok constraint_ok s emptyMovementMap [Drain dc]" "getDomainSize s 1 = 2" "sameProblem exampleState s"
    using example_problem by blast
  let ?s = "s\<lparr>ss_movementMap := None\<rparr>"
  have map: "ss_movementMap s = Some emptyMovementMap" and kids: "mappedChildren (assignmentTree s) 1 0 \<noteq> []"
    using sameProblem_fields [OF p(7)] exampleState_facts(5) [of 0] by (simp_all add: exampleState_def)
  have covers: "coversWithin 2 counter (getDomainSize s 1)" unfolding p(6) by (rule counter_covers) simp
  have dom: "two_domains s" "two_domains ?s" using p(3) by (simp_all add: searchable_def two_domains_def)
  obtain C st where run: "solve 10 3 counter 0 s [Drain dc] = Inr (C, st)" "committedTotal (ls_state st) = currentWeight st"
    using search_weight_is_objective [OF p(2) dom(1) p(5,4) counter_inRange covers, of 10 0]
    unfolding map option.case by (auto simp: numeral_3_eq_3)
  have "all_ok constraint_ok ?s emptyMovementMap [Drain dc]" "committedTotal ?s = totalOf ?s"
    using p(4,5) by (simp_all add: committedTotal_def totalOf_def)
  moreover have "\<exists>a < 2. mappedChildren (assignmentTree s) 1 a \<noteq> []"
    using kids by (intro exI [of _ 0]) simp
  ultimately have "solve 10 (Suc 2) counter 0 ?s [Drain dc] = Inl NullDeref"
    using search_weight_is_objective [of ?s "[Drain dc]" counter 2 10 0] p(2,6) dom(2) covers counter_inRange
    by (simp add: getDomainSize_def del: numeral_3_eq_3 add_2_eq_Suc add_2_eq_Suc')
  then have "solve 10 3 counter 0 ?s [Drain dc] = Inl NullDeref" by (simp add: numeral_3_eq_3)
  with run p(1) show ?thesis by blast
qed

text \<open>With a movement map, and when the weight of the state is the charge of its constraints, which
  is how their constructors leave it, the assignment the search returns is charged at least
  one less per move than the assignment it started from, as signed 64-bit numbers.\<close>

theorem search_improves:
  assumes problem: "two_level (assignmentTree s)" "searchable s"
    and constraints: "all_ok constraint_ok s emptyMovementMap ks" and committed: "committedTotal s = totalOf s"
    and charged: "totalOf s = charge objective s ks emptyMovementMap"
    and rnd: "inRange rnd" "coversWithin k rnd (getDomainSize s 1)"
  shows "\<exists>C st. solve maxIterations (Suc k) rnd g s ks = Inr (C, st) \<and>
    sint (charge objective s ks C) + int (card (dom (getNextBin C))) \<le>
      sint (charge objective s ks emptyMovementMap)"
proof -
  have bin: "ss_binDomain s = 1" using problem(2) by (simp add: searchable_def two_domains_def)
  let ?F = "charge objective s ks" and ?N = "getDomainSize s (ss_binDomain s)"
  let ?st = "\<lparr>ls_state = s, ls_constraints = ks, ls_gen = g, currentWeight = totalOf s\<rparr>"
  have "tracks s 0 ?F emptyMovementMap ?st"
    using constraints committed charged by (simp add: tracks_def)
  from solveLoop_tracks [OF rnd [folded bin] problem(1) bin problem(2) sound_moves_empty this, of maxIterations]
  obtain C st where run: "solveLoop maxIterations (Suc k) rnd ?N emptyMovementMap ?st = Inr (C, st)"
    and w: "currentWeight st = ?F C" by (auto simp: tracks_def)
  have "sint (currentWeight st) + int (card (dom (getNextBin C))) \<le> sint (totalOf s) + 0"
    using solveLoop_sound [OF rnd(1) run] sound_moves_empty [of s] by simp
  with run w charged show ?thesis by (auto simp: solve_def)
qed

theorem search_improves_witness:
  "\<exists>dc s C st. newDrainConstraint 1 AFTER 1 [0] 7 exampleState = Inr (dc, s) \<and>
     solve 10 3 counter 0 s [Drain dc] = Inr (C, st) \<and>
     sint (charge objective s [Drain dc] C) \<le> sint (charge objective s [Drain dc] emptyMovementMap)"
proof -
  obtain dc s where p: "newDrainConstraint 1 AFTER 1 [0] 7 exampleState = Inr (dc, s)"
    "two_level (assignmentTree s)" "searchable s" "committedTotal s = totalOf s"
    "all_ok constraint_ok s emptyMovementMap [Drain dc]"
    "totalOf s = charge objective s [Drain dc] emptyMovementMap" "getDomainSize s 1 = 2"
    using example_problem by blast
  have "coversWithin 2 counter (getDomainSize s 1)" unfolding p(7) by (rule counter_covers) simp
  from search_improves [OF p(2,3,5,4,6) counter_inRange this, of 10 0] p(1) show ?thesis
    by (fastforce simp: numeral_3_eq_3)
qed

end
