(* ===== verification/NodeMapper.thy ===== *)
theory NodeMapper
  imports Types
begin

text \<open>
  \<open>psychopomp/NodeMapper.h\<close>: the translation of a service's topology, bins and reported
  shards into the node identifiers and vectors a solving state is built from, with the
  configuration messages of \<open>proto/CamferConfig.proto\<close> and \<open>BinInfo\<close> of
  \<open>psychopomp/ServiceMappingProvider.h\<close> it reads. The theory shows what it builds when the
  topology has no domain, and that it reads past the end of the list of domains when it has
  any.
\<close>

section \<open>Configuration and state\<close>

record bin_info =
  bi_shardInfos :: "shard_info list"
  bi_domainToNodes :: "(string, string) hmap"

record config_node =
  nd_name :: string
  nd_children :: "string list"

record node_config =
  nc_domains :: "string list"
  nc_domain_nodes :: "(string, config_node list) hmap"

record metric_config =
  mt_metrics :: "string list"

record node_mapper =
  nm_shardInfos :: "shard_info list"
  nm_metricVectors :: "MetricValue list list"
  nm_nodeMapping :: "DomainId list list list"
  nm_metricMapping :: "string list"
  nm_binDomainId :: "(DomainId, BinId) hmap"
  nm_domainIdBin :: "(BinId, DomainId) hmap"
  nm_indexDomain :: "(nat, string) hmap"
  nm_domainIndex :: "(string, nat) hmap"
  nm_nodeIds :: "(nat, (string, DomainId) hmap) hmap"

definition emptyMapper :: node_mapper where
  "emptyMapper = \<lparr>nm_shardInfos = [], nm_metricVectors = [], nm_nodeMapping = [], nm_metricMapping = [],
     nm_binDomainId = [], nm_domainIdBin = [], nm_indexDomain = [], nm_domainIndex = [], nm_nodeIds = []\<rparr>"

section \<open>Lookups\<close>

definition mapper_domainId :: "node_mapper \<Rightarrow> BinId \<Rightarrow> DomainId option" where
  "mapper_domainId m binName = hm_find (nm_domainIdBin m) binName"

definition mapper_binId :: "node_mapper \<Rightarrow> DomainId \<Rightarrow> BinId option" where
  "mapper_binId m domainId = hm_find (nm_binDomainId m) domainId"

text \<open>The identifier of a node: \<open>operator[]\<close> inserts both levels, and a new identifier is the number
  of domains seen so far, the size of the outer map.\<close>

definition nodeId :: "nat \<Rightarrow> string \<Rightarrow> node_mapper \<Rightarrow> DomainId \<times> node_mapper" where
  "nodeId domainIndex node m =
     (let old = hm_get 0 (hm_get [] (nm_nodeIds m) domainIndex) node;
          ids = hm2_set domainIndex node old (nm_nodeIds m);
          new = (if old = 0 then length ids else old)
      in (new, m\<lparr>nm_nodeIds := hm2_set domainIndex node new ids\<rparr>))"

definition getDomainIndex :: "node_mapper \<Rightarrow> string \<Rightarrow> nat" where
  "getDomainIndex m domain = hm_get (2 ^ 64 - 1) (nm_domainIndex m) domain"

definition getDomain :: "nat \<Rightarrow> node_mapper \<Rightarrow> string \<times> node_mapper" where
  "getDomain index m =
     (let domain = hm_get [] (nm_indexDomain m) index in
      (domain, m\<lparr>nm_indexDomain := hm_set index domain (nm_indexDomain m)\<rparr>))"

section \<open>The topology\<close>

definition pushNode :: "nat \<Rightarrow> DomainId \<Rightarrow> DomainId \<Rightarrow> node_mapper \<Rightarrow> fault + node_mapper" where
  "pushNode domainIndex parentId child m =
     rbind (index_vec (nm_nodeMapping m) domainIndex) (\<lambda>level.
     rbind (index_vec level parentId) (\<lambda>row.
       Inr (m\<lparr>nm_nodeMapping := (nm_nodeMapping m)[domainIndex := level[parentId := row @ [child]]]\<rparr>)))"

primrec indexDomains :: "string list \<Rightarrow> nat \<Rightarrow> node_mapper \<Rightarrow> node_mapper" where
  "indexDomains [] startingIndex m = m"
| "indexDomains (domain # ds) startingIndex m =
     indexDomains ds (startingIndex - 1)
       (m\<lparr>nm_indexDomain := hm_set startingIndex domain (nm_indexDomain m),
          nm_domainIndex := hm_set domain startingIndex (nm_domainIndex m)\<rparr>)"

definition addNode :: "nat \<Rightarrow> config_node \<Rightarrow> node_mapper \<Rightarrow> fault + node_mapper" where
  "addNode domainIndex node m =
     (let (parentId, m1) = nodeId domainIndex (nd_name node) m in
      rfold (\<lambda>child m.
          let (childId, m2) = nodeId (domainIndex + 1) child m in pushNode domainIndex parentId childId m2)
        (nd_children node) m1)"

definition addDomainNodes :: "node_config \<Rightarrow> string \<Rightarrow> node_mapper \<Rightarrow> fault + node_mapper" where
  "addDomainNodes cfg domain m =
     (let domainIndex = getDomainIndex m domain in
      rbind (index_vec (nc_domains cfg) domainIndex) (\<lambda>key.
      rbind (hm_at (nc_domain_nodes cfg) key) (\<lambda>nodes.
      rbind (index_vec (nm_nodeMapping m) domainIndex) (\<lambda>level.
        rfold (addNode domainIndex) nodes
          (m\<lparr>nm_nodeMapping := (nm_nodeMapping m)[domainIndex := resizeVec (length nodes) [] level]\<rparr>)))))"

definition addDomainMapping :: "node_config \<Rightarrow> node_mapper \<Rightarrow> fault + node_mapper" where
  "addDomainMapping cfg m =
     (let n = length (nc_domains cfg);
          m1 = indexDomains (nc_domains cfg) (n + 1) m;
          m2 = m1\<lparr>nm_nodeMapping := resizeVec (n + 2) [] (nm_nodeMapping m1)\<rparr>
      in rfold (addDomainNodes cfg) (nc_domains cfg) m2)"

definition createMetricMapping :: "metric_config \<Rightarrow> node_mapper \<Rightarrow> node_mapper" where
  "createMetricMapping cfg m = m\<lparr>nm_metricMapping := nm_metricMapping m @ mt_metrics cfg\<rparr>"

section \<open>The bins\<close>

type_synonym shard_map = "(ShardId, shard) hmap"
type_synonym shard_metrics_map = "(ShardId, shard_metrics) hmap"

definition shardMatches :: "shard_map \<Rightarrow> shard_info \<Rightarrow> bool" where
  "shardMatches shardMapping info =
     (case hm_find shardMapping (sh_id (si_shard info)) of
        None \<Rightarrow> False
      | Some s \<Rightarrow>
          sh_type s = sh_type (si_shard info) \<and>
          range_start (sh_range s) = range_start (sh_range (si_shard info)) \<and>
          range_end (sh_range s) = range_end (sh_range (si_shard info)))"

definition metricOf :: "shard_metrics option \<Rightarrow> shard_info \<Rightarrow> string \<Rightarrow> MetricValue" where
  "metricOf prevMetrics info metricKey =
     (case hm_find (si_metrics info) metricKey of
        Some v \<Rightarrow> v
      | None \<Rightarrow> (case prevMetrics of None \<Rightarrow> 0 | Some prev \<Rightarrow> hm_get 0 prev metricKey))"

text \<open>The vector is created with as many zeros as there are metrics, and the values are appended to
  them. The previous metrics are those of the shard of the map, under its own identifier.\<close>

definition metricVector :: "string list \<Rightarrow> shard_map \<Rightarrow> shard_metrics_map \<Rightarrow> shard_info \<Rightarrow> MetricValue list" where
  "metricVector metricMapping shardMapping shardMetricsMapping info =
     (let prevMetrics =
        (case hm_find shardMapping (sh_id (si_shard info)) of
           None \<Rightarrow> None
         | Some s \<Rightarrow> hm_find shardMetricsMapping (sh_id s))
      in replicate (length metricMapping) 0 @ map (metricOf prevMetrics info) metricMapping)"

definition addShardInfo :: "shard_map \<Rightarrow> shard_metrics_map \<Rightarrow> shard_info \<Rightarrow> node_mapper \<Rightarrow> node_mapper" where
  "addShardInfo shardMapping shardMetricsMapping info m =
     (if \<not> shardMatches shardMapping info then m
      else m\<lparr>nm_shardInfos := nm_shardInfos m @ [info],
             nm_metricVectors := nm_metricVectors m @
               [metricVector (nm_metricMapping m) shardMapping shardMetricsMapping info]\<rparr>)"

definition mapBinToNode :: "DomainId \<Rightarrow> bin_info \<Rightarrow> node_mapper \<Rightarrow> fault + node_mapper" where
  "mapBinToNode domainId info m =
     (let (binParentDomain, m1) = getDomain 2 m in
      case hm_find (bi_domainToNodes info) binParentDomain of
        None \<Rightarrow> Inr m1
      | Some binNode \<Rightarrow>
          if binNode = [] then Inr m1
          else (let (parentId, m2) = nodeId 2 binNode m1 in pushNode 2 parentId domainId m2))"

definition addBin ::
    "shard_map \<Rightarrow> shard_metrics_map \<Rightarrow> BinId \<times> bin_info \<Rightarrow> DomainId \<times> node_mapper \<Rightarrow> fault + DomainId \<times> node_mapper" where
  "addBin shardMapping shardMetricsMapping bin state =
     (let (binId, info) = bin; (last, m) = state; domainId = last + 1;
          m1 = m\<lparr>nm_binDomainId := hm_set domainId binId (nm_binDomainId m),
                 nm_domainIdBin := hm_set binId domainId (nm_domainIdBin m)\<rparr>;
          m2 = fold (addShardInfo shardMapping shardMetricsMapping) (bi_shardInfos info) m1
      in rbind (mapBinToNode domainId info m2) (\<lambda>m3. Inr (domainId, m3)))"

definition createNodeMapping ::
    "(BinId, bin_info) hmap \<Rightarrow> shard_map \<Rightarrow> shard_metrics_map \<Rightarrow> node_mapper \<Rightarrow> fault + node_mapper" where
  "createNodeMapping binMapping shardMapping shardMetricsMapping m =
     rbind (rfold (addBin shardMapping shardMetricsMapping) binMapping (0, m)) (\<lambda>(_, m'). Inr m')"

definition newNodeMapper ::
    "node_config \<Rightarrow> metric_config \<Rightarrow> (BinId, bin_info) hmap \<Rightarrow> shard_map \<Rightarrow> shard_metrics_map \<Rightarrow>
     fault + node_mapper" where
  "newNodeMapper nodeConfig metricConfig binMapping shardMapping shardMetricsMapping =
     rbind (addDomainMapping nodeConfig emptyMapper) (\<lambda>m.
       createNodeMapping binMapping shardMapping shardMetricsMapping (createMetricMapping metricConfig m))"

section \<open>A topology with domains\<close>

lemma indexDomains_other:
  "d \<notin> set ds \<Longrightarrow> hm_find (nm_domainIndex (indexDomains ds i m)) d = hm_find (nm_domainIndex m) d"
  by (induction ds arbitrary: i m) auto

lemma indexDomains_frame [simp]:
  "nm_nodeMapping (indexDomains ds i m) = nm_nodeMapping m"
  by (induction ds arbitrary: i m) auto

section \<open>A topology without domains\<close>

text \<open>No bin names a node for the domain with the empty name, the one that is looked up.\<close>

definition unplaced :: "(BinId, bin_info) hmap \<Rightarrow> bool" where
  "unplaced bins \<longleftrightarrow> (\<forall>(_, info) \<in> set bins. hm_get [] (bi_domainToNodes info) [] = [])"

definition matching :: "shard_map \<Rightarrow> (BinId, bin_info) hmap \<Rightarrow> shard_info list" where
  "matching shards bins = concat (map (\<lambda>(_, info). filter (shardMatches shards) (bi_shardInfos info)) bins)"

lemma fold_addShardInfo:
  "fold (addShardInfo shards sm) infos m =
     m\<lparr>nm_shardInfos := nm_shardInfos m @ filter (shardMatches shards) infos,
       nm_metricVectors := nm_metricVectors m @
         map (metricVector (nm_metricMapping m) shards sm) (filter (shardMatches shards) infos)\<rparr>"
  by (induction infos arbitrary: m) (simp_all add: addShardInfo_def)

definition mapped_bins :: "(BinId, bin_info) hmap \<Rightarrow> node_mapper \<Rightarrow> bool" where
  "mapped_bins bins m \<longleftrightarrow>
     (\<forall>i. hm_find (nm_binDomainId m) i = (if 0 < i \<and> i \<le> length bins then Some (fst (bins ! (i - 1))) else None)) \<and>
     (\<forall>b i. hm_find (nm_domainIdBin m) b = Some i \<longleftrightarrow> hm_find (nm_binDomainId m) i = Some b)"

lemma mapped_bins_snoc:
  assumes "mapped_bins bins m" and "hm_distinct (bins @ [(b, info)])"
  shows "mapped_bins (bins @ [(b, info)])
    (m\<lparr>nm_binDomainId := hm_set (length bins + 1) b (nm_binDomainId m),
       nm_domainIdBin := hm_set b (length bins + 1) (nm_domainIdBin m)\<rparr>)"
proof -
  have new: "b \<noteq> fst (bins ! i)" if "i < length bins" for i
    using assms(2) that by (auto simp: image_iff dest: nth_mem)
  have free: "hm_find (nm_binDomainId m) (Suc (length bins)) = None"
    and unused: "hm_find (nm_binDomainId m) i \<noteq> Some b" for i
    using assms(1) new [of "i - 1"] unfolding mapped_bins_def by (cases i; auto split: if_splits)+
  show ?thesis
    using assms(1) new free unused unfolding mapped_bins_def by (auto simp: nth_append less_Suc_eq_le)
qed

lemma rfold_addBin:
  assumes "hm_distinct bins" and "unplaced bins"
  shows "\<exists>m. rfold (addBin shards sm) bins (0, m0\<lparr>nm_indexDomain := []\<rparr>) = Inr (length bins, m) \<and>
    (nm_binDomainId m0 = [] \<and> nm_domainIdBin m0 = [] \<longrightarrow> mapped_bins bins m) \<and> hm_get [] (nm_indexDomain m) 2 = [] \<and>
    nm_nodeMapping m = nm_nodeMapping m0 \<and> nm_metricMapping m = nm_metricMapping m0 \<and>
    nm_shardInfos m = nm_shardInfos m0 @ matching shards bins \<and>
    nm_metricVectors m = nm_metricVectors m0 @
      map (metricVector (nm_metricMapping m0) shards sm) (matching shards bins)"
  using assms
proof (induction bins rule: rev_induct)
  case Nil
  then show ?case by (auto simp: mapped_bins_def matching_def hm_get_def)
next
  case (snoc bin bins)
  obtain b info where bin: "bin = (b, info)" by (cases bin)
  from snoc.prems have "hm_distinct bins" "unplaced bins" by (simp_all add: unplaced_def)
  from snoc.IH [OF this] obtain m where m:
    "rfold (addBin shards sm) bins (0, m0\<lparr>nm_indexDomain := []\<rparr>) = Inr (length bins, m)"
    "nm_binDomainId m0 = [] \<and> nm_domainIdBin m0 = [] \<longrightarrow> mapped_bins bins m"
    "hm_get [] (nm_indexDomain m) 2 = []" "nm_nodeMapping m = nm_nodeMapping m0"
    "nm_metricMapping m = nm_metricMapping m0" "nm_shardInfos m = nm_shardInfos m0 @ matching shards bins"
    "nm_metricVectors m = nm_metricVectors m0 @ map (metricVector (nm_metricMapping m0) shards sm) (matching shards bins)"
    by blast
  let ?m1 = "m\<lparr>nm_binDomainId := hm_set (length bins + 1) b (nm_binDomainId m),
       nm_domainIdBin := hm_set b (length bins + 1) (nm_domainIdBin m)\<rparr>"
  let ?m2 = "fold (addShardInfo shards sm) (bi_shardInfos info) ?m1"
  let ?m3 = "?m2\<lparr>nm_indexDomain := hm_set 2 [] (nm_indexDomain ?m2)\<rparr>"
  have none: "hm_get [] (bi_domainToNodes info) [] = []" using snoc.prems(2) bin by (simp add: unplaced_def)
  have index: "nm_indexDomain ?m2 = nm_indexDomain m" by (simp add: fold_addShardInfo)
  have "mapBinToNode (length bins + 1) info ?m2 = Inr ?m3"
    using none m(3) unfolding mapBinToNode_def getDomain_def index
    by (simp add: hm_get_def split: option.splits)
  then have step: "addBin shards sm bin (length bins, m) = Inr (length bins + 1, ?m3)"
    by (simp add: addBin_def bin Let_def)
  have mapped: "nm_binDomainId m0 = [] \<and> nm_domainIdBin m0 = [] \<longrightarrow> mapped_bins (bins @ [bin]) ?m3"
    using mapped_bins_snoc [of bins m b info] m(2) snoc.prems(1)
    by (simp add: bin mapped_bins_def fold_addShardInfo)
  show ?case
    by (rule exI [of _ ?m3])
      (use m step mapped in \<open>simp add: rfold_append bin fold_addShardInfo matching_def hm_get_def\<close>)
qed

lemma mapper_without_domains:
  assumes "nc_domains cfg = []" and "hm_distinct bins" and "unplaced bins"
  shows "\<exists>m. newNodeMapper cfg metrics bins shards shardMetrics = Inr m \<and>
    nm_nodeMapping m = [[], []] \<and> nm_shardInfos m = matching shards bins \<and>
    nm_metricVectors m = map (metricVector (mt_metrics metrics) shards shardMetrics) (matching shards bins) \<and>
    (\<forall>b i. mapper_domainId m b = Some i \<longleftrightarrow> mapper_binId m i = Some b) \<and>
    (\<forall>i. mapper_binId m i = (if 0 < i \<and> i \<le> length bins then Some (fst (bins ! (i - 1))) else None))"
proof -
  let ?m0 = "emptyMapper\<lparr>nm_nodeMapping := [[], []], nm_metricMapping := mt_metrics metrics\<rparr>"
  have start: "addDomainMapping cfg emptyMapper = Inr (emptyMapper\<lparr>nm_nodeMapping := [[], []]\<rparr>)"
    by (simp add: addDomainMapping_def assms(1) resizeVec_def emptyMapper_def numeral_2_eq_2)
  have m0: "createMetricMapping metrics (emptyMapper\<lparr>nm_nodeMapping := [[], []]\<rparr>) = ?m0\<lparr>nm_indexDomain := []\<rparr>"
    by (simp add: createMetricMapping_def emptyMapper_def)
  from rfold_addBin [OF assms(2,3), of shards shardMetrics ?m0] obtain m where
    "rfold (addBin shards shardMetrics) bins (0, ?m0\<lparr>nm_indexDomain := []\<rparr>) = Inr (length bins, m)"
    "mapped_bins bins m" "nm_nodeMapping m = [[], []]" "nm_shardInfos m = matching shards bins"
    "nm_metricVectors m = map (metricVector (mt_metrics metrics) shards shardMetrics) (matching shards bins)"
    by (auto simp: emptyMapper_def)
  then show ?thesis
    by (intro exI [of _ m])
      (simp add: newNodeMapper_def start m0 createNodeMapping_def mapper_domainId_def mapper_binId_def mapped_bins_def)
qed

section \<open>Properties\<close>

text \<open>C26: A topology whose first domain is listed once makes the constructor read the list of
  domains past its end: positions are counted down from the number of domains plus one, and
  used as positions in the list itself.\<close>

theorem node_mapper_rejects_domains:
  assumes "nc_domains cfg = d # ds" and "d \<notin> set ds"
  shows "newNodeMapper cfg metrics bins shards shardMetrics = Inl BadIndex"
proof -
  have "getDomainIndex (m\<lparr>nm_nodeMapping := v\<rparr>) d = length ds + 2"
    if "m = indexDomains (d # ds) (length ds + 2) emptyMapper" for m v
    using indexDomains_other [OF assms(2)] by (simp add: that getDomainIndex_def)
  then have "addDomainMapping cfg emptyMapper = Inl BadIndex"
    by (simp add: addDomainMapping_def assms(1) addDomainNodes_def index_vec_def Let_def numeral_2_eq_2)
  then show ?thesis by (simp add: newNodeMapper_def)
qed

text \<open>C25: Without domains, and when no bin names a node for the empty domain name, the constructor
  returns. It keeps exactly the reported shards that match the shard map, in order; gives each
  a metric vector twice as long as the list of metrics, the values in the second half; leaves
  both levels of the node mapping empty, so that no bin has a shard; and numbers the bins
  from 1 on, so that the identifier of a bin and the bin of an identifier agree.\<close>

theorem node_mapper_without_domains:
  assumes "nc_domains cfg = []" and "hm_distinct bins" and "unplaced bins"
  shows "\<exists>m. newNodeMapper cfg metrics bins shards shardMetrics = Inr m \<and>
    nm_nodeMapping m = [[], []] \<and> nm_shardInfos m = matching shards bins \<and>
    nm_metricVectors m = map (metricVector (mt_metrics metrics) shards shardMetrics) (matching shards bins) \<and>
    (\<forall>b i. mapper_domainId m b = Some i \<longleftrightarrow> mapper_binId m i = Some b) \<and>
    (\<forall>i. mapper_binId m i = (if 0 < i \<and> i \<le> length bins then Some (fst (bins ! (i - 1))) else None))"
  by (rule mapper_without_domains [OF assms])

definition exampleShard :: shard where
  "exampleShard = \<lparr>sh_range = \<lparr>range_start = 0, range_end = 9\<rparr>, sh_type = SHARD_TYPE_PRIMARY, sh_id = 3\<rparr>"

definition exampleInfo :: shard_info where
  "exampleInfo = \<lparr>si_shard = exampleShard, si_metrics = [(''cpu'', 7)], si_status = SHARD_RANGE_STATUS_ADDED\<rparr>"

definition exampleBins :: "(BinId, bin_info) hmap" where
  "exampleBins = [(11, \<lparr>bi_shardInfos = [exampleInfo], bi_domainToNodes = [(''rack'', ''r1'')]\<rparr>)]"

theorem node_mapper_without_domains_witness:
  "\<exists>m. newNodeMapper \<lparr>nc_domains = [], nc_domain_nodes = []\<rparr> \<lparr>mt_metrics = [''cpu'']\<rparr> exampleBins
      [(3, exampleShard)] [] = Inr m \<and>
    nm_nodeMapping m = [[], []] \<and> nm_metricVectors m = [[0, 7]] \<and> mapper_domainId m 11 = Some 1"
proof -
  have vec: "map (metricVector [''cpu''] [(3, exampleShard)] []) (matching [(3, exampleShard)] exampleBins) = [[0, 7]]"
    by code_simp
  have "hm_distinct exampleBins" "unplaced exampleBins" by (simp_all add: exampleBins_def unplaced_def hm_get_def)
  from node_mapper_without_domains [of "\<lparr>nc_domains = [], nc_domain_nodes = []\<rparr>", OF _ this,
      of "\<lparr>mt_metrics = [''cpu'']\<rparr>" "[(3, exampleShard)]" "[]"] vec
  show ?thesis by (auto simp: exampleBins_def)
qed

theorem node_mapper_rejects_domains_witness:
  "newNodeMapper \<lparr>nc_domains = [''region'', ''rack''], nc_domain_nodes = []\<rparr> \<lparr>mt_metrics = []\<rparr> exampleBins [] [] =
     Inl BadIndex"
  by (rule node_mapper_rejects_domains [of _ "''region''" "[''rack'']"]) simp_all

end
