(* ===== verification/KeyRanges.thy ===== *)
theory KeyRanges
  imports Types
begin

text \<open>
  \<open>generateShardKeyRangeMap\<close> of \<open>psychopomp/SolvingManagerUtils.h\<close>: the key ranges of a new
  service, in 64-bit unsigned arithmetic. The theory shows that without wrap-around the
  ranges after the first one tile the keys from the start to the end or beyond, that the
  first one is listed twice whenever the division leaves a remainder, and that near the top
  of the key space the loop does not end.
\<close>

section \<open>The generator\<close>

type_synonym key_range = "ShardKey \<times> ShardKey"

text \<open>The counted loop: it pushes the range at \<open>start\<close> and moves \<open>start\<close> past it.\<close>

primrec leadRanges :: "nat \<Rightarrow> u64 \<Rightarrow> ShardKey \<Rightarrow> key_range list \<Rightarrow> key_range list" where
  "leadRanges 0 width start acc = acc"
| "leadRanges (Suc n) width start acc =
     leadRanges n width (start + (width + 2)) (acc @ [(start, start + width + 1)])"

text \<open>The \<open>while\<close> loop, with fuel.\<close>

primrec fillRanges :: "nat \<Rightarrow> u64 \<Rightarrow> ShardKey \<Rightarrow> key_range list \<Rightarrow> fault + key_range list" where
  "fillRanges 0 width e acc = Inl NoReturn"
| "fillRanges (Suc fuel) width e acc =
     (let hi = snd (last acc) in
      if hi < e then fillRanges fuel width e (acc @ [(hi + 1, hi + 1 + width)]) else Inr acc)"

definition generateShardKeyRangeMap ::
    "nat \<Rightarrow> u64 \<Rightarrow> u64 \<Rightarrow> u64 \<Rightarrow> fault + key_range list" where
  "generateShardKeyRangeMap fuel start e numShards =
     (if numShards = 0 then Inl DivideByZero
      else let width = (e - start) div numShards in
        if width \<le> 0 then Inr []
        else fillRanges fuel width e
               (leadRanges (unat (numShards mod width)) width start [(start, start + width + 1)]))"

section \<open>Contiguous ranges\<close>

definition contiguous :: "key_range list \<Rightarrow> bool" where
  "contiguous L \<longleftrightarrow> (\<forall>i. Suc i < length L \<longrightarrow> unat (fst (L ! Suc i)) = unat (snd (L ! i)) + 1)"

definition ordered :: "key_range list \<Rightarrow> bool" where
  "ordered L \<longleftrightarrow> (\<forall>(a, b) \<in> set L. unat a \<le> unat b)"

lemma ordered_simps [simp]:
  "ordered []" "ordered (x # L) \<longleftrightarrow> unat (fst x) \<le> unat (snd x) \<and> ordered L"
  "ordered (L @ M) \<longleftrightarrow> ordered L \<and> ordered M"
  by (auto simp: ordered_def)

lemma contiguous_single [simp]: "contiguous []" "contiguous [x]"
  by (simp_all add: contiguous_def)

lemma contiguous_snoc:
  assumes "contiguous L" and "L \<noteq> [] \<Longrightarrow> unat (fst x) = unat (snd (last L)) + 1"
  shows "contiguous (L @ [x])"
proof -
  have "unat (fst ((L @ [x]) ! Suc i)) = unat (snd ((L @ [x]) ! i)) + 1" if i: "Suc i < length (L @ [x])" for i
  proof (cases "Suc i = length L")
    case True
    then have "L \<noteq> []" by auto
    moreover have "i = length L - 1" using True by simp
    then have "L ! i = last L" using \<open>L \<noteq> []\<close> last_conv_nth [of L] by simp
    ultimately show ?thesis using assms(2) True by (simp add: nth_append)
  next
    case False
    then show ?thesis using assms(1) i by (simp add: contiguous_def nth_append)
  qed
  then show ?thesis by (simp add: contiguous_def)
qed

lemma unat_add_small:
  "unat (a :: u64) + unat b < 2 ^ 64 \<Longrightarrow> unat (a + b) = unat a + unat b"
  by (simp add: unat_word_ariths)

lemma fillRanges_tiles:
  assumes top: "unat e + unat width + 1 < 2 ^ 64"
  shows "unat e - unat (snd (last M)) < fuel \<Longrightarrow> M \<noteq> [] \<Longrightarrow> contiguous M \<Longrightarrow> ordered M \<Longrightarrow>
    \<exists>M'. fillRanges fuel width e (P @ M) = Inr (P @ M') \<and> contiguous M' \<and> ordered M' \<and>
      hd M' = hd M \<and> unat e \<le> unat (snd (last M'))"
proof (induction fuel arbitrary: M)
  case (Suc fuel)
  let ?hi = "snd (last M)"
  show ?case
  proof (cases "?hi < e")
    case True
    let ?x = "(?hi + 1, ?hi + 1 + width)"
    have less: "unat ?hi < unat e" using True by (simp add: word_less_nat_alt)
    then have one: "unat (?hi + 1) = unat ?hi + 1" using unat_add_small [of ?hi 1] top by simp
    have two: "unat (?hi + 1 + width) = unat ?hi + 1 + unat width"
      using unat_add_small [of "?hi + 1" width] one less top by simp
    have "unat e - unat (snd (last (M @ [?x]))) < fuel" using Suc.prems(1) less two by simp
    moreover have "contiguous (M @ [?x])" using Suc.prems(3) one by (intro contiguous_snoc) auto
    moreover have "ordered (M @ [?x])" using Suc.prems(4) one two by simp
    ultimately have "\<exists>M'. fillRanges fuel width e (P @ (M @ [?x])) = Inr (P @ M') \<and> contiguous M' \<and> ordered M' \<and>
      hd M' = hd (M @ [?x]) \<and> unat e \<le> unat (snd (last M'))"
      by (intro Suc.IH) simp_all
    then show ?thesis using True Suc.prems(2) by (simp add: Let_def)
  next
    case False
    then show ?thesis using Suc.prems by (auto simp: Let_def word_less_nat_alt)
  qed
qed simp

text \<open>The counted loop in closed form.\<close>

lemma leadRanges_eq:
  "leadRanges n width start acc =
     acc @ map (\<lambda>i. (start + of_nat i * (width + 2), start + of_nat i * (width + 2) + width + 1)) [0..<n]"
proof (induction n arbitrary: start acc)
  case (Suc n)
  have "[0..<Suc n] = 0 # map Suc [0..<n]" by (simp add: map_Suc_upt upt_conv_Cons)
  then show ?case by (simp add: Suc.IH algebra_simps)
qed simp

text \<open>The counted loop produces a contiguous block, as long as the last start does not wrap.\<close>

lemma leadRanges_tiles:
  "unat start + n * (unat width + 2) + unat width + 1 < 2 ^ 64 \<Longrightarrow>
   contiguous M \<Longrightarrow> ordered M \<Longrightarrow> (M \<noteq> [] \<Longrightarrow> unat start = unat (snd (last M)) + 1) \<Longrightarrow>
   \<exists>M'. leadRanges n width start (P @ M) = P @ M' \<and> contiguous M' \<and> ordered M' \<and>
     (M \<noteq> [] \<longrightarrow> M' \<noteq> [] \<and> hd M' = hd M) \<and>
     (M = [] \<and> 0 < n \<longrightarrow> M' \<noteq> [] \<and> hd M' = (start, start + width + 1))"
proof (induction n arbitrary: start M)
  case (Suc n)
  let ?x = "(start, start + width + 1)"
  have big: "unat start + (unat width + 2) + n * (unat width + 2) + unat width + 1 < 2 ^ 64"
    using Suc.prems(1) by simp
  have "unat (start + width) = unat start + unat width"
    using big by (intro unat_add_small) simp
  then have hi: "unat (start + width + 1) = unat start + unat width + 1"
    using big unat_add_small [of "start + width" 1] by simp
  then have nxt: "unat (start + (width + 2)) = unat start + (unat width + 2)"
    using big unat_add_small [of "start + width + 1" 1] by (simp add: algebra_simps)
  have "contiguous (M @ [?x])" using Suc.prems(2,4) by (intro contiguous_snoc) auto
  moreover have "ordered (M @ [?x])" using Suc.prems(3) hi by simp
  ultimately obtain M' where M': "leadRanges n width (start + (width + 2)) (P @ (M @ [?x])) = P @ M'"
    "contiguous M'" "ordered M'" "M' \<noteq> []" "hd M' = hd (M @ [?x])"
    using Suc.IH [of "start + (width + 2)" "M @ [?x]"] big nxt hi by (auto simp: algebra_simps)
  then show ?case by (cases M) auto
qed auto

section \<open>Properties\<close>

text \<open>C17: While no bound wraps around, the generator returns; its ranges, without the first one
  when the number of shards leaves a remainder modulo the width, follow each other key by
  key from the start up to the end or beyond, and in that case the first range is in the
  list twice.\<close>

theorem key_ranges_tile:
  fixes start e numShards :: u64
  defines "width \<equiv> (e - start) div numShards"
  defines "k \<equiv> unat (numShards mod width)"
  assumes "numShards \<noteq> 0" and "width \<noteq> 0"
    and lead: "unat start + k * (unat width + 2) + unat width + 1 < 2 ^ 64"
    and top: "unat e + unat width + 1 < 2 ^ 64"
  shows "\<exists>L M. generateShardKeyRangeMap (Suc (unat e)) start e numShards = Inr L \<and>
    L = (if k = 0 then M else (start, start + width + 1) # M) \<and>
    contiguous M \<and> ordered M \<and> hd M = (start, start + width + 1) \<and> unat e \<le> unat (snd (last M))"
proof -
  let ?x = "(start, start + width + 1)"
  have "unat (start + width) = unat start + unat width"
    using lead by (intro unat_add_small) simp
  then have hi: "unat (start + width + 1) = unat start + unat width + 1"
    using lead unat_add_small [of "start + width" 1] by simp
  have fuel: "unat e - unat (snd (last N)) < Suc (unat e)" for N :: "key_range list" by simp
  have gen: "generateShardKeyRangeMap (Suc (unat e)) start e numShards =
      fillRanges (Suc (unat e)) width e (leadRanges k width start [?x])"
    using assms(3,4) by (simp add: generateShardKeyRangeMap_def width_def k_def Let_def)
  show ?thesis
  proof (cases "k = 0")
    case True
    then show ?thesis
      using fillRanges_tiles [OF top fuel, of "[?x]" "[]"] gen hi by auto
  next
    case False
    then obtain N where N: "leadRanges k width start ([?x] @ []) = [?x] @ N" "contiguous N" "ordered N" "N \<noteq> []" "hd N = ?x"
      using leadRanges_tiles [OF lead, of "[]" "[?x]"] by auto
    from fillRanges_tiles [OF top fuel N(4,2,3), of "[?x]"] show ?thesis
      unfolding gen N(1) [simplified] using N(5) False by (simp del: fillRanges.simps) blast
  qed
qed

theorem key_ranges_tile_witness:
  "\<exists>L. generateShardKeyRangeMap 101 0 100 7 = Inr L \<and> length L = 8 \<and> hd L = (0, 15) \<and> L ! 1 = (0, 15)"
proof -
  have w: "(100 - 0 :: u64) div 7 = 14" "unat ((7 :: u64) mod 14) = 7" by (code_simp, code_simp)
  obtain L M where L: "generateShardKeyRangeMap 101 0 100 7 = Inr L" "L = (0, 15) # M" "hd M = (0, 15)"
    using key_ranges_tile [of 7 100 0, unfolded w, simplified] by blast
  have "length (projr (generateShardKeyRangeMap 101 0 100 7)) = 8" by code_simp
  then have "length L = 8" using L(1) by simp
  then show ?thesis using L by (cases M) auto
qed

text \<open>C18: When the last range ends exactly at the top of the key space, its end wraps to 0 and the
  loop never gets past the end: asking for one range over all keys does not return.\<close>

theorem key_ranges_may_spin:
  "generateShardKeyRangeMap fuel 0 (- 1) 1 = Inl NoReturn"
proof -
  have top: "(0 :: u64) < - 1" by code_simp
  have spin: "snd (last acc) = 0 \<Longrightarrow> fillRanges fuel (- 1) (- 1) acc = Inl NoReturn" for acc
    by (induction fuel arbitrary: acc) (simp_all add: Let_def top)
  have "unat ((1 :: u64) mod - 1) = 1" by code_simp
  then have "generateShardKeyRangeMap fuel 0 (- 1) 1 = fillRanges fuel (- 1) (- 1) [(0, 0), (0, 0)]"
    by (simp add: generateShardKeyRangeMap_def Let_def)
  then show ?thesis by (simp add: spin)
qed

end
