(* ===== verification/SolvingManager.thy ===== *)
theory SolvingManager
  imports NodeMapper KeyRanges SolvingState
begin

text \<open>
  \<open>psychopomp/SolvingManager\<close>: the stages that prepare the services for the solver. The maps
  of a service's bins come from the mapping provider, whose answer is a parameter, as are
  the identifiers the random generator draws. The theory shows that the shard map made up
  for a new service covers the keys, and what solving state the stages end in.
\<close>

section \<open>State and stages\<close>

record service_config =
  sc_node_config :: node_config
  sc_metric_config :: metric_config

definition defaultServiceConfig :: service_config where
  "defaultServiceConfig =
     \<lparr>sc_node_config = \<lparr>nc_domains = [], nc_domain_nodes = []\<rparr>, sc_metric_config = \<lparr>mt_metrics = []\<rparr>\<rparr>"

record solving_manager =
  sm_serviceConfig :: "(ServiceId, service_config) hmap"
  sm_shardMappings :: "(ServiceId, shard_map) hmap"
  sm_shardMetricsMappings :: "(ServiceId, shard_metrics_map) hmap"
  sm_binMappings :: "(ServiceId, (BinId, bin_info) hmap) hmap"
  sm_nodeMappers :: "(ServiceId, node_mapper) hmap"
  sm_solvingStates :: "(ServiceId, solving_state) hmap"

definition updateAll :: "(ServiceId, (BinId, bin_info) hmap) hmap \<Rightarrow> solving_manager \<Rightarrow> solving_manager" where
  "updateAll serviceMappings m = m\<lparr>sm_binMappings := serviceMappings\<rparr>"

definition populateServiceConfig :: "ServiceId list \<Rightarrow> solving_manager \<Rightarrow> solving_manager" where
  "populateServiceConfig serviceIds m = m"

definition populateShardMetricsMap :: "ServiceId list \<Rightarrow> solving_manager \<Rightarrow> solving_manager" where
  "populateShardMetricsMap serviceIds m = m"

text \<open>One shard per range, under the identifier drawn for it; \<open>emplace\<close> keeps the first shard of an
  identifier drawn twice.\<close>

definition newShard :: "u64 \<Rightarrow> key_range \<Rightarrow> shard" where
  "newShard i r =
     \<lparr>sh_range = \<lparr>range_start = fst r, range_end = snd r\<rparr>, sh_type = SHARD_TYPE_SECONDARY, sh_id = i\<rparr>"

definition newShardMap :: "(nat \<Rightarrow> u64) \<Rightarrow> key_range list \<Rightarrow> shard_map" where
  "newShardMap randomGen ranges =
     fold (\<lambda>(n, r). hm_emplace (randomGen n) (newShard (randomGen n) r)) (enumerate 0 ranges) []"

definition populateService ::
    "nat \<Rightarrow> (ServiceId \<Rightarrow> nat \<Rightarrow> u64) \<Rightarrow> ServiceId \<Rightarrow> solving_manager \<Rightarrow> fault + solving_manager" where
  "populateService fuel randomGen svcId m =
     (case hm_find (sm_shardMappings m) svcId of
        Some _ \<Rightarrow> Inr m
      | None \<Rightarrow>
          rbind (generateShardKeyRangeMap fuel 0 9223372036854775807 100) (\<lambda>shardKeyRanges.
            Inr (m\<lparr>sm_shardMappings :=
                     hm_emplace svcId (newShardMap (randomGen svcId) shardKeyRanges) (sm_shardMappings m)\<rparr>)))"

definition populateShardMap ::
    "nat \<Rightarrow> (ServiceId \<Rightarrow> nat \<Rightarrow> u64) \<Rightarrow> ServiceId list \<Rightarrow> solving_manager \<Rightarrow> fault + solving_manager" where
  "populateShardMap fuel randomGen serviceIds m = rfold (populateService fuel randomGen) serviceIds m"

definition createServiceState :: "ServiceId \<Rightarrow> solving_manager \<Rightarrow> fault + solving_manager" where
  "createServiceState svcId m =
     (let metrics = hm_get [] (sm_shardMetricsMappings m) svcId;
          m1 = m\<lparr>sm_shardMetricsMappings := hm_set svcId metrics (sm_shardMetricsMappings m)\<rparr>
      in case (hm_find (sm_shardMappings m) svcId, hm_find (sm_binMappings m) svcId) of
           (Some shardMapping, Some binMapping) \<Rightarrow>
             (let svcConfig = hm_get defaultServiceConfig (sm_serviceConfig m1) svcId;
                  m2 = m1\<lparr>sm_serviceConfig := hm_set svcId svcConfig (sm_serviceConfig m1)\<rparr>
              in rbind (newNodeMapper (sc_node_config svcConfig) (sc_metric_config svcConfig) binMapping
                          shardMapping metrics) (\<lambda>nodeMapper.
                   Inr (m2\<lparr>sm_nodeMappers := hm_set svcId nodeMapper (sm_nodeMappers m2),
                          sm_solvingStates := hm_set svcId
                            (newSolvingState (nm_shardInfos nodeMapper) (nm_metricVectors nodeMapper)
                               (nm_nodeMapping nodeMapper)) (sm_solvingStates m2)\<rparr>)))
         | _ \<Rightarrow> Inr m1)"

definition createSolvingState :: "ServiceId list \<Rightarrow> solving_manager \<Rightarrow> fault + solving_manager" where
  "createSolvingState serviceIds m =
     rfold createServiceState serviceIds (m\<lparr>sm_solvingStates := []\<rparr>)"


section \<open>The shard map of a new service\<close>

text \<open>A contiguous list of ranges covers every key from its start to its end.\<close>

lemma contiguous_covers:
  "contiguous M \<Longrightarrow> M \<noteq> [] \<Longrightarrow> unat (fst (hd M)) \<le> unat k \<Longrightarrow> unat k \<le> unat (snd (last M)) \<Longrightarrow>
   \<exists>(a, b) \<in> set M. unat a \<le> unat k \<and> unat k \<le> unat b"
proof (induction M rule: rev_induct)
  case (snoc x M)
  show ?case
  proof (cases "M = []")
    case True
    then show ?thesis using snoc.prems by (auto simp: case_prod_beta)
  next
    case False
    have pre: "contiguous M" unfolding contiguous_def
    proof (intro allI impI)
      fix i assume "Suc i < length M"
      then show "unat (fst (M ! Suc i)) = unat (snd (M ! i)) + 1"
        using snoc.prems(1) [unfolded contiguous_def, rule_format, of i] by (simp add: nth_append)
    qed
    have len: "Suc (length M - 1) = length M" using False by simp
    have "unat (fst x) = unat (snd (last M)) + 1"
      using snoc.prems(1) [unfolded contiguous_def, rule_format, of "length M - 1"] len False
      by (simp add: nth_append last_conv_nth)
    then show ?thesis
      using snoc.IH [OF pre False] snoc.prems(3,4) False by (cases "unat k \<le> unat (snd (last M))") (auto simp: case_prod_beta)
  qed
qed simp

definition newServiceRanges :: "key_range list" where
  "newServiceRanges = leadRanges 100 92233720368547758 0 [(0, 0 + 92233720368547758 + 1)]"

lemma newServiceRanges_last: "9223372036854775807 \<le> snd (last newServiceRanges)"
proof -
  have "[0..<100 :: nat] = [0..<99] @ [99]" using upt_Suc_append [of 0 99] by simp
  then have "snd (last newServiceRanges) = 99 * (92233720368547758 + 2) + 92233720368547758 + 1"
    unfolding newServiceRanges_def leadRanges_eq by simp
  then show ?thesis by simp
qed

lemma newServiceRanges_length: "length newServiceRanges = 101"
  by (simp add: newServiceRanges_def leadRanges_eq)

lemma newServiceRanges_first: "newServiceRanges ! 0 = newServiceRanges ! 1"
  by (simp add: newServiceRanges_def leadRanges_eq)

lemma generate_new_service:
  "generateShardKeyRangeMap (Suc fuel) 0 9223372036854775807 100 = Inr newServiceRanges"
proof -
  have w: "(9223372036854775807 - 0 :: u64) div 100 = 92233720368547758" by code_simp
  have k: "unat ((100 :: u64) mod 92233720368547758) = 100" by code_simp
  have "\<not> snd (last newServiceRanges) < 9223372036854775807"
    using newServiceRanges_last by (simp add: not_less)
  then show ?thesis
    by (simp add: generateShardKeyRangeMap_def w k Let_def newServiceRanges_def)
qed

lemma newServiceRanges_cover:
  assumes "k \<le> 9223372036854775807"
  shows "\<exists>(a, b) \<in> set newServiceRanges. a \<le> k \<and> k \<le> b"
proof -
  let ?x = "(0, 0 + 92233720368547758 + 1) :: key_range"
  have "unat (0 :: u64) + 100 * (unat (92233720368547758 :: u64) + 2) + unat (92233720368547758 :: u64) + 1 < 2 ^ 64"
    by simp
  from leadRanges_tiles [OF this, of "[]" "[?x]"] obtain M where M:
    "newServiceRanges = ?x # M" "contiguous M" "M \<noteq> []" "hd M = (0, 0 + 92233720368547758 + 1)"
    by (auto simp: newServiceRanges_def)
  have "snd (last newServiceRanges) = snd (last M)" unfolding M(1) using M(3) by simp
  then have "k \<le> snd (last M)" using order_trans [OF assms newServiceRanges_last] by simp
  then have "unat k \<le> unat (snd (last M))" by (simp add: word_le_nat_alt)
  then have "\<exists>(a, b) \<in> set M. unat a \<le> unat k \<and> unat k \<le> unat b"
    using M(2-4) by (intro contiguous_covers) simp_all
  then show ?thesis unfolding M(1) word_le_nat_alt by (auto simp: case_prod_beta)
qed

lemma newShardMap_snoc:
  "newShardMap g (rs @ [r]) = hm_emplace (g (length rs)) (newShard (g (length rs)) r) (newShardMap g rs)"
  by (simp add: newShardMap_def enumerate_append_eq)

lemma newShardMap_lookup:
  "inj_on g {..<length rs} \<Longrightarrow>
   length (newShardMap g rs) = length rs \<and> dom (hm_find (newShardMap g rs)) = g ` {..<length rs} \<and>
   (\<forall>n < length rs. hm_find (newShardMap g rs) (g n) = Some (newShard (g n) (rs ! n)))"
proof (induction rs rule: rev_induct)
  case Nil
  then show ?case by (simp add: newShardMap_def)
next
  case (snoc r rs)
  have inj: "inj_on g {..<length rs}" using snoc.prems by (rule inj_on_subset) auto
  have neq: "n < length rs \<Longrightarrow> g n \<noteq> g (length rs)" for n
    using inj_onD [OF snoc.prems, of n "length rs"] by auto
  then have "g (length rs) \<notin> g ` {..<length rs}" by (metis imageE lessThan_iff)
  then have none: "hm_find (newShardMap g rs) (g (length rs)) = None" using snoc.IH [OF inj] by (auto simp: domIff)
  show ?case
    using snoc.IH [OF inj] none neq
    by (auto simp: newShardMap_snoc hm_emplace_def hm_find_emplace nth_append lessThan_Suc map_add_def less_Suc_eq
        split: option.splits)
qed


section \<open>The solving states\<close>

lemma newSolvingState_empty_levels:
  "getDomainSize (newSolvingState infos metrics [[], []]) 1 = 0"
  "getChildren (assignmentTree (newSolvingState infos metrics [[], []])) d i mms = Inr (0, [])"
  "shardInfoVector (newSolvingState infos metrics [[], []]) = infos"
  by (simp_all add: newSolvingState_def addDomainInternal_def addLevel_def getDomainSize_def getChildren_def newTree_def
      hm_emplace_def hm_get_def)

text \<open>No configuration but the default one, as the stage that would fetch it leaves it.\<close>

definition default_configs :: "solving_manager \<Rightarrow> bool" where
  "default_configs m \<longleftrightarrow> (\<forall>svc. hm_get defaultServiceConfig (sm_serviceConfig m) svc = defaultServiceConfig)"

text \<open>A solving state in which no bin of the service has a shard.\<close>

definition unassigned_state :: "shard_map \<Rightarrow> (BinId, bin_info) hmap \<Rightarrow> solving_state \<Rightarrow> bool" where
  "unassigned_state shards bins st \<longleftrightarrow>
     shardInfoVector st = matching shards bins \<and> ss_binDomain st = 1 \<and> getDomainSize st 1 = 0 \<and>
     (\<forall>d i. getChildren (assignmentTree st) d i [] = Inr (0, []))"

lemma mapper_default:
  assumes "hm_distinct bins" and "unplaced bins"
  shows "\<exists>nm. newNodeMapper (sc_node_config defaultServiceConfig) (sc_metric_config defaultServiceConfig)
      bins shards sm = Inr nm \<and> nm_nodeMapping nm = [[], []] \<and> nm_shardInfos nm = matching shards bins"
  using mapper_without_domains [of "sc_node_config defaultServiceConfig" bins] assms
  by (fastforce simp: defaultServiceConfig_def)

lemma createServiceState_step:
  assumes "default_configs m"
    and bins: "\<forall>bins. hm_find (sm_binMappings m) svc = Some bins \<longrightarrow> hm_distinct bins \<and> unplaced bins"
  shows "\<exists>m'. createServiceState svc m = Inr m' \<and> default_configs m' \<and>
    sm_shardMappings m' = sm_shardMappings m \<and> sm_binMappings m' = sm_binMappings m \<and>
    (\<forall>x. x \<noteq> svc \<longrightarrow> hm_find (sm_solvingStates m') x = hm_find (sm_solvingStates m) x) \<and>
    (\<forall>shards bins. hm_find (sm_shardMappings m) svc = Some shards \<and> hm_find (sm_binMappings m) svc = Some bins \<longrightarrow>
       (\<exists>st. hm_find (sm_solvingStates m') svc = Some st \<and> unassigned_state shards bins st))"
proof (cases "hm_find (sm_shardMappings m) svc = None \<or> hm_find (sm_binMappings m) svc = None")
  case True
  then show ?thesis using assms(1)
    by (auto simp: createServiceState_def Let_def default_configs_def split: option.split)
next
  case False
  then obtain shards bins where sb: "hm_find (sm_shardMappings m) svc = Some shards"
    "hm_find (sm_binMappings m) svc = Some bins" by auto
  obtain nm where nm: "newNodeMapper (sc_node_config defaultServiceConfig) (sc_metric_config defaultServiceConfig)
      bins shards (hm_get [] (sm_shardMetricsMappings m) svc) = Inr nm" "nm_nodeMapping nm = [[], []]"
      "nm_shardInfos nm = matching shards bins"
    using mapper_default bins sb(2) by blast
  have cfg: "hm_get defaultServiceConfig (sm_serviceConfig m) svc = defaultServiceConfig"
    using assms(1) by (simp add: default_configs_def)
  show ?thesis
    using assms(1) sb nm
    by (auto simp: createServiceState_def Let_def cfg default_configs_def unassigned_state_def
        newSolvingState_empty_levels [unfolded One_nat_def] hm_get_def)
qed

lemma createSolvingState_run:
  assumes "default_configs m"
    and "\<forall>svc \<in> set ids. \<forall>bins. hm_find (sm_binMappings m) svc = Some bins \<longrightarrow> hm_distinct bins \<and> unplaced bins"
  shows "\<exists>m'. rfold createServiceState ids m = Inr m' \<and> default_configs m' \<and>
    sm_shardMappings m' = sm_shardMappings m \<and> sm_binMappings m' = sm_binMappings m \<and>
    (\<forall>x. x \<notin> set ids \<longrightarrow> hm_find (sm_solvingStates m') x = hm_find (sm_solvingStates m) x) \<and>
    (\<forall>svc \<in> set ids. \<forall>shards bins.
       hm_find (sm_shardMappings m) svc = Some shards \<and> hm_find (sm_binMappings m) svc = Some bins \<longrightarrow>
       (\<exists>st. hm_find (sm_solvingStates m') svc = Some st \<and> unassigned_state shards bins st))"
  using assms
proof (induction ids rule: rev_induct)
  case (snoc svc ids)
  from snoc obtain m' where m': "rfold createServiceState ids m = Inr m'" "default_configs m'"
    "sm_shardMappings m' = sm_shardMappings m" "sm_binMappings m' = sm_binMappings m"
    "\<forall>x. x \<notin> set ids \<longrightarrow> hm_find (sm_solvingStates m') x = hm_find (sm_solvingStates m) x"
    "\<forall>svc \<in> set ids. \<forall>shards bins.
       hm_find (sm_shardMappings m) svc = Some shards \<and> hm_find (sm_binMappings m) svc = Some bins \<longrightarrow>
       (\<exists>st. hm_find (sm_solvingStates m') svc = Some st \<and> unassigned_state shards bins st)"
    by auto
  have "\<forall>bins. hm_find (sm_binMappings m') svc = Some bins \<longrightarrow> hm_distinct bins \<and> unplaced bins"
    using snoc.prems(2) m'(4) by simp
  from createServiceState_step [OF m'(2) this] obtain m'' where m'': "createServiceState svc m' = Inr m''"
    "default_configs m''" "sm_shardMappings m'' = sm_shardMappings m" "sm_binMappings m'' = sm_binMappings m"
    "\<forall>x. x \<noteq> svc \<longrightarrow> hm_find (sm_solvingStates m'') x = hm_find (sm_solvingStates m') x"
    "\<forall>shards bins. hm_find (sm_shardMappings m) svc = Some shards \<and> hm_find (sm_binMappings m) svc = Some bins \<longrightarrow>
       (\<exists>st. hm_find (sm_solvingStates m'') svc = Some st \<and> unassigned_state shards bins st)"
    unfolding m'(3,4) by blast
  have "rfold createServiceState (ids @ [svc]) m = Inr m''" by (simp add: rfold_append m'(1) m''(1))
  moreover have "\<forall>x. x \<notin> set (ids @ [svc]) \<longrightarrow> hm_find (sm_solvingStates m'') x = hm_find (sm_solvingStates m) x"
    using m'(5) m''(5) by simp
  moreover have "\<exists>st. hm_find (sm_solvingStates m'') y = Some st \<and> unassigned_state shards bins st"
    if "y \<in> set (ids @ [svc])" "hm_find (sm_shardMappings m) y = Some shards" "hm_find (sm_binMappings m) y = Some bins"
    for y shards bins
    using that m'(6) m''(5,6) by (cases "y = svc") auto
  ultimately show ?case using m''(2-4) by blast
qed simp


section \<open>Properties\<close>

text \<open>C27: The shard map made up for a service that has none covers the keys: if the generator draws
  101 different identifiers, every key up to the largest signed number lies in the range of a
  shard, each shard is filed under its own identifier, and no other service changes.\<close>

theorem new_service_covers_keys:
  assumes "hm_find (sm_shardMappings m) svc = None" and "inj_on (randomGen svc) {..<101}"
  shows "\<exists>m' shards. populateShardMap (Suc fuel) randomGen [svc] m = Inr m' \<and>
    hm_find (sm_shardMappings m') = (hm_find (sm_shardMappings m))(svc \<mapsto> shards) \<and> length shards = 101 \<and>
    (\<forall>i s. hm_find shards i = Some s \<longrightarrow> sh_id s = i \<and> sh_type s = SHARD_TYPE_SECONDARY) \<and>
    (\<forall>key \<le> 9223372036854775807. \<exists>i s. hm_find shards i = Some s \<and>
       range_start (sh_range s) \<le> key \<and> key \<le> range_end (sh_range s))"
proof -
  define shards where "shards = newShardMap (randomGen svc) newServiceRanges"
  have inj: "inj_on (randomGen svc) {..<length newServiceRanges}" using assms(2) by (simp add: newServiceRanges_length)
  note look = newShardMap_lookup [OF inj, folded shards_def]
  have run: "populateShardMap (Suc fuel) randomGen [svc] m =
      Inr (m\<lparr>sm_shardMappings := hm_emplace svc shards (sm_shardMappings m)\<rparr>)"
    using assms(1) by (simp add: populateShardMap_def populateService_def generate_new_service shards_def)
  moreover have "hm_find (hm_emplace svc shards (sm_shardMappings m)) = (hm_find (sm_shardMappings m))(svc \<mapsto> shards)"
    using assms(1) by (simp add: hm_find_emplace)
  moreover have "sh_id s = i \<and> sh_type s = SHARD_TYPE_SECONDARY" if s: "hm_find shards i = Some s" for i s
  proof -
    have "i \<in> randomGen svc ` {..<length newServiceRanges}" using look s by (metis domI)
    then obtain n where "n < length newServiceRanges" "i = randomGen svc n" by auto
    then show ?thesis using look s by (auto simp: newShard_def)
  qed
  moreover have "\<exists>i s. hm_find shards i = Some s \<and> range_start (sh_range s) \<le> key \<and> key \<le> range_end (sh_range s)"
    if key: "key \<le> 9223372036854775807" for key
  proof -
    obtain r where r: "r \<in> set newServiceRanges" "fst r \<le> key" "key \<le> snd r"
      using newServiceRanges_cover [OF key] by auto
    then obtain n where n: "n < length newServiceRanges" "newServiceRanges ! n = r" by (auto simp: in_set_conv_nth)
    have "hm_find shards (randomGen svc n) = Some (newShard (randomGen svc n) r)" using look n by blast
    moreover have "range_start (sh_range (newShard (randomGen svc n) r)) \<le> key"
      "key \<le> range_end (sh_range (newShard (randomGen svc n) r))"
      using r(2,3) by (simp_all add: newShard_def)
    ultimately show ?thesis by blast
  qed
  ultimately show ?thesis
    using look newServiceRanges_length by (intro exI [of _ "m\<lparr>sm_shardMappings := hm_emplace svc shards (sm_shardMappings m)\<rparr>"] exI [of _ shards]) simp
qed

theorem new_service_covers_keys_witness:
  "\<exists>m' shards. populateShardMap 1 (\<lambda>svc n. of_nat n) [5] \<lparr>sm_serviceConfig = [], sm_shardMappings = [],
      sm_shardMetricsMappings = [], sm_binMappings = [], sm_nodeMappers = [], sm_solvingStates = []\<rparr> = Inr m' \<and>
    hm_find (sm_shardMappings m') 5 = Some shards \<and> length shards = 101"
proof -
  let ?m = "\<lparr>sm_serviceConfig = [], sm_shardMappings = [], sm_shardMetricsMappings = [], sm_binMappings = [],
    sm_nodeMappers = [], sm_solvingStates = []\<rparr> :: solving_manager"
  have "unat (of_nat n :: u64) = n" if "n < 101" for n
    using that by (simp add: unat_of_nat take_bit_nat_eq_self_iff)
  then have inj: "inj_on (\<lambda>n. of_nat n :: u64) {..<101}" by (metis (no_types, lifting) inj_onI lessThan_iff)
  have "hm_find (sm_shardMappings ?m) 5 = None" by simp
  from new_service_covers_keys [of ?m 5 "\<lambda>svc n. of_nat n" 0, OF this inj]
  show ?thesis by (simp only: One_nat_def) (metis fun_upd_same)
qed

text \<open>The solving states the stages prepare are empty: with the default configuration, which is
  what the stage that would fetch the configuration leaves, \<open>createSolvingState\<close> returns, and in the state of every
  service with shards and bins the bin domain has no element and no node has a child, so
  the shards the bins reported are assigned to no bin.\<close>

theorem prepared_states_are_unassigned:
  assumes "default_configs m"
    and "\<forall>svc \<in> set ids. \<forall>bins. hm_find (sm_binMappings m) svc = Some bins \<longrightarrow> hm_distinct bins \<and> unplaced bins"
  shows "\<exists>m'. createSolvingState ids m = Inr m' \<and>
    (\<forall>svc \<in> set ids. \<forall>shards bins.
       hm_find (sm_shardMappings m) svc = Some shards \<and> hm_find (sm_binMappings m) svc = Some bins \<longrightarrow>
       (\<exists>st. hm_find (sm_solvingStates m') svc = Some st \<and> unassigned_state shards bins st))"
  using createSolvingState_run [of "m\<lparr>sm_solvingStates := []\<rparr>" ids] assms
  unfolding createSolvingState_def default_configs_def by auto

theorem prepared_states_are_unassigned_witness:
  "\<exists>m' st. createSolvingState [5] \<lparr>sm_serviceConfig = [], sm_shardMappings = [(5, [(3, exampleShard)])],
      sm_shardMetricsMappings = [], sm_binMappings = [(5, exampleBins)], sm_nodeMappers = [], sm_solvingStates = []\<rparr> =
    Inr m' \<and> hm_find (sm_solvingStates m') 5 = Some st \<and> shardInfoVector st = [exampleInfo] \<and> getDomainSize st 1 = 0"
proof -
  let ?m = "\<lparr>sm_serviceConfig = [], sm_shardMappings = [(5, [(3, exampleShard)])], sm_shardMetricsMappings = [],
    sm_binMappings = [(5, exampleBins)], sm_nodeMappers = [], sm_solvingStates = []\<rparr> :: solving_manager"
  have "matching [(3, exampleShard)] exampleBins = [exampleInfo]" by code_simp
  moreover have "default_configs ?m" by (simp add: default_configs_def hm_get_def)
  moreover have "\<forall>svc \<in> set [5]. \<forall>bins. hm_find (sm_binMappings ?m) svc = Some bins \<longrightarrow> hm_distinct bins \<and> unplaced bins"
    by (simp add: exampleBins_def unplaced_def hm_get_def)
  ultimately show ?thesis
    using prepared_states_are_unassigned [of ?m "[5]"] by (auto simp: unassigned_state_def)
qed

end
