(* ===== verification/Planner.thy ===== *)
theory Planner
  imports Search SolvingManager
begin

text \<open>
  The placer as the sources compose it: the constructor of the solving state, the constructors of
  constraints one after another on the state they share, and the search. Nothing in the sources
  gives that state a movement map, and the theory shows what follows: whatever the problem and
  its constraints, the search moves nothing. The stages of \<open>SolvingManager\<close> that would call the
  constructors are declared and never defined; the stages before them leave a state on which the
  search returns at once.
\<close>

section \<open>Constructed problems\<close>

text \<open>
  The constraints that a sequence of constructor calls on the shared state \<open>s\<close> returns, and the
  state they leave: any class, consistency, domain, list of ids and parameters.
\<close>

inductive constructed :: "solving_state \<Rightarrow> constraint list \<Rightarrow> solving_state \<Rightarrow> bool" for s where
  none: "constructed s [] s"
| drain: "constructed s ks s' \<Longrightarrow> newDrainConstraint fuel c d ids faultWeight s' = Inr (dc, s'') \<Longrightarrow>
    constructed s (ks @ [Drain dc]) s''"
| metric: "constructed s ks s' \<Longrightarrow>
    newMetricConstraint fuel c d ids metric capacity faultWeight s' = Inr (mc, s'') \<Longrightarrow>
    constructed s (ks @ [MetricC mc]) s''"
| balance: "constructed s ks s' \<Longrightarrow>
    newLoadBalancingConstraint fuel d ids metric maxDelta multiplier s' = Inr (lb, s'') \<Longrightarrow>
    constructed s (ks @ [LoadBalancing lb]) s''"

lemma newExpressionTree_keeps:
  assumes "calc_keeps calc P" and "newExpressionTree fuel calc s t c = Inr (e, c')" and "P c"
  shows "P c'"
  using assms(2,3) propagateChanges_keeps [OF assms(1)]
  by (auto simp: newExpressionTree_def initializeMetricState_def Let_def res_simps split: prod.splits)

lemma newExpressionTree_shards:
  "newExpressionTree fuel calc s t c = Inr (e, c') \<Longrightarrow> shardDomain (et_assignmentTree e) = shardDomain t"
  by (auto simp: newExpressionTree_def initializeMetricState_def getAllDomainIds_def Let_def res_simps split: if_splits)

lemma createPartialTree_shards:
  assumes "layered t" and "createPartialTree t d ids = Some r"
  shows "shardDomain r = shardDomain t"
  using createPartialTree_total [OF assms(1), of d ids] assms(2) copiesD(1) by (auto simp: newTree_def)

text \<open>A constructor that returns leaves the problem as it is and the weights committed, and its
  constraint keeps a tree over the same shards.\<close>

definition built_on :: "solving_state \<Rightarrow> constraint \<Rightarrow> solving_state \<Rightarrow> bool" where
  "built_on s k s' \<longleftrightarrow> sameProblem s s' \<and> committedTotal s' = totalOf s' \<and>
     shardDomain (constraintTree k) = shardDomain (assignmentTree s)"

lemma built_drain:
  assumes lay: "layered (assignmentTree s)" and new: "newDrainConstraint fuel c d ids faultWeight s = Inr (dc, s')"
  shows "built_on s (Drain dc) s'"
proof -
  obtain r e faults s1 where r: "createPartialTree (assignmentTree s) d ids = Some r"
    and run: "newExpressionTree fuel (dc_calculate c d faultWeight) s r (cm_empty, s) = Inr (e, (faults, s1))"
    and out: "s' = commitWeights s1" "et_assignmentTree (dc_expressionTree dc) = et_assignmentTree e"
    using new by (auto simp: newDrainConstraint_def dc_commitMoves_def expr_commitMoves_def res_simps split: option.splits)
  have "sameProblem s s1" using newExpressionTree_keeps [OF calculate_frames(1) run] by simp
  then show ?thesis
    using out newExpressionTree_shards [OF run] createPartialTree_shards [OF lay r] sameProblem_trans
    by (auto simp: built_on_def)
qed

lemma built_metric:
  assumes lay: "layered (assignmentTree s)"
    and new: "newMetricConstraint fuel c d ids metric capacity faultWeight s = Inr (mc, s')"
  shows "built_on s (MetricC mc) s'"
proof -
  obtain r e faults s1 where r: "createPartialTree (assignmentTree s) d ids = Some r"
    and run: "newExpressionTree fuel (mc_calculate c d metric capacity faultWeight) s r (cm_empty, s) = Inr (e, (faults, s1))"
    and out: "s' = commitWeights s1" "et_assignmentTree (mc_expressionTree mc) = et_assignmentTree e"
    using new by (auto simp: newMetricConstraint_def mc_commitMoves_def expr_commitMoves_def res_simps split: option.splits)
  have "sameProblem s s1" using newExpressionTree_keeps [OF calculate_frames(2) run] by simp
  then show ?thesis
    using out newExpressionTree_shards [OF run] createPartialTree_shards [OF lay r] sameProblem_trans
    by (auto simp: built_on_def)
qed

lemma built_balance:
  assumes lay: "layered (assignmentTree s)"
    and new: "newLoadBalancingConstraint fuel d ids metric maxDelta multiplier s = Inr (lb, s')"
  shows "built_on s (LoadBalancing lb) s'"
proof -
  obtain r e u lb1 s1 where r: "createPartialTree (assignmentTree s) d ids = Some r"
    and run: "newExpressionTree fuel (lb_calculate s d metric lb_less) s
        (addMapping (kDomainLimit, 0) d ids r) [] = Inr (e, u)"
    and w: "lb_updateWeights lb1 s = Inr s1"
    and out: "s' = commitWeights s1" "et_assignmentTree (minExpressionTree lb) = et_assignmentTree e"
    using new by (auto simp: newLoadBalancingConstraint_def lb_commitMoves_def expr_commitMoves_def Let_def res_simps
        split: option.splits)
  show ?thesis
    using out newExpressionTree_shards [OF run] createPartialTree_shards [OF lay r]
      lb_updateWeights_frame [OF w] sameProblem_trans
    by (auto simp: built_on_def)
qed

lemma constructed_facts:
  assumes "constructed s ks s'" and s: "layered (assignmentTree s)" "shardDomain (assignmentTree s) = 0"
    "committedTotal s = totalOf s"
  shows "sameProblem s s' \<and> committedTotal s' = totalOf s' \<and>
    list_all (\<lambda>k. shardDomain (constraintTree k) = 0) ks"
  using assms(1)
proof induction
  case none
  then show ?case using s(3) by simp
next
  case (drain ks s1 fuel c d ids faultWeight dc s2)
  then have "assignmentTree s1 = assignmentTree s" using sameProblem_fields(5) by blast
  with drain s built_drain [of s1] sameProblem_trans show ?case by (fastforce simp: built_on_def)
next
  case (metric ks s1 fuel c d ids metric capacity faultWeight mc s2)
  then have "assignmentTree s1 = assignmentTree s" using sameProblem_fields(5) by blast
  with metric s built_metric [of s1] sameProblem_trans show ?case by (fastforce simp: built_on_def)
next
  case (balance ks s1 fuel d ids metric maxDelta multiplier lb s2)
  then have "assignmentTree s1 = assignmentTree s" using sameProblem_fields(5) by blast
  with balance s built_balance [of s1] sameProblem_trans show ?case by (fastforce simp: built_on_def)
qed

section \<open>A problem without bins\<close>

lemma solve_without_bins:
  assumes "getDomainSize s (ss_binDomain s) = 0"
  shows "solve n fuel rnd g s ks =
    Inr (emptyMovementMap, \<lparr>ls_state = s, ls_constraints = ks, ls_gen = g, currentWeight = totalOf s\<rparr>)"
  using assms by (cases n) (simp_all add: solve_def binOrder_def)

section \<open>Properties\<close>

text \<open>C1: The search on the states of the program: the constructor of the solving state, from any
  bins and levels above them, and any sequence of constructor calls for drain, metric and load
  balancing constraints that return, whatever their consistency, domain and parameters. With at
  least one turn, one constraint, two bins and one shard, and a fair random source, the search
  dereferences the null movement map at its first candidate; in all other cases it returns
  without a move. So it never moves a shard.\<close>

theorem search_needs_movement_map:
  assumes built: "constructed (newSolvingState si ms (bins # levels)) ks s"
    and rnd: "inRange rnd" "coversWithin k rnd (length bins)"
  shows "if 0 < maxIterations \<and> ks \<noteq> [] \<and> 1 < length bins \<and> (\<exists>shards \<in> set bins. shards \<noteq> [])
    then solve maxIterations (Suc k) rnd g s ks = Inl NullDeref
    else \<exists>st. solve maxIterations (Suc k) rnd g s ks = Inr (emptyMovementMap, st) \<and> currentWeight st = totalOf s"
proof -
  let ?s = "newSolvingState si ms (bins # levels)"
  have "committedTotal ?s = totalOf ?s" 
    by (simp add: totalOf_def committedTotal_def emptyBinWeightInfo_def ck_empty_def ck_get_def)
  then have s: "sameProblem ?s s" "committedTotal s = totalOf s" "list_all (\<lambda>k. shardDomain (constraintTree k) = 0) ks"
    using constructed_facts [OF built newSolvingState_layered] newSolvingState_tree(1) [of si ms "bins # levels"] by auto
  note same = sameProblem_fields [OF s(1)]
  have p: "null_problem s ks" using s(3) two_domains_same [OF s(1)] same by (simp add: null_problem_def)
  have size: "getDomainSize s 1 = length bins"
    using newSolvingState_elements [of si ms "bins # levels" 1] same by (simp add: getDomainSize_def)
  have kids: "mappedChildren (assignmentTree s) 1 b = (if b < length bins then bins ! b else [])" for b
    unfolding same(5) newSolvingState_kids by simp
  have ex: "(\<exists>a < length bins. mappedChildren (assignmentTree s) 1 a \<noteq> []) \<longleftrightarrow> (\<exists>shards \<in> set bins. shards \<noteq> [])"
    unfolding kids using list_ex_length [of "\<lambda>shards. shards \<noteq> []" bins] unfolding list_ex_iff by auto
  show ?thesis
    using solve_null [OF p s(2) rnd(1), of k maxIterations g] rnd(2) unfolding size ex by blast
qed

text \<open>A drain of a bin without shards can be constructed; the search faults on the shards of the
  other bins.\<close>

theorem search_needs_movement_map_witness:
  "\<exists>dc s. newDrainConstraint 1 AFTER 1 [2] 7 (newSolvingState [] [] [[[0, 1, 5], [2, 3, 6], []]]) = Inr (dc, s) \<and>
     solve 10 4 counter 0 s [Drain dc] = Inl NullDeref"
proof -
  let ?s = "newSolvingState [] [] [[[0, 1, 5], [2, 3, 6], []]]"
  have "case newDrainConstraint 1 AFTER 1 [2] 7 ?s of Inl _ \<Rightarrow> False | Inr _ \<Rightarrow> True" by code_simp
  then obtain dc s where new: "newDrainConstraint 1 AFTER 1 [2] 7 ?s = Inr (dc, s)"
    by (cases "newDrainConstraint 1 AFTER 1 [2] 7 ?s") auto
  have "constructed ?s [Drain dc] s" using constructed.drain [OF constructed.none new] by simp
  moreover have "coversWithin 3 counter (length [[0 :: nat, 1, 5], [2, 3, 6], []])"
    using counter_covers [of 3] by (simp add: numeral_3_eq_3)
  ultimately have "solve 10 (Suc 3) counter 0 s [Drain dc] = Inl NullDeref"
    using search_needs_movement_map [of "[]" "[]" "[[0, 1, 5], [2, 3, 6], []]" "[]" "[Drain dc]" s counter 3 10 0]
      counter_inRange by simp
  with new show ?thesis by (simp add: numeral_eq_Suc)
qed

text \<open>C28: The service pipeline and the search together: with the default configuration, which is what
  the stages leave, the prepared state of a service has no element in its bin domain, so
  whatever shards the bins reported and whatever the constraints, the search returns at once
  with no move, its constraints untouched.\<close>

theorem prepared_services_never_move:
  assumes "default_configs m"
    and "\<forall>svc \<in> set ids. \<forall>bins. hm_find (sm_binMappings m) svc = Some bins \<longrightarrow> hm_distinct bins \<and> unplaced bins"
  shows "\<exists>m'. createSolvingState ids m = Inr m' \<and>
    (\<forall>svc \<in> set ids. hm_find (sm_shardMappings m) svc \<noteq> None \<and> hm_find (sm_binMappings m) svc \<noteq> None \<longrightarrow>
       (\<exists>st. hm_find (sm_solvingStates m') svc = Some st \<and>
         (\<forall>maxIterations ks. solve maxIterations fuel rnd g st ks =
            Inr (emptyMovementMap, \<lparr>ls_state = st, ls_constraints = ks, ls_gen = g, currentWeight = totalOf st\<rparr>))))"
proof -
  obtain m' where run: "rfold createServiceState ids (m\<lparr>sm_solvingStates := []\<rparr>) = Inr m'"
    and states: "\<forall>svc \<in> set ids. \<forall>shards bins.
       hm_find (sm_shardMappings m) svc = Some shards \<and> hm_find (sm_binMappings m) svc = Some bins \<longrightarrow>
       (\<exists>st. hm_find (sm_solvingStates m') svc = Some st \<and> unassigned_state shards bins st)"
    using createSolvingState_run [of "m\<lparr>sm_solvingStates := []\<rparr>" ids] assms by (auto simp: default_configs_def)
  have "getDomainSize st (ss_binDomain st) = 0" if "unassigned_state shards bins st" for shards bins st
    using that by (simp add: unassigned_state_def)
  then have "\<exists>st. hm_find (sm_solvingStates m') svc = Some st \<and> getDomainSize st (ss_binDomain st) = 0"
    if "svc \<in> set ids" "hm_find (sm_shardMappings m) svc \<noteq> None" "hm_find (sm_binMappings m) svc \<noteq> None" for svc
    using states that by blast
  then show ?thesis
    using run by (intro exI [of _ m']) (fastforce simp: createSolvingState_def solve_without_bins)
qed

theorem prepared_services_never_move_witness:
  "\<exists>m' st r. createSolvingState [5] \<lparr>sm_serviceConfig = [], sm_shardMappings = [(5, [(3, exampleShard)])],
      sm_shardMetricsMappings = [], sm_binMappings = [(5, exampleBins)], sm_nodeMappers = [], sm_solvingStates = []\<rparr> =
    Inr m' \<and> hm_find (sm_solvingStates m') 5 = Some st \<and> solve 10 3 counter 0 st [] = Inr (emptyMovementMap, r)"
proof -
  let ?m = "\<lparr>sm_serviceConfig = [], sm_shardMappings = [(5, [(3, exampleShard)])], sm_shardMetricsMappings = [],
    sm_binMappings = [(5, exampleBins)], sm_nodeMappers = [], sm_solvingStates = []\<rparr> :: solving_manager"
  have "default_configs ?m" by (simp add: default_configs_def hm_get_def)
  moreover have "\<forall>svc \<in> set [5]. \<forall>bins. hm_find (sm_binMappings ?m) svc = Some bins \<longrightarrow> hm_distinct bins \<and> unplaced bins"
    by (simp add: exampleBins_def unplaced_def hm_get_def)
  ultimately show ?thesis
    using prepared_services_never_move [of ?m "[5]" 3 counter 0] by auto
qed

end
