(* ===== verification/StreamHandler.thy ===== *)
theory StreamHandler
  imports Prelude
begin

text \<open>
  The base class \<open>server_utils::RequestHandler\<close> of \<open>server_utils/RequestHandler.h\<close>, shared by
  the discovery server and the client: the queue of messages to write, the guards against a
  second outstanding read or write, and the dispatch of a completed operation. Virtual
  functions are fields of an object record; the state they act on is a parameter.
  The second half follows the write queue when threads interleave between its locks.
\<close>

section \<open>The class\<close>

datatype operation = CONNECT | READ | WRITE | FINISH

record ('w, 'r) request_handler =
  rh_message :: 'r
  rh_isReading :: bool
  rh_msgQueue :: "'w list"
  rh_isWriting :: bool

text \<open>
  An object of a derived class, as far as the stream goes: where the members of the base
  class are in its state, and its \<open>readFromStream\<close> and \<open>writeToStream\<close>. A whole handler
  adds the four callbacks; the boolean a callback takes and returns by reference is an
  argument and a result.
\<close>

record ('w, 'r, 's) stream_io =
  base :: "'s \<Rightarrow> ('w, 'r) request_handler"
  set_base :: "('w, 'r) request_handler \<Rightarrow> 's \<Rightarrow> 's"
  v_readFromStream :: "'s \<Rightarrow> 's"
  v_writeToStream :: "'w \<Rightarrow> 's \<Rightarrow> 's"

record ('w, 'r, 's) stream_handler = "('w, 'r, 's) stream_io" +
  v_handleConnect :: "bool \<Rightarrow> 's \<Rightarrow> 's"
  v_handleRead :: "bool \<Rightarrow> bool \<Rightarrow> 's \<Rightarrow> bool \<times> 's"
  v_handleWrite :: "bool \<Rightarrow> bool \<Rightarrow> 's \<Rightarrow> bool \<times> 's"
  v_handleFinish :: "bool \<Rightarrow> 's \<Rightarrow> 's"

definition addToWriteQueue :: "('w, 'r, 's, 'z) stream_io_scheme \<Rightarrow> 'w \<Rightarrow> 's \<Rightarrow> 's" where
  "addToWriteQueue io m s =
     (let b = base io s in set_base io (b\<lparr>rh_msgQueue := rh_msgQueue b @ [m]\<rparr>) s)"

definition attemptWrite :: "('w, 'r, 's, 'z) stream_io_scheme \<Rightarrow> 's \<Rightarrow> 's" where
  "attemptWrite io s =
     (let b = base io s in
      if rh_msgQueue b = [] \<or> rh_isWriting b then s
      else v_writeToStream io (hd (rh_msgQueue b)) (set_base io (b\<lparr>rh_isWriting := True\<rparr>) s))"

definition attemptRead :: "('w, 'r, 's, 'z) stream_io_scheme \<Rightarrow> 's \<Rightarrow> 's" where
  "attemptRead io s =
     (let b = base io s in
      if rh_isReading b then s
      else v_readFromStream io (set_base io (b\<lparr>rh_isReading := True\<rparr>) s))"

definition finishWrite :: "('w, 'r, 's, 'z) stream_io_scheme \<Rightarrow> bool \<Rightarrow> 's \<Rightarrow> 's" where
  "finishWrite io ok s =
     (let b = base io s;
          q = (if ok \<and> rh_msgQueue b \<noteq> [] then tl (rh_msgQueue b) else rh_msgQueue b) in
      set_base io (b\<lparr>rh_msgQueue := q, rh_isWriting := False\<rparr>) s)"

definition handlerWrite :: "('w, 'r, 's, 'z) stream_io_scheme \<Rightarrow> 'w \<Rightarrow> 's \<Rightarrow> 's" where
  "handlerWrite io m s = attemptWrite io (addToWriteQueue io m s)"

definition process :: "('w, 'r, 's) stream_handler \<Rightarrow> operation \<Rightarrow> bool \<Rightarrow> 's \<Rightarrow> 's" where
  "process h op ok s =
     (case op of
        CONNECT \<Rightarrow> v_handleConnect h ok s
      | READ \<Rightarrow>
          (let (shouldAttemptNext, s1) = v_handleRead h ok False s in
           if shouldAttemptNext then attemptRead h s1 else s1)
      | WRITE \<Rightarrow>
          (let s1 = (if ok then finishWrite h ok s else s);
               (shouldAttemptNext, s2) = v_handleWrite h ok False s1 in
           if shouldAttemptNext then attemptWrite h s2 else s2)
      | FINISH \<Rightarrow> v_handleFinish h ok s)"

section \<open>Interleaved writers\<close>

text \<open>
  \<open>write\<close> takes the lock twice, once to add the message and once to attempt the write, and so
  does the completion of a write. A configuration holds the shared state, the number of
  threads between their two critical sections, the number of completions the stream has
  delivered, and two ghosts: the messages ever added, and whether a write has failed. The
  completion thread goes on to attempt a write after a success, as a class does whose
  \<open>handleWrite\<close> passes \<open>ok\<close> on. Any other code of the class may run in between, as long as it
  leaves the queue, its flag and the written messages alone.
\<close>

record ('w, 's) writers =
  wr_state :: 's
  wr_ready :: nat
  wr_completed :: nat
  wr_added :: "'w list"
  wr_failed :: bool

inductive write_step ::
    "('w, 'r, 's) stream_io \<Rightarrow> ('s \<Rightarrow> 'w list) \<Rightarrow> ('w, 's) writers \<Rightarrow> ('w, 's) writers \<Rightarrow> bool"
  for io :: "('w, 'r, 's) stream_io" and written :: "'s \<Rightarrow> 'w list" where
  add_message: "write_step io written c
     (c\<lparr>wr_state := addToWriteQueue io m (wr_state c), wr_added := wr_added c @ [m],
        wr_ready := Suc (wr_ready c)\<rparr>)"
| attempt: "wr_ready c = Suc n \<Longrightarrow>
     write_step io written c (c\<lparr>wr_state := attemptWrite io (wr_state c), wr_ready := n\<rparr>)"
| finish_ok: "wr_completed c < length (written (wr_state c)) \<Longrightarrow>
     write_step io written c
       (c\<lparr>wr_state := finishWrite io True (wr_state c), wr_completed := Suc (wr_completed c),
          wr_ready := Suc (wr_ready c)\<rparr>)"
| finish_failed: "wr_completed c < length (written (wr_state c)) \<Longrightarrow>
     write_step io written c
       (c\<lparr>wr_completed := Suc (wr_completed c), wr_failed := True\<rparr>)"
| other: "rh_msgQueue (base io t) = rh_msgQueue (base io (wr_state c)) \<Longrightarrow>
     rh_isWriting (base io t) = rh_isWriting (base io (wr_state c)) \<Longrightarrow>
     written t = written (wr_state c) \<Longrightarrow> write_step io written c (c\<lparr>wr_state := t\<rparr>)"

inductive_cases write_stepE: "write_step io written c d"

definition writers_start :: "'s \<Rightarrow> ('w, 's) writers" where
  "writers_start s = \<lparr>wr_state = s, wr_ready = 0, wr_completed = 0, wr_added = [], wr_failed = False\<rparr>"

abbreviation write_run ::
    "('w, 'r, 's) stream_io \<Rightarrow> ('s \<Rightarrow> 'w list) \<Rightarrow> ('w, 's) writers \<Rightarrow> ('w, 's) writers \<Rightarrow> bool" where
  "write_run io written \<equiv> (write_step io written)\<^sup>*\<^sup>*"

section \<open>The contract of a stream object\<close>

text \<open>
  What the base class relies on: its members are stored and read back, and reading from or
  writing to the stream records the call and leaves them alone.
\<close>

locale stream_object =
  fixes io :: "('w, 'r, 's) stream_io"
    and written :: "'s \<Rightarrow> 'w list"
    and reads :: "'s \<Rightarrow> nat"
  assumes base_set: "base io (set_base io b s) = b"
    and written_set: "written (set_base io b s) = written s"
    and reads_set: "reads (set_base io b s) = reads s"
    and base_write: "base io (v_writeToStream io m s) = base io s"
    and written_write: "written (v_writeToStream io m s) = written s @ [m]"
    and reads_write: "reads (v_writeToStream io m s) = reads s"
    and base_read: "base io (v_readFromStream io s) = base io s"
    and written_read: "written (v_readFromStream io s) = written s"
    and reads_read: "reads (v_readFromStream io s) = Suc (reads s)"
begin

lemmas stream_laws = base_set written_set reads_set base_write written_write reads_write
  base_read written_read reads_read

lemma base_ops:
  "base io (addToWriteQueue io m s) = (base io s)\<lparr>rh_msgQueue := rh_msgQueue (base io s) @ [m]\<rparr>"
  "base io (attemptWrite io s) =
     (base io s)\<lparr>rh_isWriting := rh_isWriting (base io s) \<or> rh_msgQueue (base io s) \<noteq> []\<rparr>"
  "base io (finishWrite io True s) =
     (base io s)\<lparr>rh_msgQueue := tl (rh_msgQueue (base io s)), rh_isWriting := False\<rparr>"
  "base io (attemptRead io s) = (base io s)\<lparr>rh_isReading := True\<rparr>"
  by (auto simp: addToWriteQueue_def attemptWrite_def finishWrite_def attemptRead_def Let_def stream_laws)

lemma written_ops:
  "written (addToWriteQueue io m s) = written s"
  "written (attemptWrite io s) =
     written s @ (if rh_isWriting (base io s) then [] else take 1 (rh_msgQueue (base io s)))"
  "written (finishWrite io ok s) = written s"
  "written (attemptRead io s) = written s"
  by (auto simp: addToWriteQueue_def attemptWrite_def finishWrite_def attemptRead_def Let_def stream_laws
      take_Suc)

lemma reads_ops:
  "reads (addToWriteQueue io m s) = reads s"
  "reads (attemptWrite io s) = reads s"
  "reads (finishWrite io ok s) = reads s"
  "reads (attemptRead io s) = reads s + (if rh_isReading (base io s) then 0 else 1)"
  by (auto simp: addToWriteQueue_def attemptWrite_def finishWrite_def attemptRead_def Let_def stream_laws)

text \<open>
  The invariant: the queue holds the added messages whose write has not succeeded, what was
  written are those that succeeded and the head of the queue if a write is under way; and a
  queue that is not empty has a write under way or a thread about to attempt one.
\<close>

definition write_inv :: "('w, 's) writers \<Rightarrow> bool" where
  "write_inv c \<longleftrightarrow> (\<exists>acked.
     (let b = base io (wr_state c) in
      wr_added c = acked @ rh_msgQueue b \<and>
      written (wr_state c) = acked @ (if rh_isWriting b then take 1 (rh_msgQueue b) else []) \<and>
      (rh_isWriting b \<longrightarrow> rh_msgQueue b \<noteq> []) \<and>
      wr_completed c = length acked + (if wr_failed c then 1 else 0) \<and>
      (wr_failed c \<longrightarrow> rh_isWriting b) \<and>
      (rh_msgQueue b \<noteq> [] \<longrightarrow> rh_isWriting b \<or> 0 < wr_ready c)))"

lemma write_inv_step: "write_step io written c d \<Longrightarrow> write_inv c \<Longrightarrow> write_inv d"
proof (induction rule: write_step.induct)
  case (add_message c m)
  then show ?case
    unfolding write_inv_def Let_def by (auto simp: base_ops written_ops Suc_le_eq)
next
  case (attempt c n)
  then show ?case
    unfolding write_inv_def Let_def by (auto simp: base_ops written_ops)
next
  case (finish_ok c)
  from finish_ok.prems obtain acked where a:
    "wr_added c = acked @ rh_msgQueue (base io (wr_state c))"
    "written (wr_state c) = acked @ (if rh_isWriting (base io (wr_state c)) then take 1 (rh_msgQueue (base io (wr_state c))) else [])"
    "rh_isWriting (base io (wr_state c)) \<longrightarrow> rh_msgQueue (base io (wr_state c)) \<noteq> []"
    "wr_completed c = length acked + (if wr_failed c then 1 else 0)"
    "wr_failed c \<longrightarrow> rh_isWriting (base io (wr_state c))"
    unfolding write_inv_def Let_def by blast
  from finish_ok.hyps a have w: "rh_isWriting (base io (wr_state c))" "\<not> wr_failed c"
    by (auto split: if_splits simp: take_Suc)
  with a(3) obtain m q where q: "rh_msgQueue (base io (wr_state c)) = m # q" by (cases "rh_msgQueue (base io (wr_state c))") auto
  show ?case unfolding write_inv_def Let_def
    by (rule exI [of _ "acked @ [m]"]) (use a w q in \<open>auto simp: base_ops written_ops\<close>)
next
  case (finish_failed c)
  then show ?case
    unfolding write_inv_def Let_def by (auto split: if_splits)
next
  case (other t c)
  then show ?case
    unfolding write_inv_def Let_def by (simp cong: if_cong split del: if_split)
qed

lemma write_inv_run: "write_run io written c d \<Longrightarrow> write_inv c \<Longrightarrow> write_inv d"
  by (induction rule: rtranclp_induct) (auto intro: write_inv_step)

lemma write_inv_start:
  "rh_msgQueue (base io s) = [] \<Longrightarrow> \<not> rh_isWriting (base io s) \<Longrightarrow> written s = [] \<Longrightarrow>
   write_inv (writers_start s)"
  by (simp add: write_inv_def writers_start_def)

lemma write_discipline:
  assumes "write_inv c"
  shows "\<exists>rest. wr_added c = written (wr_state c) @ rest"
    and "length (written (wr_state c)) \<le> Suc (wr_completed c)"
    and "wr_ready c = 0 \<Longrightarrow> wr_completed c = length (written (wr_state c)) \<Longrightarrow> \<not> wr_failed c \<Longrightarrow>
      written (wr_state c) = wr_added c"
proof -
  from assms obtain acked where a:
    "wr_added c = acked @ rh_msgQueue (base io (wr_state c))"
    "written (wr_state c) = acked @ (if rh_isWriting (base io (wr_state c)) then take 1 (rh_msgQueue (base io (wr_state c))) else [])"
    "rh_isWriting (base io (wr_state c)) \<longrightarrow> rh_msgQueue (base io (wr_state c)) \<noteq> []"
    "wr_completed c = length acked + (if wr_failed c then 1 else 0)"
    "rh_msgQueue (base io (wr_state c)) \<noteq> [] \<longrightarrow> rh_isWriting (base io (wr_state c)) \<or> 0 < wr_ready c"
    unfolding write_inv_def Let_def by blast
  show "\<exists>rest. wr_added c = written (wr_state c) @ rest"
    unfolding a(1,2) by (auto intro: append_take_drop_id [symmetric] exI [of _ "[]"])
  show "length (written (wr_state c)) \<le> Suc (wr_completed c)" using a(2,4) by auto
  show "written (wr_state c) = wr_added c"
    if "wr_ready c = 0" "wr_completed c = length (written (wr_state c))" "\<not> wr_failed c"
    using that a by (cases "rh_msgQueue (base io (wr_state c))") (auto split: if_splits)
qed

lemma write_idle:
  "write_inv c \<Longrightarrow> wr_ready c = 0 \<Longrightarrow> wr_completed c = length (written (wr_state c)) \<Longrightarrow> \<not> wr_failed c \<Longrightarrow>
   rh_msgQueue (base io (wr_state c)) = []"
  by (cases "rh_msgQueue (base io (wr_state c))") (auto simp: write_inv_def Let_def)

text \<open>A handler that starts with \<open>isWriting_\<close> set never writes.\<close>

lemma never_writes_step:
  "write_step io written c d \<Longrightarrow> rh_isWriting (base io (wr_state c)) \<Longrightarrow> written (wr_state c) = [] \<Longrightarrow>
   rh_isWriting (base io (wr_state d)) \<and> written (wr_state d) = []"
  by (induction rule: write_step.induct) (auto simp: base_ops written_ops)

lemma never_writes:
  "write_run io written c d \<Longrightarrow> rh_isWriting (base io (wr_state c)) \<Longrightarrow> written (wr_state c) = [] \<Longrightarrow>
   rh_isWriting (base io (wr_state d)) \<and> written (wr_state d) = []"
  by (induction rule: rtranclp_induct) (auto dest: never_writes_step)

end

text \<open>The handler's operations see only the stream part of a whole handler.\<close>

lemma stream_ops_extend [simp]:
  "addToWriteQueue (stream_io.extend io r) = addToWriteQueue io"
  "attemptWrite (stream_io.extend io r) = attemptWrite io"
  "attemptRead (stream_io.extend io r) = attemptRead io"
  "finishWrite (stream_io.extend io r) = finishWrite io"
  "handlerWrite (stream_io.extend io r) = handlerWrite io"
  by (simp_all add: fun_eq_iff addToWriteQueue_def attemptWrite_def attemptRead_def finishWrite_def
      handlerWrite_def stream_io.extend_def Let_def)

end
