(* ===== verification/Client.thy ===== *)
theory Client
  imports StreamHandler Types
begin

text \<open>
  The client of \<open>user_libs/Client.h\<close>: the status it keeps per shard range, its answers to the
  server's messages, and the handler that reads and writes the stream. The class is
  written against an earlier version of the schema, in which assignments are lists of
  ranges and a shard update carries ranges and statuses side by side; the messages here are
  the ones its code reads and builds. \<open>updateRanges\<close> and \<open>forwardRanges\<close>, which a user of the
  library overrides, are parameters.
\<close>

section \<open>Messages and state\<close>

datatype assignment_message =
    AssignmentNotSet
  | ConnectionResult bool
  | ShardUpdate "shard_range list" "shard_range list"  \<comment> \<open>assigned, unassigned\<close>
  | ShardForward "shard_range list" "string list"

datatype report_message =
    ConnectionReport connection_request
  | ShardInfoReport "shard_range list" "shard_range_status list"

type_synonym range_pair = "i64 \<times> i64"
type_synonym status_map = "(range_pair, shard_range_status) hmap"

datatype client_call = ConnectCall | ReadCall | WriteCall report_message

datatype upcall =
    UpdateRanges "shard_range list" "shard_range list"  \<comment> \<open>assignedRanges, unassignedRanges\<close>
  | ForwardRanges "shard_range list" "string list"

text \<open>
  \<open>cl_threads\<close> are the messages whose processing thread has been started and has not run yet;
  \<open>cl_calls\<close> and \<open>cl_upcalls\<close> record the calls on the stream and on the overridable functions.
\<close>

record client =
  cl_base :: "(report_message, assignment_message) request_handler"
  cl_serviceId :: i64
  cl_serviceKey :: string
  cl_shardRangeStatus :: status_map
  cl_shardRangePendingStatus :: status_map
  cl_isConnected :: bool
  cl_threads :: "assignment_message list"
  cl_calls :: "client_call list"
  cl_upcalls :: "upcall list"

record user_functions =
  updateRanges :: "shard_range list \<Rightarrow> shard_range list \<Rightarrow> bool"
  forwardRanges :: "shard_range list \<Rightarrow> string list \<Rightarrow> bool"

definition defaultFunctions :: user_functions where
  "defaultFunctions = \<lparr>updateRanges = \<lambda>_ _. True, forwardRanges = \<lambda>_ _. True\<rparr>"

text \<open>The flags of the base class are not initialised: they are arguments of the constructor.\<close>

definition newClient :: "bool \<Rightarrow> bool \<Rightarrow> bool \<Rightarrow> i64 \<Rightarrow> string \<Rightarrow> client" where
  "newClient isReading isWriting isConnected serviceId serviceKey =
     \<lparr>cl_base = \<lparr>rh_message = AssignmentNotSet, rh_isReading = isReading, rh_msgQueue = [],
        rh_isWriting = isWriting\<rparr>,
      cl_serviceId = serviceId, cl_serviceKey = serviceKey, cl_shardRangeStatus = [],
      cl_shardRangePendingStatus = [], cl_isConnected = isConnected, cl_threads = [],
      cl_calls = [], cl_upcalls = []\<rparr>"

section \<open>The stream\<close>

definition readFromStream :: "client \<Rightarrow> client" where
  "readFromStream c = c\<lparr>cl_calls := cl_calls c @ [ReadCall]\<rparr>"

definition writeToStream :: "report_message \<Rightarrow> client \<Rightarrow> client" where
  "writeToStream m c = c\<lparr>cl_calls := cl_calls c @ [WriteCall m]\<rparr>"

definition client_io :: "(report_message, assignment_message, client) stream_io" where
  "client_io = \<lparr>base = cl_base, set_base = (\<lambda>b c. c\<lparr>cl_base := b\<rparr>),
     v_readFromStream = readFromStream, v_writeToStream = writeToStream\<rparr>"

definition connect :: "client \<Rightarrow> client" where
  "connect c = c\<lparr>cl_calls := cl_calls c @ [ConnectCall]\<rparr>"

section \<open>Shard status\<close>

definition range_pair :: "shard_range \<Rightarrow> range_pair" where
  "range_pair r = (range_start r, range_end r)"

definition currentShardStatus :: "client \<Rightarrow> status_map" where
  "currentShardStatus c =
     fold (\<lambda>(r, st). hm_set r st) (cl_shardRangePendingStatus c) (cl_shardRangeStatus c)"

definition rangeStatus :: "client \<Rightarrow> shard_range \<Rightarrow> shard_range_status" where
  "rangeStatus c r =
     (case hm_find (cl_shardRangePendingStatus c) (range_pair r) of
        Some st \<Rightarrow> st
      | None \<Rightarrow>
          (case hm_find (cl_shardRangeStatus c) (range_pair r) of
             Some st \<Rightarrow> st
           | None \<Rightarrow> SHARD_RANGE_STATUS_DROPPED))"

definition getShardStatus :: "client \<Rightarrow> shard_range list \<Rightarrow> shard_range_status list" where
  "getShardStatus c ranges = map (rangeStatus c) ranges"

text \<open>The map is a parameter by value: the function returns nothing and what it computes is its
  own copy, which is the result here.\<close>

definition setShardStatus :: "status_map \<Rightarrow> shard_range list \<Rightarrow> shard_range_status \<Rightarrow> status_map" where
  "setShardStatus m ranges st =
     (if st = SHARD_RANGE_STATUS_DROPPED
      then fold (\<lambda>r. hm_erase (range_pair r)) ranges m
      else fold (\<lambda>r. hm_set (range_pair r) st) ranges m)"

section \<open>Messages\<close>

definition kClientBin :: i64 where
  "kClientBin = 12389098234"

definition sendAuthMessage :: "client \<Rightarrow> client" where
  "sendAuthMessage c =
     handlerWrite client_io
       (ConnectionReport
          \<lparr>cr_service_id = cl_serviceId c, cr_service_key = cl_serviceKey c, cr_bin_id = kClientBin,
           cr_groups = [],
           cr_shard_info = map (\<lambda>((a, b), st).
             \<lparr>si_shard = \<lparr>sh_range = \<lparr>range_start = a, range_end = b\<rparr>, sh_type = SHARD_TYPE_UNKNOWN, sh_id = 0\<rparr>,
              si_metrics = [], si_status = st\<rparr>) (currentShardStatus c),
           cr_status = BIN_STATUS_HEALTHY\<rparr>) c"

definition sendShardInfoUpdate :: "shard_range list \<Rightarrow> client \<Rightarrow> client" where
  "sendShardInfoUpdate ranges c =
     handlerWrite client_io (ShardInfoReport ranges (getShardStatus c ranges)) c"

text \<open>A call that passes a status map by value is a \<open>let\<close> whose result is not used.\<close>

definition processMessageSequentially :: "assignment_message \<Rightarrow> client \<Rightarrow> client" where
  "processMessageSequentially message c =
     (case message of
        ShardUpdate assignedShards unassignedShards \<Rightarrow>
          (let _ = setShardStatus (cl_shardRangePendingStatus c) unassignedShards SHARD_RANGE_STATUS_PENDING_DROPPED;
               _ = setShardStatus (cl_shardRangePendingStatus c) assignedShards SHARD_RANGE_STATUS_PENDING_ADDED
           in c)
      | ShardForward forwardedShards nextBins \<Rightarrow>
          (let _ = setShardStatus (cl_shardRangePendingStatus c) forwardedShards SHARD_RANGE_STATUS_PENDING_FORWARDING
           in c)
      | _ \<Rightarrow> c)"

definition processMessageAsync :: "user_functions \<Rightarrow> assignment_message \<Rightarrow> client \<Rightarrow> client" where
  "processMessageAsync user message c =
     (case message of
        ConnectionResult _ \<Rightarrow> c
      | ShardUpdate assignedShards unassignedShards \<Rightarrow>
          (let success = updateRanges user unassignedShards assignedShards;
               c1 = c\<lparr>cl_upcalls := cl_upcalls c @ [UpdateRanges unassignedShards assignedShards]\<rparr>;
               c2 = (if success then
                       (let _ = setShardStatus (cl_shardRangeStatus c1) unassignedShards SHARD_RANGE_STATUS_DROPPED;
                            _ = setShardStatus (cl_shardRangeStatus c1) assignedShards SHARD_RANGE_STATUS_ADDED
                        in c1)
                     else
                       (let _ = setShardStatus (cl_shardRangePendingStatus c1) unassignedShards SHARD_RANGE_STATUS_DROPPED
                        in c1))
           in sendShardInfoUpdate (unassignedShards @ assignedShards) c2)
      | ShardForward forwardedShards nextBins \<Rightarrow>
          (let success = forwardRanges user forwardedShards nextBins;
               c1 = c\<lparr>cl_upcalls := cl_upcalls c @ [ForwardRanges forwardedShards nextBins]\<rparr>;
               c2 = (if success then
                       (let _ = setShardStatus (cl_shardRangeStatus c1) forwardedShards SHARD_RANGE_STATUS_FORWARDING
                        in c1)
                     else
                       (let _ = setShardStatus (cl_shardRangePendingStatus c1) forwardedShards SHARD_RANGE_STATUS_DROPPED
                        in c1))
           in sendShardInfoUpdate forwardedShards c2)
      | AssignmentNotSet \<Rightarrow> c)"

section \<open>The handler\<close>

definition setConnectedState :: "bool \<Rightarrow> client \<Rightarrow> client" where
  "setConnectedState b c = c\<lparr>cl_isConnected := b\<rparr>"

definition handleConnect :: "bool \<Rightarrow> client \<Rightarrow> client" where
  "handleConnect ok c =
     (if \<not> ok then connect c
      else sendAuthMessage (attemptRead client_io (setConnectedState True c)))"

definition handleRead :: "bool \<Rightarrow> bool \<Rightarrow> client \<Rightarrow> bool \<times> client" where
  "handleRead ok shouldAttemptNext c =
     (if \<not> ok then (shouldAttemptNext, c)
      else
        (let message = rh_message (cl_base c);
             c1 = processMessageSequentially message c
         in (True, c1\<lparr>cl_threads := cl_threads c1 @ [message]\<rparr>)))"

definition handleWrite :: "bool \<Rightarrow> bool \<Rightarrow> client \<Rightarrow> bool \<times> client" where
  "handleWrite ok shouldAttemptNext c = (ok, c)"

definition handleFinish :: "bool \<Rightarrow> client \<Rightarrow> client" where
  "handleFinish ok c = setConnectedState False c"

definition getConnectedState :: "client \<Rightarrow> bool" where
  "getConnectedState c = cl_isConnected c"

section \<open>The end of a client\<close>

text \<open>
  The destructor cancels the stream and finishes it, if \<open>connect\<close> has made one, closes the queue and
  joins the threads, whose identifiers are an argument. The status it passes to \<open>Finish\<close> is a pointer
  that is never given a value, so it is an argument too.
\<close>

datatype closing_call = TryCancelCall | FinishStreamCall nat | ShutdownCall | JoinCall nat

definition has_stream :: "client \<Rightarrow> bool" where
  "has_stream c = list_ex (\<lambda>x. x = ConnectCall) (cl_calls c)"

definition closeClient :: "nat \<Rightarrow> nat list \<Rightarrow> client \<Rightarrow> closing_call list" where
  "closeClient status threads c =
     (if has_stream c then [TryCancelCall] else []) @
     (if has_stream c then [FinishStreamCall status] else []) @
     [ShutdownCall] @ map JoinCall threads"

definition removeDestructThread :: "nat \<Rightarrow> (nat, 'thread) hmap \<Rightarrow> (nat, 'thread) hmap" where
  "removeDestructThread i threads = hm_erase i threads"

section \<open>The overridden functions\<close>

definition client_handler :: "(report_message, assignment_message, client) stream_handler" where
  "client_handler = stream_io.extend client_io
     \<lparr>v_handleConnect = handleConnect, v_handleRead = handleRead, v_handleWrite = handleWrite,
      v_handleFinish = handleFinish\<rparr>"


section \<open>Runs\<close>

text \<open>
  A run starts with \<open>connect\<close>. The completion queue delivers the result of a call that has
  not completed yet; a read that succeeds has stored its message. A started thread may
  run at any later time. \<open>cn_done\<close> counts the completions per operation, \<open>cn_served\<close> are the
  messages whose thread has run.
\<close>

fun call_operation :: "client_call \<Rightarrow> operation" where
  "call_operation ConnectCall = CONNECT"
| "call_operation ReadCall = READ"
| "call_operation (WriteCall m) = WRITE"

definition callCount :: "client \<Rightarrow> operation \<Rightarrow> nat" where
  "callCount c op = length (filter (\<lambda>x. call_operation x = op) (cl_calls c))"

definition receive :: "assignment_message \<Rightarrow> client \<Rightarrow> client" where
  "receive m c = c\<lparr>cl_base := (cl_base c)\<lparr>rh_message := m\<rparr>\<rparr>"

record client_run =
  cn_client :: client
  cn_done :: "operation \<Rightarrow> nat"
  cn_write_failed :: bool
  cn_served :: "assignment_message list"

definition removeAt :: "nat \<Rightarrow> 'a list \<Rightarrow> 'a list" where
  "removeAt i xs = take i xs @ drop (Suc i) xs"

definition client_start :: "client \<Rightarrow> client_run" where
  "client_start c =
     \<lparr>cn_client = connect c, cn_done = (\<lambda>_. 0), cn_write_failed = False, cn_served = []\<rparr>"

inductive client_step :: "user_functions \<Rightarrow> client_run \<Rightarrow> client_run \<Rightarrow> bool" for user where
  completion: "cn_done r op < callCount (cn_client r) op \<Longrightarrow>
     op = READ \<and> ok \<and> c = receive m (cn_client r) \<or> \<not> (op = READ \<and> ok) \<and> c = cn_client r \<Longrightarrow>
     client_step user r
       (r\<lparr>cn_client := process client_handler op ok c, cn_done := (cn_done r)(op := Suc (cn_done r op)),
          cn_write_failed := cn_write_failed r \<or> (op = WRITE \<and> \<not> ok)\<rparr>)"
| thread: "i < length (cl_threads (cn_client r)) \<Longrightarrow>
     client_step user r
       (r\<lparr>cn_client := processMessageAsync user (cl_threads (cn_client r) ! i)
            ((cn_client r)\<lparr>cl_threads := removeAt i (cl_threads (cn_client r))\<rparr>),
          cn_served := cn_served r @ [cl_threads (cn_client r) ! i]\<rparr>)"

abbreviation client_reach :: "user_functions \<Rightarrow> client \<Rightarrow> client_run \<Rightarrow> bool" where
  "client_reach user c \<equiv> (client_step user)\<^sup>*\<^sup>* (client_start c)"

section \<open>The stream contract\<close>

definition written_messages :: "client \<Rightarrow> report_message list" where
  "written_messages c = concat (map (\<lambda>x. case x of WriteCall m \<Rightarrow> [m] | _ \<Rightarrow> []) (cl_calls c))"

lemma callCount_simps [simp]:
  "callCount (c\<lparr>cl_calls := cl_calls c @ [x]\<rparr>) op = callCount c op + (if call_operation x = op then 1 else 0)"
  "callCount (c\<lparr>cl_base := b\<rparr>) op = callCount c op"
  "callCount (c\<lparr>cl_threads := t\<rparr>) op = callCount c op"
  "callCount (c\<lparr>cl_upcalls := u\<rparr>) op = callCount c op"
  "callCount (c\<lparr>cl_isConnected := v\<rparr>) op = callCount c op"
  by (simp_all add: callCount_def)

lemma written_messages_simps [simp]:
  "written_messages (c\<lparr>cl_calls := cl_calls c @ [x]\<rparr>) =
     written_messages c @ (case x of WriteCall m \<Rightarrow> [m] | _ \<Rightarrow> [])"
  "written_messages (c\<lparr>cl_base := b\<rparr>) = written_messages c"
  "written_messages (c\<lparr>cl_threads := t\<rparr>) = written_messages c"
  "written_messages (c\<lparr>cl_upcalls := u\<rparr>) = written_messages c"
  "written_messages (c\<lparr>cl_isConnected := v\<rparr>) = written_messages c"
  by (simp_all add: written_messages_def)

interpretation client_stream: stream_object client_io written_messages "\<lambda>c. callCount c READ"
  by unfold_locales (auto simp: client_io_def readFromStream_def writeToStream_def)

lemma client_io_base [simp]: "base client_io = cl_base" "set_base client_io b c = c\<lparr>cl_base := b\<rparr>"
  by (simp_all add: client_io_def)

lemma callCount_WRITE: "callCount c WRITE = length (written_messages c)"
proof -
  have "length (filter (\<lambda>x. call_operation x = WRITE) xs) =
      length (concat (map (\<lambda>x. case x of WriteCall m \<Rightarrow> [m] | _ \<Rightarrow> []) xs))" for xs
    by (induction xs) (auto split: client_call.splits)
  then show ?thesis by (simp add: callCount_def written_messages_def)
qed

section \<open>What an operation changes\<close>

lemma client_handler_simps [simp]:
  "v_handleConnect client_handler = handleConnect" "v_handleRead client_handler = handleRead"
  "v_handleWrite client_handler = handleWrite" "v_handleFinish client_handler = handleFinish"
  "attemptRead client_handler = attemptRead client_io"
  "attemptWrite client_handler = attemptWrite client_io"
  "finishWrite client_handler = finishWrite client_io"
  by (simp_all add: client_handler_def) (simp_all add: stream_io.extend_def)

lemma process_client:
  "process client_handler CONNECT ok c = handleConnect ok c"
  "process client_handler READ False c = c"
  "process client_handler READ True c =
     attemptRead client_io (c\<lparr>cl_threads := cl_threads c @ [rh_message (cl_base c)]\<rparr>)"
  "process client_handler WRITE False c = c"
  "process client_handler WRITE True c = attemptWrite client_io (finishWrite client_io True c)"
  "process client_handler FINISH ok c = setConnectedState False c"
proof -
  have same: "processMessageSequentially m c = c" for m
    by (cases m) (simp_all add: processMessageSequentially_def)
  show
    "process client_handler CONNECT ok c = handleConnect ok c"
    "process client_handler READ False c = c"
    "process client_handler READ True c =
       attemptRead client_io (c\<lparr>cl_threads := cl_threads c @ [rh_message (cl_base c)]\<rparr>)"
    "process client_handler WRITE False c = c"
    "process client_handler WRITE True c = attemptWrite client_io (finishWrite client_io True c)"
    "process client_handler FINISH ok c = setConnectedState False c"
    by (simp_all add: process_def handleRead_def handleWrite_def handleFinish_def same Let_def)
qed

text \<open>The stream operations change the base class's members and the list of calls, and the only
  message they write is one that is in the queue.\<close>

lemma client_stream_frame [simp]:
  "cl_shardRangeStatus (addToWriteQueue client_io m c) = cl_shardRangeStatus c"
  "cl_shardRangeStatus (attemptWrite client_io c) = cl_shardRangeStatus c"
  "cl_shardRangeStatus (attemptRead client_io c) = cl_shardRangeStatus c"
  "cl_shardRangeStatus (finishWrite client_io ok c) = cl_shardRangeStatus c"
  "cl_shardRangePendingStatus (addToWriteQueue client_io m c) = cl_shardRangePendingStatus c"
  "cl_shardRangePendingStatus (attemptWrite client_io c) = cl_shardRangePendingStatus c"
  "cl_shardRangePendingStatus (attemptRead client_io c) = cl_shardRangePendingStatus c"
  "cl_shardRangePendingStatus (finishWrite client_io ok c) = cl_shardRangePendingStatus c"
  "cl_threads (addToWriteQueue client_io m c) = cl_threads c"
  "cl_threads (attemptWrite client_io c) = cl_threads c"
  "cl_threads (attemptRead client_io c) = cl_threads c"
  "cl_threads (finishWrite client_io ok c) = cl_threads c"
  "cl_upcalls (addToWriteQueue client_io m c) = cl_upcalls c"
  "cl_upcalls (attemptWrite client_io c) = cl_upcalls c"
  "cl_upcalls (attemptRead client_io c) = cl_upcalls c"
  "cl_upcalls (finishWrite client_io ok c) = cl_upcalls c"
  by (simp_all add: addToWriteQueue_def attemptWrite_def attemptRead_def finishWrite_def Let_def
      client_io_def readFromStream_def writeToStream_def)

lemmas client_base_ops = client_stream.base_ops [simplified]

lemma processMessageAsync_eq:
  "processMessageAsync user m c =
     (case m of
        ShardUpdate a u \<Rightarrow>
          sendShardInfoUpdate (u @ a) (c\<lparr>cl_upcalls := cl_upcalls c @ [UpdateRanges u a]\<rparr>)
      | ShardForward f n \<Rightarrow>
          sendShardInfoUpdate f (c\<lparr>cl_upcalls := cl_upcalls c @ [ForwardRanges f n]\<rparr>)
      | _ \<Rightarrow> c)"
  by (cases m) (simp_all add: processMessageAsync_def Let_def)

section \<open>Invariants of a run\<close>

text \<open>A message that tells the server nothing: no shard, or only dropped ones.\<close>

fun uninformative :: "report_message \<Rightarrow> bool" where
  "uninformative (ConnectionReport r) \<longleftrightarrow> cr_shard_info r = []"
| "uninformative (ShardInfoReport ranges statuses) \<longleftrightarrow>
     statuses = replicate (length ranges) SHARD_RANGE_STATUS_DROPPED"

definition quiet :: "client \<Rightarrow> bool" where
  "quiet c \<longleftrightarrow> cl_shardRangeStatus c = [] \<and> cl_shardRangePendingStatus c = [] \<and>
     (\<forall>m \<in> set (rh_msgQueue (cl_base c)) \<union> set (written_messages c). uninformative m)"

lemma quiet_ops:
  "quiet c \<Longrightarrow> uninformative m \<Longrightarrow> quiet (addToWriteQueue client_io m c)"
  "quiet c \<Longrightarrow> quiet (attemptWrite client_io c)"
  "quiet c \<Longrightarrow> quiet (attemptRead client_io c)"
  "quiet c \<Longrightarrow> quiet (finishWrite client_io True c)"
  by (auto simp: quiet_def client_base_ops client_stream.written_ops dest: in_set_takeD)
    (cases "rh_msgQueue (cl_base c)"; simp)

lemma quiet_fields [simp]:
  "quiet (c\<lparr>cl_threads := t\<rparr>) = quiet c"
  "quiet (c\<lparr>cl_upcalls := u\<rparr>) = quiet c"
  "quiet (c\<lparr>cl_isConnected := v\<rparr>) = quiet c"
  "quiet (receive msg c) = quiet c"
  "quiet (connect c) = quiet c"
  by (simp_all add: quiet_def receive_def connect_def)

lemma quiet_reports:
  "quiet c \<Longrightarrow> quiet (sendAuthMessage c)"
  "quiet c \<Longrightarrow> quiet (sendShardInfoUpdate ranges c)"
proof -
  assume q: "quiet c"
  then have empty: "cl_shardRangeStatus c = []" "cl_shardRangePendingStatus c = []" by (simp_all add: quiet_def)
  show "quiet (sendAuthMessage c)"
    unfolding sendAuthMessage_def handlerWrite_def
    by (intro quiet_ops q) (simp add: currentShardStatus_def empty)
  show "quiet (sendShardInfoUpdate ranges c)"
    unfolding sendShardInfoUpdate_def handlerWrite_def
    by (intro quiet_ops q) (simp add: getShardStatus_def rangeStatus_def [abs_def] empty map_replicate_const)
qed

lemma quiet_process: "quiet c \<Longrightarrow> quiet (process client_handler op ok c)"
  by (cases op; cases ok)
    (simp_all add: process_client handleConnect_def setConnectedState_def quiet_ops quiet_reports)

lemma quiet_step: "client_step user r r' \<Longrightarrow> quiet (cn_client r) \<Longrightarrow> quiet (cn_client r')"
  by (induction rule: client_step.induct)
    (auto simp: quiet_process processMessageAsync_eq quiet_reports split: assignment_message.split)

lemma quiet_reach: "client_reach user c r \<Longrightarrow> quiet c \<Longrightarrow> quiet (cn_client r)"
  by (induction rule: rtranclp_induct) (auto simp: client_start_def dest: quiet_step)

text \<open>At most one read, and no more messages than reads.\<close>

definition one_read :: "client_run \<Rightarrow> bool" where
  "one_read r \<longleftrightarrow>
     callCount (cn_client r) READ = (if rh_isReading (cl_base (cn_client r)) then 1 else 0) \<and>
     cn_done r READ \<le> callCount (cn_client r) READ \<and>
     length (cn_served r) + length (cl_threads (cn_client r)) \<le> cn_done r READ"

lemma reads_reports [simp]:
  "callCount (sendAuthMessage c) READ = callCount c READ"
  "callCount (sendShardInfoUpdate ranges c) READ = callCount c READ"
  "rh_isReading (cl_base (sendAuthMessage c)) = rh_isReading (cl_base c)"
  "rh_isReading (cl_base (sendShardInfoUpdate ranges c)) = rh_isReading (cl_base c)"
  "cl_threads (sendAuthMessage c) = cl_threads c"
  "cl_threads (sendShardInfoUpdate ranges c) = cl_threads c"
  by (simp_all add: sendAuthMessage_def sendShardInfoUpdate_def handlerWrite_def client_stream.reads_ops
      client_base_ops)

lemma connect_fields [simp]:
  "callCount (connect c) op = callCount c op + (if op = CONNECT then 1 else 0)"
  "cl_base (connect c) = cl_base c" "cl_threads (connect c) = cl_threads c"
  "callCount (receive m c) op = callCount c op" "cl_threads (receive m c) = cl_threads c"
  "rh_isReading (cl_base (receive m c)) = rh_isReading (cl_base c)"
  by (auto simp: connect_def receive_def)

lemma length_removeAt: "i < length xs \<Longrightarrow> Suc (length (removeAt i xs)) = length xs"
  by (simp add: removeAt_def)

lemma one_read_step: "client_step user r r' \<Longrightarrow> one_read r \<Longrightarrow> one_read r'"
proof (induction rule: client_step.induct)
  case (completion r op ok c m)
  show ?case
    by (cases op; cases ok)
      (use completion in \<open>auto simp: one_read_def process_client handleConnect_def setConnectedState_def
        client_stream.reads_ops client_base_ops split: if_splits\<close>)
next
  case (thread i r)
  then show ?case
    using length_removeAt [OF thread.hyps]
    by (auto simp: one_read_def processMessageAsync_eq split: assignment_message.split if_splits)
qed


lemma one_read_reach:
  assumes "client_reach user c r" and "\<not> rh_isReading (cl_base c)" and "callCount c READ = 0"
    and "cl_threads c = []"
  shows "one_read r"
  using assms(1)
proof (induction rule: rtranclp_induct)
  case base
  then show ?case using assms(2-4) by (simp add: one_read_def client_start_def)
qed (rule one_read_step)

text \<open>Every step of a run is a sequence of steps of the interleaved write queue.\<close>

definition simulates :: "client_run \<Rightarrow> (report_message, client) writers \<Rightarrow> bool" where
  "simulates r w \<longleftrightarrow> wr_state w = cn_client r \<and> wr_completed w = cn_done r WRITE \<and>
     wr_failed w = cn_write_failed r \<and> wr_ready w = 0"

abbreviation client_writes :: "(report_message, client) writers \<Rightarrow> (report_message, client) writers \<Rightarrow> bool" where
  "client_writes \<equiv> write_run client_io written_messages"

lemma write_steps:
  assumes "wr_ready w = 0" and "rh_msgQueue (cl_base c) = rh_msgQueue (cl_base (wr_state w))"
    and "rh_isWriting (cl_base c) = rh_isWriting (cl_base (wr_state w))"
    and "written_messages c = written_messages (wr_state w)"
  shows "\<exists>w'. client_writes w w' \<and> wr_state w' = handlerWrite client_io m c \<and> wr_completed w' = wr_completed w \<and>
    wr_failed w' = wr_failed w \<and> wr_ready w' = 0"
proof -
  let ?u = "w\<lparr>wr_state := c\<rparr>"
  let ?v = "?u\<lparr>wr_state := addToWriteQueue client_io m c, wr_added := wr_added ?u @ [m], wr_ready := Suc 0\<rparr>"
  let ?x = "?v\<lparr>wr_state := attemptWrite client_io (wr_state ?v), wr_ready := 0\<rparr>"
  have "write_step client_io written_messages w ?u"
    using assms by (intro write_step.other) simp_all
  moreover have "write_step client_io written_messages ?u ?v"
    using write_step.add_message [of client_io written_messages ?u m] assms(1) by simp
  moreover have "write_step client_io written_messages ?v ?x"
    by (rule write_step.attempt) simp
  ultimately have "client_writes w ?x" by (meson converse_rtranclp_into_rtranclp rtranclp.rtrancl_refl)
  then show ?thesis by (intro exI [of _ ?x]) (simp add: handlerWrite_def)
qed

lemma write_other:
  assumes "rh_msgQueue (cl_base c) = rh_msgQueue (cl_base (wr_state w))"
    and "rh_isWriting (cl_base c) = rh_isWriting (cl_base (wr_state w))"
    and "written_messages c = written_messages (wr_state w)"
  shows "client_writes w (w\<lparr>wr_state := c\<rparr>)"
  using assms by (intro r_into_rtranclp write_step.other) simp_all


lemma simulates_write:
  assumes "simulates r w" and "rh_msgQueue (cl_base c) = rh_msgQueue (cl_base (cn_client r))"
    and "rh_isWriting (cl_base c) = rh_isWriting (cl_base (cn_client r))"
    and "written_messages c = written_messages (cn_client r)"
    and "cn_client r' = handlerWrite client_io m c" and "cn_done r' WRITE = cn_done r WRITE"
    and "cn_write_failed r' = cn_write_failed r"
  shows "\<exists>w'. client_writes w w' \<and> simulates r' w'"
  using write_steps [of w c m] assms by (auto simp: simulates_def)

lemma simulates_other:
  assumes "simulates r w" and "rh_msgQueue (cl_base (cn_client r')) = rh_msgQueue (cl_base (cn_client r))"
    and "rh_isWriting (cl_base (cn_client r')) = rh_isWriting (cl_base (cn_client r))"
    and "written_messages (cn_client r') = written_messages (cn_client r)"
    and "cn_done r' WRITE = cn_done r WRITE" and "cn_write_failed r' = cn_write_failed r"
  shows "\<exists>w'. client_writes w w' \<and> simulates r' w'"
  using write_other [of "cn_client r'" w] assms by (auto simp: simulates_def)

lemma simulates_completed_write:
  assumes sim: "simulates r w" and c: "cn_done r WRITE < callCount (cn_client r) WRITE"
  shows "\<exists>w'. client_writes w w' \<and>
    simulates (r\<lparr>cn_client := process client_handler WRITE ok (cn_client r),
      cn_done := (cn_done r)(WRITE := Suc (cn_done r WRITE)),
      cn_write_failed := cn_write_failed r \<or> \<not> ok\<rparr>) w'"
proof -
  have w: "wr_completed w < length (written_messages (wr_state w))"
    using assms by (simp add: simulates_def callCount_WRITE)
  show ?thesis
  proof (cases ok)
    case True
    let ?u = "w\<lparr>wr_state := finishWrite client_io True (wr_state w), wr_completed := Suc (wr_completed w),
      wr_ready := Suc (wr_ready w)\<rparr>"
    let ?v = "?u\<lparr>wr_state := attemptWrite client_io (wr_state ?u), wr_ready := wr_ready w\<rparr>"
    have "write_step client_io written_messages w ?u" using w by (rule write_step.finish_ok)
    moreover have "write_step client_io written_messages ?u ?v" by (rule write_step.attempt) simp
    ultimately have "client_writes w ?v" by (meson converse_rtranclp_into_rtranclp rtranclp.rtrancl_refl)
    moreover have "simulates (r\<lparr>cn_client := process client_handler WRITE ok (cn_client r),
      cn_done := (cn_done r)(WRITE := Suc (cn_done r WRITE)),
      cn_write_failed := cn_write_failed r \<or> \<not> ok\<rparr>) ?v"
      using sim True by (simp add: simulates_def process_client)
    ultimately show ?thesis by blast
  next
    case False
    have "client_writes w (w\<lparr>wr_completed := Suc (wr_completed w), wr_failed := True\<rparr>)"
      by (rule r_into_rtranclp, rule write_step.finish_failed, rule w)
    then show ?thesis using sim False
      by (intro exI [of _ "w\<lparr>wr_completed := Suc (wr_completed w), wr_failed := True\<rparr>"])
        (simp add: simulates_def process_client)
  qed
qed

lemma client_step_simulated:
  "client_step user r r' \<Longrightarrow> simulates r w \<Longrightarrow> \<exists>w'. client_writes w w' \<and> simulates r' w'"
proof (induction rule: client_step.induct)
  case (completion r op ok c m)
  let ?r' = "r\<lparr>cn_client := process client_handler op ok c, cn_done := (cn_done r)(op := Suc (cn_done r op)),
    cn_write_failed := cn_write_failed r \<or> (op = WRITE \<and> \<not> ok)\<rparr>"
  show ?case
  proof (cases op)
    case CONNECT
    then have c: "c = cn_client r" using completion.hyps(2) by simp
    show ?thesis
    proof (cases ok)
      case True
      let ?c = "attemptRead client_io (setConnectedState True c)"
      obtain m where "sendAuthMessage ?c = handlerWrite client_io m ?c" by (simp add: sendAuthMessage_def)
      then have "cn_client ?r' = handlerWrite client_io m ?c"
        using CONNECT True by (simp add: process_client handleConnect_def)
      then show ?thesis
        by (intro simulates_write [OF completion.prems, of ?c _ m])
          (simp_all add: c CONNECT client_base_ops client_stream.written_ops setConnectedState_def)
    next
      case False
      then show ?thesis
        by (intro simulates_other [OF completion.prems])
          (simp_all add: c CONNECT process_client handleConnect_def connect_def)
    qed
  next
    case READ
    then show ?thesis using completion.hyps(2)
      by (intro simulates_other [OF completion.prems]; cases ok)
        (auto simp: process_client client_base_ops client_stream.written_ops receive_def)
  next
    case WRITE
    then show ?thesis
      using simulates_completed_write [OF completion.prems, of ok] completion.hyps by simp
  next
    case FINISH
    then show ?thesis using completion.hyps(2)
      by (intro simulates_other [OF completion.prems]) (simp_all add: process_client setConnectedState_def)
  qed
next
  case (thread i r)
  let ?c = "(cn_client r)\<lparr>cl_threads := removeAt i (cl_threads (cn_client r))\<rparr>"
  show ?case
  proof (cases "cl_threads (cn_client r) ! i")
    case (ShardUpdate a u)
    let ?d = "?c\<lparr>cl_upcalls := cl_upcalls ?c @ [UpdateRanges u a]\<rparr>"
    show ?thesis
      by (rule simulates_write [OF thread.prems, of ?d _ "ShardInfoReport (u @ a) (getShardStatus ?d (u @ a))"])
        (simp_all add: processMessageAsync_eq ShardUpdate sendShardInfoUpdate_def)
  next
    case (ShardForward f n)
    let ?d = "?c\<lparr>cl_upcalls := cl_upcalls ?c @ [ForwardRanges f n]\<rparr>"
    show ?thesis
      by (rule simulates_write [OF thread.prems, of ?d _ "ShardInfoReport f (getShardStatus ?d f)"])
        (simp_all add: processMessageAsync_eq ShardForward sendShardInfoUpdate_def)
  qed (rule simulates_other [OF thread.prems]; simp add: processMessageAsync_eq)+
qed

lemma client_reach_simulated:
  assumes "client_reach user c r"
  shows "\<exists>w. client_writes (writers_start (connect c)) w \<and> simulates r w"
  using assms
proof (induction rule: rtranclp_induct)
  case base
  then show ?case
    by (intro exI [of _ "writers_start (connect c)"]) (simp add: simulates_def client_start_def writers_start_def)
next
  case (step r r')
  then show ?case using client_step_simulated [OF step.hyps(2)] by (meson rtranclp_trans)
qed


section \<open>The connection\<close>

lemma connects_ops [simp]:
  "callCount (addToWriteQueue client_io m c) CONNECT = callCount c CONNECT"
  "callCount (attemptWrite client_io c) CONNECT = callCount c CONNECT"
  "callCount (attemptRead client_io c) CONNECT = callCount c CONNECT"
  "callCount (finishWrite client_io ok c) CONNECT = callCount c CONNECT"
  by (simp_all add: addToWriteQueue_def attemptWrite_def attemptRead_def finishWrite_def Let_def
      client_io_def readFromStream_def writeToStream_def callCount_def)

lemma connects_reports [simp]:
  "callCount (sendAuthMessage c) CONNECT = callCount c CONNECT"
  "callCount (sendShardInfoUpdate ranges c) CONNECT = callCount c CONNECT"
  "callCount (setConnectedState b c) CONNECT = callCount c CONNECT"
  "callCount (receive m c) CONNECT = callCount c CONNECT"
  by (simp_all add: sendAuthMessage_def sendShardInfoUpdate_def handlerWrite_def setConnectedState_def receive_def)

lemma connect_called_process:
  "callCount c CONNECT \<le> callCount (process client_handler op ok c) CONNECT"
  by (cases op; cases ok) (simp_all add: process_client handleConnect_def connect_def)

lemma connect_called_step:
  "client_step user r r' \<Longrightarrow> callCount (cn_client r) CONNECT \<le> callCount (cn_client r') CONNECT"
proof (induction rule: client_step.induct)
  case (completion r op ok c m)
  then have "callCount c CONNECT = callCount (cn_client r) CONNECT" by auto
  then show ?case using connect_called_process [of c op ok] by simp
next
  case (thread i r)
  then show ?case by (simp add: processMessageAsync_eq split: assignment_message.split)
qed

text \<open>Once it has been started, a client is always destroyed through the stream.\<close>

lemma started_client_has_stream:
  assumes "client_reach user c r"
  shows "closeClient status threads (cn_client r) =
    [TryCancelCall, FinishStreamCall status, ShutdownCall] @ map JoinCall threads"
proof -
  have "0 < callCount (cn_client r) CONNECT" using assms
    by (induction rule: rtranclp_induct)
      (auto simp: client_start_def connect_def dest: connect_called_step)
  then obtain x where "x \<in> set (cl_calls (cn_client r))" "call_operation x = CONNECT"
    by (auto simp: callCount_def filter_empty_conv)
  moreover from this(2) have "x = ConnectCall" by (cases x) simp_all
  ultimately show ?thesis by (auto simp: closeClient_def has_stream_def list_ex_iff)
qed

lemma unstarted_client_has_no_stream:
  "closeClient status threads (newClient rd wr up serviceId key) = ShutdownCall # map JoinCall threads"
  by (simp add: closeClient_def has_stream_def newClient_def)

section \<open>An example run\<close>

text \<open>The client connects, the server assigns two ranges, and the client answers.\<close>

definition exampleUpdate :: assignment_message where
  "exampleUpdate = ShardUpdate [\<lparr>range_start = 0, range_end = 9\<rparr>] [\<lparr>range_start = 10, range_end = 19\<rparr>]"

definition exampleClient :: client where
  "exampleClient = newClient False False False 7 ''key''"

definition completed :: "operation \<Rightarrow> bool \<Rightarrow> assignment_message \<Rightarrow> client_run \<Rightarrow> client_run" where
  "completed op ok m r =
     (let c = (if op = READ \<and> ok then receive m (cn_client r) else cn_client r) in
      r\<lparr>cn_client := process client_handler op ok c, cn_done := (cn_done r)(op := Suc (cn_done r op)),
        cn_write_failed := cn_write_failed r \<or> (op = WRITE \<and> \<not> ok)\<rparr>)"

definition threadRun :: "user_functions \<Rightarrow> nat \<Rightarrow> client_run \<Rightarrow> client_run" where
  "threadRun user i r =
     r\<lparr>cn_client := processMessageAsync user (cl_threads (cn_client r) ! i)
         ((cn_client r)\<lparr>cl_threads := removeAt i (cl_threads (cn_client r))\<rparr>),
       cn_served := cn_served r @ [cl_threads (cn_client r) ! i]\<rparr>"

lemma completed_step: "cn_done r op < callCount (cn_client r) op \<Longrightarrow> client_step user r (completed op ok m r)"
  using client_step.completion [of r op ok "if op = READ \<and> ok then receive m (cn_client r) else cn_client r" m user]
  by (auto simp: completed_def Let_def)

lemma threadRun_step: "i < length (cl_threads (cn_client r)) \<Longrightarrow> client_step user r (threadRun user i r)"
  unfolding threadRun_def by (rule client_step.thread)

definition exampleRun :: client_run where
  "exampleRun = completed WRITE True AssignmentNotSet (threadRun defaultFunctions 0
     (completed READ True exampleUpdate (completed CONNECT True AssignmentNotSet (client_start exampleClient))))"

lemma exampleRun_reach: "client_reach defaultFunctions exampleClient exampleRun"
proof -
  let ?a = "client_start exampleClient"
  let ?b = "completed CONNECT True AssignmentNotSet ?a"
  let ?c = "completed READ True exampleUpdate ?b"
  let ?d = "threadRun defaultFunctions 0 ?c"
  have "client_step defaultFunctions ?a ?b" by (rule completed_step) code_simp
  then have "client_reach defaultFunctions exampleClient ?b" by (rule r_into_rtranclp)
  moreover have "client_step defaultFunctions ?b ?c" by (rule completed_step) code_simp
  ultimately have "client_reach defaultFunctions exampleClient ?c" by (rule rtranclp.rtrancl_into_rtrancl)
  moreover have "client_step defaultFunctions ?c ?d" by (rule threadRun_step) code_simp
  ultimately have "client_reach defaultFunctions exampleClient ?d" by (rule rtranclp.rtrancl_into_rtrancl)
  moreover have "client_step defaultFunctions ?d exampleRun"
    unfolding exampleRun_def by (rule completed_step) code_simp
  ultimately show ?thesis by (rule rtranclp.rtrancl_into_rtrancl)
qed

section \<open>Properties\<close>

text \<open>C19: Since the status maps are passed by value, a client never records a status: in every
  state of every run both maps are empty, and every message it queues or writes reports no
  shard at all or only dropped ones, whatever the server assigned and the user accepted.\<close>

theorem client_never_records_status:
  assumes "client_reach user (newClient rd wr up serviceId key) r"
  shows "cl_shardRangeStatus (cn_client r) = [] \<and> cl_shardRangePendingStatus (cn_client r) = [] \<and>
    list_all uninformative (rh_msgQueue (cl_base (cn_client r)) @ written_messages (cn_client r))"
proof -
  have "quiet (newClient rd wr up serviceId key)" by (simp add: quiet_def newClient_def written_messages_def)
  from quiet_reach [OF assms this] show ?thesis by (simp add: quiet_def list_all_iff ball_Un)
qed

theorem client_never_records_status_witness:
  "cl_shardRangeStatus (cn_client exampleRun) = [] \<and>
   list_all uninformative (rh_msgQueue (cl_base (cn_client exampleRun)) @ written_messages (cn_client exampleRun)) \<and>
   length (written_messages (cn_client exampleRun)) = 2"
proof -
  have "length (written_messages (cn_client exampleRun)) = 2" by code_simp
  then show ?thesis
    using client_never_records_status [OF exampleRun_reach [unfolded exampleClient_def]] by simp
qed

text \<open>The client reads at most one message in its life: \<open>isReading_\<close> is set by the first read
  and never cleared, so at most one read is ever issued, and at most one message is
  handled.\<close>

theorem client_reads_once:
  assumes "client_reach user (newClient False wr up serviceId key) r"
  shows "callCount (cn_client r) READ \<le> 1 \<and> length (cn_served r) \<le> 1"
proof -
  have "one_read r"
    by (rule one_read_reach [OF assms]) (simp_all add: newClient_def callCount_def)
  then show ?thesis unfolding one_read_def by (auto split: if_splits)
qed

theorem client_reads_once_witness:
  "callCount (cn_client exampleRun) READ = 1 \<and> cn_served exampleRun = [exampleUpdate]"
proof -
  have "callCount (cn_client exampleRun) READ \<le> 1 \<and> length (cn_served exampleRun) \<le> 1"
    by (rule client_reads_once [OF exampleRun_reach [unfolded exampleClient_def]])
  moreover have "callCount (cn_client exampleRun) READ \<noteq> 0" "cn_served exampleRun = [exampleUpdate]"
    by (code_simp, code_simp)
  ultimately show ?thesis by simp
qed

text \<open>C20: The write discipline: with \<open>isWriting_\<close> clear at the start, a client never has two writes
  under way, and when none is under way and none has failed no message is left in the
  queue.\<close>

theorem client_write_discipline:
  assumes "client_reach user (newClient rd False up serviceId key) r"
  shows "callCount (cn_client r) WRITE \<le> Suc (cn_done r WRITE) \<and>
    (cn_done r WRITE = callCount (cn_client r) WRITE \<and> \<not> cn_write_failed r \<longrightarrow>
       rh_msgQueue (cl_base (cn_client r)) = [])"
proof -
  let ?c = "connect (newClient rd False up serviceId key)"
  obtain w where w: "client_writes (writers_start ?c) w" "simulates r w"
    using client_reach_simulated [OF assms] by blast
  have start: "client_stream.write_inv (writers_start ?c)"
    by (rule client_stream.write_inv_start) (simp_all add: newClient_def connect_def written_messages_def)
  have inv: "client_stream.write_inv w"
    by (rule client_stream.write_inv_run [OF w(1) start])
  show ?thesis
    using w(2) client_stream.write_discipline(2) [OF inv] client_stream.write_idle [OF inv]
    by (simp add: simulates_def callCount_WRITE)
qed

theorem client_write_discipline_witness:
  "callCount (cn_client exampleRun) WRITE = 2 \<and>
   callCount (cn_client exampleRun) WRITE \<le> Suc (cn_done exampleRun WRITE)"
proof -
  have "callCount (cn_client exampleRun) WRITE = 2" by code_simp
  then show ?thesis
    using client_write_discipline [OF exampleRun_reach [unfolded exampleClient_def]] by simp
qed

text \<open>C21: Over a lock-level run of any number of writing threads, the messages of a client go out
  in the order in which they were queued, none twice and none skipped.\<close>

theorem client_writes_in_order:
  assumes "client_writes (writers_start (newClient rd False up serviceId key)) w"
  shows "\<exists>rest. wr_added w = written_messages (wr_state w) @ rest"
proof -
  have start: "client_stream.write_inv (writers_start (newClient rd False up serviceId key))"
    by (rule client_stream.write_inv_start) (simp_all add: newClient_def written_messages_def)
  show ?thesis
    by (rule client_stream.write_discipline(1) [OF client_stream.write_inv_run [OF assms start]])
qed

theorem client_writes_in_order_witness:
  "\<exists>w. client_writes (writers_start exampleClient) w \<and> length (wr_added w) = 2 \<and>
     (\<exists>rest. wr_added w = written_messages (wr_state w) @ rest)"
proof -
  let ?m = "ShardInfoReport [] []" and ?w = "writers_start exampleClient :: (report_message, client) writers"
  obtain v where v: "client_writes ?w v" "wr_added v = [?m, ?m]"
  proof -
    let ?u = "?w\<lparr>wr_state := addToWriteQueue client_io ?m (wr_state ?w), wr_added := wr_added ?w @ [?m],
      wr_ready := Suc (wr_ready ?w)\<rparr>"
    let ?v = "?u\<lparr>wr_state := addToWriteQueue client_io ?m (wr_state ?u), wr_added := wr_added ?u @ [?m],
      wr_ready := Suc (wr_ready ?u)\<rparr>"
    let ?x = "?v\<lparr>wr_state := attemptWrite client_io (wr_state ?v), wr_ready := Suc 0\<rparr>"
    have "client_writes ?w ?u" by (rule r_into_rtranclp, rule write_step.add_message)
    then have "client_writes ?w ?v" by (rule rtranclp.rtrancl_into_rtrancl, intro write_step.add_message)
    then have "client_writes ?w ?x"
      by (rule rtranclp.rtrancl_into_rtrancl, intro write_step.attempt) (simp add: writers_start_def)
    then show ?thesis by (rule that) (simp add: writers_start_def)
  qed
  from v(1) have "\<exists>rest. wr_added v = written_messages (wr_state v) @ rest"
    unfolding exampleClient_def by (rule client_writes_in_order)
  moreover have "length (wr_added v) = 2" using v(2) by simp
  ultimately show ?thesis using v(1) by blast
qed

text \<open>Handling a shard update hands the unassigned shards to the user's \<open>updateRanges\<close> as the
  assigned ones and the assigned shards as the unassigned ones, and whatever it answers, the
  report lists all of them with the statuses known before.\<close>

theorem client_swaps_assignment:
  "processMessageAsync user (ShardUpdate assigned unassigned) c =
     handlerWrite client_io
       (ShardInfoReport (unassigned @ assigned) (getShardStatus c (unassigned @ assigned)))
       (c\<lparr>cl_upcalls := cl_upcalls c @ [UpdateRanges unassigned assigned]\<rparr>)"
proof -
  have "rangeStatus (c\<lparr>cl_upcalls := u\<rparr>) = rangeStatus c" for u
    by (simp add: rangeStatus_def fun_eq_iff split: option.split)
  then show ?thesis by (simp add: processMessageAsync_eq sendShardInfoUpdate_def getShardStatus_def)
qed

end
