(* ===== verification/Discovery.thy ===== *)
theory Discovery
  imports StreamHandler Types
begin

text \<open>
  The discovery server: \<open>svc_discovery/RequestHandler\<close>, one handler per stream, and
  \<open>svc_discovery/HandlerManager\<close> over \<open>server_utils/HandlerManager.h\<close>, the registry of the
  handlers and of the bins they serve. Handlers live at addresses that are never reused; the
  registry holds pointers. The flags no constructor initialises are a parameter. The second
  half runs the server against a stream that completes its outstanding calls in any order.
\<close>

section \<open>State\<close>

datatype handler_status = ACTIVE | STOPPED

datatype server_call = RegisterStreamCall | ServerReadCall | ServerWriteCall server_message | FinishCall

text \<open>\<open>hd_completionQueue\<close> is the queue on which the handler was registered, \<open>hd_calls\<close> its calls on the
  stream.\<close>

record handler =
  hd_base :: "(server_message, client_message) request_handler"
  hd_status :: handler_status
  hd_authenticated :: bool
  hd_shardRangeInfo :: "(u64 \<times> u64, shard_info) hmap"
  hd_completionQueue :: nat
  hd_calls :: "server_call list"

record initial_flags =
  fl_isReading :: bool
  fl_isWriting :: bool
  fl_status :: handler_status
  fl_authenticated :: bool

record server =
  sv_heap :: "nat \<Rightarrow> handler"
  sv_fresh :: nat
  sv_completionQueue :: nat
  sv_requestHandlers :: "(nat, nat) hmap"
  sv_serviceConnections :: "(ServiceId, (BinId, nat) hmap) hmap"

abbreviation modifyHandler :: "nat \<Rightarrow> (handler \<Rightarrow> handler) \<Rightarrow> server \<Rightarrow> server" where
  "modifyHandler t f s \<equiv> s\<lparr>sv_heap := (sv_heap s)(t := f (sv_heap s t))\<rparr>"

definition newRequestHandler :: "initial_flags \<Rightarrow> nat \<Rightarrow> handler" where
  "newRequestHandler fl completionQueue =
     \<lparr>hd_base = \<lparr>rh_message = ClientMessageNotSet, rh_isReading = fl_isReading fl, rh_msgQueue = [],
        rh_isWriting = fl_isWriting fl\<rparr>,
      hd_status = fl_status fl, hd_authenticated = fl_authenticated fl, hd_shardRangeInfo = [],
      hd_completionQueue = completionQueue, hd_calls = [RegisterStreamCall]\<rparr>"

section \<open>The handler manager\<close>

definition addHandler :: "initial_flags \<Rightarrow> server \<Rightarrow> server" where
  "addHandler fl s =
     (let tag = sv_fresh s in
      s\<lparr>sv_heap := (sv_heap s)(tag := newRequestHandler fl (sv_completionQueue s)),
        sv_fresh := Suc tag,
        sv_requestHandlers := hm_set tag tag (sv_requestHandlers s)\<rparr>)"

definition registerService :: "initial_flags \<Rightarrow> nat \<Rightarrow> server \<Rightarrow> server" where
  "registerService fl completionQueue s = addHandler fl (s\<lparr>sv_completionQueue := completionQueue\<rparr>)"

definition getRequestHandler :: "nat \<Rightarrow> server \<Rightarrow> nat option" where
  "getRequestHandler tag s = hm_find (sv_requestHandlers s) tag"

definition removeRequestHandler :: "nat \<Rightarrow> server \<Rightarrow> server" where
  "removeRequestHandler tag s = s\<lparr>sv_requestHandlers := hm_erase tag (sv_requestHandlers s)\<rparr>"

definition registerBin :: "nat \<Rightarrow> ServiceId \<Rightarrow> BinId \<Rightarrow> server \<Rightarrow> server" where
  "registerBin tag serviceId binName s =
     (case getRequestHandler tag s of
        None \<Rightarrow> s
      | Some requestHandler \<Rightarrow>
          s\<lparr>sv_serviceConnections :=
              hm_modify [] serviceId (hm_emplace binName requestHandler) (sv_serviceConnections s)\<rparr>)"

definition removeBin :: "ServiceId \<Rightarrow> BinId \<Rightarrow> server \<Rightarrow> server" where
  "removeBin serviceId binName s =
     (let connections = hm_modify [] serviceId (hm_erase binName) (sv_serviceConnections s) in
      s\<lparr>sv_serviceConnections :=
          if hm_get [] connections serviceId = [] then hm_erase serviceId connections else connections\<rparr>)"

section \<open>The request handler\<close>

definition server_io :: "nat \<Rightarrow> (server_message, client_message, server) stream_io" where
  "server_io t =
     \<lparr>base = (\<lambda>s. hd_base (sv_heap s t)),
      set_base = (\<lambda>b. modifyHandler t (\<lambda>h. h\<lparr>hd_base := b\<rparr>)),
      v_readFromStream = modifyHandler t (\<lambda>h. h\<lparr>hd_calls := hd_calls h @ [ServerReadCall]\<rparr>),
      v_writeToStream = (\<lambda>m. modifyHandler t (\<lambda>h. h\<lparr>hd_calls := hd_calls h @ [ServerWriteCall m]\<rparr>))\<rparr>"

definition hasStopped :: "nat \<Rightarrow> server \<Rightarrow> bool" where
  "hasStopped t s \<longleftrightarrow> hd_status (sv_heap s t) = STOPPED"

definition stop :: "nat \<Rightarrow> server \<Rightarrow> server" where
  "stop t s =
     (if hasStopped t s then s
      else modifyHandler t (\<lambda>h.
        (let h1 = h\<lparr>hd_status := STOPPED\<rparr> in
         if hd_authenticated h1 then h1\<lparr>hd_calls := hd_calls h1 @ [FinishCall]\<rparr> else h1)) s)"

definition handleConnect :: "initial_flags \<Rightarrow> nat \<Rightarrow> bool \<Rightarrow> server \<Rightarrow> server" where
  "handleConnect fl t ok s =
     (if \<not> ok then stop t s else v_readFromStream (server_io t) (addHandler fl s))"

fun has_connection_request :: "client_message \<Rightarrow> bool" where
  "has_connection_request (ConnectionRequest r) = True"
| "has_connection_request _ = False"

text \<open>A field of a message that is not set reads as its default.\<close>

fun request_service_id :: "client_message \<Rightarrow> ServiceId" where
  "request_service_id (ConnectionRequest r) = cr_service_id r"
| "request_service_id _ = 0"

fun request_bin_id :: "client_message \<Rightarrow> BinId" where
  "request_bin_id (ConnectionRequest r) = cr_bin_id r"
| "request_bin_id _ = 0"

definition authenticate :: "nat \<Rightarrow> client_message \<Rightarrow> server \<Rightarrow> server" where
  "authenticate t message s =
     (if hd_authenticated (sv_heap s t) then s
      else
        (let s1 = (if has_connection_request message then s else stop t s) in
         registerBin t (request_service_id message) (request_bin_id message) s1))"

definition storeShardInfo :: "shard_info \<Rightarrow> (u64 \<times> u64, shard_info) hmap \<Rightarrow> (u64 \<times> u64, shard_info) hmap" where
  "storeShardInfo info =
     hm_set (range_start (sh_range (si_shard info)), range_end (sh_range (si_shard info))) info"

definition updateShardInfo :: "nat \<Rightarrow> client_message \<Rightarrow> server \<Rightarrow> server" where
  "updateShardInfo t message s =
     (case message of
        ShardInfoUpdate shardInfos \<Rightarrow>
          modifyHandler t (\<lambda>h. h\<lparr>hd_shardRangeInfo := fold storeShardInfo shardInfos (hd_shardRangeInfo h)\<rparr>) s
      | _ \<Rightarrow> s)"

definition handleRead :: "nat \<Rightarrow> bool \<Rightarrow> bool \<Rightarrow> server \<Rightarrow> bool \<times> server" where
  "handleRead t ok shouldAttemptNext s =
     (if \<not> ok then (shouldAttemptNext, stop t s)
      else
        (let message = rh_message (hd_base (sv_heap s t)) in
         (True, updateShardInfo t message (authenticate t message s))))"

definition handleWrite :: "nat \<Rightarrow> bool \<Rightarrow> bool \<Rightarrow> server \<Rightarrow> bool \<times> server" where
  "handleWrite t ok shouldAttemptNext s =
     (if \<not> ok \<or> hasStopped t s then (shouldAttemptNext, s) else (True, s))"

definition handleFinish :: "nat \<Rightarrow> bool \<Rightarrow> server \<Rightarrow> server" where
  "handleFinish t ok s = removeRequestHandler t s"

definition server_handler :: "initial_flags \<Rightarrow> nat \<Rightarrow> (server_message, client_message, server) stream_handler" where
  "server_handler fl t = stream_io.extend (server_io t)
     \<lparr>v_handleConnect = handleConnect fl t, v_handleRead = handleRead t, v_handleWrite = handleWrite t,
      v_handleFinish = handleFinish t\<rparr>"

text \<open>The tags of a handler are its address with each operation, in the order of the enumeration.\<close>

definition handlerTags :: "nat \<Rightarrow> (nat \<times> operation) list" where
  "handlerTags t = [(t, CONNECT), (t, READ), (t, WRITE), (t, FINISH)]"

fun operation_index :: "operation \<Rightarrow> nat" where
  "operation_index CONNECT = 0"
| "operation_index READ = 1"
| "operation_index WRITE = 2"
| "operation_index FINISH = 3"

definition getOpTag :: "nat \<Rightarrow> operation \<Rightarrow> nat \<times> operation" where
  "getOpTag t op = handlerTags t ! operation_index op"

definition manager_process :: "initial_flags \<Rightarrow> nat \<times> operation \<Rightarrow> bool \<Rightarrow> server \<Rightarrow> server" where
  "manager_process fl handlerTag ok s =
     (case getRequestHandler (fst handlerTag) s of
        None \<Rightarrow> s
      | Some requestHandler \<Rightarrow> process (server_handler fl requestHandler) (snd handlerTag) ok s)"

section \<open>Runs\<close>

text \<open>
  An I/O thread starts by registering the service with its completion queue; then the queues
  deliver the outcome of calls that have not completed, in any order. The ghosts count the
  completions, list the registered queues and count the connections that failed.
\<close>

fun server_operation :: "server_call \<Rightarrow> operation" where
  "server_operation RegisterStreamCall = CONNECT"
| "server_operation ServerReadCall = READ"
| "server_operation (ServerWriteCall m) = WRITE"
| "server_operation FinishCall = FINISH"

definition handlerCalls :: "handler \<Rightarrow> operation \<Rightarrow> nat" where
  "handlerCalls h op = length (filter (\<lambda>x. server_operation x = op) (hd_calls h))"

definition deliver :: "nat \<Rightarrow> client_message \<Rightarrow> server \<Rightarrow> server" where
  "deliver t m = modifyHandler t (\<lambda>h. h\<lparr>hd_base := (hd_base h)\<lparr>rh_message := m\<rparr>\<rparr>)"

record server_run =
  rn_server :: server
  rn_done :: "nat \<Rightarrow> operation \<Rightarrow> nat"
  rn_queues :: "nat list"
  rn_failed :: nat

definition registerThread :: "initial_flags \<Rightarrow> nat \<Rightarrow> server_run \<Rightarrow> server_run" where
  "registerThread fl q r =
     r\<lparr>rn_server := registerService fl q (rn_server r), rn_queues := rn_queues r @ [q]\<rparr>"

definition completeCall ::
    "initial_flags \<Rightarrow> nat \<Rightarrow> operation \<Rightarrow> bool \<Rightarrow> client_message \<Rightarrow> server_run \<Rightarrow> server_run" where
  "completeCall fl t op ok m r =
     (let s = (if op = READ \<and> ok then deliver t m (rn_server r) else rn_server r) in
      r\<lparr>rn_server := manager_process fl (getOpTag t op) ok s,
        rn_done := (rn_done r)(t := (rn_done r t)(op := Suc (rn_done r t op))),
        rn_failed := rn_failed r + (if op = CONNECT \<and> \<not> ok then 1 else 0)\<rparr>)"

definition outstanding :: "nat \<Rightarrow> operation \<Rightarrow> server_run \<Rightarrow> bool" where
  "outstanding t op r \<longleftrightarrow>
     t < sv_fresh (rn_server r) \<and> rn_done r t op < handlerCalls (sv_heap (rn_server r) t) op"

inductive completion_step :: "initial_flags \<Rightarrow> server_run \<Rightarrow> server_run \<Rightarrow> bool" for fl where
  completion: "outstanding t op r \<Longrightarrow> completion_step fl r (completeCall fl t op ok m r)"

inductive server_step :: "initial_flags \<Rightarrow> server_run \<Rightarrow> server_run \<Rightarrow> bool" for fl where
  thread: "server_step fl r (registerThread fl q r)"
| completion: "completion_step fl r r' \<Longrightarrow> server_step fl r r'"

inductive_cases server_stepE: "server_step fl r r'"

definition newServer :: "(nat \<Rightarrow> handler) \<Rightarrow> nat \<Rightarrow> server" where
  "newServer heap q =
     \<lparr>sv_heap = heap, sv_fresh = 0, sv_completionQueue = q, sv_requestHandlers = [], sv_serviceConnections = []\<rparr>"

definition server_start :: "(nat \<Rightarrow> handler) \<Rightarrow> nat \<Rightarrow> server_run" where
  "server_start heap q =
     \<lparr>rn_server = newServer heap q, rn_done = (\<lambda>_ _. 0), rn_queues = [], rn_failed = 0\<rparr>"

abbreviation server_reach :: "initial_flags \<Rightarrow> (nat \<Rightarrow> handler) \<Rightarrow> nat \<Rightarrow> server_run \<Rightarrow> bool" where
  "server_reach fl heap q \<equiv> (server_step fl)\<^sup>*\<^sup>* (server_start heap q)"


section \<open>The registry of bins\<close>

definition bin_handler :: "server \<Rightarrow> ServiceId \<Rightarrow> BinId \<Rightarrow> nat option" where
  "bin_handler s serviceId binId = hm2_find (sv_serviceConnections s) serviceId binId"

lemma bin_handler_register:
  "bin_handler (registerBin t sid bin s) x y =
     (case hm_find (sv_requestHandlers s) t of
        None \<Rightarrow> bin_handler s x y
      | Some h \<Rightarrow>
          if x = sid \<and> y = bin \<and> bin_handler s sid bin = None then Some h else bin_handler s x y)"
  by (auto simp: bin_handler_def registerBin_def getRequestHandler_def hmap_simps split: option.split)

lemma erase_empty: "hm_erase k m = [] \<Longrightarrow> y \<noteq> k \<Longrightarrow> hm_find m y = None"
  using hm_find_erase [of k m] by (metis fun_upd_other map_of.simps(1))

lemma bin_handler_remove:
  "bin_handler (removeBin sid bin s) x y = (if x = sid \<and> y = bin then None else bin_handler s x y)"
  by (auto simp: bin_handler_def removeBin_def Let_def hm2_find_def hmap_simps hm_modify_def hm_get_def
      split: option.split dest: erase_empty)

text \<open>No service without a bin stays in the map.\<close>

definition no_empty_service :: "server \<Rightarrow> bool" where
  "no_empty_service s \<longleftrightarrow> (\<forall>sid. hm_find (sv_serviceConnections s) sid \<noteq> Some [])"

lemma no_empty_register: "no_empty_service s \<Longrightarrow> no_empty_service (registerBin t sid bin s)"
  by (auto simp: no_empty_service_def registerBin_def hmap_simps hm_emplace_def hm2_find_def hm_get_def split: option.splits)

lemma no_empty_remove: "no_empty_service s \<Longrightarrow> no_empty_service (removeBin sid bin s)"
  by (auto simp: no_empty_service_def removeBin_def Let_def hmap_simps hm_get_def hm_modify_def)

section \<open>The handler's operations\<close>

lemma getOpTag_eq [simp]: "getOpTag t op = (t, op)"
  by (cases op) (simp_all add: getOpTag_def handlerTags_def eval_nat_numeral)

definition server_written :: "nat \<Rightarrow> server \<Rightarrow> server_message list" where
  "server_written t s =
     concat (map (\<lambda>x. case x of ServerWriteCall m \<Rightarrow> [m] | _ \<Rightarrow> []) (hd_calls (sv_heap s t)))"

interpretation server_stream: stream_object "server_io t" "server_written t" "\<lambda>s. handlerCalls (sv_heap s t) READ" for t
  by unfold_locales (simp_all add: server_io_def server_written_def handlerCalls_def)

lemma server_handler_simps [simp]:
  "v_handleConnect (server_handler fl t) = handleConnect fl t"
  "v_handleRead (server_handler fl t) = handleRead t"
  "v_handleWrite (server_handler fl t) = handleWrite t"
  "v_handleFinish (server_handler fl t) = handleFinish t"
  "attemptRead (server_handler fl t) = attemptRead (server_io t)"
  "attemptWrite (server_handler fl t) = attemptWrite (server_io t)"
  "finishWrite (server_handler fl t) = finishWrite (server_io t)"
  by (simp_all add: server_handler_def) (simp_all add: stream_io.extend_def)

lemma process_server:
  "process (server_handler fl t) CONNECT ok s = handleConnect fl t ok s"
  "process (server_handler fl t) READ False s = stop t s"
  "process (server_handler fl t) READ True s =
     (let m = rh_message (hd_base (sv_heap s t)) in
      attemptRead (server_io t) (updateShardInfo t m (authenticate t m s)))"
  "process (server_handler fl t) FINISH ok s = removeRequestHandler t s"
  by (simp_all add: process_def handleRead_def handleFinish_def Let_def)

text \<open>What the operations of a handler leave alone.\<close>

lemma server_frame [simp]:
  "sv_fresh (stop t s) = sv_fresh s" "sv_requestHandlers (stop t s) = sv_requestHandlers s"
  "sv_completionQueue (stop t s) = sv_completionQueue s" "sv_serviceConnections (stop t s) = sv_serviceConnections s"
  "sv_heap (registerBin u sid bin s) = sv_heap s" "sv_fresh (registerBin u sid bin s) = sv_fresh s"
  "sv_completionQueue (registerBin u sid bin s) = sv_completionQueue s"
  "sv_requestHandlers (registerBin u sid bin s) = sv_requestHandlers s"
  "sv_fresh (updateShardInfo t m s) = sv_fresh s" "sv_requestHandlers (updateShardInfo t m s) = sv_requestHandlers s"
  "sv_completionQueue (updateShardInfo t m s) = sv_completionQueue s"
  "sv_serviceConnections (updateShardInfo t m s) = sv_serviceConnections s"
  "sv_fresh (attemptRead (server_io t) s) = sv_fresh s"
  "sv_requestHandlers (attemptRead (server_io t) s) = sv_requestHandlers s"
  "sv_completionQueue (attemptRead (server_io t) s) = sv_completionQueue s"
  "sv_serviceConnections (attemptRead (server_io t) s) = sv_serviceConnections s"
  by (auto simp: stop_def Let_def registerBin_def updateShardInfo_def attemptRead_def server_io_def
      split: option.split client_message.split)

lemma authenticate_frame [simp]:
  "sv_fresh (authenticate t m s) = sv_fresh s" "sv_requestHandlers (authenticate t m s) = sv_requestHandlers s"
  "sv_completionQueue (authenticate t m s) = sv_completionQueue s"
  by (simp_all add: authenticate_def Let_def)

lemma other_handlers [simp]:
  "u \<noteq> t \<Longrightarrow> sv_heap (stop t s) u = sv_heap s u"
  "u \<noteq> t \<Longrightarrow> sv_heap (updateShardInfo t m s) u = sv_heap s u"
  "u \<noteq> t \<Longrightarrow> sv_heap (authenticate t m s) u = sv_heap s u"
  "u \<noteq> t \<Longrightarrow> sv_heap (attemptRead (server_io t) s) u = sv_heap s u"
  by (auto simp: stop_def Let_def authenticate_def updateShardInfo_def attemptRead_def server_io_def
      split: client_message.split)

lemma own_handler:
  "hd_base (sv_heap (stop t s) t) = hd_base (sv_heap s t)"
  "hd_authenticated (sv_heap (stop t s) t) = hd_authenticated (sv_heap s t)"
  "hd_completionQueue (sv_heap (stop t s) t) = hd_completionQueue (sv_heap s t)"
  "\<not> hd_authenticated (sv_heap s t) \<Longrightarrow> hd_calls (sv_heap (stop t s) t) = hd_calls (sv_heap s t)"
  "hd_base (sv_heap (updateShardInfo t m s) t) = hd_base (sv_heap s t)"
  "hd_authenticated (sv_heap (updateShardInfo t m s) t) = hd_authenticated (sv_heap s t)"
  "hd_completionQueue (sv_heap (updateShardInfo t m s) t) = hd_completionQueue (sv_heap s t)"
  "hd_calls (sv_heap (updateShardInfo t m s) t) = hd_calls (sv_heap s t)"
  "hd_base (sv_heap (authenticate t m s) t) = hd_base (sv_heap s t)"
  "hd_authenticated (sv_heap (authenticate t m s) t) = hd_authenticated (sv_heap s t)"
  "hd_completionQueue (sv_heap (authenticate t m s) t) = hd_completionQueue (sv_heap s t)"
  "hd_calls (sv_heap (authenticate t m s) t) = hd_calls (sv_heap s t)"
  by (auto simp: stop_def Let_def authenticate_def updateShardInfo_def split: client_message.split)

lemma own_attemptRead:
  "sv_heap (attemptRead (server_io t) s) t =
     (let h = sv_heap s t in
      if rh_isReading (hd_base h) then h
      else h\<lparr>hd_base := (hd_base h)\<lparr>rh_isReading := True\<rparr>, hd_calls := hd_calls h @ [ServerReadCall]\<rparr>)"
  by (simp add: attemptRead_def server_io_def Let_def)

section \<open>Invariants\<close>

text \<open>The flags as a careful compiler would leave them; the results that need them say so.\<close>

definition clear_flags :: "initial_flags \<Rightarrow> bool" where
  "clear_flags fl \<longleftrightarrow> \<not> fl_isReading fl \<and> \<not> fl_authenticated fl"

text \<open>A handler's life: it asks for a connection, reads once when it has one, and once more when
  its first message has come.\<close>

definition handler_ok :: "handler \<Rightarrow> (operation \<Rightarrow> nat) \<Rightarrow> bool" where
  "handler_ok h d \<longleftrightarrow> \<not> hd_authenticated h \<and>
     (\<exists>k \<le> 2. hd_calls h = RegisterStreamCall # replicate k ServerReadCall \<and>
        (rh_isReading (hd_base h) \<longleftrightarrow> k = 2) \<and> (k = 0 \<or> d CONNECT = 1) \<and> d READ \<le> k \<and> d CONNECT \<le> 1)"

lemma handlerCalls_reads:
  "hd_calls h = RegisterStreamCall # replicate k ServerReadCall \<Longrightarrow>
   handlerCalls h op = (case op of CONNECT \<Rightarrow> 1 | READ \<Rightarrow> k | _ \<Rightarrow> 0)"
  by (cases op) (simp_all add: handlerCalls_def)

definition server_ok :: "server_run \<Rightarrow> bool" where
  "server_ok r \<longleftrightarrow>
     (\<forall>t < sv_fresh (rn_server r). handler_ok (sv_heap (rn_server r) t) (rn_done r t)) \<and>
     (\<forall>t. hm_find (sv_requestHandlers (rn_server r)) t = (if t < sv_fresh (rn_server r) then Some t else None)) \<and>
     (\<forall>t \<ge> sv_fresh (rn_server r). rn_done r t = (\<lambda>_. 0)) \<and>
     (\<forall>sid bin t. bin_handler (rn_server r) sid bin = Some t \<longrightarrow>
        t < sv_fresh (rn_server r) \<and> 0 < rn_done r t READ)"

lemma handler_ok_new: "clear_flags fl \<Longrightarrow> handler_ok (newRequestHandler fl q) (\<lambda>_. 0)"
  by (simp add: handler_ok_def newRequestHandler_def clear_flags_def)

lemma server_ok_start: "server_ok (server_start heap q)"
  by (simp add: server_ok_def server_start_def newServer_def bin_handler_def)


lemma server_okD:
  assumes "server_ok r"
  shows "t < sv_fresh (rn_server r) \<Longrightarrow> handler_ok (sv_heap (rn_server r) t) (rn_done r t)"
    and "hm_find (sv_requestHandlers (rn_server r)) t = (if t < sv_fresh (rn_server r) then Some t else None)"
    and "sv_fresh (rn_server r) \<le> t \<Longrightarrow> rn_done r t = (\<lambda>_. 0)"
    and "bin_handler (rn_server r) sid bin = Some t \<Longrightarrow> t < sv_fresh (rn_server r) \<and> 0 < rn_done r t READ"
  using assms unfolding server_ok_def by blast+

lemma server_ok_own:
  assumes ok: "server_ok r" and t: "t < sv_fresh (rn_server r)"
    and same: "sv_fresh (rn_server r') = sv_fresh (rn_server r)"
      "sv_requestHandlers (rn_server r') = sv_requestHandlers (rn_server r)"
    and others: "\<forall>u. u \<noteq> t \<longrightarrow> sv_heap (rn_server r') u = sv_heap (rn_server r) u \<and> rn_done r' u = rn_done r u"
    and own: "handler_ok (sv_heap (rn_server r') t) (rn_done r' t)"
    and grow: "rn_done r t READ \<le> rn_done r' t READ"
    and bins: "\<forall>sid bin u. bin_handler (rn_server r') sid bin = Some u \<longrightarrow>
      bin_handler (rn_server r) sid bin = Some u \<or> u = t \<and> 0 < rn_done r' t READ"
  shows "server_ok r'"
  unfolding server_ok_def same
proof (intro conjI allI impI)
  fix u assume u: "u < sv_fresh (rn_server r)"
  show "handler_ok (sv_heap (rn_server r') u) (rn_done r' u)"
    using server_okD(1) [OF ok u] others own by (cases "u = t") auto
next
  fix u show "hm_find (sv_requestHandlers (rn_server r)) u = (if u < sv_fresh (rn_server r) then Some u else None)"
    by (rule server_okD(2) [OF ok])
next
  fix u assume u: "sv_fresh (rn_server r) \<le> u"
  with t have "u \<noteq> t" by simp
  then show "rn_done r' u = (\<lambda>_. 0)" using others server_okD(3) [OF ok u] by simp
next
  fix sid bin u assume b: "bin_handler (rn_server r') sid bin = Some u"
  have "bin_handler (rn_server r) sid bin = Some u \<or> u = t \<and> 0 < rn_done r' t READ" using bins b by blast
  then have "u < sv_fresh (rn_server r) \<and> 0 < rn_done r' u READ"
    using server_okD(4) [OF ok, of sid bin u] t others grow by (cases "u = t") auto
  then show "u < sv_fresh (rn_server r)" and "0 < rn_done r' u READ" by auto
qed

lemma server_ok_add:
  assumes fl: "clear_flags fl" and ok: "server_ok r"
    and r': "rn_server r' = addHandler fl s" "rn_done r' = rn_done r"
    and s: "s = (rn_server r)\<lparr>sv_completionQueue := q\<rparr>"
  shows "server_ok r'"
proof -
  let ?n = "sv_fresh (rn_server r)"
  have fields: "sv_fresh (rn_server r') = Suc ?n"
    "sv_heap (rn_server r') = (sv_heap (rn_server r))(?n := newRequestHandler fl q)"
    "hm_find (sv_requestHandlers (rn_server r')) = (hm_find (sv_requestHandlers (rn_server r)))(?n \<mapsto> ?n)"
    "bin_handler (rn_server r') = bin_handler (rn_server r)"
    by (simp_all add: r' s addHandler_def Let_def bin_handler_def fun_eq_iff)
  show ?thesis
    unfolding server_ok_def fields r'(2)
    using server_okD [OF ok] handler_ok_new [OF fl, of q] by (fastforce simp: less_Suc_eq)
qed

lemma handler_ok_cases:
  assumes "handler_ok h d" and "d op < handlerCalls h op"
  obtains "op = CONNECT" "hd_calls h = [RegisterStreamCall]" "d CONNECT = 0" "d READ = 0" "\<not> rh_isReading (hd_base h)"
  | k where "op = READ" "0 < k" "k \<le> 2" "d READ < k" "d CONNECT = 1"
      "hd_calls h = RegisterStreamCall # replicate k ServerReadCall" "rh_isReading (hd_base h) \<longleftrightarrow> k = 2"
proof -
  from assms(1) obtain k where k: "k \<le> 2" "hd_calls h = RegisterStreamCall # replicate k ServerReadCall"
    "rh_isReading (hd_base h) \<longleftrightarrow> k = 2" "k = 0 \<or> d CONNECT = 1" "d READ \<le> k" "d CONNECT \<le> 1"
    unfolding handler_ok_def by blast
  show ?thesis
  proof (cases op)
    case CONNECT
    then show ?thesis using k assms(2) that(1) by (simp add: handlerCalls_reads [OF k(2)])
  next
    case READ
    then show ?thesis using k assms(2) that(2) [of k] by (simp add: handlerCalls_reads [OF k(2)])
  qed (use assms(2) k in \<open>simp_all add: handlerCalls_reads [OF k(2)]\<close>)
qed


lemma deliver_frame [simp]:
  "sv_fresh (deliver t m s) = sv_fresh s" "sv_requestHandlers (deliver t m s) = sv_requestHandlers s"
  "sv_completionQueue (deliver t m s) = sv_completionQueue s"
  "sv_serviceConnections (deliver t m s) = sv_serviceConnections s"
  "u \<noteq> t \<Longrightarrow> sv_heap (deliver t m s) u = sv_heap s u"
  "sv_heap (deliver t m s) t = (sv_heap s t)\<lparr>hd_base := (hd_base (sv_heap s t))\<lparr>rh_message := m\<rparr>\<rparr>"
  by (simp_all add: deliver_def)

lemma bin_handler_frame [simp]:
  "bin_handler (stop t s) = bin_handler s" "bin_handler (updateShardInfo t m s) = bin_handler s"
  "bin_handler (attemptRead (server_io t) s) = bin_handler s" "bin_handler (deliver t m s) = bin_handler s"
  by (simp_all add: bin_handler_def fun_eq_iff)

lemma bins_authenticate:
  "hm_find (sv_requestHandlers s) t = Some t \<Longrightarrow> bin_handler (authenticate t m s) sid bin = Some u \<Longrightarrow>
   bin_handler s sid bin = Some u \<or> u = t"
  by (auto simp: authenticate_def Let_def bin_handler_register split: if_splits)

lemma manager_process_live:
  "server_ok r \<Longrightarrow> t < sv_fresh (rn_server r) \<Longrightarrow> sv_requestHandlers s = sv_requestHandlers (rn_server r) \<Longrightarrow>
   manager_process fl (t, op) ok s = process (server_handler fl t) op ok s"
  by (simp add: manager_process_def getRequestHandler_def server_okD(2))

definition readOutcome :: "nat \<Rightarrow> client_message \<Rightarrow> server \<Rightarrow> server" where
  "readOutcome t m s = attemptRead (server_io t) (updateShardInfo t m (authenticate t m (deliver t m s)))"

lemma completeCall_read:
  assumes "server_ok r" and "t < sv_fresh (rn_server r)"
  shows "rn_server (completeCall fl t READ True m r) = readOutcome t m (rn_server r)"
    and "rn_server (completeCall fl t READ False m r) = stop t (rn_server r)"
    and "rn_server (completeCall fl t CONNECT ok m r) = handleConnect fl t ok (rn_server r)"
  using assms by (simp_all add: completeCall_def manager_process_live process_server readOutcome_def Let_def)

lemma readOutcome_own:
  assumes "hd_calls (sv_heap s t) = RegisterStreamCall # replicate k ServerReadCall"
    and "rh_isReading (hd_base (sv_heap s t)) \<longleftrightarrow> k = 2" and "0 < k" "k \<le> 2" and "\<not> hd_authenticated (sv_heap s t)"
  shows "hd_calls (sv_heap (readOutcome t m s) t) = RegisterStreamCall # replicate 2 ServerReadCall"
    and "rh_isReading (hd_base (sv_heap (readOutcome t m s) t))"
    and "\<not> hd_authenticated (sv_heap (readOutcome t m s) t)"
proof -
  have k: "k = 2 \<or> k = 1" using assms(3,4) by auto
  show "hd_calls (sv_heap (readOutcome t m s) t) = RegisterStreamCall # replicate 2 ServerReadCall"
    "rh_isReading (hd_base (sv_heap (readOutcome t m s) t))"
    "\<not> hd_authenticated (sv_heap (readOutcome t m s) t)"
    using k assms by (auto simp: readOutcome_def own_attemptRead own_handler Let_def eval_nat_numeral)
qed

lemma completion_ok:
  assumes fl: "clear_flags fl" and ok: "server_ok r" and out: "outstanding t op r"
  shows "server_ok (completeCall fl t op b m r)"
proof -
  from out have t: "t < sv_fresh (rn_server r)" and c: "rn_done r t op < handlerCalls (sv_heap (rn_server r) t) op"
    by (auto simp: outstanding_def)
  have h: "handler_ok (sv_heap (rn_server r) t) (rn_done r t)" by (rule server_okD(1) [OF ok t])
  then have auth: "\<not> hd_authenticated (sv_heap (rn_server r) t)" by (simp add: handler_ok_def)
  have live: "hm_find (sv_requestHandlers (rn_server r)) t = Some t" using server_okD(2) [OF ok] t by simp
  have done_eq: "rn_done (completeCall fl t op b' m r) = (rn_done r)(t := (rn_done r t)(op := Suc (rn_done r t op)))" for b'
    by (simp add: completeCall_def Let_def)
  from h c show ?thesis
  proof (cases rule: handler_ok_cases)
    case 1
    note d = done_eq [unfolded 1(1)]
    show ?thesis
    proof (cases b)
      case True
      define r1 where "r1 = r\<lparr>rn_server := v_readFromStream (server_io t) (rn_server r),
        rn_done := (rn_done r)(t := (rn_done r t)(CONNECT := 1))\<rparr>"
      have "handler_ok (sv_heap (rn_server r1) t) (rn_done r1 t)"
        unfolding handler_ok_def using 1 auth by (auto simp: r1_def server_io_def intro!: exI [of _ 1])
      then have "server_ok r1"
        by (intro server_ok_own [OF ok t]) (simp_all add: r1_def server_io_def bin_handler_def)
      moreover have "rn_server (completeCall fl t op b m r) = addHandler fl (rn_server r1)"
        using t True unfolding 1(1) completeCall_read(3) [OF ok t] handleConnect_def r1_def server_io_def addHandler_def
        by (simp add: Let_def fun_upd_twist [of _ t])
      moreover have "rn_done (completeCall fl t op b m r) = rn_done r1"
        using 1(3) by (simp add: 1(1) d r1_def)
      ultimately show ?thesis
        using server_ok_add [OF fl, of r1 "completeCall fl t op b m r" "rn_server r1" "sv_completionQueue (rn_server r1)"]
        by simp
    next
      case False
      have "handler_ok (sv_heap (stop t (rn_server r)) t) ((rn_done r t)(CONNECT := Suc 0))"
        unfolding handler_ok_def using 1 auth by (auto simp: own_handler)
      then show ?thesis
        using 1(3) False unfolding 1(1)
        by (intro server_ok_own [OF ok t]) (simp_all add: d completeCall_read [OF ok t] handleConnect_def)
    qed
  next
    case (2 k)
    note d = done_eq [unfolded 2(1)]
    show ?thesis
    proof (cases b)
      case True
      note own = readOutcome_own [OF 2(6) 2(7) 2(2) 2(3) auth, of m]
      have "handler_ok (sv_heap (readOutcome t m (rn_server r)) t) ((rn_done r t)(READ := Suc (rn_done r t READ)))"
        unfolding handler_ok_def using own 2 by (auto intro!: exI [of _ 2])
      moreover have "bin_handler (readOutcome t m (rn_server r)) sid bin = Some u \<Longrightarrow>
          bin_handler (rn_server r) sid bin = Some u \<or> u = t" for sid bin u
        using bins_authenticate [of "deliver t m (rn_server r)" t m sid bin u] live by (simp add: readOutcome_def)
      moreover have "sv_fresh (readOutcome t m (rn_server r)) = sv_fresh (rn_server r)"
        "sv_requestHandlers (readOutcome t m (rn_server r)) = sv_requestHandlers (rn_server r)"
        "u \<noteq> t \<Longrightarrow> sv_heap (readOutcome t m (rn_server r)) u = sv_heap (rn_server r) u" for u
        by (simp_all add: readOutcome_def)
      ultimately show ?thesis
        using True unfolding 2(1)
        by (intro server_ok_own [OF ok t]) (auto simp: d completeCall_read [OF ok t])
    next
      case False
      have "handler_ok (sv_heap (stop t (rn_server r)) t) ((rn_done r t)(READ := Suc (rn_done r t READ)))"
        unfolding handler_ok_def using 2 auth by (auto simp: own_handler)
      then show ?thesis
        using False unfolding 2(1)
        by (intro server_ok_own [OF ok t]) (simp_all add: d completeCall_read [OF ok t])
    qed
  qed
qed


lemma server_ok_step: "server_step fl r r' \<Longrightarrow> clear_flags fl \<Longrightarrow> server_ok r \<Longrightarrow> server_ok r'"
proof (induction rule: server_step.induct)
  case (thread r q)
  then show ?case
    using server_ok_add [of fl r "registerThread fl q r" "(rn_server r)\<lparr>sv_completionQueue := q\<rparr>" q]
    by (simp add: registerThread_def registerService_def)
next
  case (completion r r')
  then show ?case by (auto elim!: completion_step.cases intro: completion_ok)
qed

lemma server_ok_reach: "server_reach fl heap q r \<Longrightarrow> clear_flags fl \<Longrightarrow> server_ok r"
  by (induction rule: rtranclp_induct) (auto intro: server_ok_start server_ok_step)

subsection \<open>Waiting handlers\<close>

text \<open>The handlers that have not been connected, all of them and those on one queue.\<close>

definition waiting :: "server_run \<Rightarrow> nat set" where
  "waiting r = {t. t < sv_fresh (rn_server r) \<and> rn_done r t CONNECT = 0}"

definition waiting_on :: "nat \<Rightarrow> server_run \<Rightarrow> nat set" where
  "waiting_on q r = {t \<in> waiting r. hd_completionQueue (sv_heap (rn_server r) t) = q}"

lemma finite_waiting [simp]: "finite (waiting r)" "finite (waiting_on q r)"
  by (simp_all add: waiting_def waiting_on_def)

lemma own_queue [simp]:
  "hd_completionQueue (sv_heap (readOutcome t m s) u) = hd_completionQueue (sv_heap s u)"
  "hd_completionQueue (sv_heap (stop t s) u) = hd_completionQueue (sv_heap s u)"
  by (cases "u = t"; simp add: readOutcome_def own_handler own_attemptRead Let_def)+

lemma readOutcome_frame [simp]:
  "sv_fresh (readOutcome t m s) = sv_fresh s" "sv_completionQueue (readOutcome t m s) = sv_completionQueue s"
  by (simp_all add: readOutcome_def)

text \<open>What a completion does to the set of waiting handlers: an accepted connection replaces one
  by a new one on the manager's queue, a failed one removes one, and a read changes nothing.\<close>

lemma waiting_completion:
  assumes ok: "server_ok r" and out: "outstanding t op r" and r'_def: "r' = completeCall fl t op b m r"
  shows "op = CONNECT \<Longrightarrow> t \<in> waiting r"
    and "op = CONNECT \<Longrightarrow> b \<Longrightarrow> waiting r' = insert (sv_fresh (rn_server r)) (waiting r - {t})"
    and "op = CONNECT \<Longrightarrow> \<not> b \<Longrightarrow> waiting r' = waiting r - {t}"
    and "op \<noteq> CONNECT \<Longrightarrow> waiting r' = waiting r"
    and "u < sv_fresh (rn_server r) \<Longrightarrow>
      hd_completionQueue (sv_heap (rn_server r') u) = hd_completionQueue (sv_heap (rn_server r) u)"
    and "op = CONNECT \<Longrightarrow> b \<Longrightarrow>
      hd_completionQueue (sv_heap (rn_server r') (sv_fresh (rn_server r))) = sv_completionQueue (rn_server r)"
    and "sv_completionQueue (rn_server r') = sv_completionQueue (rn_server r)"
proof -
  from out have t: "t < sv_fresh (rn_server r)" and c: "rn_done r t op < handlerCalls (sv_heap (rn_server r) t) op"
    by (auto simp: outstanding_def)
  have done_eq: "rn_done r' = (rn_done r)(t := (rn_done r t)(op := Suc (rn_done r t op)))"
    by (simp add: r'_def completeCall_def Let_def)
  have fresh_done: "rn_done r (sv_fresh (rn_server r)) = (\<lambda>_. 0)" by (rule server_okD(3) [OF ok]) simp
  note eqs = completeCall_read [OF ok t]
  have cases: "op = CONNECT \<and> rn_done r t CONNECT = 0 \<or> op = READ"
    using server_okD(1) [OF ok t] c by (cases rule: handler_ok_cases) auto
  have connected: "sv_fresh (handleConnect fl t True s) = Suc (sv_fresh s)"
    "sv_completionQueue (handleConnect fl t True s) = sv_completionQueue s"
    "u < sv_fresh s \<Longrightarrow> hd_completionQueue (sv_heap (handleConnect fl t True s) u) = hd_completionQueue (sv_heap s u)"
    "t < sv_fresh s \<Longrightarrow> hd_completionQueue (sv_heap (handleConnect fl t True s) (sv_fresh s)) = sv_completionQueue s"
    for s u
    by (auto simp: handleConnect_def addHandler_def server_io_def Let_def newRequestHandler_def)
  have refused: "handleConnect fl t False s = stop t s" for s by (simp add: handleConnect_def)
  show "op = CONNECT \<Longrightarrow> t \<in> waiting r" using cases t by (auto simp: waiting_def)
  show "op = CONNECT \<Longrightarrow> b \<Longrightarrow> waiting r' = insert (sv_fresh (rn_server r)) (waiting r - {t})"
    using t fresh_done by (auto simp: waiting_def done_eq) (auto simp: r'_def eqs connected)
  show "op = CONNECT \<Longrightarrow> \<not> b \<Longrightarrow> waiting r' = waiting r - {t}"
    by (auto simp: waiting_def done_eq) (auto simp: r'_def eqs refused)
  show "op \<noteq> CONNECT \<Longrightarrow> waiting r' = waiting r"
    using cases by (cases b) (auto simp: waiting_def done_eq, auto simp: r'_def eqs)
  show "u < sv_fresh (rn_server r) \<Longrightarrow>
      hd_completionQueue (sv_heap (rn_server r') u) = hd_completionQueue (sv_heap (rn_server r) u)"
    using cases by (cases b) (auto simp: r'_def eqs connected refused)
  show "op = CONNECT \<Longrightarrow> b \<Longrightarrow>
      hd_completionQueue (sv_heap (rn_server r') (sv_fresh (rn_server r))) = sv_completionQueue (rn_server r)"
    using t by (simp add: r'_def eqs connected)
  show "sv_completionQueue (rn_server r') = sv_completionQueue (rn_server r)"
    using cases by (cases b) (auto simp: r'_def eqs connected refused)
qed


lemma completion_stepE:
  assumes "completion_step fl r r'"
  obtains t op b m where "outstanding t op r" "r' = completeCall fl t op b m r"
  using assms by (cases rule: completion_step.cases) auto

lemma waiting_register:
  assumes "server_ok r"
  shows "waiting (registerThread fl q r) = insert (sv_fresh (rn_server r)) (waiting r)"
  using server_okD(3) [OF assms, of "sv_fresh (rn_server r)"]
  by (auto simp: waiting_def registerThread_def registerService_def addHandler_def Let_def)

lemma waiting_new: "sv_fresh (rn_server r) \<notin> waiting r"
  by (simp add: waiting_def)

lemma waiting_count_step:
  assumes "server_step fl r r'" and ok: "server_ok r"
    and eq: "card (waiting r) + rn_failed r = length (rn_queues r)"
  shows "card (waiting r') + rn_failed r' = length (rn_queues r')"
  using assms(1)
proof (cases rule: server_step.cases)
  case (thread q)
  then show ?thesis
    using eq waiting_register [OF ok, of fl q] waiting_new [of r] by (simp add: registerThread_def)
next
  case completion
  then obtain t op b m where c: "outstanding t op r" "r' = completeCall fl t op b m r"
    by (rule completion_stepE)
  note w = waiting_completion [OF ok c]
  have queues: "rn_queues r' = rn_queues r" "rn_failed r' = rn_failed r + (if op = CONNECT \<and> \<not> b then 1 else 0)"
    by (simp_all add: c(2) completeCall_def Let_def)
  show ?thesis
  proof (cases "op = CONNECT")
    case True
    have pos: "0 < card (waiting r)" using w(1) [OF True] by (auto simp: card_gt_0_iff)
    show ?thesis
      using eq queues pos w(1-3) [OF True] waiting_new [of r] by (cases b) (auto simp: True)
  next
    case False
    then show ?thesis using eq queues w(4) by simp
  qed
qed

subsection \<open>Registrations\<close>

lemma bin_handler_steps [simp]:
  "bin_handler (handleConnect fl t ok s) = bin_handler s"
  "bin_handler (removeRequestHandler t s) = bin_handler s"
  "bin_handler (finishWrite (server_io t) ok s) = bin_handler s"
  "bin_handler (attemptWrite (server_io t) s) = bin_handler s"
  "bin_handler (registerService fl q s) = bin_handler s"
  by (simp_all add: handleConnect_def addHandler_def server_io_def removeRequestHandler_def finishWrite_def
      attemptWrite_def registerService_def Let_def bin_handler_def fun_eq_iff stop_def)

lemma bin_handler_keeps_read:
  "bin_handler s sid bin = Some u \<Longrightarrow> bin_handler (authenticate t m s) sid bin = Some u"
  by (auto simp: authenticate_def Let_def bin_handler_register split: option.split)

lemma bin_handler_keeps_process:
  "bin_handler s sid bin = Some u \<Longrightarrow> bin_handler (process (server_handler fl t) op ok s) sid bin = Some u"
  by (cases op; cases ok)
    (auto simp: process_server Let_def bin_handler_keeps_read process_def [of _ WRITE] handleWrite_def)

lemma bin_handler_keeps_step:
  "server_step fl r r' \<Longrightarrow> bin_handler (rn_server r) sid bin = Some u \<Longrightarrow> bin_handler (rn_server r') sid bin = Some u"
  by (auto elim!: server_step.cases completion_stepE
      simp: registerThread_def completeCall_def Let_def manager_process_def bin_handler_keeps_process split: option.split)

section \<open>An example run\<close>

text \<open>Two threads register; a client connects on the first queue, sends no connection request,
  and disconnects.\<close>

definition clearFlags :: initial_flags where
  "clearFlags = \<lparr>fl_isReading = False, fl_isWriting = False, fl_status = ACTIVE, fl_authenticated = False\<rparr>"

definition exampleStart :: server_run where
  "exampleStart = server_start (\<lambda>_. newRequestHandler clearFlags 0) 0"

definition exampleThreads :: server_run where
  "exampleThreads = registerThread clearFlags 2 (registerThread clearFlags 1 exampleStart)"

definition exampleConnected :: server_run where
  "exampleConnected = completeCall clearFlags 0 CONNECT True ClientMessageNotSet exampleThreads"

definition exampleServer :: server_run where
  "exampleServer = completeCall clearFlags 0 READ True (Status BIN_STATUS_HEALTHY) exampleConnected"

lemma clearFlags_clear: "clear_flags clearFlags"
  by (simp add: clear_flags_def clearFlags_def)

lemma example_steps:
  "server_reach clearFlags (\<lambda>_. newRequestHandler clearFlags 0) 0 exampleThreads"
  "(completion_step clearFlags)\<^sup>*\<^sup>* exampleThreads exampleConnected"
  "completion_step clearFlags exampleConnected exampleServer"
proof -
  show "server_reach clearFlags (\<lambda>_. newRequestHandler clearFlags 0) 0 exampleThreads"
    unfolding exampleThreads_def exampleStart_def
    by (rule converse_rtranclp_into_rtranclp, rule server_step.thread, rule r_into_rtranclp, rule server_step.thread)
  show "(completion_step clearFlags)\<^sup>*\<^sup>* exampleThreads exampleConnected"
    unfolding exampleConnected_def by (rule r_into_rtranclp, rule completion_step.completion) code_simp
  show "completion_step clearFlags exampleConnected exampleServer"
    unfolding exampleServer_def by (rule completion_step.completion) code_simp
qed

lemma exampleServer_reach: "server_reach clearFlags (\<lambda>_. newRequestHandler clearFlags 0) 0 exampleServer"
proof -
  have "(server_step clearFlags)\<^sup>*\<^sup>* exampleThreads exampleConnected"
    using example_steps(2) by (induction rule: rtranclp_induct) (auto intro: server_step.completion rtranclp.intros)
  with example_steps(1,3) show ?thesis by (meson rtranclp.rtrancl_into_rtrancl rtranclp_trans server_step.completion)
qed

section \<open>Properties\<close>

text \<open>C22: The life of a handler: with the base class's flags clear, in every state of every run each
  handler has issued at most two reads, no write and no finish, and is still in the registry.
  So a stream is read at most twice, is never answered, and no handler is ever removed.\<close>

theorem handler_life:
  assumes "server_reach fl heap q r" and "clear_flags fl" and "t < sv_fresh (rn_server r)"
  shows "handlerCalls (sv_heap (rn_server r) t) READ \<le> 2 \<and>
    handlerCalls (sv_heap (rn_server r) t) WRITE = 0 \<and> handlerCalls (sv_heap (rn_server r) t) FINISH = 0 \<and>
    getRequestHandler t (rn_server r) = Some t"
proof -
  have ok: "server_ok r" by (rule server_ok_reach [OF assms(1,2)])
  obtain k where "k \<le> 2" "hd_calls (sv_heap (rn_server r) t) = RegisterStreamCall # replicate k ServerReadCall"
    using server_okD(1) [OF ok assms(3)] unfolding handler_ok_def by blast
  then show ?thesis
    using server_okD(2) [OF ok, of t] assms(3) by (simp add: handlerCalls_reads getRequestHandler_def)
qed

theorem handler_life_witness:
  "handlerCalls (sv_heap (rn_server exampleServer) 0) READ = 2 \<and> getRequestHandler 0 (rn_server exampleServer) = Some 0"
proof -
  have "0 < sv_fresh (rn_server exampleServer)" "handlerCalls (sv_heap (rn_server exampleServer) 0) READ = 2"
    by (code_simp, code_simp)
  then show ?thesis using handler_life [OF exampleServer_reach clearFlags_clear, of 0] by simp
qed

text \<open>The handlers that wait for a connection are as many as the I/O threads that have
  registered, less one for every connection that failed: an accepted connection puts a new
  handler in place of its own, a failed one does not.\<close>

theorem waiting_handlers:
  assumes "server_reach fl heap q r" and "clear_flags fl"
  shows "card (waiting r) + rn_failed r = length (rn_queues r)"
  using assms(1)
proof (induction rule: rtranclp_induct)
  case base
  then show ?case by (simp add: waiting_def server_start_def newServer_def)
next
  case (step r r')
  then show ?case using waiting_count_step server_ok_reach assms(2) by blast
qed

theorem waiting_handlers_witness:
  "card (waiting exampleServer) = 2"
proof -
  have "length (rn_queues exampleServer) = 2" "rn_failed exampleServer = 0" by (code_simp, code_simp)
  then show ?thesis using waiting_handlers [OF exampleServer_reach clearFlags_clear] by simp
qed

text \<open>Once the threads have registered, a queue other than the one that registered last gets no
  new handler: the handlers that wait on it only become fewer, and a connection accepted on
  it is replaced on the last queue.\<close>

theorem earlier_queues_starve:
  assumes "server_reach fl heap q0 r" and "clear_flags fl" and "(completion_step fl)\<^sup>*\<^sup>* r r'"
    and "q \<noteq> sv_completionQueue (rn_server r)"
  shows "waiting_on q r' \<subseteq> waiting_on q r"
proof -
  have "server_ok r' \<and> sv_completionQueue (rn_server r') = sv_completionQueue (rn_server r) \<and>
      waiting_on q r' \<subseteq> waiting_on q r"
    using assms(3)
  proof (induction rule: rtranclp_induct)
    case base
    show ?case using server_ok_reach [OF assms(1,2)] by simp
  next
    case (step y z)
    then have ok: "server_ok y" and queue: "sv_completionQueue (rn_server y) = sv_completionQueue (rn_server r)"
      by simp_all
    from step.hyps(2) obtain t op b m where c: "outstanding t op y" "z = completeCall fl t op b m y"
      by (rule completion_stepE)
    note w = waiting_completion [OF ok c]
    have "server_ok z" by (rule server_ok_step [OF server_step.completion [OF step.hyps(2)] assms(2) ok])
    moreover have "waiting_on q z \<subseteq> waiting_on q y"
    proof
      fix u assume u: "u \<in> waiting_on q z"
      have "u \<noteq> sv_fresh (rn_server y) \<and> u \<in> waiting y"
        using u w(2-4,6) assms(4) queue by (cases b; cases "op = CONNECT") (auto simp: waiting_on_def waiting_def)
      moreover from this have "u < sv_fresh (rn_server y)" by (simp add: waiting_def)
      ultimately show "u \<in> waiting_on q y" using u w(5) by (simp add: waiting_on_def)
    qed
    ultimately show ?case using step.IH queue w(7) by auto
  qed
  then show ?thesis by simp
qed

theorem earlier_queues_starve_witness:
  "waiting_on 1 exampleConnected \<subseteq> waiting_on 1 exampleThreads \<and> 0 \<in> waiting_on 1 exampleThreads - waiting_on 1 exampleConnected"
proof -
  have q: "(1 :: nat) \<noteq> sv_completionQueue (rn_server exampleThreads)" by code_simp
  have "0 < sv_fresh (rn_server exampleThreads)" "rn_done exampleThreads 0 CONNECT = 0"
    "hd_completionQueue (sv_heap (rn_server exampleThreads) 0) = 1" "rn_done exampleConnected 0 CONNECT = 1"
    by (code_simp, code_simp, code_simp, code_simp)
  then show ?thesis
    using earlier_queues_starve [OF example_steps(1) clearFlags_clear example_steps(2) q]
    by (auto simp: waiting_on_def waiting_def)
qed

text \<open>The first handler registered for a bin of a service keeps it: no later step of a run
  changes the registration, so a bin that reconnects stays bound to its old stream.\<close>

theorem registration_is_final:
  assumes "(server_step fl)\<^sup>*\<^sup>* r r'" and "bin_handler (rn_server r) serviceId binId = Some t"
  shows "bin_handler (rn_server r') serviceId binId = Some t"
  using assms by (induction rule: rtranclp_induct) (auto intro: bin_handler_keeps_step)

theorem registration_is_final_witness:
  "bin_handler (rn_server (registerThread clearFlags 3 exampleServer)) 0 0 = Some 0"
proof -
  have "bin_handler (rn_server exampleServer) 0 0 = Some 0" by code_simp
  then show ?thesis
    by (rule registration_is_final [rotated]) (rule r_into_rtranclp, rule server_step.thread)
qed



text \<open>C23: A first message that is not a connection request stops the handler and registers it all the
  same, for the default service and bin, if that is free.\<close>

theorem unauthenticated_is_registered:
  assumes "getRequestHandler t s = Some t" and "\<not> hd_authenticated (sv_heap s t)"
    and "\<not> has_connection_request (rh_message (hd_base (sv_heap s t)))" and "bin_handler s 0 0 = None"
  shows "hasStopped t (manager_process fl (getOpTag t READ) True s) \<and>
    bin_handler (manager_process fl (getOpTag t READ) True s) 0 0 = Some t"
proof -
  let ?m = "rh_message (hd_base (sv_heap s t))"
  have zero: "request_service_id ?m = 0" "request_bin_id ?m = 0" using assms(3) by (cases ?m; simp)+
  have status: "hd_status (sv_heap (updateShardInfo t ?m u) t) = hd_status (sv_heap u t)"
    "hd_status (sv_heap (attemptRead (server_io t) u) t) = hd_status (sv_heap u t)"
    "hd_status (sv_heap (stop t u) t) = STOPPED" for u
    by (auto simp: updateShardInfo_def own_attemptRead Let_def stop_def hasStopped_def split: client_message.split)
  have "manager_process fl (getOpTag t READ) True s =
      attemptRead (server_io t) (updateShardInfo t ?m (registerBin t 0 0 (stop t s)))"
    using assms(1-3) zero by (simp add: manager_process_def process_server authenticate_def Let_def)
  moreover have "bin_handler (registerBin t 0 0 (stop t s)) 0 0 = Some t"
    using assms(1,4) by (simp add: bin_handler_register getRequestHandler_def)
  moreover have "hd_status (sv_heap (registerBin t 0 0 (stop t s)) t) = STOPPED" using status(3) by simp
  ultimately show ?thesis by (simp add: hasStopped_def status)
qed

theorem unauthenticated_is_registered_witness:
  "hasStopped 0 (manager_process clearFlags (getOpTag 0 READ) True (rn_server exampleConnected)) \<and>
   bin_handler (manager_process clearFlags (getOpTag 0 READ) True (rn_server exampleConnected)) 0 0 = Some 0"
  by (rule unauthenticated_is_registered) (code_simp, code_simp, code_simp, code_simp)

lemma no_empty_find:
  assumes "no_empty_service s"
  shows "hm_find (sv_serviceConnections s) x = None \<longleftrightarrow> (\<forall>b. bin_handler s x b = None)"
proof (cases "hm_find (sv_serviceConnections s) x")
  case (Some m)
  with assms have "m \<noteq> []" by (auto simp: no_empty_service_def)
  then obtain b h m' where "m = (b, h) # m'" by (metis list.exhaust prod.exhaust)
  then have "hm_find m b = Some h" by simp
  with Some show ?thesis by (auto simp: bin_handler_def hm2_find_def)
qed (simp add: bin_handler_def hm2_find_def)

text \<open>C24: Registering a free bin and removing it again restores the registry: every lookup of a bin,
  and the set of services that have one.\<close>

theorem register_remove_roundtrip:
  fixes t :: nat
  assumes "bin_handler s serviceId binId = None" and "no_empty_service s"
  defines "s' \<equiv> removeBin serviceId binId (registerBin t serviceId binId s)"
  shows "bin_handler s' = bin_handler s \<and> no_empty_service s' \<and>
    dom (hm_find (sv_serviceConnections s')) = dom (hm_find (sv_serviceConnections s))"
proof -
  have bins: "bin_handler s' = bin_handler s"
    using assms(1) by (auto simp: s'_def bin_handler_remove bin_handler_register fun_eq_iff split: option.split)
  moreover have ne: "no_empty_service s'"
    unfolding s'_def by (intro no_empty_remove no_empty_register assms)
  moreover have "dom (hm_find (sv_serviceConnections s')) = dom (hm_find (sv_serviceConnections s))"
    unfolding dom_def no_empty_find [OF ne] no_empty_find [OF assms(2)] bins ..
  ultimately show ?thesis by blast
qed

theorem register_remove_roundtrip_witness:
  "bin_handler (removeBin 5 7 (registerBin 0 5 7 (rn_server exampleServer))) 0 0 = Some 0"
proof -
  have "bin_handler (rn_server exampleServer) 5 7 = None" "bin_handler (rn_server exampleServer) 0 0 = Some 0"
    "list_all (\<lambda>(sid, bins). bins \<noteq> []) (sv_serviceConnections (rn_server exampleServer))"
    by (code_simp, code_simp, code_simp)
  moreover from this(3) have "no_empty_service (rn_server exampleServer)"
    by (auto simp: no_empty_service_def list_all_iff dest: map_of_SomeD)
  ultimately show ?thesis
    using register_remove_roundtrip [of "rn_server exampleServer" 5 7 0] by simp
qed

end
