(* ===== verification/Session.thy ===== *)
theory Session
  imports Client Discovery
begin

text \<open>
  Clients and the discovery server together: any number of clients of \<open>user_libs/Client.h\<close>, the
  server of \<open>svc_discovery\<close>, and the streams between them. A stream carries the messages one end
  has written to the other in order; which client a handler is connected to, how messages are
  encoded, and the order of all completions are left open. The client is written against an
  earlier schema: its connection request is the one of the present schema, and the encoding of
  its other messages is a parameter.
\<close>

section \<open>The composed system\<close>

text \<open>
  \<open>ss_link\<close> is the client a handler accepted, \<open>ss_received\<close> how many of the client's messages it has
  read, \<open>ss_answered\<close> how many of its messages the client has read.
\<close>

record session =
  ss_server :: server_run
  ss_clients :: "nat \<Rightarrow> client_run"
  ss_link :: "nat \<Rightarrow> nat option"
  ss_received :: "nat \<Rightarrow> nat"
  ss_answered :: "nat \<Rightarrow> nat"

fun wire :: "(shard_range list \<Rightarrow> shard_range_status list \<Rightarrow> client_message) \<Rightarrow> report_message \<Rightarrow> client_message" where
  "wire report (ConnectionReport r) = ConnectionRequest r"
| "wire report (ShardInfoReport ranges statuses) = report ranges statuses"

definition handler_read :: "initial_flags \<Rightarrow> nat \<Rightarrow> client_message \<Rightarrow> session \<Rightarrow> session" where
  "handler_read fl t m S =
     S\<lparr>ss_server := completeCall fl t READ True m (ss_server S), ss_received := (ss_received S)(t := Suc (ss_received S t))\<rparr>"

definition handler_accept :: "initial_flags \<Rightarrow> nat \<Rightarrow> nat \<Rightarrow> session \<Rightarrow> session" where
  "handler_accept fl t c S =
     S\<lparr>ss_server := completeCall fl t CONNECT True ClientMessageNotSet (ss_server S), ss_link := (ss_link S)(t \<mapsto> c)\<rparr>"

definition client_completion :: "nat \<Rightarrow> operation \<Rightarrow> bool \<Rightarrow> assignment_message \<Rightarrow> session \<Rightarrow> session" where
  "client_completion c op ok m S = S\<lparr>ss_clients := (ss_clients S)(c := completed op ok m (ss_clients S c))\<rparr>"

inductive session_step for fl user report answer where
  thread: "session_step fl user report answer S (S\<lparr>ss_server := registerThread fl q (ss_server S)\<rparr>)"
| accept: "outstanding t CONNECT (ss_server S) \<Longrightarrow> session_step fl user report answer S (handler_accept fl t c S)"
| server_read: "outstanding t READ (ss_server S) \<Longrightarrow> ss_link S t = Some c \<Longrightarrow>
    ss_received S t < length (written_messages (cn_client (ss_clients S c))) \<Longrightarrow>
    m = wire report (written_messages (cn_client (ss_clients S c)) ! ss_received S t) \<Longrightarrow>
    session_step fl user report answer S (handler_read fl t m S)"
| server_other: "outstanding t op (ss_server S) \<Longrightarrow> \<not> (ok \<and> (op = CONNECT \<or> op = READ)) \<Longrightarrow>
    session_step fl user report answer S (S\<lparr>ss_server := completeCall fl t op ok m (ss_server S)\<rparr>)"
| client_read: "cn_done (ss_clients S c) READ < callCount (cn_client (ss_clients S c)) READ \<Longrightarrow> ss_link S t = Some c \<Longrightarrow>
    ss_answered S c < length (server_written t (rn_server (ss_server S))) \<Longrightarrow>
    m = answer (server_written t (rn_server (ss_server S)) ! ss_answered S c) \<Longrightarrow>
    session_step fl user report answer S
      (client_completion c READ True m (S\<lparr>ss_answered := (ss_answered S)(c := Suc (ss_answered S c))\<rparr>))"
| client_other: "cn_done (ss_clients S c) op < callCount (cn_client (ss_clients S c)) op \<Longrightarrow> \<not> (op = READ \<and> ok) \<Longrightarrow>
    session_step fl user report answer S (client_completion c op ok AssignmentNotSet S)"
| client_thread: "i < length (cl_threads (cn_client (ss_clients S c))) \<Longrightarrow>
    session_step fl user report answer S
      (S\<lparr>ss_clients := (ss_clients S)(c := threadRun (user c) i (ss_clients S c))\<rparr>)"

text \<open>Every client starts with the base class's write flag clear and attempts to connect.\<close>

definition session_start :: "(nat \<Rightarrow> handler) \<Rightarrow> nat \<Rightarrow> (nat \<Rightarrow> bool \<times> bool \<times> i64 \<times> string) \<Rightarrow> session" where
  "session_start heap q profile =
     \<lparr>ss_server = server_start heap q,
      ss_clients = (\<lambda>c. case profile c of (rd, up, serviceId, key) \<Rightarrow> client_start (newClient rd False up serviceId key)),
      ss_link = (\<lambda>_. None), ss_received = (\<lambda>_. 0), ss_answered = (\<lambda>_. 0)\<rparr>"

definition profile_service :: "(nat \<Rightarrow> bool \<times> bool \<times> i64 \<times> string) \<Rightarrow> nat \<Rightarrow> i64" where
  "profile_service profile c = fst (snd (snd (profile c)))"

section \<open>A client that gets no answer\<close>

text \<open>Before its connection such a client has written nothing; then it writes its request once.\<close>

definition request_message :: "i64 \<Rightarrow> string \<Rightarrow> report_message" where
  "request_message serviceId key = ConnectionReport
     \<lparr>cr_service_id = serviceId, cr_service_key = key, cr_bin_id = kClientBin, cr_groups = [], cr_shard_info = [],
      cr_status = BIN_STATUS_HEALTHY\<rparr>"

definition unanswered :: "i64 \<Rightarrow> client_run \<Rightarrow> bool" where
  "unanswered serviceId r \<longleftrightarrow> (let c = cn_client r in
     cl_serviceId c = serviceId \<and> cl_shardRangeStatus c = [] \<and> cl_shardRangePendingStatus c = [] \<and>
     cl_threads c = [] \<and> cl_upcalls c = [] \<and>
     (callCount c CONNECT = Suc (cn_done r CONNECT) \<and> written_messages c = [] \<and> rh_msgQueue (cl_base c) = [] \<and>
        \<not> rh_isWriting (cl_base c) \<or>
      callCount c CONNECT = cn_done r CONNECT \<and> written_messages c = [request_message serviceId (cl_serviceKey c)] \<and>
        (rh_isWriting (cl_base c) \<and> rh_msgQueue (cl_base c) = [request_message serviceId (cl_serviceKey c)] \<or>
         \<not> rh_isWriting (cl_base c) \<and> rh_msgQueue (cl_base c) = [] \<and> cn_done r WRITE = 1)))"

lemma callCount_FINISH: "callCount c FINISH = 0"
proof -
  have "call_operation x \<noteq> FINISH" for x by (cases x) auto
  then show ?thesis by (simp add: callCount_def)
qed

lemma client_identity [simp]:
  "cl_serviceId (addToWriteQueue client_io m c) = cl_serviceId c" "cl_serviceKey (addToWriteQueue client_io m c) = cl_serviceKey c"
  "cl_serviceId (attemptWrite client_io c) = cl_serviceId c" "cl_serviceKey (attemptWrite client_io c) = cl_serviceKey c"
  "cl_serviceId (attemptRead client_io c) = cl_serviceId c" "cl_serviceKey (attemptRead client_io c) = cl_serviceKey c"
  "cl_serviceId (finishWrite client_io ok c) = cl_serviceId c" "cl_serviceKey (finishWrite client_io ok c) = cl_serviceKey c"
  by (simp_all add: addToWriteQueue_def attemptWrite_def attemptRead_def finishWrite_def Let_def
      client_io_def readFromStream_def writeToStream_def)

lemma completed_fields:
  "\<not> (op = READ \<and> ok) \<Longrightarrow> cn_client (completed op ok m r) = process client_handler op ok (cn_client r)"
  "cn_done (completed op ok m r) = (cn_done r)(op := Suc (cn_done r op))"
  by (auto simp: completed_def Let_def)

lemma auth_is_request:
  "cl_shardRangeStatus c = [] \<Longrightarrow> cl_shardRangePendingStatus c = [] \<Longrightarrow>
    sendAuthMessage c = handlerWrite client_io (request_message (cl_serviceId c) (cl_serviceKey c)) c"
  by (simp add: sendAuthMessage_def request_message_def currentShardStatus_def)

lemma unanswered_connect:
  assumes u: "unanswered sid r" and out: "cn_done r CONNECT < callCount (cn_client r) CONNECT"
  shows "unanswered sid (completed CONNECT ok m r)"
proof (cases ok)
  case True
  define c where "c = attemptRead client_io (setConnectedState True (cn_client r))"
  have c: "cl_serviceId c = sid" "cl_serviceKey c = cl_serviceKey (cn_client r)" "cl_shardRangeStatus c = []"
    "cl_shardRangePendingStatus c = []" "cl_threads c = []" "cl_upcalls c = []"
    "callCount c CONNECT = Suc (cn_done r CONNECT)" "written_messages c = []" "rh_msgQueue (cl_base c) = []"
    "\<not> rh_isWriting (cl_base c)"
    using u out by (auto simp: c_def unanswered_def Let_def setConnectedState_def client_base_ops client_stream.written_ops)
  have "cn_client (completed CONNECT ok m r) = handlerWrite client_io (request_message sid (cl_serviceKey c)) c"
    using True auth_is_request [OF c(3,4)] c(1) by (simp add: completed_fields process_client Client.handleConnect_def c_def)
  then show ?thesis
    using c by (simp add: unanswered_def Let_def handlerWrite_def completed_fields client_base_ops client_stream.written_ops)
next
  case False
  then show ?thesis using u out
    by (auto simp: unanswered_def Let_def completed_fields process_client Client.handleConnect_def connect_def)
qed

lemma unanswered_write:
  assumes u: "unanswered sid r" and out: "cn_done r WRITE < callCount (cn_client r) WRITE"
  shows "unanswered sid (completed WRITE ok m r)"
proof -
  have "length (written_messages (cn_client r)) = 1 \<and> cn_done r WRITE = 0"
    using u out by (auto simp: unanswered_def Let_def callCount_WRITE)
  then show ?thesis using u
    by (cases ok) (auto simp: unanswered_def Let_def completed_fields process_client client_base_ops client_stream.written_ops)
qed

lemma unanswered_completed:
  assumes "unanswered sid r" "cn_done r op < callCount (cn_client r) op" "\<not> (op = READ \<and> ok)"
  shows "unanswered sid (completed op ok m r)"
proof (cases op)
  case CONNECT
  then show ?thesis using unanswered_connect assms by simp
next
  case READ
  then show ?thesis using assms by (auto simp: unanswered_def Let_def completed_fields process_client)
next
  case WRITE
  then show ?thesis using unanswered_write assms by simp
next
  case FINISH
  then show ?thesis using assms(2) by (simp add: callCount_FINISH)
qed

lemma unanswered_start: "unanswered sid (client_start (newClient rd False up sid key))"
  by (simp add: unanswered_def client_start_def newClient_def callCount_def connect_def written_messages_def)

lemma unanswered_written:
  assumes "unanswered sid r"
  shows "length (written_messages (cn_client r)) \<le> 1" "cl_threads (cn_client r) = []" "cl_upcalls (cn_client r) = []"
    "i < length (written_messages (cn_client r)) \<Longrightarrow>
      written_messages (cn_client r) ! i = request_message sid (cl_serviceKey (cn_client r))"
  using assms by (auto simp: unanswered_def Let_def)

text \<open>What a client has written stays written.\<close>

lemma completed_writes_more:
  "unanswered sid r \<Longrightarrow> cn_done r op < callCount (cn_client r) op \<Longrightarrow> \<not> (op = READ \<and> ok) \<Longrightarrow>
    length (written_messages (cn_client r)) \<le> length (written_messages (cn_client (completed op ok m r)))"
  using unanswered_completed [of sid r op ok m]
  by (cases op; cases ok)
    (auto simp: unanswered_def Let_def completed_fields process_client Client.handleConnect_def connect_def callCount_FINISH
      setConnectedState_def client_stream.written_ops sendAuthMessage_def handlerWrite_def)

section \<open>A server with such clients\<close>

definition no_infos :: "server \<Rightarrow> bool" where
  "no_infos s \<longleftrightarrow> (\<forall>t < sv_fresh s. hd_shardRangeInfo (sv_heap s t) = [])"

lemma own_infos [simp]:
  "hd_shardRangeInfo (sv_heap (stop t s) u) = hd_shardRangeInfo (sv_heap s u)"
  "hd_shardRangeInfo (sv_heap (attemptRead (server_io t) s) u) = hd_shardRangeInfo (sv_heap s u)"
  "hd_shardRangeInfo (sv_heap (deliver t m s) u) = hd_shardRangeInfo (sv_heap s u)"
  by (cases "u = t"; simp add: own_attemptRead Let_def deliver_def stop_def)+

lemma no_infos_add: "no_infos s \<Longrightarrow> no_infos (addHandler fl s)"
  by (auto simp: no_infos_def addHandler_def Let_def newRequestHandler_def less_Suc_eq)

lemma no_infos_ops:
  "no_infos s \<Longrightarrow> no_infos (registerService fl q s)"
  "no_infos s \<Longrightarrow> no_infos (handleConnect fl t ok s)"
  "no_infos s \<Longrightarrow> no_infos (stop t s)"
  "no_infos s \<Longrightarrow> no_infos (readOutcome t (ConnectionRequest r) s)"
proof -
  assume s: "no_infos s"
  show "no_infos (registerService fl q s)"
    unfolding registerService_def by (rule no_infos_add) (use s in \<open>simp add: no_infos_def\<close>)
  show stopped: "no_infos (stop t s)" using s by (simp add: no_infos_def)
  have "no_infos (addHandler fl s)" by (rule no_infos_add [OF s])
  then show "no_infos (handleConnect fl t ok s)" using stopped
    by (auto simp: handleConnect_def no_infos_def server_io_def)
  show "no_infos (readOutcome t (ConnectionRequest r) s)"
    using s by (simp add: no_infos_def readOutcome_def updateShardInfo_def authenticate_def)
qed

text \<open>Reading a connection request binds its bin to the handler unless another one has it.\<close>

lemma bins_request:
  assumes "hm_find (sv_requestHandlers s) t = Some t" "\<not> hd_authenticated (sv_heap s t)"
  shows "bin_handler (readOutcome t (ConnectionRequest r) s) sid bin =
    (if sid = cr_service_id r \<and> bin = cr_bin_id r \<and> bin_handler s sid bin = None then Some t else bin_handler s sid bin)"
  using assms by (auto simp: readOutcome_def authenticate_def bin_handler_register)

lemma outstanding_operation:
  assumes "server_ok r" "outstanding t op r"
  shows "op = CONNECT \<and> rn_done r t CONNECT = 0 \<or> op = READ \<and> 0 < rn_done r t CONNECT" "t < sv_fresh (rn_server r)"
proof -
  show t: "t < sv_fresh (rn_server r)" using assms(2) by (simp add: outstanding_def)
  have "rn_done r t op < handlerCalls (sv_heap (rn_server r) t) op" using assms(2) by (simp add: outstanding_def)
  with server_okD(1) [OF assms(1) t]
  show "op = CONNECT \<and> rn_done r t CONNECT = 0 \<or> op = READ \<and> 0 < rn_done r t CONNECT"
    by (cases rule: handler_ok_cases) auto
qed

lemma done_completeCall:
  "rn_done (completeCall fl t op ok m r) = (rn_done r)(t := (rn_done r t)(op := Suc (rn_done r t op)))"
  by (simp add: completeCall_def Let_def)

text \<open>A handler writes nothing, so no client is ever answered.\<close>

lemma handler_silent:
  assumes "server_ok r" "t < sv_fresh (rn_server r)"
  shows "server_written t (rn_server r) = []"
  using server_okD(1) [OF assms] unfolding handler_ok_def by (auto simp: server_written_def)

section \<open>The invariant of the composed system\<close>

definition written_by :: "session \<Rightarrow> nat \<Rightarrow> nat" where
  "written_by S c = length (written_messages (cn_client (ss_clients S c)))"

definition session_ok :: "(nat \<Rightarrow> i64) \<Rightarrow> session \<Rightarrow> bool" where
  "session_ok service S \<longleftrightarrow> server_ok (ss_server S) \<and> no_infos (rn_server (ss_server S)) \<and>
     (\<forall>c. unanswered (service c) (ss_clients S c)) \<and>
     (\<forall>t. ss_link S t \<noteq> None \<longrightarrow> 0 < rn_done (ss_server S) t CONNECT) \<and>
     (\<forall>t. ss_received S t \<le> (case ss_link S t of None \<Rightarrow> 0 | Some c \<Rightarrow> written_by S c)) \<and>
     (\<forall>sid bin t. bin_handler (rn_server (ss_server S)) sid bin = Some t \<longrightarrow>
       (\<exists>c. ss_link S t = Some c \<and> sid = service c \<and> bin = kClientBin \<and> 0 < ss_received S t)) \<and>
     (\<forall>t c. ss_link S t = Some c \<and> 0 < ss_received S t \<longrightarrow>
       bin_handler (rn_server (ss_server S)) (service c) kClientBin \<noteq> None)"

lemma session_okD:
  assumes "session_ok service S"
  shows "server_ok (ss_server S)" "no_infos (rn_server (ss_server S))" "unanswered (service c) (ss_clients S c)"
    "ss_link S t \<noteq> None \<Longrightarrow> 0 < rn_done (ss_server S) t CONNECT"
    "ss_link S t = None \<Longrightarrow> ss_received S t = 0"
    "ss_link S t = Some c \<Longrightarrow> ss_received S t \<le> written_by S c"
    "bin_handler (rn_server (ss_server S)) sid bin = Some t \<Longrightarrow>
      \<exists>c. ss_link S t = Some c \<and> sid = service c \<and> bin = kClientBin \<and> 0 < ss_received S t"
    "ss_link S t = Some c \<Longrightarrow> 0 < ss_received S t \<Longrightarrow>
      bin_handler (rn_server (ss_server S)) (service c) kClientBin \<noteq> None"
proof -
  note ok = assms [unfolded session_ok_def]
  show "server_ok (ss_server S)" "no_infos (rn_server (ss_server S))" "unanswered (service c) (ss_clients S c)"
    "ss_link S t \<noteq> None \<Longrightarrow> 0 < rn_done (ss_server S) t CONNECT" using ok by blast+
  have "ss_received S t \<le> (case ss_link S t of None \<Rightarrow> 0 | Some c \<Rightarrow> written_by S c)" using ok by blast
  then show "ss_link S t = None \<Longrightarrow> ss_received S t = 0" "ss_link S t = Some c \<Longrightarrow> ss_received S t \<le> written_by S c"
    by simp_all
  show "bin_handler (rn_server (ss_server S)) sid bin = Some t \<Longrightarrow>
      \<exists>c. ss_link S t = Some c \<and> sid = service c \<and> bin = kClientBin \<and> 0 < ss_received S t" using ok by blast
  show "ss_link S t = Some c \<Longrightarrow> 0 < ss_received S t \<Longrightarrow>
      bin_handler (rn_server (ss_server S)) (service c) kClientBin \<noteq> None" using ok by blast
qed

lemma linked_handler_fresh:
  assumes "session_ok service S" "ss_link S t = Some c"
  shows "t < sv_fresh (rn_server (ss_server S))"
proof (rule ccontr)
  assume "\<not> t < sv_fresh (rn_server (ss_server S))"
  then have "rn_done (ss_server S) t = (\<lambda>_. 0)" using server_okD(3) [OF session_okD(1) [OF assms(1)]] by simp
  then show False using session_okD(4) [OF assms(1), of t] assms(2) by simp
qed

text \<open>Only reading a request changes the registrations: every other step of the server keeps them.\<close>

lemma session_ok_server:
  assumes ok: "session_ok service S" and server: "server_ok r'" "no_infos (rn_server r')"
    and bins: "bin_handler (rn_server r') = bin_handler (rn_server (ss_server S))"
    and dones: "\<forall>t. rn_done (ss_server S) t CONNECT \<le> rn_done r' t CONNECT"
  shows "session_ok service (S\<lparr>ss_server := r'\<rparr>)"
proof -
  have dones': "0 < rn_done r' t CONNECT" if "ss_link S t \<noteq> None" for t
    using session_okD(4) [OF ok that] dones by (meson less_le_trans)
  have w: "written_by (S\<lparr>ss_server := r'\<rparr>) c = written_by S c" for c by (simp add: written_by_def)
  show ?thesis
    unfolding session_ok_def using ok [unfolded session_ok_def] server bins dones' by (simp add: w cong: option.case_cong)
qed

lemma session_ok_client:
  assumes ok: "session_ok service S" and run: "unanswered (service c) r'"
    and more: "written_by S c \<le> length (written_messages (cn_client r'))"
  shows "session_ok service (S\<lparr>ss_clients := (ss_clients S)(c := r')\<rparr>)"
proof -
  let ?S = "S\<lparr>ss_clients := (ss_clients S)(c := r')\<rparr>"
  have w: "written_by S d \<le> written_by ?S d" for d using more by (simp add: written_by_def)
  have "ss_received S t \<le> (case ss_link S t of None \<Rightarrow> 0 | Some c \<Rightarrow> written_by ?S c)" for t
    using session_okD(5,6) [OF ok, of t] w by (fastforce split: option.split intro: order_trans)
  then show ?thesis
    unfolding session_ok_def using ok [unfolded session_ok_def] run by simp
qed

lemma session_ok_read:
  assumes fl: "clear_flags fl" and ok: "session_ok service S" and out: "outstanding t READ (ss_server S)"
    and link: "ss_link S t = Some c" and next_message: "ss_received S t < written_by S c"
  shows "session_ok service
    (handler_read fl t (wire report (written_messages (cn_client (ss_clients S c)) ! ss_received S t)) S)"
proof -
  let ?r = "ss_server S" and ?key = "cl_serviceKey (cn_client (ss_clients S c))"
  note server = session_okD(1) [OF ok]
  have t: "t < sv_fresh (rn_server ?r)" using out by (simp add: outstanding_def)
  define q where "q = \<lparr>cr_service_id = service c, cr_service_key = ?key, cr_bin_id = kClientBin, cr_groups = [],
    cr_shard_info = [], cr_status = BIN_STATUS_HEALTHY\<rparr>"
  have m: "wire report (written_messages (cn_client (ss_clients S c)) ! ss_received S t) = ConnectionRequest q"
    using unanswered_written(4) [OF session_okD(3) [OF ok, of c], of "ss_received S t"] next_message
    by (simp add: written_by_def request_message_def q_def)
  let ?S = "handler_read fl t (ConnectionRequest q) S"
  have rn: "rn_server (ss_server ?S) = readOutcome t (ConnectionRequest q) (rn_server ?r)"
    by (simp add: handler_read_def completeCall_read(1) [OF server t])
  have live: "hm_find (sv_requestHandlers (rn_server ?r)) t = Some t" using server_okD(2) [OF server, of t] t by simp
  have auth: "\<not> hd_authenticated (sv_heap (rn_server ?r) t)"
    using server_okD(1) [OF server t] by (simp add: handler_ok_def)
  have bins: "bin_handler (rn_server (ss_server ?S)) sid bin =
      (if sid = service c \<and> bin = kClientBin \<and> bin_handler (rn_server ?r) sid bin = None then Some t
       else bin_handler (rn_server ?r) sid bin)" for sid bin
    unfolding rn bins_request [OF live auth] by (simp add: q_def)
  have received: "ss_received ?S u = (if u = t then Suc (ss_received S t) else ss_received S u)" for u
    by (simp add: handler_read_def)
  have same: "ss_link ?S = ss_link S" "ss_clients ?S = ss_clients S" "written_by ?S d = written_by S d" for d
    by (simp_all add: handler_read_def written_by_def)
  have "server_ok (ss_server ?S)"
    unfolding handler_read_def using completion_ok [OF fl server out] by simp
  moreover have "no_infos (rn_server (ss_server ?S))"
    unfolding rn by (rule no_infos_ops(4) [OF session_okD(2) [OF ok]])
  moreover have "0 < rn_done (ss_server ?S) u CONNECT" if "ss_link S u \<noteq> None" for u
    using session_okD(4) [OF ok that] by (cases "u = t") (simp_all add: handler_read_def done_completeCall)
  moreover have "ss_received ?S u \<le> (case ss_link S u of None \<Rightarrow> 0 | Some c \<Rightarrow> written_by S c)" for u
    using session_okD(5,6) [OF ok, of u] link next_message by (auto simp: received split: option.split)
  moreover have "\<exists>d. ss_link S u = Some d \<and> sid = service d \<and> bin = kClientBin \<and> 0 < ss_received ?S u"
    if "bin_handler (rn_server (ss_server ?S)) sid bin = Some u" for sid bin u
  proof (cases "sid = service c \<and> bin = kClientBin \<and> bin_handler (rn_server ?r) sid bin = None")
    case True
    have "bin_handler (rn_server (ss_server ?S)) sid bin = Some t" unfolding bins by (simp only: if_P [OF True])
    with that have "u = t" by (simp only: option.inject)
    then show ?thesis using True link by (simp add: received)
  next
    case False
    then have "bin_handler (rn_server ?r) sid bin = Some u" using that unfolding bins by (simp only: if_False)
    from session_okD(7) [OF ok this] show ?thesis by (auto simp: received)
  qed
  moreover have "bin_handler (rn_server (ss_server ?S)) (service d) kClientBin \<noteq> None"
    if "ss_link S u = Some d" "0 < ss_received ?S u" for u d
    using that session_okD(8) [OF ok, of u d] link by (cases "u = t") (auto simp: bins received)
  ultimately show ?thesis
    unfolding m session_ok_def same using session_okD(3) [OF ok] by blast
qed


lemma session_ok_link:
  assumes ok: "session_ok service S" and new: "ss_link S t = None" and connected: "0 < rn_done (ss_server S) t CONNECT"
  shows "session_ok service (S\<lparr>ss_link := (ss_link S)(t \<mapsto> c)\<rparr>)"
proof -
  let ?S = "S\<lparr>ss_link := (ss_link S)(t \<mapsto> c)\<rparr>"
  have none: "ss_received S t = 0" by (rule session_okD(5) [OF ok new])
  have same: "ss_server ?S = ss_server S" "ss_clients ?S = ss_clients S" "ss_received ?S = ss_received S"
    "written_by ?S d = written_by S d" for d by (simp_all add: written_by_def)
  have "0 < rn_done (ss_server S) u CONNECT" if "ss_link ?S u \<noteq> None" for u
    using session_okD(4) [OF ok, of u] connected that by (cases "u = t") simp_all
  moreover have "ss_received S u \<le> (case ss_link ?S u of None \<Rightarrow> 0 | Some d \<Rightarrow> written_by S d)" for u
    using session_okD(5,6) [OF ok, of u] none by (cases "u = t") (auto split: option.split)
  moreover have "\<exists>d. ss_link ?S u = Some d \<and> sid = service d \<and> bin = kClientBin \<and> 0 < ss_received S u"
    if "bin_handler (rn_server (ss_server S)) sid bin = Some u" for sid bin u
    using session_okD(7) [OF ok that] new by auto
  moreover have "bin_handler (rn_server (ss_server S)) (service d) kClientBin \<noteq> None"
    if "ss_link ?S u = Some d" "0 < ss_received S u" for u d
    using session_okD(8) [OF ok, of u d] that none by (cases "u = t") simp_all
  ultimately show ?thesis
    unfolding session_ok_def same using session_okD(1-3) [OF ok] by blast
qed

lemma session_ok_accept:
  assumes fl: "clear_flags fl" and ok: "session_ok service S" and out: "outstanding t CONNECT (ss_server S)"
  shows "session_ok service (handler_accept fl t c S)"
proof -
  let ?r = "completeCall fl t CONNECT True ClientMessageNotSet (ss_server S)"
  note server = session_okD(1) [OF ok]
  have t: "t < sv_fresh (rn_server (ss_server S))" using out by (simp add: outstanding_def)
  have new: "ss_link S t = None"
    using outstanding_operation(1) [OF server out] session_okD(4) [OF ok, of t] by (cases "ss_link S t") auto
  have "session_ok service (S\<lparr>ss_server := ?r\<rparr>)"
    using completion_ok [OF fl server out] no_infos_ops(2) [OF session_okD(2) [OF ok]]
    by (intro session_ok_server [OF ok]) (simp_all add: completeCall_read(3) [OF server t] done_completeCall)
  from session_ok_link [OF this, of t c] show ?thesis using new by (simp add: handler_accept_def done_completeCall)
qed

lemma session_ok_other:
  assumes fl: "clear_flags fl" and ok: "session_ok service S" and out: "outstanding t op (ss_server S)"
    and silent: "\<not> (b \<and> (op = CONNECT \<or> op = READ))"
  shows "session_ok service (S\<lparr>ss_server := completeCall fl t op b m (ss_server S)\<rparr>)"
proof -
  note server = session_okD(1) [OF ok]
  note op = outstanding_operation [OF server out]
  have failed: "\<not> b" using op(1) silent by blast
  have rn: "rn_server (completeCall fl t op b m (ss_server S)) = stop t (rn_server (ss_server S))"
    using op(1) failed completeCall_read(2,3) [OF server op(2)] by (auto simp: handleConnect_def)
  show ?thesis
    using completion_ok [OF fl server out] no_infos_ops(3) [OF session_okD(2) [OF ok]]
    by (intro session_ok_server [OF ok]) (simp_all add: rn done_completeCall)
qed

lemma session_ok_thread:
  assumes fl: "clear_flags fl" and ok: "session_ok service S"
  shows "session_ok service (S\<lparr>ss_server := registerThread fl q (ss_server S)\<rparr>)"
  using server_ok_step [OF server_step.thread fl session_okD(1) [OF ok], of q] no_infos_ops(1) [OF session_okD(2) [OF ok]]
  by (intro session_ok_server [OF ok]) (simp_all add: registerThread_def)

lemma session_ok_step:
  assumes fl: "clear_flags fl"
  shows "session_step fl user report answer S S' \<Longrightarrow> session_ok service S \<Longrightarrow> session_ok service S'"
proof (induction rule: session_step.induct)
  case (thread S q)
  then show ?case by (rule session_ok_thread [OF fl])
next
  case (accept t S c)
  then show ?case by (intro session_ok_accept [OF fl])
next
  case (server_read t S c m)
  then show ?case using session_ok_read [OF fl] by (simp add: written_by_def)
next
  case (server_other t op S ok m)
  then show ?case by (intro session_ok_other [OF fl])
next
  case (client_read S c t m)
  have "server_written t (rn_server (ss_server S)) = []"
    using client_read.prems linked_handler_fresh [OF client_read.prems client_read.hyps(2)]
    by (intro handler_silent session_okD(1))
  with client_read.hyps(3) show ?case by simp
next
  case (client_other S c op ok)
  note client = session_okD(3) [OF client_other.prems, of c]
  show ?case
    unfolding client_completion_def
    using client_other.hyps unanswered_completed [OF client] completed_writes_more [OF client]
    by (intro session_ok_client [OF client_other.prems]) (simp_all add: written_by_def)
next
  case (client_thread i S c)
  then show ?case using unanswered_written(2) [OF session_okD(3) [OF client_thread.prems, of c]] by simp
qed

lemma session_ok_start: "session_ok (profile_service profile) (session_start heap q profile)"
proof -
  have "unanswered (profile_service profile c) (ss_clients (session_start heap q profile) c)" for c
    by (cases "profile c") (simp add: session_start_def profile_service_def unanswered_start)
  moreover have "bin_handler (rn_server (server_start heap q)) sid bin = None" for sid bin
    by (simp add: server_start_def newServer_def bin_handler_def)
  ultimately show ?thesis
    unfolding session_ok_def
    by (simp add: session_start_def server_ok_start) (simp add: server_start_def newServer_def no_infos_def)
qed

lemma session_ok_reach:
  "(session_step fl user report answer)\<^sup>*\<^sup>* (session_start heap q profile) S \<Longrightarrow> clear_flags fl \<Longrightarrow>
    session_ok (profile_service profile) S"
  by (induction rule: rtranclp_induct) (auto intro: session_ok_start session_ok_step)

section \<open>An example run\<close>

text \<open>Two clients of one service connect, and the server reads the request of each.\<close>

definition exampleProfile :: "nat \<Rightarrow> bool \<times> bool \<times> i64 \<times> string" where
  "exampleProfile c = (False, False, 7, if c = 0 then ''a'' else ''b'')"

definition exampleOpen :: session where
  "exampleOpen = session_start (\<lambda>_. newRequestHandler clearFlags 0) 0 exampleProfile"

definition joined :: "nat \<Rightarrow> nat \<Rightarrow> session \<Rightarrow> session" where
  "joined t c S = client_completion c CONNECT True AssignmentNotSet (handler_accept clearFlags t c S)"

definition introduced :: "nat \<Rightarrow> nat \<Rightarrow> session \<Rightarrow> session" where
  "introduced t c S =
     (let J = joined t c S in
      handler_read clearFlags t
        (wire (\<lambda>_ _. ClientMessageNotSet) (written_messages (cn_client (ss_clients J c)) ! ss_received J t)) J)"

definition exampleListening :: session where
  "exampleListening = exampleOpen\<lparr>ss_server := registerThread clearFlags 1 (ss_server exampleOpen)\<rparr>"

definition exampleFirst :: session where
  "exampleFirst = introduced 0 0 exampleListening"

definition exampleBoth :: session where
  "exampleBoth = introduced 1 1 exampleFirst"

abbreviation example_step :: "session \<Rightarrow> session \<Rightarrow> bool" where
  "example_step \<equiv>
     session_step clearFlags (\<lambda>_. defaultFunctions) (\<lambda>_ _. ClientMessageNotSet) (\<lambda>_. AssignmentNotSet)"

lemma introduced_steps:
  fixes t c S
  defines "A \<equiv> handler_accept clearFlags t c S"
  defines "J \<equiv> joined t c S"
  assumes "outstanding t CONNECT (ss_server S)" "cn_done (ss_clients A c) CONNECT < callCount (cn_client (ss_clients A c)) CONNECT"
    and "outstanding t READ (ss_server J)" "ss_received J t < length (written_messages (cn_client (ss_clients J c)))"
  shows "example_step\<^sup>*\<^sup>* S (introduced t c S)"
proof -
  have "ss_link J t = Some c" by (simp add: J_def joined_def client_completion_def handler_accept_def)
  then have "example_step J (introduced t c S)"
    using assms(5,6) unfolding introduced_def Let_def J_def by (intro session_step.server_read [where c = c]) simp_all
  moreover have "example_step A J" unfolding J_def joined_def A_def
    by (rule session_step.client_other) (use assms(4) in \<open>simp_all add: A_def\<close>)
  moreover have "example_step S A" unfolding A_def by (rule session_step.accept) (rule assms(3))
  ultimately show ?thesis by (meson rtranclp.rtrancl_refl rtranclp.rtrancl_into_rtrancl)
qed

lemma exampleBoth_reach: "example_step\<^sup>*\<^sup>* exampleOpen exampleBoth"
proof -
  have "example_step exampleOpen exampleListening" unfolding exampleListening_def by (rule session_step.thread)
  moreover have "example_step\<^sup>*\<^sup>* exampleListening exampleFirst"
    unfolding exampleFirst_def by (rule introduced_steps) (code_simp, code_simp, code_simp, code_simp)
  moreover have "example_step\<^sup>*\<^sup>* exampleFirst exampleBoth"
    unfolding exampleBoth_def by (rule introduced_steps) (code_simp, code_simp, code_simp, code_simp)
  ultimately show ?thesis by (meson converse_rtranclp_into_rtranclp rtranclp_trans)
qed

section \<open>Properties\<close>

text \<open>C38: Clients and server together register and stop there. In every state of every run no client
  has been called upon to take or forward a range, none has written more than its
  connection request, and a stream has been read for at most that. A service has a bin in
  the registry exactly when a request of one of its clients has been read, and then it is
  the one bin that every client names: however many clients a service has, one handler
  stands for all of them, and it is the handler of one of those clients.\<close>

theorem session_registers_only:
  assumes "(session_step fl user report answer)\<^sup>*\<^sup>* (session_start heap q profile) S" and "clear_flags fl"
  shows "(\<forall>c. cl_upcalls (cn_client (ss_clients S c)) = [] \<and> length (written_messages (cn_client (ss_clients S c))) \<le> 1) \<and>
    (\<forall>t. ss_received S t \<le> 1) \<and>
    (\<forall>sid bin. bin_handler (rn_server (ss_server S)) sid bin \<noteq> None \<longleftrightarrow>
       bin = kClientBin \<and> (\<exists>t c. ss_link S t = Some c \<and> 0 < ss_received S t \<and> profile_service profile c = sid)) \<and>
    (\<forall>sid bin t. bin_handler (rn_server (ss_server S)) sid bin = Some t \<longrightarrow>
       (\<exists>c. ss_link S t = Some c \<and> profile_service profile c = sid))"
proof -
  note ok = session_ok_reach [OF assms]
  have written: "cl_upcalls (cn_client (ss_clients S c)) = [] \<and> length (written_messages (cn_client (ss_clients S c))) \<le> 1" for c
    using unanswered_written(1,3) [OF session_okD(3) [OF ok, of c]] by simp
  have "ss_received S t \<le> 1" for t
    using session_okD(5,6) [OF ok, of t] written by (cases "ss_link S t") (auto simp: written_by_def intro: order_trans)
  moreover have "bin_handler (rn_server (ss_server S)) sid bin \<noteq> None \<longleftrightarrow>
      bin = kClientBin \<and> (\<exists>t c. ss_link S t = Some c \<and> 0 < ss_received S t \<and> profile_service profile c = sid)" for sid bin
    using session_okD(7) [OF ok, of sid bin] session_okD(8) [OF ok] by (fastforce simp del: not_None_eq)
  ultimately show ?thesis using written session_okD(7) [OF ok] by blast
qed

theorem session_registers_only_witness:
  "bin_handler (rn_server (ss_server exampleBoth)) 7 kClientBin = Some 0 \<and> ss_received exampleBoth 1 = 1 \<and>
   bin_handler (rn_server (ss_server exampleBoth)) 7 1 = None \<and> cl_upcalls (cn_client (ss_clients exampleBoth 1)) = []"
proof -
  have one: "(1 :: i64) \<noteq> kClientBin" by code_simp
  have "bin_handler (rn_server (ss_server exampleBoth)) 7 kClientBin = Some 0" "ss_received exampleBoth 1 = 1"
    by (code_simp, code_simp)
  then show ?thesis
    using session_registers_only [OF exampleBoth_reach [unfolded exampleOpen_def] clearFlags_clear] one by blast
qed

end
