(* ===== verification/Simulation.thy ===== *)
theory Simulation
  imports Types "HOL-Library.Multiset"
begin

text \<open>
  The generators and the mock bin that the placer's simulations use:
  \<open>placer/simulation/RandomTreeGenerator.h\<close>, \<open>placer/simulation/ShardGenerator.h\<close>,
  \<open>generateMetric\<close> of \<open>placer/utils/RandomGenerator.h\<close> and \<open>placer/utils/MockShardBin.h\<close>. The
  random source is a parameter: the \<open>k\<close>-th draw between two bounds. Times are 64-bit counts of
  the ticks of \<open>system_clock\<close>, nanoseconds.
\<close>

section \<open>Random assignments\<close>

type_synonym draws = "nat \<Rightarrow> int \<Rightarrow> int \<Rightarrow> int"

text \<open>A \<open>uniform_int_distribution<int>\<close> whose lower bound exceeds the upper one is outside its contract;
  one that is in it draws between its bounds.\<close>

definition uniform :: "draws \<Rightarrow> nat \<Rightarrow> int \<times> int \<Rightarrow> fault + int" where
  "uniform rnd k dist = (if fst dist \<le> snd dist then Inr (rnd k (fst dist) (snd dist)) else Inl BadDistribution)"

definition fair_draws :: "draws \<Rightarrow> bool" where
  "fair_draws rnd \<longleftrightarrow> (\<forall>k lo hi. lo \<le> hi \<longrightarrow> lo \<le> rnd k lo hi \<and> rnd k lo hi \<le> hi)"

text \<open>The row of a bin: one draw per domain.\<close>

fun drawRow :: "draws \<Rightarrow> nat \<Rightarrow> nat list \<Rightarrow> fault + DomainId list" where
  "drawRow rnd k [] = Inr []"
| "drawRow rnd k (domainSize # sizes) =
     rbind (uniform rnd k (1, int domainSize - 1)) (\<lambda>d. rbind (drawRow rnd (Suc k) sizes) (\<lambda>row. Inr (nat d # row)))"

definition mapBinsToDomainsRandom :: "draws \<Rightarrow> nat list \<Rightarrow> nat \<Rightarrow> fault + DomainId list list" where
  "mapBinsToDomainsRandom rnd domainSizes numBins =
     (let start = (replicate (numBins + 1) [])[0 := replicate kDefaultBin (length domainSizes)] in
      rfold (\<lambda>binId mapping.
          rbind (drawRow rnd ((binId - 1) * length domainSizes) domainSizes) (\<lambda>row. Inr (mapping[binId := row])))
        [1..<numBins + 1] start)"

definition appendAt :: "nat \<Rightarrow> 'a \<Rightarrow> 'a list list \<Rightarrow> 'a list list" where
  "appendAt i x rows = rows[i := rows ! i @ [x]]"

definition mapShardsToBinsRandom :: "draws \<Rightarrow> nat \<Rightarrow> nat \<Rightarrow> bool \<Rightarrow> fault + DomainId list list" where
  "mapShardsToBinsRandom rnd numBins numShards mapEmptyBin =
     (let startingBin = (if mapEmptyBin then 0 else 1) in
      rfold (\<lambda>shardId mapping.
          rbind (uniform rnd shardId (startingBin, int numBins)) (\<lambda>binId. Inr (appendAt (nat binId) shardId mapping)))
        [0..<numShards] (replicate (numBins + 1) []))"

definition mapShardsToBinsEmpty :: "nat \<Rightarrow> nat \<Rightarrow> DomainId list list" where
  "mapShardsToBinsEmpty numBins numShards =
     fold (appendAt kDefaultBin) [0..<numShards] (replicate (numBins + 1) [])"

text \<open>The vector is created with \<open>size\<close> zeros and the draws are appended to them.\<close>

definition generateMetric :: "(nat \<Rightarrow> nat) \<Rightarrow> nat \<Rightarrow> int list" where
  "generateMetric generator n = replicate n 0 @ map (\<lambda>i. int (generator i mod 101)) [0..<n]"

text \<open>The type of the generated elements is declared nowhere; its constructor is a parameter.\<close>

definition generateMappedShards :: "(nat \<Rightarrow> 'a) \<Rightarrow> nat \<Rightarrow> nat \<Rightarrow> 'a list" where
  "generateMappedShards mappedShardInfo numShardRanges numReplicas =
     concat (map (\<lambda>rangeId. map (\<lambda>replicaId. mappedShardInfo rangeId) [0..<numReplicas]) [0..<numShardRanges])"

section \<open>The mock bin\<close>

definition kTicksPerSecond :: i64 where
  "kTicksPerSecond = 1000000000"

record mock_bin =
  mb_dropTime :: i64
  mb_addTime :: i64
  mb_schedule :: "(32 word, i64 \<times> i64) hmap"

definition newMockShardBin :: "i64 \<Rightarrow> i64 \<Rightarrow> mock_bin" where
  "newMockShardBin dropTime addTime = \<lparr>mb_dropTime = dropTime, mb_addTime = addTime, mb_schedule = []\<rparr>"

definition addShard :: "i64 \<Rightarrow> 32 word \<Rightarrow> mock_bin \<Rightarrow> mock_bin" where
  "addShard now shardId b =
     b\<lparr>mb_schedule := hm_set shardId
         (now + mb_addTime b * kTicksPerSecond, 9223372036854775807 * kTicksPerSecond) (mb_schedule b)\<rparr>"

definition dropShard :: "i64 \<Rightarrow> 32 word \<Rightarrow> mock_bin \<Rightarrow> mock_bin" where
  "dropShard now shardId b =
     b\<lparr>mb_schedule := hm_set shardId
         (fst (hm_get (0, 0) (mb_schedule b) shardId), now + mb_dropTime b * kTicksPerSecond) (mb_schedule b)\<rparr>"

definition getActiveShards :: "i64 \<Rightarrow> mock_bin \<Rightarrow> 32 word list \<times> mock_bin" where
  "getActiveShards now b =
     (let kept = filter (\<lambda>(_, _, dropped). \<not> dropped <s now) (mb_schedule b) in
      (map fst (filter (\<lambda>(_, added, _). now \<le>s added) kept), b\<lparr>mb_schedule := kept\<rparr>))"

section \<open>Every shard in one bin\<close>

lemma mset_appendAt: "i < length rows \<Longrightarrow> mset (concat (appendAt i x rows)) = add_mset x (mset (concat rows))"
proof -
  assume i: "i < length rows"
  have "mset (concat rows) = mset (concat (take i rows)) + mset (rows ! i) + mset (concat (drop (Suc i) rows))"
    using id_take_nth_drop [OF i] by (metis concat.simps(2) concat_append mset_append union_assoc)
  then show ?thesis
    using i by (simp add: appendAt_def upd_conv_take_nth_drop)
qed

lemma length_appendAt [simp]: "length (appendAt i x rows) = length rows"
  by (simp add: appendAt_def)

lemma nth_appendAt: "i \<noteq> j \<Longrightarrow> appendAt i x rows ! j = rows ! j"
  by (simp add: appendAt_def)

lemma fold_appendAt:
  "i < length rows \<Longrightarrow> mset (concat (fold (appendAt i) xs rows)) = mset (concat rows) + mset xs \<and>
   length (fold (appendAt i) xs rows) = length rows"
  by (induction xs arbitrary: rows) (simp_all add: mset_appendAt)

lemma concat_replicate_Nil: "concat (replicate n []) = []"
  by (induction n) auto

text \<open>The row of the null bin is built with the number of elements and the value exchanged, so it is
  empty instead of a row of null domains.\<close>

lemma null_bin_unmapped:
  assumes "mapBinsToDomainsRandom rnd domainSizes numBins = Inr rows"
  shows "rows ! 0 = []"
proof (rule rfold_invariant [OF assms [unfolded mapBinsToDomainsRandom_def Let_def], of "\<lambda>rows. rows ! 0 = []"])
  show "(replicate (numBins + 1) [])[0 := replicate kDefaultBin (length domainSizes)] ! 0 = []"
    by (simp add: kDefaultBin_def)
  fix x s s'
  assume "x \<in> set [1..<numBins + 1]" and "s ! 0 = ([] :: DomainId list)"
    and "rbind (drawRow rnd ((x - 1) * length domainSizes) domainSizes) (\<lambda>row. Inr (s[x := row])) = Inr s'"
  then show "s' ! 0 = []" by (auto simp: res_simps)
qed

section \<open>Properties\<close>

text \<open>C29: Random assignment of shards to bins: when a fair source has a bin to draw, it returns one
  row per bin and the null bin, and puts every shard into exactly one row; the null bin stays
  empty unless it was asked for.\<close>

theorem random_shards_partitioned:
  assumes "fair_draws rnd" and "0 < numBins \<or> mapEmptyBin"
  shows "\<exists>rows. mapShardsToBinsRandom rnd numBins numShards mapEmptyBin = Inr rows \<and> length rows = numBins + 1 \<and>
    mset (concat rows) = mset [0..<numShards] \<and> (mapEmptyBin \<or> rows ! 0 = [])"
proof (induction numShards)
  case 0
  then show ?case by (simp add: mapShardsToBinsRandom_def concat_replicate_Nil)
next
  case (Suc n)
  then obtain rows where rows: "mapShardsToBinsRandom rnd numBins n mapEmptyBin = Inr rows" "length rows = numBins + 1"
    "mset (concat rows) = mset [0..<n]" "mapEmptyBin \<or> rows ! 0 = []" by blast
  let ?lo = "if mapEmptyBin then 0 else 1 :: int"
  have le: "?lo \<le> int numBins" using assms(2) by auto
  then have d: "?lo \<le> rnd n ?lo (int numBins)" "rnd n ?lo (int numBins) \<le> int numBins"
    using assms(1) by (auto simp: fair_draws_def)
  let ?b = "nat (rnd n ?lo (int numBins))"
  have b: "?b < length rows" "mapEmptyBin \<or> ?b \<noteq> 0" using d rows(2) by auto
  have "mapShardsToBinsRandom rnd numBins (Suc n) mapEmptyBin = Inr (appendAt ?b n rows)"
    using rows(1) le by (simp add: mapShardsToBinsRandom_def rfold_append uniform_def Let_def)
  then show ?case
    using rows b mset_appendAt [OF b(1), of n] nth_appendAt [of ?b 0 n rows] by auto
qed

theorem random_shards_partitioned_witness:
  "\<exists>rows. mapShardsToBinsRandom (\<lambda>k lo hi. lo + int k mod (hi - lo + 1)) 2 5 False = Inr rows \<and>
     rows = [[], [0, 2, 4], [1, 3]] \<and> mset (concat rows) = mset [0..<5]"
proof -
  have fair: "fair_draws (\<lambda>k lo hi. lo + int k mod (hi - lo + 1))" unfolding fair_draws_def
  proof (intro allI impI)
    fix k :: nat and lo hi :: int
    assume "lo \<le> hi"
    then show "lo \<le> lo + int k mod (hi - lo + 1) \<and> lo + int k mod (hi - lo + 1) \<le> hi"
      using pos_mod_bound [of "hi - lo + 1" "int k"] pos_mod_sign [of "hi - lo + 1" "int k"] by simp
  qed
  have "mapShardsToBinsRandom (\<lambda>k lo hi. lo + int k mod (hi - lo + 1)) 2 5 False = Inr [[], [0, 2, 4], [1, 3]]"
    by code_simp
  then show ?thesis using random_shards_partitioned [OF fair, of 2 False 5] by simp
qed

text \<open>A shard added to a mock bin is gone at once: the largest \<open>time_t\<close> in ticks wraps around to one
  second before the epoch, so at any time from the epoch on the next look at the bin erases the shard
  and does not list it.\<close>

theorem mock_shard_vanishes:
  assumes "0 \<le>s now" and "hm_distinct (mb_schedule b)"
  shows "shardId \<notin> set (fst (getActiveShards now (addShard t shardId b))) \<and>
    hm_find (mb_schedule (snd (getActiveShards now (addShard t shardId b)))) shardId = None"
proof -
  let ?s = "hm_set shardId (t + mb_addTime b * kTicksPerSecond, 9223372036854775807 * kTicksPerSecond) (mb_schedule b)"
  let ?kept = "filter (\<lambda>(_, _, dropped). \<not> dropped <s now) ?s"
  have "sint (9223372036854775807 * kTicksPerSecond) = - 1000000000" unfolding kTicksPerSecond_def by code_simp
  then have early: "9223372036854775807 * kTicksPerSecond <s now"
    using assms(1) by (simp add: word_sless_alt word_sle_eq)
  have "(shardId, v) \<in> set ?s \<Longrightarrow> v = (t + mb_addTime b * kTicksPerSecond, 9223372036854775807 * kTicksPerSecond)" for v
    using hm_distinct_set [OF assms(2), of shardId] hm_mem_iff [of ?s shardId v] by simp
  then have "(shardId, v) \<notin> set ?kept" for v using early by auto
  then have "shardId \<notin> fst ` set ?kept" by auto
  then show ?thesis
    by (auto simp: getActiveShards_def addShard_def Let_def map_of_eq_None_iff)
qed

theorem mock_shard_vanishes_witness:
  "fst (getActiveShards 50 (addShard 10 7 (newMockShardBin 5 5))) = []"
proof -
  have "0 \<le>s (50 :: i64)" by code_simp
  then have "7 \<notin> set (fst (getActiveShards 50 (addShard 10 7 (newMockShardBin 5 5))))"
    using mock_shard_vanishes [of 50 "newMockShardBin 5 5" 7 10] by (simp add: newMockShardBin_def)
  moreover have "length (fst (getActiveShards 50 (addShard 10 7 (newMockShardBin 5 5)))) = 0" by code_simp
  ultimately show ?thesis by simp
qed

end
