(* ===== verification/AsyncServer.thy ===== *)
theory AsyncServer
  imports Discovery "HOL-Library.Multiset"
begin

text \<open>
  The transport server \<open>server_utils/AsyncServer.h\<close>: one completion queue and one thread per I/O
  thread, each of which registers the service with its queue and then hands every event of
  the queue to the handler manager until the queue is shut down. The completion queues and
  the server of the RPC library are parameters: which queue an event comes from, whether the
  server could bind, and the order of the threads. The theory runs the server over the
  discovery service's manager.
\<close>

section \<open>The code\<close>

text \<open>A thread that has not started yet, one that waits in its loop, one that has left it.\<close>

datatype io_thread = STARTING | LOOPING | FINISHED

record async_server =
  as_serverAddress :: string
  as_numIoThreads :: nat
  as_completionQueues :: "nat list"
  as_queueShutdown :: "bool list"
  as_server :: "unit option"
  as_threads :: "io_thread list"

text \<open>\<open>addCompletionQueue\<close> is the address of the queue the builder makes at each call.\<close>

definition as_init :: "(nat \<Rightarrow> nat) \<Rightarrow> async_server \<Rightarrow> async_server" where
  "as_init addCompletionQueue s =
     (let queues = map addCompletionQueue [0..<as_numIoThreads s] in
      s\<lparr>as_completionQueues := as_completionQueues s @ queues,
        as_queueShutdown := as_queueShutdown s @ map (\<lambda>_. False) queues\<rparr>)"

definition newAsyncServer :: "(nat \<Rightarrow> nat) \<Rightarrow> nat \<Rightarrow> string \<Rightarrow> async_server" where
  "newAsyncServer addCompletionQueue numIoThreads serverAddress =
     as_init addCompletionQueue
       \<lparr>as_serverAddress = serverAddress, as_numIoThreads = numIoThreads, as_completionQueues = [],
        as_queueShutdown = [], as_server = None, as_threads = []\<rparr>"

text \<open>\<open>run\<close>: a server that cannot bind is reported and the threads are started all the same.\<close>

definition as_run :: "unit option \<Rightarrow> async_server \<Rightarrow> async_server" where
  "as_run buildAndStart s =
     s\<lparr>as_server := buildAndStart, as_threads := as_threads s @ replicate (as_numIoThreads s) STARTING\<rparr>"

text \<open>The destructor up to the join: the server is shut down, then each queue.\<close>

definition as_shutdown :: "async_server \<Rightarrow> fault + async_server" where
  "as_shutdown s =
     rbind (deref (as_server s)) (\<lambda>server. Inr (s\<lparr>as_queueShutdown := map (\<lambda>_. True) (as_queueShutdown s)\<rparr>))"

definition as_joined :: "async_server \<Rightarrow> bool" where
  "as_joined s \<longleftrightarrow> list_all (\<lambda>t. t = FINISHED) (as_threads s)"

text \<open>The handler manager a server is given, over any state of its own.\<close>

record ('tag, 'm) handler_manager =
  hm_registerService :: "nat \<Rightarrow> 'm \<Rightarrow> 'm"
  hm_process :: "'tag \<Rightarrow> bool \<Rightarrow> 'm \<Rightarrow> 'm"

text \<open>
  The steps of the threads. \<open>arrives queue tag ok m m'\<close> says that the queue delivers an event, and
  that the library has stored its outcome in \<open>m'\<close>. A queue that is shut down delivers the events
  it still has and then ends the loop.
\<close>

inductive io_step ::
    "('tag, 'm) handler_manager \<Rightarrow> (nat \<Rightarrow> 'tag \<Rightarrow> bool \<Rightarrow> 'm \<Rightarrow> 'm \<Rightarrow> bool) \<Rightarrow>
      async_server \<times> 'm \<Rightarrow> async_server \<times> 'm \<Rightarrow> bool" for mgr arrives where
  start: "i < length (as_threads s) \<Longrightarrow> as_threads s ! i = STARTING \<Longrightarrow> as_completionQueues s ! i = queue \<Longrightarrow>
    io_step mgr arrives (s, m) (s\<lparr>as_threads := (as_threads s)[i := LOOPING]\<rparr>, hm_registerService mgr queue m)"
| event: "i < length (as_threads s) \<Longrightarrow> as_threads s ! i = LOOPING \<Longrightarrow> as_completionQueues s ! i = queue \<Longrightarrow>
    arrives queue tag ok m m' \<Longrightarrow>
    io_step mgr arrives (s, m) (s, hm_process mgr tag ok m')"
| shutdown: "i < length (as_threads s) \<Longrightarrow> as_threads s ! i = LOOPING \<Longrightarrow> as_queueShutdown s ! i \<Longrightarrow>
    (\<And>tag ok m'. \<not> arrives (as_completionQueues s ! i) tag ok m m') \<Longrightarrow>
    io_step mgr arrives (s, m) (s\<lparr>as_threads := (as_threads s)[i := FINISHED]\<rparr>, m)"

inductive_cases io_stepE: "io_step mgr arrives sm sm'"

section \<open>What a server needs of a manager\<close>

text \<open>
  A manager keeps an invariant under both calls and records the queues it was registered
  with; then every run of a server keeps it, and each thread registers its queue once.
\<close>

definition started_queues :: "async_server \<Rightarrow> nat list" where
  "started_queues s = map fst (filter (\<lambda>p. snd p \<noteq> STARTING) (zip (as_completionQueues s) (as_threads s)))"

lemma started_update:
  assumes "length qs = length ts" "i < length ts" "ts ! i = STARTING" "t \<noteq> STARTING"
  shows "mset (map fst (filter (\<lambda>p. snd p \<noteq> STARTING) (zip qs (ts[i := t])))) =
    add_mset (qs ! i) (mset (map fst (filter (\<lambda>p. snd p \<noteq> STARTING) (zip qs ts))))"
  using assms
proof (induction qs ts arbitrary: i rule: list_induct2)
  case (Cons q qs u ts)
  then show ?case by (cases i) auto
qed simp

lemma started_same:
  assumes "i < length ts" "ts ! i \<noteq> STARTING" "t \<noteq> STARTING" "length qs = length ts"
  shows "map fst (filter (\<lambda>p. snd p \<noteq> STARTING) (zip qs (ts[i := t]))) =
    map fst (filter (\<lambda>p. snd p \<noteq> STARTING) (zip qs ts))"
  using assms(4,1-3)
proof (induction qs ts arbitrary: i rule: list_induct2)
  case (Cons q qs u ts)
  then show ?case by (cases i) auto
qed simp

locale managed_service =
  fixes mgr :: "('tag, 'm) handler_manager"
    and arrives :: "nat \<Rightarrow> 'tag \<Rightarrow> bool \<Rightarrow> 'm \<Rightarrow> 'm \<Rightarrow> bool"
    and inv :: "'m \<Rightarrow> bool"
    and registered :: "'m \<Rightarrow> nat list"
  assumes register_inv: "inv m \<Longrightarrow> inv (hm_registerService mgr q m)"
    and registers: "registered (hm_registerService mgr q m) = registered m @ [q]"
    and process_inv: "inv m \<Longrightarrow> arrives q tag ok m m' \<Longrightarrow> inv (hm_process mgr tag ok m')"
    and processes: "arrives q tag ok m m' \<Longrightarrow> registered (hm_process mgr tag ok m') = registered m"
begin

lemma io_step_inv:
  assumes "io_step mgr arrives sm sm'" "inv (snd sm)"
    and "length (as_completionQueues (fst sm)) = length (as_threads (fst sm))"
    and "mset (registered (snd sm)) = mset (started_queues (fst sm))"
  shows "inv (snd sm')" "length (as_completionQueues (fst sm')) = length (as_threads (fst sm'))"
    "mset (registered (snd sm')) = mset (started_queues (fst sm'))"
    "as_completionQueues (fst sm') = as_completionQueues (fst sm)"
  using assms
  by (induction rule: io_step.induct)
    (auto simp: register_inv registers processes started_queues_def started_update started_same
        simp del: mset_map mset_filter intro: process_inv)

lemma run_inv:
  assumes "(io_step mgr arrives)\<^sup>*\<^sup>* sm sm'" "inv (snd sm)"
    and "length (as_completionQueues (fst sm)) = length (as_threads (fst sm))"
    and "mset (registered (snd sm)) = mset (started_queues (fst sm))"
  shows "inv (snd sm') \<and> length (as_completionQueues (fst sm')) = length (as_threads (fst sm')) \<and>
    mset (registered (snd sm')) = mset (started_queues (fst sm')) \<and>
    as_completionQueues (fst sm') = as_completionQueues (fst sm)"
  using assms
proof (induction rule: rtranclp_induct)
  case (step y z)
  then show ?case using io_step_inv [OF step.hyps(2)] by metis
qed simp

end

section \<open>The discovery server\<close>

text \<open>A completed read has its message stored before the queue delivers it.\<close>

definition storeOutcome :: "nat \<Rightarrow> operation \<Rightarrow> bool \<Rightarrow> client_message \<Rightarrow> server_run \<Rightarrow> server_run" where
  "storeOutcome t op ok m r =
     r\<lparr>rn_server := if op = READ \<and> ok then deliver t m (rn_server r) else rn_server r\<rparr>"

definition discovery_arrives :: "nat \<Rightarrow> nat \<times> operation \<Rightarrow> bool \<Rightarrow> server_run \<Rightarrow> server_run \<Rightarrow> bool" where
  "discovery_arrives q tag ok r r' \<longleftrightarrow>
     outstanding (fst tag) (snd tag) r \<and> hd_completionQueue (sv_heap (rn_server r) (fst tag)) = q \<and>
     (\<exists>m. r' = storeOutcome (fst tag) (snd tag) ok m r)"

definition discovery_process :: "initial_flags \<Rightarrow> nat \<times> operation \<Rightarrow> bool \<Rightarrow> server_run \<Rightarrow> server_run" where
  "discovery_process fl tag ok r =
     r\<lparr>rn_server := manager_process fl (getOpTag (fst tag) (snd tag)) ok (rn_server r),
       rn_done := (rn_done r)(fst tag := (rn_done r (fst tag))(snd tag := Suc (rn_done r (fst tag) (snd tag)))),
       rn_failed := rn_failed r + (if snd tag = CONNECT \<and> \<not> ok then 1 else 0)\<rparr>"

definition discovery_manager :: "initial_flags \<Rightarrow> (nat \<times> operation, server_run) handler_manager" where
  "discovery_manager fl = \<lparr>hm_registerService = registerThread fl, hm_process = discovery_process fl\<rparr>"

lemma process_completes:
  "hm_process (discovery_manager fl) (t, op) ok (storeOutcome t op ok m r) = completeCall fl t op ok m r"
  by (simp add: discovery_manager_def discovery_process_def storeOutcome_def completeCall_def Let_def)

text \<open>Every event the server handles is a step of the runs of the manager.\<close>

lemma arrival_step:
  assumes "discovery_arrives q tag ok r r'"
  shows "completion_step fl r (hm_process (discovery_manager fl) tag ok r')"
proof -
  obtain t op where tag: "tag = (t, op)" by (cases tag)
  obtain m where "outstanding t op r" "r' = storeOutcome t op ok m r"
    using assms by (auto simp: discovery_arrives_def tag)
  then show ?thesis unfolding tag by (simp only: process_completes) (rule completion_step.completion)
qed

interpretation discovery: managed_service "discovery_manager fl" discovery_arrives
  "server_reach fl heap q0" rn_queues for fl heap q0
proof
  show "server_reach fl heap q0 m \<Longrightarrow> server_reach fl heap q0 (hm_registerService (discovery_manager fl) q m)" for m q
    by (simp add: discovery_manager_def) (rule rtranclp.rtrancl_into_rtrancl, assumption, rule server_step.thread)
  show "rn_queues (hm_registerService (discovery_manager fl) q m) = rn_queues m @ [q]" for q m
    by (simp add: discovery_manager_def registerThread_def)
  show "server_reach fl heap q0 m \<Longrightarrow> discovery_arrives q tag ok m m' \<Longrightarrow>
      server_reach fl heap q0 (hm_process (discovery_manager fl) tag ok m')" for m q tag ok m'
    using arrival_step server_step.completion by (meson rtranclp.rtrancl_into_rtrancl)
  show "rn_queues (hm_process (discovery_manager fl) tag ok m') = rn_queues m"
    if "discovery_arrives q tag ok m m'" for q tag ok m m'
    using that by (auto simp: discovery_arrives_def discovery_manager_def discovery_process_def storeOutcome_def)
qed

abbreviation discovery_io :: "initial_flags \<Rightarrow> async_server \<times> server_run \<Rightarrow> async_server \<times> server_run \<Rightarrow> bool" where
  "discovery_io fl \<equiv> io_step (discovery_manager fl) discovery_arrives"

definition started_server :: "(nat \<Rightarrow> nat) \<Rightarrow> nat \<Rightarrow> string \<Rightarrow> unit option \<Rightarrow> async_server" where
  "started_server addQueue n address bound = as_run bound (newAsyncServer addQueue n address)"

lemma started_server_simps:
  "as_completionQueues (started_server f n a b) = map f [0..<n]"
  "as_threads (started_server f n a b) = replicate n STARTING"
  by (simp_all add: started_server_def as_run_def newAsyncServer_def as_init_def Let_def)

lemma started_none: "started_queues (started_server f n a b) = []"
proof -
  have "filter (\<lambda>p. snd p \<noteq> STARTING) (zip qs (replicate n STARTING)) = []" for qs :: "nat list"
    by (auto simp: filter_empty_conv dest: set_zip_rightD)
  then show ?thesis by (simp add: started_queues_def started_server_simps)
qed

lemma discovery_run:
  assumes "(discovery_io fl)\<^sup>*\<^sup>* (started_server f n a b, server_start heap q0) (s, r)"
  shows "server_reach fl heap q0 r \<and> length (as_threads s) = n \<and> as_completionQueues s = map f [0..<n] \<and>
    mset (rn_queues r) = mset (started_queues s)"
proof -
  have "rn_queues (server_start heap q0) = []" by (simp add: server_start_def)
  then have start: "mset (rn_queues (snd (started_server f n a b, server_start heap q0))) =
      mset (started_queues (fst (started_server f n a b, server_start heap q0)))" by (simp add: started_none)
  have len: "length (as_completionQueues (fst (started_server f n a b, server_start heap q0))) =
      length (as_threads (fst (started_server f n a b, server_start heap q0)))" by (simp add: started_server_simps)
  have init: "server_reach fl heap q0 (snd (started_server f n a b, server_start heap q0))" by simp
  note run = discovery.run_inv [OF assms init len start, simplified]
  then have queues: "as_completionQueues s = map f [0..<n]" by (simp add: started_server_simps)
  then have "length (as_completionQueues s) = n" by simp
  then show ?thesis using run queues by metis
qed

lemma started_count: "length (as_completionQueues s) = length (as_threads s) \<Longrightarrow>
    length (started_queues s) = length (filter (\<lambda>t. t \<noteq> STARTING) (as_threads s))"
proof -
  assume len: "length (as_completionQueues s) = length (as_threads s)"
  have "length (filter (\<lambda>p. snd p \<noteq> STARTING) (zip qs ts)) = length (filter (\<lambda>t. t \<noteq> STARTING) ts)"
    if "length qs = length ts" for qs :: "nat list" and ts
    using that by (induction qs ts rule: list_induct2) auto
  with len show ?thesis by (simp add: started_queues_def)
qed

text \<open>Once every thread has started, the server does nothing to the manager but completions.\<close>

lemma started_step:
  assumes "discovery_io fl sm sm'" "\<forall>t \<in> set (as_threads (fst sm)). t \<noteq> STARTING"
  shows "(\<forall>t \<in> set (as_threads (fst sm')). t \<noteq> STARTING) \<and> (completion_step fl)\<^sup>*\<^sup>* (snd sm) (snd sm')"
  using assms
proof (induction rule: io_step.induct)
  case (start i s queue m)
  then show ?case using nth_mem by fastforce
next
  case (event i s queue tag ok m m')
  then show ?case using arrival_step [OF event.hyps(4)] by auto
next
  case (shutdown i s m)
  then show ?case by (auto dest!: set_update_subset_insert [THEN subsetD])
qed

lemma started_run:
  assumes "(discovery_io fl)\<^sup>*\<^sup>* sm sm'" "\<forall>t \<in> set (as_threads (fst sm)). t \<noteq> STARTING"
  shows "(\<forall>t \<in> set (as_threads (fst sm')). t \<noteq> STARTING) \<and> (completion_step fl)\<^sup>*\<^sup>* (snd sm) (snd sm')"
  using assms
proof (induction rule: rtranclp_induct)
  case (step y z)
  then show ?case using started_step [OF step.hyps(2)] by (meson rtranclp_trans)
qed simp

section \<open>Binding and shutting down\<close>

text \<open>A server that could not bind is not noticed before its destructor, which reads it.\<close>

lemma unbound_server_faults: "as_shutdown (started_server f n a None) = Inl NullDeref"
  by (simp add: as_shutdown_def started_server_def as_run_def)

lemma shutdown_after_run:
  "\<exists>s. as_shutdown (started_server f n a (Some ())) = Inr s \<and> as_queueShutdown s = replicate n True \<and>
     as_threads s = replicate n STARTING"
  by (simp add: as_shutdown_def started_server_def as_run_def newAsyncServer_def as_init_def Let_def map_replicate_const)

text \<open>After the shutdown the threads are never stuck: until they are joined one of them has a step.\<close>

lemma shutdown_progress:
  assumes "length (as_queueShutdown s) = length (as_threads s)" "\<forall>b \<in> set (as_queueShutdown s). b" "\<not> as_joined s"
  shows "\<exists>sm'. io_step mgr arrives (s, m) sm'"
proof -
  obtain i where i: "i < length (as_threads s)" "as_threads s ! i \<noteq> FINISHED"
    using assms(3) by (auto simp: as_joined_def list_all_length)
  show ?thesis
  proof (cases "as_threads s ! i")
    case STARTING
    show ?thesis by (rule exI) (rule io_step.start [OF i(1) STARTING refl])
  next
    case LOOPING
    show ?thesis
    proof (cases "\<exists>tag ok m'. arrives (as_completionQueues s ! i) tag ok m m'")
      case True
      then obtain tag ok m' where "arrives (as_completionQueues s ! i) tag ok m m'" by blast
      then show ?thesis by (intro exI) (rule io_step.event [OF i(1) LOOPING refl])
    next
      case False
      have "as_queueShutdown s ! i" using assms(1,2) i(1) nth_mem [of i "as_queueShutdown s"] by auto
      moreover have "\<not> arrives (as_completionQueues s ! i) tag ok m m'" for tag ok m' using False by blast
      ultimately show ?thesis by (intro exI) (rule io_step.shutdown [OF i(1) LOOPING])
    qed
  qed (use i in simp)
qed

section \<open>Properties\<close>

text \<open>C33: In every run of the server over the discovery manager, whatever the order of its threads and
  of the events of their queues, the handlers that wait for a connection and the connections
  that failed are together as many as the threads that have started.\<close>

theorem server_waits_per_thread:
  assumes "(discovery_io fl)\<^sup>*\<^sup>* (started_server f n a b, server_start heap q0) (s, r)" and "clear_flags fl"
  shows "card (waiting r) + rn_failed r = length (filter (\<lambda>t. t \<noteq> STARTING) (as_threads s))"
proof -
  have run: "server_reach fl heap q0 r" "length (as_completionQueues s) = length (as_threads s)"
    "mset (rn_queues r) = mset (started_queues s)"
    using discovery_run [OF assms(1)] by simp_all
  then show ?thesis
    using waiting_handlers [OF run(1) assms(2)] started_count [OF run(2)] by (metis size_mset)
qed

text \<open>C34: With several threads only one of them gets connections in the end: once all threads have
  started, a queue other than the one that registered last never gets a new handler, whatever
  the threads do.\<close>

theorem one_thread_serves:
  assumes "(discovery_io fl)\<^sup>*\<^sup>* (started_server f n a b, server_start heap q0) (s, r)" and "clear_flags fl"
    and "\<forall>t \<in> set (as_threads s). t \<noteq> STARTING" and "(discovery_io fl)\<^sup>*\<^sup>* (s, r) (s', r')"
    and "q \<noteq> sv_completionQueue (rn_server r)"
  shows "waiting_on q r' \<subseteq> waiting_on q r"
proof -
  have "server_reach fl heap q0 r" using discovery_run [OF assms(1)] by simp
  moreover have "(completion_step fl)\<^sup>*\<^sup>* r r'" using started_run [OF assms(4)] assms(3) by simp
  ultimately show ?thesis by (rule earlier_queues_starve [OF _ assms(2) _ assms(5)])
qed

text \<open>Two threads start, and the first one accepts a connection.\<close>

definition exampleAsync :: async_server where
  "exampleAsync = started_server (\<lambda>i. i + 1) 2 ''localhost'' (Some ())"

definition exampleLooping :: async_server where
  "exampleLooping = exampleAsync\<lparr>as_threads := [LOOPING, LOOPING]\<rparr>"

lemma exampleLooping_run:
  "(discovery_io clearFlags)\<^sup>*\<^sup>* (exampleAsync, exampleStart) (exampleLooping, exampleThreads)"
proof -
  have threads: "as_threads exampleAsync = [STARTING, STARTING]" "as_completionQueues exampleAsync = [1, 2]"
    by (simp_all add: exampleAsync_def started_server_simps numeral_eq_Suc)
  let ?s = "exampleAsync\<lparr>as_threads := [LOOPING, STARTING]\<rparr>"
  have "discovery_io clearFlags (exampleAsync, exampleStart)
      (exampleAsync\<lparr>as_threads := (as_threads exampleAsync)[0 := LOOPING]\<rparr>, hm_registerService (discovery_manager clearFlags) 1 exampleStart)"
    by (rule io_step.start) (simp_all add: threads)
  then have "discovery_io clearFlags (exampleAsync, exampleStart) (?s, registerThread clearFlags 1 exampleStart)"
    by (simp add: threads discovery_manager_def)
  moreover have "discovery_io clearFlags (?s, registerThread clearFlags 1 exampleStart)
      (?s\<lparr>as_threads := (as_threads ?s)[1 := LOOPING]\<rparr>,
        hm_registerService (discovery_manager clearFlags) 2 (registerThread clearFlags 1 exampleStart))"
    by (rule io_step.start) (simp_all add: threads)
  then have "discovery_io clearFlags (?s, registerThread clearFlags 1 exampleStart) (exampleLooping, exampleThreads)"
    by (simp add: exampleLooping_def exampleThreads_def discovery_manager_def)
  ultimately show ?thesis by (meson converse_rtranclp_into_rtranclp r_into_rtranclp)
qed

lemma exampleConnected_run:
  "(discovery_io clearFlags)\<^sup>*\<^sup>* (exampleLooping, exampleThreads) (exampleLooping, exampleConnected)"
proof -
  have threads: "as_threads exampleLooping = [LOOPING, LOOPING]" "as_completionQueues exampleLooping = [1, 2]"
    by (simp_all add: exampleLooping_def exampleAsync_def started_server_simps numeral_eq_Suc)
  have "outstanding 0 CONNECT exampleThreads" "hd_completionQueue (sv_heap (rn_server exampleThreads) 0) = 1"
    by (code_simp, code_simp)
  then have "discovery_arrives 1 (0, CONNECT) True exampleThreads (storeOutcome 0 CONNECT True ClientMessageNotSet exampleThreads)"
    by (auto simp: discovery_arrives_def)
  then have "discovery_io clearFlags (exampleLooping, exampleThreads)
      (exampleLooping, hm_process (discovery_manager clearFlags) (0, CONNECT) True (storeOutcome 0 CONNECT True ClientMessageNotSet exampleThreads))"
    by (intro io_step.event [where i = 0 and queue = 1]) (simp_all add: threads)
  then show ?thesis unfolding process_completes exampleConnected_def by (rule r_into_rtranclp)
qed

theorem server_waits_per_thread_witness:
  "card (waiting exampleConnected) + rn_failed exampleConnected = 2"
proof -
  have run: "(discovery_io clearFlags)\<^sup>*\<^sup>*
      (started_server (\<lambda>i. i + 1) 2 ''localhost'' (Some ()), server_start (\<lambda>_. newRequestHandler clearFlags 0) 0)
      (exampleLooping, exampleConnected)"
    using rtranclp_trans [OF exampleLooping_run exampleConnected_run] unfolding exampleAsync_def exampleStart_def .
  show ?thesis using server_waits_per_thread [OF run clearFlags_clear] by (simp add: exampleLooping_def)
qed

theorem one_thread_serves_witness:
  "waiting_on 1 exampleConnected \<subseteq> waiting_on 1 exampleThreads"
proof -
  have run: "(discovery_io clearFlags)\<^sup>*\<^sup>*
      (started_server (\<lambda>i. i + 1) 2 ''localhost'' (Some ()), server_start (\<lambda>_. newRequestHandler clearFlags 0) 0)
      (exampleLooping, exampleThreads)"
    using exampleLooping_run unfolding exampleAsync_def exampleStart_def .
  have "(1 :: nat) \<noteq> sv_completionQueue (rn_server exampleThreads)" by code_simp
  then show ?thesis
    using one_thread_serves [OF run clearFlags_clear _ exampleConnected_run] by (simp add: exampleLooping_def)
qed

end
