(* ===== verification/BitWords.thy ===== *)
theory BitWords
  imports Prelude
begin

unbundle bit_operations_syntax

text \<open>
  The operations on single words of \<open>ortools/util/bitset.h\<close>, which is shipped with the
  solver's headers: masks and intervals, bit counts, and the position of the lowest and the
  highest bit, by the compiler's built-in, by a de Bruijn sequence and by halving. The theory
  shows that the variants agree. A shift by the width of the word or more, undefined in
  C++, does not occur in a result that is used.
\<close>

type_synonym u32 = "32 word"

section \<open>Masks\<close>

definition kAllBits64 :: u64 where
  "kAllBits64 = 0xFFFFFFFFFFFFFFFF"

definition kAllBitsButLsb64 :: u64 where
  "kAllBitsButLsb64 = 0xFFFFFFFFFFFFFFFE"

definition kAllBits32 :: u32 where
  "kAllBits32 = 0xFFFFFFFF"

definition OneBit64 :: "nat \<Rightarrow> u64" where
  "OneBit64 pos = push_bit pos 1"

definition OneBit32 :: "nat \<Rightarrow> u32" where
  "OneBit32 pos = push_bit pos 1"

definition LeastSignificantBitWord64 :: "u64 \<Rightarrow> u64" where
  "LeastSignificantBitWord64 n = n AND NOT (n - 1)"

definition LeastSignificantBitWord32 :: "u32 \<Rightarrow> u32" where
  "LeastSignificantBitWord32 n = n AND NOT (n - 1)"

definition OneRange64 :: "nat \<Rightarrow> nat \<Rightarrow> u64" where
  "OneRange64 s e = push_bit s kAllBits64 XOR push_bit e (kAllBits64 - 1)"

definition OneRange32 :: "nat \<Rightarrow> nat \<Rightarrow> u32" where
  "OneRange32 s e = push_bit s kAllBits32 XOR push_bit e (kAllBits32 - 1)"

definition IntervalUp64 :: "nat \<Rightarrow> u64" where
  "IntervalUp64 s = push_bit s kAllBits64"

definition IntervalUp32 :: "nat \<Rightarrow> u32" where
  "IntervalUp32 s = push_bit s kAllBits32"

definition IntervalDown64 :: "nat \<Rightarrow> u64" where
  "IntervalDown64 s = drop_bit (63 - s) kAllBits64"

definition IntervalDown32 :: "nat \<Rightarrow> u32" where
  "IntervalDown32 s = drop_bit (31 - s) kAllBits32"

definition TwoBitsFromPos64 :: "u64 \<Rightarrow> u64" where
  "TwoBitsFromPos64 pos = push_bit (unat (pos AND 62)) 3"

section \<open>Positions in an array of words\<close>

definition BitPos64 :: "u64 \<Rightarrow> u32" where
  "BitPos64 pos = ucast (pos AND 63)"

definition BitPos32 :: "u32 \<Rightarrow> u32" where
  "BitPos32 pos = pos AND 31"

definition BitOffset64 :: "u64 \<Rightarrow> u64" where
  "BitOffset64 pos = drop_bit 6 pos"

definition BitOffset32 :: "u32 \<Rightarrow> u32" where
  "BitOffset32 pos = drop_bit 5 pos"

definition BitLength64 :: "u64 \<Rightarrow> u64" where
  "BitLength64 n = drop_bit 6 (n + 63)"

definition BitLength32 :: "u32 \<Rightarrow> u32" where
  "BitLength32 n = drop_bit 5 (n + 31)"

definition BitShift64 :: "u64 \<Rightarrow> u64" where
  "BitShift64 v = push_bit 6 v"

definition BitShift32 :: "u32 \<Rightarrow> u32" where
  "BitShift32 v = push_bit 5 v"

section \<open>Counting\<close>

definition BitCount64 :: "u64 \<Rightarrow> u64" where
  "BitCount64 n =
     (let m1 = 0x5555555555555555; m2 = 0x3333333333333333; m4 = 0x0F0F0F0F0F0F0F0F; h01 = 0x0101010101010101;
          n = n - (drop_bit 1 n AND m1);
          n = (n AND m2) + (drop_bit 2 n AND m2);
          n = (n + drop_bit 4 n) AND m4
      in drop_bit 56 (n * h01))"

definition BitCount32 :: "u32 \<Rightarrow> u32" where
  "BitCount32 n =
     (let n = n - (drop_bit 1 n AND 0x55555555);
          n = (n AND 0x33333333) + (drop_bit 2 n AND 0x33333333);
          n = (n + drop_bit 4 n) AND 0x0F0F0F0F;
          n = n + drop_bit 8 n;
          n = n + drop_bit 16 n
      in n AND 0x3F)"

section \<open>Scanning\<close>

text \<open>The built-ins of the compiler: the number of zero bits below the lowest and above the highest
  bit that is set.\<close>

definition builtin_ctz :: "'a::len word \<Rightarrow> nat" where
  "builtin_ctz n = length (takeWhile (\<lambda>i. \<not> bit n i) [0..<LENGTH('a)])"

definition builtin_clz :: "'a::len word \<Rightarrow> nat" where
  "builtin_clz n = length (takeWhile (\<lambda>i. \<not> bit n i) (rev [0..<LENGTH('a)]))"

definition LeastSignificantBitPosition64Fast :: "u64 \<Rightarrow> nat" where
  "LeastSignificantBitPosition64Fast n = builtin_ctz n"

definition LeastSignificantBitPosition32Fast :: "u32 \<Rightarrow> nat" where
  "LeastSignificantBitPosition32Fast n = builtin_ctz (ucast n :: u64)"

definition MostSignificantBitPosition64Fast :: "u64 \<Rightarrow> nat" where
  "MostSignificantBitPosition64Fast n =
     (let offset = builtin_clz (1 :: u64) in if n = 0 then 0 else offset - builtin_clz n)"

definition MostSignificantBitPosition32Fast :: "u32 \<Rightarrow> nat" where
  "MostSignificantBitPosition32Fast n =
     (let offset = builtin_clz (1 :: u64) in if n = 0 then 0 else offset - builtin_clz (ucast n :: u64))"

definition kTab64 :: "nat list" where
  "kTab64 = [0,  1,  2,  7,  3,  13, 8,  19, 4,  25, 14, 28, 9,  52, 20, 58,
     5,  17, 26, 56, 15, 38, 29, 40, 10, 49, 53, 31, 21, 34, 59, 42,
     63, 6,  12, 18, 24, 27, 51, 57, 16, 55, 37, 39, 48, 30, 33, 41,
     62, 11, 23, 50, 54, 36, 47, 32, 61, 22, 35, 46, 60, 45, 44, 43]"

definition LeastSignificantBitPosition64DeBruijn :: "u64 \<Rightarrow> nat" where
  "LeastSignificantBitPosition64DeBruijn n =
     kTab64 ! unat (drop_bit 58 ((n AND (NOT n + 1)) * 0x0218a392dd5fb34f))"

definition kTab32 :: "nat list" where
  "kTab32 = [0,  1,  28, 2,  29, 14, 24, 3,  30, 22, 20,
     15, 25, 17, 4,  8,  31, 27, 13, 23, 21, 19,
     16, 7,  26, 12, 18, 6,  11, 5,  10, 9]"

definition LeastSignificantBitPosition32DeBruijn :: "u32 \<Rightarrow> nat" where
  "LeastSignificantBitPosition32DeBruijn n =
     kTab32 ! unat (drop_bit 27 ((n AND (NOT n + 1)) * 0x077CB531))"

text \<open>One step of the scan by halving: if the low half of the \<open>2 k\<close> bits in question has a bit the
  position goes down by \<open>k\<close>, otherwise the low half is shifted out.\<close>

definition lowStep :: "nat \<Rightarrow> nat \<times> 'a::len word \<Rightarrow> nat \<times> 'a word" where
  "lowStep k = (\<lambda>(pos, n). if n AND mask k \<noteq> 0 then (pos - k, n) else (pos, drop_bit k n))"

definition LeastSignificantBitPosition64Default :: "u64 \<Rightarrow> nat" where
  "LeastSignificantBitPosition64Default n =
     (let (pos, n) = lowStep 2 (lowStep 4 (lowStep 8 (lowStep 16 (lowStep 32 (63, n)))))
      in if n AND 1 \<noteq> 0 then pos - 1 else pos)"

definition LeastSignificantBitPosition32Default :: "u32 \<Rightarrow> nat" where
  "LeastSignificantBitPosition32Default n =
     (let (pos, n) = lowStep 2 (lowStep 4 (lowStep 8 (lowStep 16 (31, n))))
      in if n AND 1 \<noteq> 0 then pos - 1 else pos)"

text \<open>The scan from above: if a bit at or above \<open>k\<close> is set, \<open>k\<close> goes into the result and the low bits
  are shifted out.\<close>

definition highStep :: "nat \<Rightarrow> nat \<times> 'a::len word \<Rightarrow> nat \<times> 'a word" where
  "highStep k = (\<lambda>(b, n). if 0 \<noteq> n AND push_bit k (- 1) then (b OR k, drop_bit k n) else (b, n))"

definition MostSignificantBitPosition64Default :: "u64 \<Rightarrow> nat" where
  "MostSignificantBitPosition64Default n =
     (let (b, n) = highStep 2 (highStep 4 (highStep 8 (highStep 16 (highStep 32 (0, n)))))
      in if 0 \<noteq> n AND push_bit 1 (- 1) then b OR 1 else b)"

definition MostSignificantBitPosition32Default :: "u32 \<Rightarrow> nat" where
  "MostSignificantBitPosition32Default n =
     (let (b, n) = highStep 2 (highStep 4 (highStep 8 (highStep 16 (0, n))))
      in if 0 \<noteq> n AND push_bit 1 (- 1) then b OR 1 else b)"

text \<open>The variants in use with the compilers the build supports.\<close>

definition LeastSignificantBitPosition64 :: "u64 \<Rightarrow> nat" where
  "LeastSignificantBitPosition64 n = LeastSignificantBitPosition64Fast n"

definition LeastSignificantBitPosition32 :: "u32 \<Rightarrow> nat" where
  "LeastSignificantBitPosition32 n = LeastSignificantBitPosition32Fast n"

definition MostSignificantBitPosition64 :: "u64 \<Rightarrow> nat" where
  "MostSignificantBitPosition64 n = MostSignificantBitPosition64Fast n"

definition MostSignificantBitPosition32 :: "u32 \<Rightarrow> nat" where
  "MostSignificantBitPosition32 n = MostSignificantBitPosition32Fast n"

section \<open>The lowest and the highest bit\<close>

definition lowest_bit :: "'a::len word \<Rightarrow> nat \<Rightarrow> bool" where
  "lowest_bit n i \<longleftrightarrow> bit n i \<and> (\<forall>j < i. \<not> bit n j)"

definition highest_bit :: "'a::len word \<Rightarrow> nat \<Rightarrow> bool" where
  "highest_bit n i \<longleftrightarrow> bit n i \<and> (\<forall>j > i. \<not> bit n j)"

lemma lowest_bit_unique: "lowest_bit n i \<Longrightarrow> lowest_bit n j \<Longrightarrow> i = j"
  by (metis lowest_bit_def linorder_neqE_nat)

lemma highest_bit_unique: "highest_bit n i \<Longrightarrow> highest_bit n j \<Longrightarrow> i = j"
  by (metis highest_bit_def linorder_neqE_nat)

lemma lowest_bit_exists: "n \<noteq> 0 \<Longrightarrow> \<exists>i. lowest_bit n i"
proof -
  assume "n \<noteq> 0"
  then have "\<exists>i. bit n i" by (metis bit_eq_iff bit_0_eq bot_apply bot_bool_def)
  then show ?thesis
    using LeastI_ex [of "bit n"] not_less_Least [of _ "bit n"] unfolding lowest_bit_def by blast
qed

lemma highest_bit_exists: "n \<noteq> 0 \<Longrightarrow> \<exists>i. highest_bit n i" for n :: "'a::len word"
proof -
  assume "n \<noteq> 0"
  then have ex: "{i. bit n i} \<noteq> {}" by (metis bit_eq_iff bit_0_eq bot_apply bot_bool_def empty_iff mem_Collect_eq)
  have fin: "finite {i. bit n i}" by (rule finite_subset [of _ "{..<LENGTH('a)}"]) (auto dest: bit_imp_le_length)
  have "bit n (Max {i. bit n i})" using Max_in [OF fin ex] by simp
  moreover have "j \<le> Max {i. bit n i}" if "bit n j" for j using Max_ge [OF fin] that by simp
  ultimately show ?thesis unfolding highest_bit_def by (metis not_le)
qed


lemma builtin_ctz_lowest:
  fixes n :: "'a::len word"
  assumes "lowest_bit n i"
  shows "builtin_ctz n = i"
proof -
  have i: "i < LENGTH('a)" using assms by (auto simp: lowest_bit_def dest: bit_imp_le_length)
  then have "[0..<LENGTH('a)] = [0..<i] @ i # [Suc i..<LENGTH('a)]"
    using upt_add_eq_append [of 0 i "LENGTH('a) - i"] by (simp add: upt_conv_Cons)
  moreover have "takeWhile (\<lambda>j. \<not> bit n j) ([0..<i] @ i # xs) = [0..<i]" for xs
    using assms by (subst takeWhile_append2) (auto simp: lowest_bit_def)
  ultimately show ?thesis by (simp add: builtin_ctz_def)
qed

lemma builtin_clz_highest:
  fixes n :: "'a::len word"
  assumes "highest_bit n i"
  shows "builtin_clz n = LENGTH('a) - 1 - i"
proof -
  have i: "i < LENGTH('a)" using assms by (auto simp: highest_bit_def dest: bit_imp_le_length)
  then have "[0..<LENGTH('a)] = [0..<i] @ i # [Suc i..<LENGTH('a)]"
    using upt_add_eq_append [of 0 i "LENGTH('a) - i"] by (simp add: upt_conv_Cons)
  then have "rev [0..<LENGTH('a)] = rev [Suc i..<LENGTH('a)] @ i # rev [0..<i]" by simp
  moreover have "takeWhile (\<lambda>j. \<not> bit n j) (rev [Suc i..<LENGTH('a)] @ i # xs) = rev [Suc i..<LENGTH('a)]" for xs
    using assms by (subst takeWhile_append2) (auto simp: highest_bit_def)
  ultimately show ?thesis by (simp add: builtin_clz_def)
qed

lemma highest_bit_one: "highest_bit (1 :: 'a::len word) 0"
  by (auto simp: highest_bit_def bit_simps)

lemma lowest_bit_ucast: "lowest_bit n i \<Longrightarrow> lowest_bit (ucast (n :: u32) :: u64) i"
  by (auto simp: lowest_bit_def bit_simps dest: bit_imp_le_length)

lemma highest_bit_ucast: "highest_bit n i \<Longrightarrow> highest_bit (ucast (n :: u32) :: u64) i"
  by (auto simp: highest_bit_def bit_simps dest: bit_imp_le_length)

lemma fast_positions:
  "lowest_bit n i \<Longrightarrow> LeastSignificantBitPosition64 n = i"
  "lowest_bit m i \<Longrightarrow> LeastSignificantBitPosition32 m = i"
  "highest_bit n i \<Longrightarrow> MostSignificantBitPosition64 n = i"
  "highest_bit m i \<Longrightarrow> MostSignificantBitPosition32 m = i"
proof -
  have pos: "highest_bit w j \<Longrightarrow> w \<noteq> 0" "highest_bit w j \<Longrightarrow> j < LENGTH('z)" for w :: "'z::len word" and j
    by (auto simp: highest_bit_def dest: bit_imp_le_length)
  have one: "builtin_clz (1 :: u64) = 63" using builtin_clz_highest [OF highest_bit_one, where 'a = 64] by simp
  show "lowest_bit n i \<Longrightarrow> LeastSignificantBitPosition64 n = i"
    by (simp add: LeastSignificantBitPosition64_def LeastSignificantBitPosition64Fast_def builtin_ctz_lowest)
  show "lowest_bit m i \<Longrightarrow> LeastSignificantBitPosition32 m = i"
    by (simp add: LeastSignificantBitPosition32_def LeastSignificantBitPosition32Fast_def builtin_ctz_lowest
        lowest_bit_ucast)
  show "highest_bit n i \<Longrightarrow> MostSignificantBitPosition64 n = i"
    using pos [of n i] by (simp add: MostSignificantBitPosition64_def MostSignificantBitPosition64Fast_def
        builtin_clz_highest [of n i] one)
  show "highest_bit m i \<Longrightarrow> MostSignificantBitPosition32 m = i"
    using pos [of m i] by (simp add: MostSignificantBitPosition32_def MostSignificantBitPosition32Fast_def
        builtin_clz_highest [OF highest_bit_ucast] one)
qed

lemma highest_bit_bounds:
  fixes n :: "'a::len word"
  assumes "highest_bit n i"
  shows "2 ^ i \<le> unat n" "unat n < 2 ^ Suc i"
proof -
  have "bit (unat n) i" using assms by (simp add: highest_bit_def bit_unsigned_iff)
  then show "2 ^ i \<le> unat n" by (metis bit_iff_odd div_less even_zero not_le)
  have "take_bit (Suc i) n = n"
    by (rule bit_word_eqI) (use assms in \<open>auto simp: bit_take_bit_iff highest_bit_def less_Suc_eq_le simp flip: not_less\<close>)
  then have "unat n = take_bit (Suc i) (unat n)" by (metis unsigned_take_bit_eq)
  then show "unat n < 2 ^ Suc i" by (metis take_bit_nat_less_exp)
qed

section \<open>Scanning by halving\<close>

text \<open>Before the step with \<open>k\<close> the lowest bit of the original word is at the position less \<open>2 k - 1\<close>
  plus its place in the current word, which is below \<open>2 k\<close>.\<close>

definition low_inv :: "nat \<Rightarrow> nat \<Rightarrow> nat \<times> 'a::len word \<Rightarrow> bool" where
  "low_inv i k state \<longleftrightarrow>
     (\<exists>t. lowest_bit (snd state) t \<and> t < 2 * k \<and> 2 * k - 1 \<le> fst state \<and> fst state - (2 * k - 1) + t = i)"

lemma and_mask_zero: "lowest_bit n t \<Longrightarrow> (n AND mask k \<noteq> 0) \<longleftrightarrow> t < k" for n :: "'a::len word"
proof -
  assume t: "lowest_bit n t"
  have "n AND mask k = 0" if "k \<le> t"
    by (rule bit_word_eqI) (use t that in \<open>auto simp: lowest_bit_def bit_simps\<close>)
  moreover have "bit (n AND mask k) t" if "t < k" using t that by (auto simp: lowest_bit_def bit_simps dest: bit_imp_le_length)
  ultimately show ?thesis by (metis bit_0_eq bot_apply bot_bool_def not_le)
qed

lemma lowest_bit_drop: "lowest_bit n t \<Longrightarrow> k \<le> t \<Longrightarrow> lowest_bit (drop_bit k n) (t - k)"
  by (auto simp: lowest_bit_def bit_simps)

lemma low_inv_step:
  assumes "low_inv i k state" and "k = 2 * j"
  shows "low_inv i j (lowStep k state)"
proof -
  obtain pos n where s: "state = (pos, n)" by (cases state)
  obtain t where t: "lowest_bit n t" "t < 2 * k" "2 * k - 1 \<le> pos" "pos - (2 * k - 1) + t = i"
    using assms(1) by (auto simp: low_inv_def s)
  show ?thesis
  proof (cases "t < k")
    case True
    then show ?thesis using t assms(2) and_mask_zero [OF t(1), of k]
      by (auto simp: low_inv_def s lowStep_def intro!: exI [of _ t])
  next
    case False
    then show ?thesis using t assms(2) and_mask_zero [OF t(1), of k] lowest_bit_drop [OF t(1), of k]
      by (auto simp: low_inv_def s lowStep_def intro!: exI [of _ "t - k"])
  qed
qed

lemma low_inv_last: "low_inv i 1 (pos, n) \<Longrightarrow> (if n AND 1 \<noteq> 0 then pos - 1 else pos) = i"
proof -
  assume "low_inv i 1 (pos, n)"
  then obtain t where t: "lowest_bit n t" "t < 2" "1 \<le> pos" "pos - 1 + t = i" by (auto simp: low_inv_def)
  have "(n AND 1 \<noteq> 0) \<longleftrightarrow> t < 1" using and_mask_zero [OF t(1), of 1] by simp
  then show ?thesis using t by auto
qed

lemma default_lowest:
  "lowest_bit (n :: u64) i \<Longrightarrow> LeastSignificantBitPosition64Default n = i"
  "lowest_bit (m :: u32) i \<Longrightarrow> LeastSignificantBitPosition32Default m = i"
proof -
  assume n: "lowest_bit n i"
  then have "i < 64" by (auto simp: lowest_bit_def dest: bit_imp_le_length)
  with n have "low_inv i 32 (63, n)" by (auto simp: low_inv_def)
  then have "low_inv i 1 (lowStep 2 (lowStep 4 (lowStep 8 (lowStep 16 (lowStep 32 (63, n))))))"
    by (intro low_inv_step [where j = 1] low_inv_step [where j = 2] low_inv_step [where j = 4]
        low_inv_step [where j = 8] low_inv_step [where j = 16]) simp_all
  then show "LeastSignificantBitPosition64Default n = i"
    unfolding LeastSignificantBitPosition64Default_def Let_def
    by (cases "lowStep 2 (lowStep 4 (lowStep 8 (lowStep 16 (lowStep 32 (63, n)))))")
      (use low_inv_last in \<open>auto simp del: One_nat_def split del: if_split\<close>)
next
  assume m: "lowest_bit m i"
  then have "i < 32" by (auto simp: lowest_bit_def dest: bit_imp_le_length)
  with m have "low_inv i 16 (31, m)" by (auto simp: low_inv_def)
  then have "low_inv i 1 (lowStep 2 (lowStep 4 (lowStep 8 (lowStep 16 (31, m)))))"
    by (intro low_inv_step [where j = 1] low_inv_step [where j = 2] low_inv_step [where j = 4]
        low_inv_step [where j = 8]) simp_all
  then show "LeastSignificantBitPosition32Default m = i"
    unfolding LeastSignificantBitPosition32Default_def Let_def
    by (cases "lowStep 2 (lowStep 4 (lowStep 8 (lowStep 16 (31, m))))")
      (use low_inv_last in \<open>auto simp del: One_nat_def split del: if_split\<close>)
qed


text \<open>From above: the result so far has no bit below the next step's, and the highest bit is at the
  result plus its place in the current word.\<close>

definition high_inv :: "nat \<Rightarrow> nat \<Rightarrow> nat \<times> 'a::len word \<Rightarrow> bool" where
  "high_inv i m state \<longleftrightarrow>
     (\<exists>t q. highest_bit (snd state) t \<and> t < 2 ^ Suc m \<and> fst state = push_bit (Suc m) q \<and> fst state + t = i)"

lemma and_high_zero: "highest_bit n t \<Longrightarrow> (0 \<noteq> n AND push_bit k (- 1)) \<longleftrightarrow> k \<le> t" for n :: "'a::len word"
proof -
  assume t: "highest_bit n t"
  have "n AND push_bit k (- 1) = 0" if "t < k"
    by (rule bit_word_eqI) (use t that in \<open>force simp: highest_bit_def bit_simps not_le [symmetric]\<close>)
  moreover have "bit (n AND push_bit k (- 1)) t" if "k \<le> t"
    using t that by (auto simp: highest_bit_def bit_simps dest: bit_imp_le_length)
  ultimately show ?thesis by (metis bit_0_eq bot_apply bot_bool_def not_le)
qed

lemma highest_bit_drop: "highest_bit n t \<Longrightarrow> k \<le> t \<Longrightarrow> highest_bit (drop_bit k n) (t - k)"
  by (auto simp: highest_bit_def bit_simps)

lemma or_power: "push_bit (Suc m) q OR 2 ^ m = push_bit (Suc m) q + (2 ^ m :: nat)"
proof -
  have "push_bit (Suc m) q AND (2 ^ m :: nat) = 0" by (rule bit_eqI) (auto simp: bit_and_iff bit_push_bit_iff bit_exp_iff simp del: push_bit_Suc)
  then show ?thesis by (metis disjunctive_add_eq_or)
qed

lemma push_bit_plus: "push_bit (Suc m) q + (2 ^ m :: nat) = push_bit m (2 * q + 1)"
  by (simp add: push_bit_eq_mult algebra_simps)

lemma high_inv_step:
  assumes "high_inv i (Suc m) state"
  shows "high_inv i m (highStep (2 ^ Suc m) state)"
proof -
  obtain b n where s: "state = (b, n)" by (cases state)
  obtain t q where t: "highest_bit n t" "t < 2 ^ Suc (Suc m)" "b = push_bit (Suc (Suc m)) q" "b + t = i"
    using assms by (auto simp: high_inv_def s)
  show ?thesis
  proof (cases "2 ^ Suc m \<le> t")
    case True
    have "b OR 2 ^ Suc m = push_bit (Suc m) (2 * q + 1)" "b OR 2 ^ Suc m = b + 2 ^ Suc m"
      unfolding t(3) or_power push_bit_plus by simp_all
    then show ?thesis
      using t True and_high_zero [OF t(1), of "2 ^ Suc m"] highest_bit_drop [OF t(1) True]
      unfolding s high_inv_def highStep_def by (intro exI [of _ "t - 2 ^ Suc m"] exI [of _ "2 * q + 1"]) simp
  next
    case False
    moreover have "b = push_bit (Suc m) (2 * q)" by (simp add: t(3) push_bit_eq_mult)
    ultimately show ?thesis
      using t and_high_zero [OF t(1), of "2 ^ Suc m"]
      unfolding s high_inv_def highStep_def by (intro exI [of _ t] exI [of _ "2 * q"]) simp
  qed
qed

lemma high_inv_last: "high_inv i 0 (b, n) \<Longrightarrow> (if 0 \<noteq> n AND push_bit 1 (- 1) then b OR 1 else b) = i"
proof -
  assume "high_inv i 0 (b, n)"
  then obtain t q where t: "highest_bit n t" "t < 2" "b = push_bit 1 q" "b + t = i" by (auto simp: high_inv_def)
  have "(0 \<noteq> n AND push_bit 1 (- 1)) \<longleftrightarrow> 1 \<le> t" by (rule and_high_zero [OF t(1)])
  moreover have "b OR 1 = b + 1" using or_power [of 0 q] t(3) by simp
  ultimately show ?thesis using t by auto
qed

lemma high_inv_steps:
  "high_inv i 5 x \<Longrightarrow> high_inv i 4 (highStep 32 x)" "high_inv i 4 x \<Longrightarrow> high_inv i 3 (highStep 16 x)"
  "high_inv i 3 x \<Longrightarrow> high_inv i 2 (highStep 8 x)" "high_inv i 2 x \<Longrightarrow> high_inv i 1 (highStep 4 x)"
  "high_inv i 1 x \<Longrightarrow> high_inv i 0 (highStep 2 x)"
  using high_inv_step [of i 4 x] high_inv_step [of i 3 x] high_inv_step [of i 2 x]
    high_inv_step [of i 1 x, unfolded Suc_1] high_inv_step [of i 0 x] by simp_all

lemma default_highest:
  "highest_bit (n :: u64) i \<Longrightarrow> MostSignificantBitPosition64Default n = i"
  "highest_bit (m :: u32) i \<Longrightarrow> MostSignificantBitPosition32Default m = i"
proof -
  assume n: "highest_bit n i"
  then have "i < 64" by (auto simp: highest_bit_def dest: bit_imp_le_length)
  with n have "high_inv i 5 (0, n)" unfolding high_inv_def by (intro exI [of _ i] exI [of _ 0]) simp
  then have "high_inv i 0 (highStep 2 (highStep 4 (highStep 8 (highStep 16 (highStep 32 (0, n))))))"
    by (intro high_inv_steps)
  then show "MostSignificantBitPosition64Default n = i"
    unfolding MostSignificantBitPosition64Default_def Let_def
    by (cases "highStep 2 (highStep 4 (highStep 8 (highStep 16 (highStep 32 (0, n)))))")
      (use high_inv_last in \<open>auto simp del: One_nat_def split del: if_split\<close>)
next
  assume m: "highest_bit m i"
  then have "i < 32" by (auto simp: highest_bit_def dest: bit_imp_le_length)
  with m have "high_inv i 4 (0, m)" unfolding high_inv_def by (intro exI [of _ i] exI [of _ 0]) simp
  then have "high_inv i 0 (highStep 2 (highStep 4 (highStep 8 (highStep 16 (0, m)))))"
    by (intro high_inv_steps)
  then show "MostSignificantBitPosition32Default m = i"
    unfolding MostSignificantBitPosition32Default_def Let_def
    by (cases "highStep 2 (highStep 4 (highStep 8 (highStep 16 (0, m))))")
      (use high_inv_last in \<open>auto simp del: One_nat_def split del: if_split\<close>)
qed

section \<open>The lowest bit as a word, and the de Bruijn tables\<close>

lemma odd_and_minus:
  fixes m :: "'a::len word"
  assumes "bit m 0"
  shows "m AND - m = 1"
proof -
  have "(m AND NOT 1) AND 1 = 0" by (rule bit_word_eqI) (auto simp: bit_simps)
  then have "(m AND NOT 1) + 1 = (m AND NOT 1) OR 1" by (rule disjunctive_add_eq_or)
  also have "\<dots> = m"
  proof (rule bit_word_eqI)
    fix i assume "i < LENGTH('a)"
    show "bit ((m AND NOT 1) OR 1) i = bit m i" using assms
      by (cases i) (simp_all only: bit_or_iff bit_and_iff bit_not_iff bit_1_iff, auto dest: bit_imp_le_length)
  qed
  finally have "m - 1 = m AND NOT 1" unfolding diff_eq_eq by (rule sym)
  then have "- m = NOT (m AND NOT 1)" unfolding minus_eq_not_minus_1 [of m] by (rule arg_cong)
  then show ?thesis
    by (intro bit_word_eqI) (auto simp only: bit_and_iff bit_not_iff_eq bit_1_iff impossible_bit assms, simp)
qed

lemma lowest_bit_word:
  fixes n :: "'a::len word"
  assumes "lowest_bit n t"
  shows "n AND - n = push_bit t 1"
proof -
  let ?m = "drop_bit t n"
  have above: "bit n i \<Longrightarrow> t \<le> i" for i using assms by (metis lowest_bit_def not_le)
  have n: "n = push_bit t ?m"
  proof (rule bit_word_eqI)
    fix i assume "i < LENGTH('a)"
    then show "bit n i = bit (push_bit t ?m) i"
      using above [of i] by (cases "t \<le> i") (auto simp: bit_simps)
  qed
  have odd: "bit ?m 0" using assms by (simp add: lowest_bit_def bit_simps)
  have "n AND - n = push_bit t ?m AND push_bit t (- ?m)"
    by (subst (1 2) n) (simp add: push_bit_eq_mult)
  also have "\<dots> = push_bit t (?m AND - ?m)" by simp
  finally show ?thesis by (simp add: odd_and_minus [OF odd])
qed

lemma not_plus_one: "NOT n + 1 = - (n :: 'a::len word)"
  by (simp add: minus_eq_not_plus_1)

lemma minus_one_not: "NOT (n - 1) = - (n :: 'a::len word)"
  by (simp add: minus_eq_not_minus_1)

lemma kTab64_table: "list_all (\<lambda>i. kTab64 ! unat (drop_bit 58 (push_bit i 1 * 0x0218a392dd5fb34f :: u64)) = i) [0..<64]"
  by code_simp

lemma kTab32_table: "list_all (\<lambda>i. kTab32 ! unat (drop_bit 27 (push_bit i 1 * 0x077CB531 :: u32)) = i) [0..<32]"
  by code_simp

lemma deBruijn_lowest:
  "lowest_bit (n :: u64) i \<Longrightarrow> LeastSignificantBitPosition64DeBruijn n = i"
  "lowest_bit (m :: u32) i \<Longrightarrow> LeastSignificantBitPosition32DeBruijn m = i"
proof -
  assume n: "lowest_bit n i"
  then have "i < 64" by (auto simp: lowest_bit_def dest: bit_imp_le_length)
  then show "LeastSignificantBitPosition64DeBruijn n = i"
    using kTab64_table
    by (simp add: LeastSignificantBitPosition64DeBruijn_def not_plus_one lowest_bit_word [OF n] list_all_iff
        del: push_bit_of_1)
next
  assume m: "lowest_bit m i"
  then have "i < 32" by (auto simp: lowest_bit_def dest: bit_imp_le_length)
  then show "LeastSignificantBitPosition32DeBruijn m = i"
    using kTab32_table
    by (simp add: LeastSignificantBitPosition32DeBruijn_def not_plus_one lowest_bit_word [OF m] list_all_iff
        del: push_bit_of_1)
qed

section \<open>Masks bit by bit\<close>

lemma all_bits [simp]: "kAllBits64 = - 1" "kAllBits32 = - 1"
  by (simp_all add: kAllBits64_def kAllBits32_def)

lemma mask_bits:
  "bit (OneBit64 pos) i \<longleftrightarrow> i = pos \<and> i < 64"
  "bit (OneBit32 pos) i \<longleftrightarrow> i = pos \<and> i < 32"
  "s \<le> e \<Longrightarrow> bit (OneRange64 s e) i \<longleftrightarrow> s \<le> i \<and> i \<le> e \<and> i < 64"
  "s \<le> e \<Longrightarrow> bit (OneRange32 s e) i \<longleftrightarrow> s \<le> i \<and> i \<le> e \<and> i < 32"
  "bit (IntervalUp64 s) i \<longleftrightarrow> s \<le> i \<and> i < 64"
  "bit (IntervalUp32 s) i \<longleftrightarrow> s \<le> i \<and> i < 32"
  "s \<le> 63 \<Longrightarrow> bit (IntervalDown64 s) i \<longleftrightarrow> i \<le> s"
  "s \<le> 31 \<Longrightarrow> bit (IntervalDown32 s) i \<longleftrightarrow> i \<le> s"
proof -
  have two: "(- 1 - 1 :: 'a::len word) = NOT 1" by (simp add: not_eq_complement)
  show "bit (OneBit64 pos) i \<longleftrightarrow> i = pos \<and> i < 64" "bit (OneBit32 pos) i \<longleftrightarrow> i = pos \<and> i < 32"
    by (auto simp: OneBit64_def OneBit32_def bit_simps)
  show "s \<le> e \<Longrightarrow> bit (OneRange64 s e) i \<longleftrightarrow> s \<le> i \<and> i \<le> e \<and> i < 64"
    "s \<le> e \<Longrightarrow> bit (OneRange32 s e) i \<longleftrightarrow> s \<le> i \<and> i \<le> e \<and> i < 32"
    unfolding OneRange64_def OneRange32_def all_bits two by (auto simp: bit_simps)
  show "bit (IntervalUp64 s) i \<longleftrightarrow> s \<le> i \<and> i < 64" "bit (IntervalUp32 s) i \<longleftrightarrow> s \<le> i \<and> i < 32"
    by (auto simp: IntervalUp64_def IntervalUp32_def bit_simps)
  show "s \<le> 63 \<Longrightarrow> bit (IntervalDown64 s) i \<longleftrightarrow> i \<le> s" "s \<le> 31 \<Longrightarrow> bit (IntervalDown32 s) i \<longleftrightarrow> i \<le> s"
    by (auto simp: IntervalDown64_def IntervalDown32_def bit_simps)
qed

section \<open>Properties\<close>

text \<open>The variants of the bit scan agree: on every word with a bit set, the compiler's built-in, the
  de Bruijn multiplication and the halving all give the position of the lowest bit, the built-in
  and the halving from above that of the highest, and the word of the lowest bit has it
  alone.\<close>

theorem bit_scans_agree:
  assumes "n \<noteq> 0"
  shows "lowest_bit n (LeastSignificantBitPosition64 n) \<and>
    LeastSignificantBitPosition64DeBruijn n = LeastSignificantBitPosition64 n \<and>
    LeastSignificantBitPosition64Default n = LeastSignificantBitPosition64 n \<and>
    highest_bit n (MostSignificantBitPosition64 n) \<and>
    MostSignificantBitPosition64Default n = MostSignificantBitPosition64 n \<and>
    LeastSignificantBitWord64 n = OneBit64 (LeastSignificantBitPosition64 n)"
proof -
  obtain i j where ij: "lowest_bit n i" "highest_bit n j"
    using lowest_bit_exists [OF assms] highest_bit_exists [OF assms] by blast
  have "LeastSignificantBitWord64 n = OneBit64 i"
    unfolding LeastSignificantBitWord64_def minus_one_not lowest_bit_word [OF ij(1)] OneBit64_def ..
  then show ?thesis
    using ij by (simp add: fast_positions(1) [OF ij(1)] fast_positions(3) [OF ij(2)] default_lowest(1) [OF ij(1)]
        default_highest(1) [OF ij(2)] deBruijn_lowest(1) [OF ij(1)])
qed

theorem bit_scans_agree_witness:
  "LeastSignificantBitPosition64DeBruijn 0x500 = LeastSignificantBitPosition64 0x500 \<and>
   LeastSignificantBitPosition64 0x500 = 8"
proof -
  have "LeastSignificantBitPosition64 0x500 = 8" by code_simp
  then show ?thesis using bit_scans_agree [of "0x500"] by simp
qed

end
