(* ===== verification/Bitset.thy ===== *)
theory Bitset
  imports BitWords
begin

unbundle bit_operations_syntax

text \<open>
  The bit sets of \<open>ortools/util/bitset.h\<close>: the operations on arrays of words, \<open>Bitset64\<close> with
  its iterator, \<open>BitQueue64\<close> and \<open>SparseBitset\<close>. Indices are natural numbers below the size of
  an \<open>int\<close>; an access outside the array is the fault \<^const>\<open>BadIndex\<close>. The theory shows that
  the operations are those of a set of positions, and that the iterator lists it in order.
\<close>

section \<open>Arrays of words\<close>

definition wordOf :: "nat \<Rightarrow> nat" where
  "wordOf i = unat (BitOffset64 (of_nat i))"

definition bitOf :: "nat \<Rightarrow> nat" where
  "bitOf i = unat (BitPos64 (of_nat i))"

definition wordsFor :: "nat \<Rightarrow> nat" where
  "wordsFor n = unat (BitLength64 (of_nat n))"

definition modifyWord :: "nat \<Rightarrow> ('w \<Rightarrow> 'w) \<Rightarrow> 'w list \<Rightarrow> fault + 'w list" where
  "modifyWord k f ws = rbind (index_vec ws k) (\<lambda>w. Inr (ws[k := f w]))"

definition IsBitSet64 :: "u64 list \<Rightarrow> u64 \<Rightarrow> fault + bool" where
  "IsBitSet64 bitset pos =
     rbind (index_vec bitset (unat (BitOffset64 pos))) (\<lambda>w. Inr (w AND OneBit64 (unat (BitPos64 pos)) \<noteq> 0))"

definition IsBitSet32 :: "u32 list \<Rightarrow> u32 \<Rightarrow> fault + bool" where
  "IsBitSet32 bitset pos =
     rbind (index_vec bitset (unat (BitOffset32 pos))) (\<lambda>w. Inr (w AND OneBit32 (unat (BitPos32 pos)) \<noteq> 0))"

definition SetBit64 :: "u64 list \<Rightarrow> u64 \<Rightarrow> fault + u64 list" where
  "SetBit64 bitset pos = modifyWord (unat (BitOffset64 pos)) (\<lambda>w. w OR OneBit64 (unat (BitPos64 pos))) bitset"

definition SetBit32 :: "u32 list \<Rightarrow> u32 \<Rightarrow> fault + u32 list" where
  "SetBit32 bitset pos = modifyWord (unat (BitOffset32 pos)) (\<lambda>w. w OR OneBit32 (unat (BitPos32 pos))) bitset"

definition ClearBit64 :: "u64 list \<Rightarrow> u64 \<Rightarrow> fault + u64 list" where
  "ClearBit64 bitset pos = modifyWord (unat (BitOffset64 pos)) (\<lambda>w. w AND NOT (OneBit64 (unat (BitPos64 pos)))) bitset"

definition ClearBit32 :: "u32 list \<Rightarrow> u32 \<Rightarrow> fault + u32 list" where
  "ClearBit32 bitset pos = modifyWord (unat (BitOffset32 pos)) (\<lambda>w. w AND NOT (OneBit32 (unat (BitPos32 pos)))) bitset"

section \<open>Bitset64\<close>

record bitset64 =
  bs_size :: nat
  bs_data :: "u64 list"

definition newBitset64 :: "int \<Rightarrow> bitset64" where
  "newBitset64 n = (let newSize = (if n > 0 then nat n else 0) in \<lparr>bs_size = newSize, bs_data = replicate (wordsFor newSize) 0\<rparr>)"

abbreviation bs_modify :: "nat \<Rightarrow> (u64 \<Rightarrow> u64) \<Rightarrow> bitset64 \<Rightarrow> fault + bitset64" where
  "bs_modify k f b \<equiv> rbind (modifyWord k f (bs_data b)) (\<lambda>ws. Inr (b\<lparr>bs_data := ws\<rparr>))"

definition bs_IsSet :: "nat \<Rightarrow> bitset64 \<Rightarrow> fault + bool" where
  "bs_IsSet i b = rbind (index_vec (bs_data b) (wordOf i)) (\<lambda>w. Inr (w AND OneBit64 (bitOf i) \<noteq> 0))"

definition bs_viewAt :: "bitset64 \<Rightarrow> nat \<Rightarrow> fault + bool" where
  "bs_viewAt b i = rbind (index_vec (bs_data b) (wordOf i)) (\<lambda>w. Inr (w AND OneBit64 (bitOf i) \<noteq> 0))"

definition bs_Set :: "nat \<Rightarrow> bitset64 \<Rightarrow> fault + bitset64" where
  "bs_Set i b = bs_modify (wordOf i) (\<lambda>w. w OR OneBit64 (bitOf i)) b"

definition bs_Clear :: "nat \<Rightarrow> bitset64 \<Rightarrow> fault + bitset64" where
  "bs_Clear i b = bs_modify (wordOf i) (\<lambda>w. w AND NOT (OneBit64 (bitOf i))) b"

definition bs_SetValue :: "nat \<Rightarrow> bool \<Rightarrow> bitset64 \<Rightarrow> fault + bitset64" where
  "bs_SetValue i value b = (if value then bs_Set i b else bs_Clear i b)"

definition bs_ClearBucket :: "nat \<Rightarrow> bitset64 \<Rightarrow> fault + bitset64" where
  "bs_ClearBucket i b = bs_modify (wordOf i) (\<lambda>w. 0) b"

definition bs_ClearTwoBits :: "nat \<Rightarrow> bitset64 \<Rightarrow> fault + bitset64" where
  "bs_ClearTwoBits i b = bs_modify (wordOf i) (\<lambda>w. w AND NOT (TwoBitsFromPos64 (of_nat i))) b"

definition bs_AreOneOfTwoBitsSet :: "nat \<Rightarrow> bitset64 \<Rightarrow> fault + bool" where
  "bs_AreOneOfTwoBitsSet i b =
     rbind (index_vec (bs_data b) (wordOf i)) (\<lambda>w. Inr (w AND TwoBitsFromPos64 (of_nat i) \<noteq> 0))"

definition bs_Resize :: "int \<Rightarrow> bitset64 \<Rightarrow> bitset64" where
  "bs_Resize n b =
     (let newSize = (if n > 0 then nat n else 0) in \<lparr>bs_size = newSize, bs_data = resizeVec (wordsFor newSize) 0 (bs_data b)\<rparr>)"

definition bs_PushBack :: "bool \<Rightarrow> bitset64 \<Rightarrow> fault + bitset64" where
  "bs_PushBack value b =
     (let newSize = bs_size b + 1 in
      bs_SetValue (newSize - 1) value \<lparr>bs_size = newSize, bs_data = resizeVec (wordsFor newSize) 0 (bs_data b)\<rparr>)"

definition bs_ClearAndResize :: "int \<Rightarrow> bitset64 \<Rightarrow> bitset64" where
  "bs_ClearAndResize n b =
     (let newSize = (if n > 0 then nat n else 0);
          bit_length = wordsFor newSize;
          to_clear = min (length (bs_data b)) bit_length;
          resized = resizeVec bit_length 0 (bs_data b)
      in \<lparr>bs_size = newSize, bs_data = replicate to_clear 0 @ drop to_clear resized\<rparr>)"

definition bs_ClearAll :: "bitset64 \<Rightarrow> bitset64" where
  "bs_ClearAll b = b\<lparr>bs_data := replicate (length (bs_data b)) 0\<rparr>"

definition bs_CopyBucket :: "bitset64 \<Rightarrow> nat \<Rightarrow> bitset64 \<Rightarrow> fault + bitset64" where
  "bs_CopyBucket other i b = rbind (index_vec (bs_data other) (wordOf i)) (\<lambda>w. bs_modify (wordOf i) (\<lambda>_. w) b)"

definition bs_SetContentFromBitset :: "bitset64 \<Rightarrow> bitset64 \<Rightarrow> bitset64" where
  "bs_SetContentFromBitset other b =
     (let min_size = min (length (bs_data b)) (length (bs_data other)) in
      if min_size = 0 then b
      else
        (let last_common_bucket = bs_data b ! (min_size - 1);
             copied = take min_size (bs_data other) @ drop min_size (bs_data b)
         in if length (bs_data b) \<ge> length (bs_data other)
            then (let bitmask = push_bit (bitOf (bs_size other - 1)) kAllBitsButLsb64 in
                  b\<lparr>bs_data := copied[min_size - 1 :=
                       (copied ! (min_size - 1) AND NOT bitmask) OR (bitmask AND last_common_bucket)]\<rparr>)
            else b\<lparr>bs_data := copied\<rparr>))"

definition bs_SetContentFromBitsetOfSameSize :: "bitset64 \<Rightarrow> bitset64 \<Rightarrow> bitset64" where
  "bs_SetContentFromBitsetOfSameSize other b = b\<lparr>bs_data := take (length (bs_data b)) (bs_data other)\<rparr>"

definition bs_Intersection :: "bitset64 \<Rightarrow> bitset64 \<Rightarrow> bitset64" where
  "bs_Intersection other b =
     (let min_size = min (length (bs_data b)) (length (bs_data other)) in
      b\<lparr>bs_data := map2 (AND) (take min_size (bs_data b)) (take min_size (bs_data other)) @
         replicate (length (bs_data b) - min_size) 0\<rparr>)"

definition bs_Union :: "bitset64 \<Rightarrow> bitset64 \<Rightarrow> bitset64" where
  "bs_Union other b =
     (let min_size = min (length (bs_data b)) (length (bs_data other)) in
      b\<lparr>bs_data := map2 (OR) (take min_size (bs_data b)) (take min_size (bs_data other)) @ drop min_size (bs_data b)\<rparr>)"

definition bs_ConditionalXorOfTwoBits :: "nat \<Rightarrow> u64 \<Rightarrow> bitset64 \<Rightarrow> u64 \<Rightarrow> bitset64 \<Rightarrow> fault + u64" where
  "bs_ConditionalXorOfTwoBits i use1 set1 use2 set2 =
     rbind (index_vec (bs_data set1) (wordOf i)) (\<lambda>w1.
     rbind (index_vec (bs_data set2) (wordOf i)) (\<lambda>w2.
       Inr ((push_bit (bitOf i) use1 AND w1) XOR (push_bit (bitOf i) use2 AND w2))))"

definition bs_DebugString :: "bitset64 \<Rightarrow> fault + string" where
  "bs_DebugString b =
     rfold (\<lambda>i output. rbind (bs_IsSet i b) (\<lambda>s. Inr (output @ (if s then ''1'' else ''0'')))) [0..<bs_size b] []"

subsection \<open>The iterator\<close>

text \<open>The iterator keeps the bucket it is in as a position in the array; \<open>it_size\<close> 0 is the end.\<close>

record bit_iterator =
  it_size :: nat
  it_index :: nat
  it_current :: u64

text \<open>The inner loop: from a bucket that is used up to the next one with a bit set.\<close>

function it_seek :: "u64 list \<Rightarrow> nat \<Rightarrow> nat \<Rightarrow> u64 \<Rightarrow> (nat \<times> u64) option" where
  "it_seek data n bucket current =
     (if current \<noteq> 0 then Some (bucket, current)
      else if n \<le> bucket + 1 then None
      else it_seek data n (bucket + 1) (data ! (bucket + 1)))"
  by pat_completeness auto
termination by (relation "measure (\<lambda>(data, n, bucket, current). n - bucket)") auto

declare it_seek.simps [simp del]

definition it_next :: "u64 list \<Rightarrow> bit_iterator \<Rightarrow> bit_iterator" where
  "it_next data it =
     (case it_seek data (it_size it) (wordOf (it_index it)) (it_current it) of
        None \<Rightarrow> it\<lparr>it_size := 0, it_current := 0\<rparr>
      | Some (bucket, current) \<Rightarrow>
          it\<lparr>it_index := unat (BitShift64 (of_nat bucket) OR of_nat (LeastSignificantBitPosition64 current)),
             it_current := current AND (current - 1)\<rparr>)"

definition it_begin :: "bitset64 \<Rightarrow> bit_iterator" where
  "it_begin b =
     (let it = \<lparr>it_size = length (bs_data b), it_index = 0, it_current = 0\<rparr> in
      if bs_data b = [] then it else it_next (bs_data b) (it\<lparr>it_current := bs_data b ! 0\<rparr>))"

text \<open>A range-based \<open>for\<close> loop over the set, with fuel.\<close>

fun it_collect :: "nat \<Rightarrow> u64 list \<Rightarrow> bit_iterator \<Rightarrow> fault + nat list" where
  "it_collect 0 data it = (if it_size it = 0 then Inr [] else Inl NoReturn)"
| "it_collect (Suc fuel) data it =
     (if it_size it = 0 then Inr []
      else rbind (it_collect fuel data (it_next data it)) (\<lambda>xs. Inr (it_index it # xs)))"

section \<open>Positions\<close>

lemma unat_of_nat64: "n < 2 ^ 64 \<Longrightarrow> unat (of_nat n :: u64) = n"
  by (simp add: unat_of_nat)

lemma wordOf_eq: "i < 2 ^ 64 \<Longrightarrow> wordOf i = i div 64"
  unfolding wordOf_def BitOffset64_def unat_drop_bit_eq by (simp add: unat_of_nat drop_bit_eq_div)

lemma bitOf_eq: "bitOf i = i mod 64"
proof -
  have "unat ((of_nat i :: u64) AND 63) = unat (of_nat i :: u64) mod 64"
  proof -
    have "(63 :: u64) = mask 6" by (simp add: mask_eq_exp_minus_1)
    then have "unat ((of_nat i :: u64) AND 63) = unat (take_bit 6 (of_nat i :: u64))"
      by (simp only: take_bit_eq_mask)
    also have "\<dots> = take_bit 6 (unat (of_nat i :: u64))" by (rule unsigned_take_bit_eq)
    finally show ?thesis by (simp add: take_bit_eq_mod)
  qed
  also have "\<dots> = i mod 64" by (simp add: unat_of_nat mod_mod_cancel)
  finally show ?thesis by (simp add: bitOf_def BitPos64_def unsigned_ucast_eq take_bit_eq_mod)
qed

lemma wordsFor_eq: "n < 2 ^ 63 \<Longrightarrow> wordsFor n = (n + 63) div 64"
  using unat_of_nat64 [of "n + 63"]
  unfolding wordsFor_def BitLength64_def unat_drop_bit_eq by (simp add: drop_bit_eq_div)


definition bits :: "bitset64 \<Rightarrow> nat set" where
  "bits b = {i. i < 64 * length (bs_data b) \<and> bit (bs_data b ! (i div 64)) (i mod 64)}"

text \<open>A set of a size that an \<open>int\<close> can hold, with the words for that many positions.\<close>

definition bs_wf :: "bitset64 \<Rightarrow> bool" where
  "bs_wf b \<longleftrightarrow> bs_size b < 2 ^ 31 \<and> length (bs_data b) = (bs_size b + 63) div 64"

lemma bs_wf_word: "bs_wf b \<Longrightarrow> i < bs_size b \<Longrightarrow> i div 64 < length (bs_data b) \<and> wordOf i = i div 64"
  using wordOf_eq [of i] by (auto simp: bs_wf_def)

lemma div_less_words: "i < 64 * n \<Longrightarrow> i div 64 < (n :: nat)"
  by (simp add: less_mult_imp_div_less mult.commute)

lemma mem_bits: "i \<in> bits b \<longleftrightarrow> i div 64 < length (bs_data b) \<and> bit (bs_data b ! (i div 64)) (i mod 64)"
  by (auto simp: bits_def div_less_words)

lemma bs_modify_bits:
  assumes "bs_wf b" "i < bs_size b"
    and same: "\<And>j. j div 64 = i div 64 \<Longrightarrow> bit (f (bs_data b ! (i div 64))) (j mod 64) \<longleftrightarrow> j \<in> R"
    and other: "\<And>j. j div 64 \<noteq> i div 64 \<Longrightarrow> j \<in> bits b \<longleftrightarrow> j \<in> R"
  shows "\<exists>b'. bs_modify (wordOf i) f b = Inr b' \<and> bs_wf b' \<and> bs_size b' = bs_size b \<and> bits b' = R"
proof -
  let ?b = "b\<lparr>bs_data := (bs_data b)[i div 64 := f (bs_data b ! (i div 64))]\<rparr>"
  have "bs_modify (wordOf i) f b = Inr ?b"
    using bs_wf_word [OF assms(1,2)] by (simp add: modifyWord_def)
  moreover have "bs_wf ?b" "bs_size ?b = bs_size b" using assms(1) by (simp_all add: bs_wf_def)
  moreover have "j \<in> bits ?b \<longleftrightarrow> j \<in> R" for j
  proof (cases "j div 64 = i div 64")
    case True
    then show ?thesis using bs_wf_word [OF assms(1,2)] same [OF True] by (simp add: mem_bits)
  next
    case False
    then show ?thesis using other [OF False] by (simp add: mem_bits)
  qed
  ultimately show ?thesis by blast
qed

lemma index_word: "bs_wf b \<Longrightarrow> i < bs_size b \<Longrightarrow> index_vec (bs_data b) (wordOf i) = Inr (bs_data b ! (i div 64))"
  using bs_wf_word [of b i] by simp

lemma bit_OneBit64: "bit (OneBit64 k) j \<longleftrightarrow> j = k \<and> k < 64"
  by (auto simp: OneBit64_def bit_simps)

lemma and_OneBit: "k < 64 \<Longrightarrow> (w AND OneBit64 k \<noteq> 0) \<longleftrightarrow> bit w k"
proof -
  assume "k < 64"
  then show ?thesis unfolding bit_eq_iff [of _ 0] by (auto simp: bit_and_iff bit_OneBit64)
qed

lemma mod_div_two: "i mod 64 div 2 = i div 2 mod (32 :: nat)"
  using mod_mult2_eq [of i 2 32] by simp

lemma bit_TwoBits: "bit (TwoBitsFromPos64 (of_nat i)) j \<longleftrightarrow> j div 2 = i mod 64 div 2"
proof -
  have "unat ((of_nat i :: u64) AND 62) = unat (of_nat i :: u64) AND 62"
    by (simp add: unsigned_and_eq)
  also have "\<dots> = 2 * (unat (of_nat i :: u64) div 2 AND 31)"
    by (subst and_rec) simp
  also have "unat (of_nat i :: u64) div 2 AND 31 = take_bit 5 (unat (of_nat i :: u64) div 2)"
    unfolding take_bit_eq_mask by (simp add: mask_eq_exp_minus_1)
  also have "\<dots> = i div 2 mod 32"
    using mod_div_two [of "unat (of_nat i :: u64)"] mod_div_two [of i]
    by (simp add: take_bit_eq_mod unat_of_nat mod_mod_cancel)
  finally have m: "unat ((of_nat i :: u64) AND 62) = 2 * (i mod 64 div 2)" by (simp add: mod_div_two)
  have three: "(3 :: u64) = mask 2" by (simp add: mask_eq_exp_minus_1)
  have "bit (3 :: u64) k \<longleftrightarrow> k < 2" for k unfolding three bit_mask_iff by auto
  then have shifted: "bit (push_bit (2 * h) 3 :: u64) j \<longleftrightarrow> j div 2 = h" if "h < 32" for h
    using that unfolding bit_push_bit_iff by fastforce
  have "i mod 64 div 2 < 32" by (simp add: mod_div_two)
  then show ?thesis unfolding TwoBitsFromPos64_def m by (rule shifted)
qed

lemma same_place: "j div n = i div n \<Longrightarrow> (j mod n = i mod n) = (j = i)" for i j n :: nat
proof
  assume "j div n = i div n" "j mod n = i mod n"
  then have "j div n * n + j mod n = i div n * n + i mod n" by simp
  then show "j = i" unfolding div_mult_mod_eq .
qed simp

lemma pair_word: "j div 2 = i div 2 \<Longrightarrow> j div 64 = i div (64 :: nat)"
  using div_mult2_eq [of j 2 32] div_mult2_eq [of i 2 32] by simp

lemma pair_place: "j div 64 = i div 64 \<Longrightarrow> (j mod 64 div 2 = i mod 64 div 2) = (j div 2 = i div 2)" for i j :: nat
  unfolding mod_div_two by (rule same_place) (metis div_mult2_eq mult_2 numeral_Bit0)

section \<open>The operations on one set\<close>

lemma bs_IsSet_bits: "bs_wf b \<Longrightarrow> i < bs_size b \<Longrightarrow> bs_IsSet i b = Inr (i \<in> bits b)"
  using bs_wf_word [of b i] by (simp add: bs_IsSet_def index_word bitOf_eq and_OneBit mem_bits)

lemma bs_Set_bits:
  assumes "bs_wf b" "i < bs_size b"
  shows "\<exists>b'. bs_Set i b = Inr b' \<and> bs_wf b' \<and> bs_size b' = bs_size b \<and> bits b' = insert i (bits b)"
  unfolding bs_Set_def
proof (rule bs_modify_bits [OF assms])
  fix j
  show "bit (bs_data b ! (i div 64) OR OneBit64 (bitOf i)) (j mod 64) \<longleftrightarrow> j \<in> insert i (bits b)"
    if "j div 64 = i div 64"
    using that bs_wf_word [OF assms] same_place [OF that] by (auto simp: bitOf_eq bit_or_iff bit_OneBit64 mem_bits)
qed auto

lemma bs_Clear_bits:
  assumes "bs_wf b" "i < bs_size b"
  shows "\<exists>b'. bs_Clear i b = Inr b' \<and> bs_wf b' \<and> bs_size b' = bs_size b \<and> bits b' = bits b - {i}"
  unfolding bs_Clear_def
proof (rule bs_modify_bits [OF assms])
  fix j
  show "bit (bs_data b ! (i div 64) AND NOT (OneBit64 (bitOf i))) (j mod 64) \<longleftrightarrow> j \<in> bits b - {i}"
    if "j div 64 = i div 64"
    using that bs_wf_word [OF assms] same_place [OF that]
    by (auto simp: bitOf_eq bit_and_iff bit_not_iff bit_OneBit64 mem_bits)
qed auto

lemma bs_SetValue_bits:
  assumes "bs_wf b" "i < bs_size b"
  shows "\<exists>b'. bs_SetValue i v b = Inr b' \<and> bs_wf b' \<and> bs_size b' = bs_size b \<and>
    bits b' = (if v then insert i (bits b) else bits b - {i})"
  using bs_Set_bits [OF assms] bs_Clear_bits [OF assms] by (auto simp: bs_SetValue_def)

lemma bs_ClearBucket_bits:
  assumes "bs_wf b" "i < bs_size b"
  shows "\<exists>b'. bs_ClearBucket i b = Inr b' \<and> bs_wf b' \<and> bs_size b' = bs_size b \<and>
    bits b' = {j \<in> bits b. j div 64 \<noteq> i div 64}"
  unfolding bs_ClearBucket_def by (rule bs_modify_bits [OF assms]) simp_all

lemma bs_ClearTwoBits_bits:
  assumes "bs_wf b" "i < bs_size b"
  shows "\<exists>b'. bs_ClearTwoBits i b = Inr b' \<and> bs_wf b' \<and> bs_size b' = bs_size b \<and>
    bits b' = {j \<in> bits b. j div 2 \<noteq> i div 2}"
  unfolding bs_ClearTwoBits_def
proof (rule bs_modify_bits [OF assms])
  fix j
  show "bit (bs_data b ! (i div 64) AND NOT (TwoBitsFromPos64 (of_nat i))) (j mod 64) \<longleftrightarrow>
      j \<in> {j \<in> bits b. j div 2 \<noteq> i div 2}" if "j div 64 = i div 64"
    using that bs_wf_word [OF assms] pair_place [OF that]
    by (auto simp: bit_and_iff bit_not_iff bit_TwoBits mem_bits)
qed (auto dest: pair_word)

lemma bs_AreOneOfTwoBitsSet_bits:
  assumes "bs_wf b" "i < bs_size b"
  shows "bs_AreOneOfTwoBitsSet i b = Inr (\<exists>j \<in> bits b. j div 2 = i div 2)"
proof -
  let ?w = "bs_data b ! (i div 64)"
  have i: "i div 64 < length (bs_data b)" using bs_wf_word [OF assms] by simp
  have "(?w AND TwoBitsFromPos64 (of_nat i) \<noteq> 0) \<longleftrightarrow> (\<exists>k < 64. bit ?w k \<and> k div 2 = i mod 64 div 2)"
    unfolding bit_eq_iff [of _ 0] by (auto simp: bit_and_iff bit_TwoBits)
  also have "\<dots> \<longleftrightarrow> (\<exists>j \<in> bits b. j div 2 = i div 2)"
  proof
    assume "\<exists>k < 64. bit ?w k \<and> k div 2 = i mod 64 div 2"
    then obtain k where k: "k < 64" "bit ?w k" "k div 2 = i mod 64 div 2" by blast
    let ?j = "i div 64 * 64 + k"
    have j: "?j div 64 = i div 64" "?j mod 64 = k" using k(1) by simp_all
    then have "?j \<in> bits b" "?j div 2 = i div 2" using i k pair_place [of ?j i] by (simp_all add: mem_bits)
    then show "\<exists>j \<in> bits b. j div 2 = i div 2" by blast
  next
    assume "\<exists>j \<in> bits b. j div 2 = i div 2"
    then obtain j where "j \<in> bits b" "j div 2 = i div 2" by blast
    then show "\<exists>k < 64. bit ?w k \<and> k div 2 = i mod 64 div 2"
      using pair_word [of j i] pair_place [of j i] by (intro exI [of _ "j mod 64"]) (simp add: mem_bits)
  qed
  finally show ?thesis using index_word [OF assms] by (simp add: bs_AreOneOfTwoBitsSet_def)
qed

section \<open>Whole sets\<close>

lemma mem_bits_div: "i \<in> bits b \<Longrightarrow> i div 64 < length (bs_data b)"
  by (simp add: mem_bits)

lemma nth_words: "k < length ws \<Longrightarrow> min (length ws) (length vs) = m \<Longrightarrow>
    (map2 f (take m ws) (take m vs) @ rest) ! k = (if k < m then f (ws ! k) (vs ! k) else rest ! (k - m))"
  by (auto simp: nth_append)

lemma bs_Union_bits: "bits (bs_Union other b) = bits b \<union> {i \<in> bits other. i div 64 < length (bs_data b)}"
  by (auto simp: bs_Union_def Let_def mem_bits nth_words bit_or_iff split: if_splits)

lemma bs_Intersection_bits: "bits (bs_Intersection other b) = bits b \<inter> bits other"
  by (auto simp: bs_Intersection_def Let_def mem_bits nth_words bit_and_iff split: if_splits)

lemma bs_ClearAll_bits: "bits (bs_ClearAll b) = {}"
  by (auto simp: bs_ClearAll_def mem_bits)

lemma newBitset64_bits: "bits (newBitset64 n) = {}"
  by (auto simp: newBitset64_def Let_def mem_bits)

lemma bs_Resize_bits:
  assumes "bs_wf b" "n < 2 ^ 31"
  shows "bs_wf (bs_Resize n b)" "bs_size (bs_Resize n b) = nat n"
    "bits (bs_Resize n b) = {i \<in> bits b. i div 64 < (nat n + 63) div 64}"
proof -
  have "wordsFor (nat n) = (nat n + 63) div 64" using assms(2) by (intro wordsFor_eq) simp
  then show "bs_wf (bs_Resize n b)" "bs_size (bs_Resize n b) = nat n"
    "bits (bs_Resize n b) = {i \<in> bits b. i div 64 < (nat n + 63) div 64}"
    using assms(2) by (auto simp: bs_Resize_def Let_def bs_wf_def mem_bits nth_resizeVec split: if_splits)
qed

lemma bs_ClearAndResize_bits:
  assumes "n < 2 ^ 31"
  shows "bs_wf (bs_ClearAndResize n b)" "bs_size (bs_ClearAndResize n b) = nat n"
    "bits (bs_ClearAndResize n b) = {}"
proof -
  have "wordsFor (nat n) = (nat n + 63) div 64" using assms by (intro wordsFor_eq) simp
  then show "bs_wf (bs_ClearAndResize n b)" "bs_size (bs_ClearAndResize n b) = nat n"
    "bits (bs_ClearAndResize n b) = {}"
    using assms by (auto simp: bs_ClearAndResize_def Let_def bs_wf_def mem_bits nth_append nth_resizeVec
        split: if_splits)
qed

lemma newBitset64_wf: "n < 2 ^ 31 \<Longrightarrow> bs_wf (newBitset64 n)"
  using wordsFor_eq [of "nat n"] by (auto simp: newBitset64_def Let_def bs_wf_def)

text \<open>\<open>SetContentFromBitset\<close> copies a set over the positions it has and keeps the others.\<close>

lemma bs_SetContentFromBitset_nth:
  assumes "bs_size other = Suc t" "length (bs_data other) = Suc m" "Suc m \<le> length (bs_data b)" "k < length (bs_data b)"
  shows "bit (bs_data (bs_SetContentFromBitset other b) ! k) j \<longleftrightarrow>
    (if k < m then bit (bs_data other ! k) j
     else if k = m then (if j \<le> t mod 64 then bit (bs_data other ! m) j else bit (bs_data b ! m) j)
     else bit (bs_data b ! k) j)"
proof -
  have lsb: "kAllBitsButLsb64 = NOT 1" by (simp add: kAllBitsButLsb64_def)
  have mask: "bit (push_bit (bitOf t) kAllBitsButLsb64) i \<longleftrightarrow> i < 64 \<and> t mod 64 < i" for i
    unfolding lsb bit_push_bit_iff bit_not_iff bit_1_iff bitOf_eq by auto
  have "bit w i \<Longrightarrow> i < 64" for w :: u64 and i using bit_imp_le_length [of w i] by simp
  then show ?thesis using assms
    by (auto simp: bs_SetContentFromBitset_def Let_def nth_list_update nth_append bit_or_iff bit_and_iff bit_not_iff mask)
qed

lemma bs_SetContentFromBitset_bits:
  assumes "bs_wf b" "bs_wf other" "bs_size other > 0" "length (bs_data other) \<le> length (bs_data b)"
  shows "bits (bs_SetContentFromBitset other b) =
    {i \<in> bits other. i < bs_size other} \<union> {i \<in> bits b. bs_size other \<le> i}" (is "bits ?r = _")
proof -
  obtain t where t: "bs_size other = Suc t" using assms(3) by (cases "bs_size other") auto
  have n: "length (bs_data other) = Suc (t div 64)" using assms(2) t by (simp add: bs_wf_def)
  note nth = bs_SetContentFromBitset_nth [OF t n]
  have len: "length (bs_data ?r) = length (bs_data b)"
    using assms(4) by (auto simp: bs_SetContentFromBitset_def Let_def)
  have below: "i \<le> t" if "i div 64 < t div 64" for i
    using that div_le_mono [of t i 64] by (meson nat_le_linear not_le)
  have above: "t < i" if "t div 64 < i div 64" for i
    using that div_le_mono [of i t 64] by (meson nat_le_linear not_le)
  have last: "i \<le> t \<longleftrightarrow> i mod 64 \<le> t mod 64" if "i div 64 = t div 64" for i
    using div_mult_mod_eq [of i 64] div_mult_mod_eq [of t 64] that by linarith
  show ?thesis
  proof (rule set_eqI)
    fix i
    show "i \<in> bits ?r \<longleftrightarrow> i \<in> {i \<in> bits other. i < bs_size other} \<union> {i \<in> bits b. bs_size other \<le> i}"
    proof (cases "i div 64 < length (bs_data b)")
      case True
      then show ?thesis using nth [of b "i div 64" "i mod 64"] below [of i] above [of i] last [of i] assms(4)
        by (cases "i div 64" "t div 64" rule: linorder_cases) (auto simp: mem_bits len t n)
    next
      case False
      then show ?thesis using assms(4) n by (auto simp: mem_bits len)
    qed
  qed
qed

section \<open>The iterator\<close>

text \<open>The positions an iterator has still to visit after the one it stands at.\<close>

definition it_rest :: "u64 list \<Rightarrow> nat \<Rightarrow> u64 \<Rightarrow> nat set" where
  "it_rest data bucket current =
     {i. i div 64 = bucket \<and> bit current (i mod 64)} \<union>
     {i. bucket < i div 64 \<and> i div 64 < length data \<and> bit (data ! (i div 64)) (i mod 64)}"

lemma it_rest_empty_word:
  "bucket + 1 < length data \<Longrightarrow> it_rest data bucket 0 = it_rest data (bucket + 1) (data ! (bucket + 1))"
proof (rule set_eqI)
  fix i
  assume "bucket + 1 < length data"
  then show "i \<in> it_rest data bucket 0 \<longleftrightarrow> i \<in> it_rest data (bucket + 1) (data ! (bucket + 1))"
    by (cases "i div 64" "bucket + 1" rule: linorder_cases) (auto simp: it_rest_def)
qed

lemma it_seek_result:
  assumes "bucket < length data"
  shows "case it_seek data (length data) bucket current of
      None \<Rightarrow> it_rest data bucket current = {}
    | Some (bucket', current') \<Rightarrow> current' \<noteq> 0 \<and> bucket \<le> bucket' \<and> bucket' < length data \<and>
        it_rest data bucket' current' = it_rest data bucket current"
  using assms
proof (induction data "length data" bucket current rule: it_seek.induct)
  case (1 data bucket current)
  show ?case
  proof (cases "current \<noteq> 0")
    case True
    then show ?thesis using 1 by (simp add: it_seek.simps)
  next
    case False
    show ?thesis
    proof (cases "length data \<le> bucket + 1")
      case True
      then show ?thesis using False by (subst it_seek.simps) (auto simp: it_rest_def)
    next
      case more: False
      then show ?thesis
        using 1(1) False it_rest_empty_word [of bucket data]
        by (subst it_seek.simps) (auto split: option.splits prod.splits)
    qed
  qed
qed

lemma clear_lowest:
  fixes n :: "'a::len word"
  assumes "lowest_bit n t"
  shows "bit (n AND (n - 1)) j \<longleftrightarrow> bit n j \<and> j \<noteq> t"
proof -
  have "n - 1 = NOT (- n)" using minus_one_not [of n] by (metis bit.double_compl)
  then have "bit (n AND (n - 1)) j \<longleftrightarrow> bit n j \<and> \<not> bit (n AND - n) j"
    by (auto simp: bit_and_iff bit_not_iff_eq dest: bit_imp_le_length)
  moreover have "bit (push_bit t (1 :: 'a word)) j \<longleftrightarrow> j = t"
    using assms unfolding bit_push_bit_iff by (auto simp: bit_1_iff lowest_bit_def dest: bit_imp_le_length)
  ultimately show ?thesis unfolding lowest_bit_word [OF assms] by blast
qed

lemma word_position:
  assumes "64 * bucket < 2 ^ 32" "i < 64"
  shows "unat (BitShift64 (of_nat bucket) OR of_nat i) = 64 * bucket + i"
proof -
  have "unat (BitShift64 (of_nat bucket)) = take_bit 64 (push_bit 6 (unat (of_nat bucket :: u64)))"
    unfolding BitShift64_def by (subst unsigned_push_bit_eq) simp
  also have "\<dots> = push_bit 6 bucket"
    using assms(1) by (simp add: unat_of_nat take_bit_eq_mod push_bit_eq_mult)
  finally have "unat (BitShift64 (of_nat bucket) OR of_nat i) = push_bit 6 bucket OR i"
    using assms(2) by (simp add: unsigned_or_eq unat_of_nat)
  also have "push_bit 6 bucket AND i = 0"
  proof (rule bit_eqI)
    fix k
    have "bit i k \<Longrightarrow> k < 6"
      using assms(2) bit_take_bit_iff [of 6 i k] by (simp add: take_bit_nat_eq_self)
    then show "bit (push_bit 6 bucket AND i) k \<longleftrightarrow> bit 0 k" by (auto simp: bit_and_iff bit_push_bit_iff)
  qed
  then have "push_bit 6 bucket OR i = push_bit 6 bucket + i" by (metis disjunctive_add_eq_or)
  finally show ?thesis by (simp add: push_bit_eq_mult)
qed

text \<open>One step: the iterator ends when nothing is left, and otherwise goes to the least position left.\<close>

definition it_todo :: "u64 list \<Rightarrow> bit_iterator \<Rightarrow> nat set" where
  "it_todo data it = it_rest data (it_index it div 64) (it_current it)"

definition it_ok :: "u64 list \<Rightarrow> bit_iterator \<Rightarrow> bool" where
  "it_ok data it \<longleftrightarrow> 64 * length data < 2 ^ 32 \<and> it_size it = length data \<and> it_index it div 64 < length data"

lemma it_next_step:
  assumes "it_ok data it"
  shows "if it_todo data it = {} then it_size (it_next data it) = 0
    else it_ok data (it_next data it) \<and> it_index (it_next data it) \<in> it_todo data it \<and>
      (\<forall>j \<in> it_todo data it. it_index (it_next data it) \<le> j) \<and>
      it_todo data (it_next data it) = it_todo data it - {it_index (it_next data it)}"
proof -
  let ?b = "it_index it div 64"
  have b: "wordOf (it_index it) = ?b" "?b < length data" "it_size it = length data"
    using assms wordOf_eq [of "it_index it"] unfolding it_ok_def by auto
  note seek = it_seek_result [OF b(2), of "it_current it"]
  show ?thesis
  proof (cases "it_seek data (length data) ?b (it_current it)")
    case None
    then show ?thesis using seek b by (simp add: it_todo_def it_next_def)
  next
    case (Some r)
    obtain bucket w where r: "r = (bucket, w)" by (cases r)
    from seek Some r have w: "w \<noteq> 0" "bucket < length data" "it_rest data bucket w = it_todo data it"
      by (simp_all add: it_todo_def)
    obtain t where t: "lowest_bit w t" using lowest_bit_exists [OF w(1)] by blast
    then have t64: "t < 64" by (auto simp: lowest_bit_def dest: bit_imp_le_length)
    let ?p = "64 * bucket + t"
    have p: "?p div 64 = bucket" "?p mod 64 = t" using t64 by simp_all
    have it': "it_next data it = it\<lparr>it_index := ?p, it_current := w AND (w - 1)\<rparr>"
      using Some r b word_position [OF _ t64, of bucket] assms w(2)
      by (simp add: it_next_def fast_positions(1) [OF t] it_ok_def)
    have mem: "?p \<in> it_rest data bucket w" using t p by (auto simp: it_rest_def lowest_bit_def)
    have least: "?p \<le> j" if "j \<in> it_rest data bucket w" for j
    proof (cases "j div 64 = bucket")
      case True
      then have "t \<le> j mod 64" using that t by (auto simp: it_rest_def lowest_bit_def not_le [symmetric])
      then show ?thesis using True div_mult_mod_eq [of j 64] by linarith
    next
      case False
      then have "bucket < j div 64" using that by (auto simp: it_rest_def)
      then show ?thesis using t64 by linarith
    qed
    have place: "j mod 64 = t \<longleftrightarrow> j = ?p" if "j div 64 = bucket" for j
      using same_place [of j 64 ?p] that p by simp
    have "it_rest data bucket (w AND (w - 1)) = it_rest data bucket w - {?p}"
      using place p by (auto simp: it_rest_def clear_lowest [OF t])
    then show ?thesis using mem least assms w p
      by (auto simp: it' it_todo_def it_ok_def)
  qed
qed

lemma it_todo_finite: "finite (it_todo data it)"
proof (rule finite_subset)
  show "it_todo data it \<subseteq> {..< 64 * (length data + it_index it div 64 + 1)}"
    by (auto simp: it_todo_def it_rest_def)
qed simp

lemma sorted_list_min:
  assumes "finite A" "m \<in> A" "\<And>j. j \<in> A \<Longrightarrow> m \<le> j"
  shows "sorted_list_of_set A = m # sorted_list_of_set (A - {m})"
  using assms by (metis Min_eqI empty_iff sorted_list_of_set_nonempty)

lemma it_collect_todo:
  fixes f :: "nat list \<Rightarrow> fault + nat list"
  assumes "it_ok data it" "card (it_todo data it) \<le> fuel"
  shows "rbind (it_collect fuel data (it_next data it)) f = f (sorted_list_of_set (it_todo data it))"
  using assms
proof (induction fuel arbitrary: it f)
  case 0
  then show ?case using it_next_step [OF 0(1)] it_todo_finite [of data it] by simp
next
  case (Suc fuel)
  note step = it_next_step [OF Suc.prems(1)]
  show ?case
  proof (cases "it_todo data it = {}")
    case True
    then show ?thesis using step by simp
  next
    case False
    let ?n = "it_next data it"
    have n: "it_ok data ?n" "it_size ?n \<noteq> 0"
      using step False by (auto simp: it_ok_def)
    have "card (it_todo data ?n) < card (it_todo data it)"
      using step False it_todo_finite [of data it] by (simp add: card_gt_0_iff)
    then have "rbind (it_collect fuel data (it_next data ?n)) g = g (sorted_list_of_set (it_todo data ?n))"
      for g :: "nat list \<Rightarrow> fault + nat list"
      using Suc.IH [OF n(1)] Suc.prems(2) by simp
    moreover have "sorted_list_of_set (it_todo data it) = it_index ?n # sorted_list_of_set (it_todo data ?n)"
      using step False sorted_list_min [OF it_todo_finite] by simp
    ultimately show ?thesis using n(2) by simp
  qed
qed

text \<open>A loop over the set visits its positions, each once and in increasing order.\<close>

lemma iterator_lists_words:
  assumes "64 * length (bs_data b) < 2 ^ 32" "card (bits b) \<le> fuel"
  shows "it_collect fuel (bs_data b) (it_begin b) = Inr (sorted_list_of_set (bits b))"
proof (cases "bs_data b = []")
  case True
  then have "bits b = {}" by (simp add: bits_def)
  then show ?thesis using True by (cases fuel) (simp_all add: it_begin_def Let_def)
next
  case False
  let ?it = "\<lparr>it_size = length (bs_data b), it_index = 0, it_current = bs_data b ! 0\<rparr>"
  have ok: "it_ok (bs_data b) ?it" using assms(1) False by (simp add: it_ok_def)
  have "it_todo (bs_data b) ?it = bits b"
  proof (rule set_eqI)
    fix i
    show "i \<in> it_todo (bs_data b) ?it \<longleftrightarrow> i \<in> bits b"
      using False by (cases "i div 64") (auto simp: it_todo_def it_rest_def mem_bits)
  qed
  then have "rbind (it_collect fuel (bs_data b) (it_next (bs_data b) ?it)) Inr = Inr (sorted_list_of_set (bits b))"
    using it_collect_todo [OF ok, of fuel Inr] assms(2) by simp
  then show ?thesis using False by (simp add: it_begin_def Let_def)
qed

section \<open>Resizing\<close>

text \<open>
  \<open>Resize\<close> keeps whole words. Positions of the last word beyond the size it is given stay set and
  are seen again when the set grows.
\<close>

lemma resize_keeps_last_word:
  "rbind (bs_Set 5 (newBitset64 10)) (\<lambda>b. bs_IsSet 5 (bs_Resize 10 (bs_Resize 3 b))) = Inr True"
  by code_simp

section \<open>Properties\<close>

text \<open>C30: A \<open>Bitset64\<close> is a set of positions: at a position below its size \<open>IsSet\<close> is membership, \<open>Set\<close>
  inserts or removes with its value, \<open>ClearTwoBits\<close> removes and \<open>AreOneOfTwoBitsSet\<close> looks for the
  two positions that differ in the last bit, without a fault and without changing the size;
  \<open>Union\<close> is the union up to the words the set has, \<open>Intersection\<close> the intersection.\<close>

theorem bitset_is_a_set:
  assumes "bs_wf b" "i < bs_size b"
  shows "bs_IsSet i b = Inr (i \<in> bits b) \<and>
    bs_AreOneOfTwoBitsSet i b = Inr (\<exists>j \<in> bits b. j div 2 = i div 2) \<and>
    (\<exists>b'. bs_SetValue i v b = Inr b' \<and> bs_wf b' \<and> bs_size b' = bs_size b \<and>
      bits b' = (if v then insert i (bits b) else bits b - {i})) \<and>
    (\<exists>b'. bs_ClearTwoBits i b = Inr b' \<and> bs_wf b' \<and> bs_size b' = bs_size b \<and>
      bits b' = {j \<in> bits b. j div 2 \<noteq> i div 2}) \<and>
    bits (bs_Union other b) = bits b \<union> {j \<in> bits other. j div 64 < length (bs_data b)} \<and>
    bits (bs_Intersection other b) = bits b \<inter> bits other"
  using bs_IsSet_bits [OF assms] bs_AreOneOfTwoBitsSet_bits [OF assms] bs_SetValue_bits [OF assms, of v]
    bs_ClearTwoBits_bits [OF assms] bs_Union_bits [of other b] bs_Intersection_bits [of other b]
  by (intro conjI) assumption+

theorem bitset_is_a_set_witness:
  "\<exists>b'. bs_SetValue 69 True (newBitset64 70) = Inr b' \<and> bits b' = {69}"
proof -
  have "bs_wf (newBitset64 70)" by (rule newBitset64_wf) simp
  moreover have "69 < bs_size (newBitset64 70)" by (simp add: newBitset64_def Let_def)
  ultimately show ?thesis
    using bitset_is_a_set [of "newBitset64 70" 69 True "newBitset64 70"] by (auto simp: newBitset64_bits)
qed

text \<open>A loop over a \<open>Bitset64\<close> ends and visits exactly its positions, each once and in
  increasing order.\<close>

theorem iterator_lists_bits:
  assumes "bs_wf b" "card (bits b) \<le> fuel"
  shows "it_collect fuel (bs_data b) (it_begin b) = Inr (sorted_list_of_set (bits b))"
proof (rule iterator_lists_words [OF _ assms(2)])
  have "bs_size b + 63 < 2 ^ 32" using assms(1) by (simp add: bs_wf_def)
  then show "64 * length (bs_data b) < 2 ^ 32" using assms(1) unfolding bs_wf_def by linarith
qed

theorem iterator_lists_bits_witness:
  "it_collect 8 [32, 0, 6] (it_begin \<lparr>bs_size = 150, bs_data = [32, 0, 6]\<rparr>) = Inr [5, 129, 130]"
proof -
  let ?b = "\<lparr>bs_size = 150, bs_data = [32, 0, 6]\<rparr>"
  have "bits ?b = set (filter (\<lambda>i. bit (bs_data ?b ! (i div 64)) (i mod 64)) [0..<192])"
    by (auto simp: bits_def)
  also have "filter (\<lambda>i. bit (bs_data ?b ! (i div 64)) (i mod 64)) [0..<192] = [5, 129, 130]"
    by code_simp
  finally have bits: "bits ?b = {5, 129, 130}" by simp
  then have "bs_wf ?b \<and> card (bits ?b) \<le> 8" by (simp add: bs_wf_def)
  then have "it_collect 8 (bs_data ?b) (it_begin ?b) = Inr (sorted_list_of_set (bits ?b))"
    using iterator_lists_bits [of ?b 8] by blast
  moreover have "sorted_list_of_set {5, 129, 130 :: nat} = [5, 129, 130]" by code_simp
  ultimately show ?thesis unfolding bits by simp
qed

end
