(* ===== verification/BitQueue.thy ===== *)
theory BitQueue
  imports Bitset
begin

unbundle bit_operations_syntax

text \<open>
  The two classes of \<open>ortools/util/bitset.h\<close> that are built on bit sets: \<open>BitQueue64\<close>, which
  knows its highest position, and \<open>SparseBitset\<close>, which remembers the positions it has to
  clear. The theory shows that the first is a priority queue of positions, and that the
  second is cleared by its list, as long as it is not resized to a smaller size.
\<close>

section \<open>BitQueue64\<close>

record bit_queue =
  bq_size :: nat
  bq_top :: int
  bq_data :: "u64 list"

definition newBitQueue64 :: "nat \<Rightarrow> bit_queue" where
  "newBitQueue64 n = \<lparr>bq_size = n, bq_top = - 1, bq_data = replicate (wordsFor n) 0\<rparr>"

definition bq_IncreaseSize :: "nat \<Rightarrow> bit_queue \<Rightarrow> bit_queue" where
  "bq_IncreaseSize n q = q\<lparr>bq_size := n, bq_data := resizeVec (wordsFor n) 0 (bq_data q)\<rparr>"

definition bq_ClearAndResize :: "nat \<Rightarrow> bit_queue \<Rightarrow> bit_queue" where
  "bq_ClearAndResize n q = \<lparr>bq_size = n, bq_top = - 1, bq_data = replicate (wordsFor n) 0\<rparr>"

definition bq_Set :: "nat \<Rightarrow> bit_queue \<Rightarrow> fault + bit_queue" where
  "bq_Set i q =
     (let top = max (bq_top q) (int i) in
      rbind (modifyWord (wordOf i) (\<lambda>w. w OR OneBit64 (bitOf i)) (bq_data q)) (\<lambda>ws.
        Inr (q\<lparr>bq_top := top, bq_data := ws\<rparr>)))"

definition bq_SetAllBefore :: "nat \<Rightarrow> bit_queue \<Rightarrow> fault + bit_queue" where
  "bq_SetAllBefore i q =
     (let top = max (bq_top q) (int i - 1);
          bucket_index = wordOf i
      in rbind (modifyWord bucket_index (\<lambda>w. w OR (OneBit64 (bitOf i) - 1)) (bq_data q)) (\<lambda>ws.
        Inr (q\<lparr>bq_top := top, bq_data := replicate bucket_index kAllBits64 @ drop bucket_index ws\<rparr>)))"

definition bq_Top :: "bit_queue \<Rightarrow> int" where
  "bq_Top q = bq_top q"

text \<open>The loop of \<open>ClearTop\<close>: down to the first bucket that is not empty.\<close>

fun bq_scan :: "u64 list \<Rightarrow> nat \<Rightarrow> u64 \<Rightarrow> (nat \<times> u64) option" where
  "bq_scan data 0 bucket = (if bucket \<noteq> 0 then Some (0, bucket) else None)"
| "bq_scan data (Suc k) bucket = (if bucket \<noteq> 0 then Some (Suc k, bucket) else bq_scan data k (data ! k))"

definition bq_ClearTop :: "bit_queue \<Rightarrow> fault + bit_queue" where
  "bq_ClearTop q =
     (let bucket_index = unat (BitOffset64 (word_of_int (bq_top q)));
          pos = unat (BitPos64 (word_of_int (bq_top q)))
      in rbind (modifyWord bucket_index (\<lambda>w. w AND NOT (OneBit64 pos)) (bq_data q)) (\<lambda>ws.
        case bq_scan ws bucket_index (ws ! bucket_index) of
          None \<Rightarrow> Inr (q\<lparr>bq_top := - 1, bq_data := ws\<rparr>)
        | Some (k, bucket) \<Rightarrow>
            Inr (q\<lparr>bq_top := int (unat (BitShift64 (of_nat k) + of_nat (MostSignificantBitPosition64 bucket))),
                  bq_data := ws\<rparr>)))"

subsection \<open>A priority queue of positions\<close>

definition bq_bitset :: "bit_queue \<Rightarrow> bitset64" where
  "bq_bitset q = \<lparr>bs_size = bq_size q, bs_data = bq_data q\<rparr>"

definition positions :: "bit_queue \<Rightarrow> nat set" where
  "positions q = bits (bq_bitset q)"

definition bq_inv :: "bit_queue \<Rightarrow> bool" where
  "bq_inv q \<longleftrightarrow> bs_wf (bq_bitset q) \<and> positions q \<subseteq> {..< bq_size q} \<and>
     (if positions q = {} then bq_top q = - 1 else bq_top q = int (Max (positions q)))"

lemma mem_positions: "i \<in> positions q \<longleftrightarrow> i div 64 < length (bq_data q) \<and> bit (bq_data q ! (i div 64)) (i mod 64)"
  by (simp add: positions_def mem_bits bq_bitset_def)

lemma positions_empty: "positions \<lparr>bq_size = n, bq_top = t, bq_data = replicate k 0\<rparr> = {}"
  by (auto simp: mem_positions)

lemma newBitQueue64_inv: "n < 2 ^ 31 \<Longrightarrow> bq_inv (newBitQueue64 n) \<and> positions (newBitQueue64 n) = {}"
  using wordsFor_eq [of n]
  by (simp add: bq_inv_def newBitQueue64_def positions_empty bq_bitset_def bs_wf_def)

lemma bq_ClearAndResize_inv:
  "n < 2 ^ 31 \<Longrightarrow> bq_inv (bq_ClearAndResize n q) \<and> positions (bq_ClearAndResize n q) = {}"
  using newBitQueue64_inv [of n] by (simp add: bq_ClearAndResize_def newBitQueue64_def)

lemma bq_IncreaseSize_inv:
  assumes "bq_inv q" "bq_size q \<le> n" "n < 2 ^ 31"
  shows "bq_inv (bq_IncreaseSize n q) \<and> positions (bq_IncreaseSize n q) = positions q"
proof -
  have w: "wordsFor n = (n + 63) div 64" using assms(3) by (intro wordsFor_eq) simp
  have len: "length (bq_data q) \<le> (n + 63) div 64"
    using assms(1,2) by (simp add: bq_inv_def bs_wf_def bq_bitset_def div_le_mono)
  then have "positions (bq_IncreaseSize n q) = positions q"
    by (auto simp: mem_positions bq_IncreaseSize_def nth_resizeVec w split: if_splits)
  then show ?thesis using assms(1,2,3) w by (auto simp: bq_inv_def bs_wf_def bq_bitset_def bq_IncreaseSize_def)
qed

lemma Max_insert_int:
  assumes "finite A" "if A = {} then t = - 1 else t = int (Max A)"
  shows "max t (int i) = int (Max (insert i A))"
  using assms by (cases "A = {}") (simp_all add: Max_insert max.commute of_nat_max)

lemma positions_finite: "bq_inv q \<Longrightarrow> finite (positions q)"
  by (auto simp: bq_inv_def intro: finite_subset)

lemma bq_Set_inv:
  assumes "bq_inv q" "i < bq_size q"
  shows "\<exists>q'. bq_Set i q = Inr q' \<and> bq_inv q' \<and> bq_size q' = bq_size q \<and> positions q' = insert i (positions q)"
proof -
  let ?b = "bq_bitset q"
  have b: "bs_wf ?b" "i < bs_size ?b" using assms by (simp_all add: bq_inv_def bq_bitset_def)
  obtain b' where b': "bs_Set i ?b = Inr b'" "bs_wf b'" "bs_size b' = bs_size ?b" "bits b' = insert i (bits ?b)"
    using bs_Set_bits [OF b] by blast
  then obtain ws where ws: "modifyWord (wordOf i) (\<lambda>w. w OR OneBit64 (bitOf i)) (bq_data q) = Inr ws" "b' = ?b\<lparr>bs_data := ws\<rparr>"
    by (auto simp: bs_Set_def bq_bitset_def res_simps)
  let ?q = "q\<lparr>bq_top := max (bq_top q) (int i), bq_data := ws\<rparr>"
  have q: "bq_bitset ?q = b'" by (simp add: ws bq_bitset_def)
  then have pos: "positions ?q = insert i (positions q)" using b' by (simp add: positions_def)
  moreover have "max (bq_top q) (int i) = int (Max (insert i (positions q)))"
    using assms(1) by (intro Max_insert_int positions_finite) (auto simp: bq_inv_def)
  ultimately have "bq_inv ?q" using assms q b' by (auto simp: bq_inv_def)
  then show ?thesis using ws pos by (simp add: bq_Set_def Let_def)
qed

lemma bit_OneBit_minus: "k < 64 \<Longrightarrow> bit (OneBit64 k - 1) j \<longleftrightarrow> j < k"
proof -
  have "OneBit64 k - 1 = mask k" by (simp add: OneBit64_def mask_eq_exp_minus_1)
  then show "k < 64 \<Longrightarrow> ?thesis" by (auto simp: bit_mask_iff)
qed

lemma below_place: "j < i \<longleftrightarrow> j div n < i div n \<or> (j div n = i div n \<and> j mod n < i mod n)" for i j n :: nat
proof -
  consider "j div n < i div n" | "j div n = i div n" | "i div n < j div n" by linarith
  then show ?thesis
  proof cases
    case 1
    then show ?thesis using div_le_mono [of i j n] by (meson not_le)
  next
    case 2
    then show ?thesis
      using add_less_cancel_left [of "i div n * n" "j mod n" "i mod n"] by (simp add: div_mult_mod_eq [of j n, unfolded 2])
  next
    case 3
    then have "\<not> j < i" using div_le_mono [of j i n] by (meson less_imp_le not_le)
    then show ?thesis using 3 by linarith
  qed
qed

lemma bq_SetAllBefore_inv:
  assumes "bq_inv q" "i < bq_size q"
  shows "\<exists>q'. bq_SetAllBefore i q = Inr q' \<and> bq_inv q' \<and> bq_size q' = bq_size q \<and>
    positions q' = {..<i} \<union> positions q"
proof -
  let ?k = "i div 64" and ?d = "bq_data q"
  have i: "wordOf i = ?k" "?k < length ?d"
    using bs_wf_word [of "bq_bitset q" i] assms by (auto simp: bq_inv_def bq_bitset_def)
  let ?ws = "?d[?k := ?d ! ?k OR (OneBit64 (i mod 64) - 1)]"
  let ?q = "q\<lparr>bq_top := max (bq_top q) (int i - 1), bq_data := replicate ?k kAllBits64 @ drop ?k ?ws\<rparr>"
  have eq: "bq_SetAllBefore i q = Inr ?q"
    using i by (simp add: bq_SetAllBefore_def modifyWord_def bitOf_eq Let_def)
  have pos: "positions ?q = {..<i} \<union> positions q"
  proof (rule set_eqI)
    fix j
    show "j \<in> positions ?q \<longleftrightarrow> j \<in> {..<i} \<union> positions q"
      using i(2) below_place [of j i 64]
      by (cases "j div 64" ?k rule: linorder_cases)
        (auto simp: mem_positions nth_append bit_or_iff bit_OneBit_minus)
  qed
  have wf: "bs_wf (bq_bitset ?q)" using assms(1) i(2) by (simp add: bq_inv_def bs_wf_def bq_bitset_def)
  have "positions ?q \<subseteq> {..< bq_size q}" unfolding pos using assms by (auto simp: bq_inv_def)
  then have sub: "positions ?q \<subseteq> {..< bq_size ?q}" by simp
  have "if {..<i} \<union> positions q = {} then max (bq_top q) (int i - 1) = - 1
      else max (bq_top q) (int i - 1) = int (Max ({..<i} \<union> positions q))"
  proof (cases i)
    case 0
    then show ?thesis using assms(1) by (auto simp: bq_inv_def)
  next
    case (Suc m)
    have ins: "{..<i} \<union> positions q = insert m (positions q) \<union> {..<m}" unfolding Suc by auto
    have "max (bq_top q) (int m) = int (Max (insert m (positions q)))"
      using assms(1) by (intro Max_insert_int positions_finite) (auto simp: bq_inv_def)
    moreover have "Max ({..<i} \<union> positions q) = Max (insert m (positions q))"
      unfolding ins
    proof (rule Max_eqI)
      have fin: "finite (insert m (positions q))" using positions_finite [OF assms(1)] by simp
      show "Max (insert m (positions q)) \<in> insert m (positions q) \<union> {..<m}"
        using Max_in [OF fin] by blast
      show "y \<le> Max (insert m (positions q))" if "y \<in> insert m (positions q) \<union> {..<m}" for y
        using that Max_ge [OF fin, of y] Max_ge [OF fin, of m] by auto
    qed (use positions_finite [OF assms(1)] in simp)
    ultimately show ?thesis using Suc by (auto simp: lessThan_empty_iff)
  qed
  then have top: "if positions ?q = {} then bq_top ?q = - 1 else bq_top ?q = int (Max (positions ?q))"
    unfolding pos by simp
  have inv: "bq_inv ?q" unfolding bq_inv_def using wf sub top by blast
  show ?thesis by (intro exI [of _ ?q] conjI, rule eq, rule inv, simp, rule pos)
qed

lemma bq_scan_result:
  "case bq_scan data k w of
     None \<Rightarrow> w = 0 \<and> (\<forall>j < k. data ! j = 0)
   | Some (k', w') \<Rightarrow> w' \<noteq> 0 \<and> (k' = k \<and> w' = w \<or> k' < k \<and> w' = data ! k' \<and> w = 0 \<and> (\<forall>j < k. k' < j \<longrightarrow> data ! j = 0))"
proof (induction data k w rule: bq_scan.induct)
  case (2 data k w)
  show ?case
  proof (cases "w = 0")
    case True
    then have "case bq_scan data k (data ! k) of
        None \<Rightarrow> data ! k = 0 \<and> (\<forall>j < k. data ! j = 0)
      | Some (k', w') \<Rightarrow> w' \<noteq> 0 \<and> (k' = k \<and> w' = data ! k \<or>
          k' < k \<and> w' = data ! k' \<and> data ! k = 0 \<and> (\<forall>j < k. k' < j \<longrightarrow> data ! j = 0))"
      using 2 by simp
    then show ?thesis using True by (auto simp: less_Suc_eq split: option.splits)
  next
    case False
    then show ?thesis by simp
  qed
qed simp

lemma bq_ClearTop_inv:
  assumes "bq_inv q" "positions q \<noteq> {}"
  shows "\<exists>q'. bq_ClearTop q = Inr q' \<and> bq_inv q' \<and> bq_size q' = bq_size q \<and>
    positions q' = positions q - {Max (positions q)}"
proof -
  let ?m = "Max (positions q)" and ?b = "bq_bitset q"
  have fin: "finite (positions q)" by (rule positions_finite [OF assms(1)])
  have m: "?m \<in> positions q" using fin assms(2) by (rule Max_in)
  then have lt: "?m < bq_size q" using assms(1) by (auto simp: bq_inv_def)
  have top: "bq_top q = int ?m" using assms by (simp add: bq_inv_def)
  have b: "bs_wf ?b" "?m < bs_size ?b" using assms lt by (simp_all add: bq_inv_def bq_bitset_def)
  obtain b' where b': "bs_Clear ?m ?b = Inr b'" "bs_wf b'" "bs_size b' = bs_size ?b" "bits b' = bits ?b - {?m}"
    using bs_Clear_bits [OF b] by blast
  then obtain ws where ws: "modifyWord (wordOf ?m) (\<lambda>w. w AND NOT (OneBit64 (bitOf ?m))) (bq_data q) = Inr ws"
    "b' = ?b\<lparr>bs_data := ws\<rparr>"
    by (auto simp: bs_Clear_def bq_bitset_def res_simps)
  let ?k = "?m div 64"
  have k: "wordOf ?m = ?k" "?k < length ws"
    using bs_wf_word [OF b] ws by (auto simp: modifyWord_def res_simps bq_bitset_def)
  define q' where "q' t = q\<lparr>bq_top := t, bq_data := ws\<rparr>" for t
  have pos: "positions (q' t) = positions q - {?m}" for t
    using b' ws by (simp add: positions_def bq_bitset_def q'_def)
  have wf: "bs_wf (bq_bitset (q' t))" for t using b' ws by (simp add: bq_bitset_def q'_def)
  have inv: "bq_inv (q' t)" if "if positions q - {?m} = {} then t = - 1 else t = int (Max (positions q - {?m}))" for t
    using that wf [of t] assms(1) by (auto simp: bq_inv_def pos) (auto simp: q'_def)
  have word: "bit (ws ! j) i \<longleftrightarrow> 64 * j + i \<in> positions q - {?m}" if "j < length ws" "i < 64" for i j
    unfolding pos [of 0, symmetric] using that by (simp add: mem_positions q'_def)
  have beyond: "j \<notin> positions q" if "?k < j div 64" for j
    using that Max_ge [OF fin, of j] div_le_mono [of j ?m 64] by auto
  have code: "bq_ClearTop q = (case bq_scan ws ?k (ws ! ?k) of None \<Rightarrow> Inr (q' (- 1))
      | Some (k, bucket) \<Rightarrow> Inr (q' (int (unat (BitShift64 (of_nat k) + of_nat (MostSignificantBitPosition64 bucket))))))"
    using ws(1) k(1) by (simp add: bq_ClearTop_def top wordOf_def bitOf_def q'_def Let_def split: option.split)
  show ?thesis
  proof (cases "bq_scan ws ?k (ws ! ?k)")
    case None
    have zero: "ws ! j = 0" if "j \<le> ?k" for j using bq_scan_result [where data = ws and k = ?k and w = "ws ! ?k"] None that by (cases "j = ?k") auto
    have "positions q - {?m} = {}"
    proof (rule equals0I)
      fix j
      assume j: "j \<in> positions q - {?m}"
      then have "ws ! (j div 64) = 0" using beyond [of j] by (intro zero) (auto simp: not_less [symmetric])
      moreover have "bit (ws ! (j div 64)) (j mod 64)"
        using j unfolding pos [of 0, symmetric] by (simp add: mem_positions q'_def)
      ultimately show False by simp
    qed
    then show ?thesis using code None inv [of "- 1"] pos [of "- 1"] by (simp add: q'_def)
  next
    case (Some r)
    obtain k' w where r: "r = (k', w)" by (cases r)
    have w: "w = ws ! k'" "w \<noteq> 0" "k' \<le> ?k" "\<And>j. k' < j \<Longrightarrow> j \<le> ?k \<Longrightarrow> ws ! j = 0"
      using bq_scan_result [where data = ws and k = ?k and w = "ws ! ?k"] Some r by (auto simp: le_less)
    obtain h where h: "highest_bit w h" using highest_bit_exists [OF w(2)] by blast
    then have h64: "h < 64" by (auto simp: highest_bit_def dest: bit_imp_le_length)
    let ?t = "64 * k' + h"
    have "?t \<in> positions q - {?m}" using word [of k' h] h w k(2) h64 by (simp add: highest_bit_def)
    moreover have "j \<le> ?t" if "j \<in> positions q - {?m}" for j
    proof -
      have "j div 64 \<le> ?k" using beyond [of j] that by (meson DiffD1 not_le)
      moreover have j: "bit (ws ! (j div 64)) (j mod 64)"
        using that unfolding pos [of 0, symmetric] by (simp add: mem_positions q'_def)
      ultimately have "j div 64 \<le> k'" using w(4) [of "j div 64"] by (cases "j div 64 \<le> k'") auto
      moreover have "j mod 64 \<le> h" if "j div 64 = k'"
        using j h that w(1) by (auto simp: highest_bit_def not_less [symmetric])
      ultimately show ?thesis using div_mult_mod_eq [of j 64] mod_less_divisor [of 64 j]
        by (cases "j div 64 = k'") linarith+
    qed
    ultimately have Max: "Max (positions q - {?m}) = ?t" "positions q - {?m} \<noteq> {}" using fin by (auto intro: Max_eqI)
    have at: "unat (BitShift64 (of_nat k') + of_nat h) = ?t"
    proof -
      have "k' < 2 ^ 32" using w(3) lt assms(1) by (auto simp: bq_inv_def bs_wf_def bq_bitset_def)
      then have "64 * k' + h < 2 ^ 64" using h64 by simp
      moreover have "BitShift64 (of_nat k') + of_nat h = of_nat (64 * k' + h)"
        by (simp add: BitShift64_def push_bit_eq_mult)
      ultimately show ?thesis using unat_of_nat64 [of "64 * k' + h"] by metis
    qed
    have "bq_ClearTop q = Inr (q' (int ?t))"
      unfolding code Some r option.case prod.case fast_positions(3) [OF h] at ..
    then show ?thesis using inv [of "int ?t"] pos [of "int ?t"] Max by (simp add: q'_def)
  qed
qed

section \<open>SparseBitset\<close>

record sparse_bitset =
  sb_bitset :: bitset64
  sb_to_clear :: "nat list"

definition newSparseBitset :: "int \<Rightarrow> sparse_bitset" where
  "newSparseBitset n = \<lparr>sb_bitset = newBitset64 n, sb_to_clear = []\<rparr>"

definition sb_SparseClearAll :: "sparse_bitset \<Rightarrow> fault + sparse_bitset" where
  "sb_SparseClearAll s =
     rbind (rfold bs_ClearBucket (sb_to_clear s) (sb_bitset s)) (\<lambda>b.
       Inr \<lparr>sb_bitset = b, sb_to_clear = []\<rparr>)"

definition sb_ClearAll :: "sparse_bitset \<Rightarrow> sparse_bitset" where
  "sb_ClearAll s = \<lparr>sb_bitset = bs_ClearAll (sb_bitset s), sb_to_clear = []\<rparr>"

definition sb_ClearAndResize :: "nat \<Rightarrow> sparse_bitset \<Rightarrow> fault + sparse_bitset" where
  "sb_ClearAndResize n s =
     (if length (sb_to_clear s) * 300 < n
      then rbind (sb_SparseClearAll s) (\<lambda>s. Inr (s\<lparr>sb_bitset := bs_Resize (int n) (sb_bitset s)\<rparr>))
      else Inr \<lparr>sb_bitset = bs_ClearAndResize (int n) (sb_bitset s), sb_to_clear = []\<rparr>)"

definition sb_Resize :: "nat \<Rightarrow> sparse_bitset \<Rightarrow> sparse_bitset" where
  "sb_Resize n s =
     (let to_clear = (if n < bs_size (sb_bitset s) then filter (\<lambda>i. i < n) (sb_to_clear s) else sb_to_clear s)
      in \<lparr>sb_bitset = bs_Resize (int n) (sb_bitset s), sb_to_clear = to_clear\<rparr>)"

definition sb_at :: "sparse_bitset \<Rightarrow> nat \<Rightarrow> fault + bool" where
  "sb_at s i = bs_IsSet i (sb_bitset s)"

definition sb_SetUnsafe :: "nat \<Rightarrow> sparse_bitset \<Rightarrow> fault + sparse_bitset" where
  "sb_SetUnsafe i s =
     rbind (bs_Set i (sb_bitset s)) (\<lambda>b. Inr \<lparr>sb_bitset = b, sb_to_clear = sb_to_clear s @ [i]\<rparr>)"

definition sb_Set :: "nat \<Rightarrow> sparse_bitset \<Rightarrow> fault + sparse_bitset" where
  "sb_Set i s = rbind (sb_at s i) (\<lambda>set. if \<not> set then sb_SetUnsafe i s else Inr s)"

definition sb_Clear :: "nat \<Rightarrow> sparse_bitset \<Rightarrow> fault + sparse_bitset" where
  "sb_Clear i s = rbind (bs_Clear i (sb_bitset s)) (\<lambda>b. Inr (s\<lparr>sb_bitset := b\<rparr>))"

definition sb_NotifyAllClear :: "sparse_bitset \<Rightarrow> sparse_bitset" where
  "sb_NotifyAllClear s = s\<lparr>sb_to_clear := []\<rparr>"

subsection \<open>The list covers the positions\<close>

text \<open>
  The sets a program can build with indices in range, when it never resizes one to a smaller
  size and calls \<open>NotifyAllClear\<close> only on an empty set, as its comment asks.
\<close>

inductive sparse_reach :: "sparse_bitset \<Rightarrow> bool" where
  init: "n < 2 ^ 31 \<Longrightarrow> sparse_reach (newSparseBitset n)"
| set: "sparse_reach s \<Longrightarrow> i < bs_size (sb_bitset s) \<Longrightarrow> sb_Set i s = Inr s' \<Longrightarrow> sparse_reach s'"
| set_unsafe: "sparse_reach s \<Longrightarrow> i < bs_size (sb_bitset s) \<Longrightarrow> sb_SetUnsafe i s = Inr s' \<Longrightarrow> sparse_reach s'"
| clear: "sparse_reach s \<Longrightarrow> i < bs_size (sb_bitset s) \<Longrightarrow> sb_Clear i s = Inr s' \<Longrightarrow> sparse_reach s'"
| grow: "sparse_reach s \<Longrightarrow> bs_size (sb_bitset s) \<le> n \<Longrightarrow> n < 2 ^ 31 \<Longrightarrow> sparse_reach (sb_Resize n s)"
| clear_all: "sparse_reach s \<Longrightarrow> sparse_reach (sb_ClearAll s)"
| sparse_clear_all: "sparse_reach s \<Longrightarrow> sb_SparseClearAll s = Inr s' \<Longrightarrow> sparse_reach s'"
| clear_and_resize: "sparse_reach s \<Longrightarrow> n < 2 ^ 31 \<Longrightarrow> sb_ClearAndResize n s = Inr s' \<Longrightarrow> sparse_reach s'"
| notify: "sparse_reach s \<Longrightarrow> bits (sb_bitset s) = {} \<Longrightarrow> sparse_reach (sb_NotifyAllClear s)"

definition sb_inv :: "sparse_bitset \<Rightarrow> bool" where
  "sb_inv s \<longleftrightarrow> bs_wf (sb_bitset s) \<and> set (sb_to_clear s) \<subseteq> {..< bs_size (sb_bitset s)} \<and>
     (\<forall>j \<in> bits (sb_bitset s). \<exists>i \<in> set (sb_to_clear s). i div 64 = j div 64)"

lemma sb_inv_empty:
  "bs_wf (sb_bitset s) \<Longrightarrow> bits (sb_bitset s) = {} \<Longrightarrow> sb_to_clear s = [] \<Longrightarrow> sb_inv s"
  by (simp add: sb_inv_def)

lemma clear_buckets:
  assumes "bs_wf b" "set is \<subseteq> {..< bs_size b}"
  shows "\<exists>b'. rfold bs_ClearBucket is b = Inr b' \<and> bs_wf b' \<and> bs_size b' = bs_size b \<and>
    bits b' = {j \<in> bits b. \<forall>i \<in> set is. j div 64 \<noteq> i div 64}"
  using assms
proof (induction "is" arbitrary: b)
  case (Cons i "is")
  then obtain b1 where b1: "bs_ClearBucket i b = Inr b1" "bs_wf b1" "bs_size b1 = bs_size b"
    "bits b1 = {j \<in> bits b. j div 64 \<noteq> i div 64}"
    using bs_ClearBucket_bits [of b i] by auto
  then show ?case using Cons.IH [of b1] Cons.prems by auto
qed simp

lemma sb_SparseClearAll_empties:
  assumes "sb_inv s"
  shows "\<exists>s'. sb_SparseClearAll s = Inr s' \<and> sb_inv s' \<and> bs_size (sb_bitset s') = bs_size (sb_bitset s) \<and>
    bits (sb_bitset s') = {} \<and> sb_to_clear s' = []"
proof -
  obtain b where b: "rfold bs_ClearBucket (sb_to_clear s) (sb_bitset s) = Inr b" "bs_wf b"
    "bs_size b = bs_size (sb_bitset s)"
    "bits b = {j \<in> bits (sb_bitset s). \<forall>i \<in> set (sb_to_clear s). j div 64 \<noteq> i div 64}"
    using clear_buckets [of "sb_bitset s" "sb_to_clear s"] assms by (auto simp: sb_inv_def)
  then have "bits b = {}" using assms by (auto simp: sb_inv_def) metis
  then show ?thesis using b by (simp add: sb_SparseClearAll_def sb_inv_empty)
qed

lemma sb_ClearAndResize_empties:
  assumes "sb_inv s" "n < 2 ^ 31"
  shows "\<exists>s'. sb_ClearAndResize n s = Inr s' \<and> sb_inv s' \<and> bs_size (sb_bitset s') = n \<and>
    bits (sb_bitset s') = {} \<and> sb_to_clear s' = []"
proof -
  obtain t where t: "sb_SparseClearAll s = Inr t" "sb_inv t" "bits (sb_bitset t) = {}" "sb_to_clear t = []"
    using sb_SparseClearAll_empties [OF assms(1)] by blast
  have n: "int n < 2 ^ 31" using assms(2) by (metis of_nat_less_iff of_nat_numeral of_nat_power)
  have "bs_wf (sb_bitset t)" using t(2) by (simp add: sb_inv_def)
  note sparse = bs_Resize_bits [OF this n] and full = bs_ClearAndResize_bits [OF n, of "sb_bitset s"]
  show ?thesis
    using t sparse full by (auto simp: sb_ClearAndResize_def intro!: sb_inv_empty)
qed

lemma sb_SetUnsafe_inv:
  assumes "sb_inv s" "i < bs_size (sb_bitset s)" "sb_SetUnsafe i s = Inr s'"
  shows "sb_inv s'"
  using bs_Set_bits [of "sb_bitset s" i] assms by (auto simp: sb_inv_def sb_SetUnsafe_def res_simps)

lemma sparse_reach_inv: "sparse_reach s \<Longrightarrow> sb_inv s"
proof (induction rule: sparse_reach.induct)
  case (init n)
  then show ?case by (auto intro!: sb_inv_empty simp: newSparseBitset_def newBitset64_bits newBitset64_wf)
next
  case (set s i s')
  then show ?case using sb_SetUnsafe_inv by (auto simp: sb_Set_def sb_at_def res_simps split: if_splits)
next
  case (set_unsafe s i s')
  then show ?case using sb_SetUnsafe_inv by blast
next
  case (clear s i s')
  then show ?case
    using bs_Clear_bits [of "sb_bitset s" i] by (auto simp: sb_inv_def sb_Clear_def res_simps)
next
  case (grow s n)
  then have "bs_wf (sb_bitset s)" by (simp add: sb_inv_def)
  moreover have "int n < 2 ^ 31" using grow(3) by (metis of_nat_less_iff of_nat_numeral of_nat_power)
  ultimately show ?case using grow bs_Resize_bits [of "sb_bitset s" "int n"]
    by (auto simp: sb_inv_def sb_Resize_def Let_def) 
next
  case (clear_all s)
  then show ?case by (auto intro!: sb_inv_empty simp: sb_ClearAll_def bs_ClearAll_bits)
      (simp add: sb_inv_def bs_wf_def bs_ClearAll_def)
next
  case (sparse_clear_all s s')
  then show ?case using sb_SparseClearAll_empties by force
next
  case (clear_and_resize s n s')
  then show ?case using sb_ClearAndResize_empties by force
next
  case (notify s)
  then show ?case by (auto intro!: sb_inv_empty simp: sb_NotifyAllClear_def) (simp add: sb_inv_def)
qed

text \<open>A resize to a smaller size drops positions from the list and keeps their bits, which no sparse
  clear reaches any more.\<close>

lemma sparse_resize_leaks:
  "rbind (sb_Set 5 (newSparseBitset 10)) (\<lambda>s.
   rbind (sb_SparseClearAll (sb_Resize 10 (sb_Resize 3 s))) (\<lambda>s. sb_at s 5)) = Inr True"
  by code_simp

section \<open>Properties\<close>

text \<open>A \<open>BitQueue64\<close> is a priority queue of positions: \<open>Set\<close> and \<open>SetAllBefore\<close> add their positions,
  \<open>ClearTop\<close> removes the largest one and no other, none of them fails on a position in range,
  and \<open>Top\<close> is the largest position after each of them, or -1 when there is none.\<close>

theorem bit_queue_keeps_top:
  assumes "bq_inv q" "i < bq_size q"
  shows "bq_Top q = (if positions q = {} then - 1 else int (Max (positions q))) \<and>
    (\<exists>q'. bq_Set i q = Inr q' \<and> bq_inv q' \<and> positions q' = insert i (positions q)) \<and>
    (\<exists>q'. bq_SetAllBefore i q = Inr q' \<and> bq_inv q' \<and> positions q' = {..<i} \<union> positions q) \<and>
    (positions q \<noteq> {} \<longrightarrow>
      (\<exists>q'. bq_ClearTop q = Inr q' \<and> bq_inv q' \<and> positions q' = positions q - {Max (positions q)}))"
proof -
  have "bq_Top q = (if positions q = {} then - 1 else int (Max (positions q)))"
    using assms(1) by (simp add: bq_inv_def bq_Top_def)
  then show ?thesis using bq_Set_inv [OF assms] bq_SetAllBefore_inv [OF assms] bq_ClearTop_inv [OF assms(1)] by metis
qed

theorem bit_queue_keeps_top_witness:
  "\<exists>q'. bq_SetAllBefore 3 (newBitQueue64 70) = Inr q' \<and> positions q' = {0, 1, 2}"
proof -
  have "bq_inv (newBitQueue64 70)" "positions (newBitQueue64 70) = {}" using newBitQueue64_inv [of 70] by simp_all
  moreover have "3 < bq_size (newBitQueue64 70)" by (simp add: newBitQueue64_def)
  moreover have "{..< 3 :: nat} = {0, 1, 2}" by auto
  ultimately show ?thesis using bit_queue_keeps_top [of "newBitQueue64 70" 3] by auto
qed

text \<open>A \<open>SparseBitset\<close> that was never resized to a smaller size is emptied by the list of the
  positions set in it: after \<open>SparseClearAll\<close>, and after \<open>ClearAndResize\<close> whichever of its two ways it takes,
  no position is set and the list is empty.\<close>

theorem sparse_clear_is_complete:
  assumes "sparse_reach s" "n < 2 ^ 31"
  shows "(\<exists>s'. sb_SparseClearAll s = Inr s' \<and> bits (sb_bitset s') = {} \<and> sb_to_clear s' = []) \<and>
    (\<exists>s'. sb_ClearAndResize n s = Inr s' \<and> bs_size (sb_bitset s') = n \<and> bits (sb_bitset s') = {} \<and> sb_to_clear s' = [])"
  using sb_SparseClearAll_empties sb_ClearAndResize_empties sparse_reach_inv [OF assms(1)] assms(2) by blast

theorem sparse_clear_is_complete_witness:
  "\<exists>s s'. sb_Set 5 (newSparseBitset 10) = Inr s \<and> sb_ClearAndResize 7 s = Inr s' \<and> bits (sb_bitset s') = {}"
proof -
  have "\<not> isl (sb_Set 5 (newSparseBitset 10))" by code_simp
  then obtain s where s: "sb_Set 5 (newSparseBitset 10) = Inr s"
    by (cases "sb_Set 5 (newSparseBitset 10)") simp_all
  have "sparse_reach (newSparseBitset 10)" by (rule sparse_reach.init) simp
  then have "sparse_reach s"
    by (rule sparse_reach.set [OF _ _ s]) (simp add: newSparseBitset_def newBitset64_def Let_def)
  then show ?thesis using sparse_clear_is_complete [of s 7] s by auto
qed

end
