(* ===== verification/Saturated.thy ===== *)
theory Saturated
  imports BitWords
begin

unbundle bit_operations_syntax

text \<open>
  The saturating arithmetic of \<open>ortools/util/saturated_arithmetic.h\<close>: the addition, subtraction
  and product of two \<open>int64_t\<close>, by the processor's flags, by the compiler's built-ins and by
  words alone. The theory shows that all of them compute the exact result cut to the range
  of the type.
\<close>

section \<open>The code\<close>

definition kint64max :: i64 where
  "kint64max = 0x7FFFFFFFFFFFFFFF"

definition kint64min :: i64 where
  "kint64min = 0x8000000000000000"

definition AtMinOrMaxInt64 :: "i64 \<Rightarrow> bool" where
  "AtMinOrMaxInt64 x \<longleftrightarrow> x = kint64min \<or> x = kint64max"

definition CapOpp :: "i64 \<Rightarrow> i64" where
  "CapOpp v = (if v = kint64min then NOT v else - v)"

definition CapAbs :: "i64 \<Rightarrow> i64" where
  "CapAbs v = (if v = kint64min then kint64max else if sint v < 0 then - v else v)"

definition TwosComplementAddition :: "i64 \<Rightarrow> i64 \<Rightarrow> i64" where
  "TwosComplementAddition x y = x + y"

definition TwosComplementSubtraction :: "i64 \<Rightarrow> i64 \<Rightarrow> i64" where
  "TwosComplementSubtraction x y = x - y"

definition AddHadOverflow :: "i64 \<Rightarrow> i64 \<Rightarrow> i64 \<Rightarrow> bool" where
  "AddHadOverflow x y s \<longleftrightarrow> sint ((x XOR s) AND (y XOR s)) < 0"

definition SubHadOverflow :: "i64 \<Rightarrow> i64 \<Rightarrow> i64 \<Rightarrow> bool" where
  "SubHadOverflow x y diff \<longleftrightarrow> AddHadOverflow diff y x"

definition AddOverflows :: "i64 \<Rightarrow> i64 \<Rightarrow> bool" where
  "AddOverflows x y \<longleftrightarrow> AddHadOverflow x y (TwosComplementAddition x y)"

definition SubOverflows :: "i64 \<Rightarrow> i64 \<Rightarrow> bool" where
  "SubOverflows x y \<longleftrightarrow> SubHadOverflow x y (TwosComplementSubtraction x y)"

text \<open>The result and the new value of \<open>*b\<close>.\<close>

definition SafeAddInto :: "i64 \<Rightarrow> i64 \<Rightarrow> bool \<times> i64" where
  "SafeAddInto a b =
     (let s = TwosComplementAddition a b in if AddHadOverflow a b s then (False, b) else (True, s))"

definition CapWithSignOf :: "i64 \<Rightarrow> i64" where
  "CapWithSignOf x = TwosComplementAddition kint64max (of_bool (sint x < 0))"

text \<open>
  The assembly: \<open>addq\<close> and \<open>subq\<close> set the overflow flag when the signed result does not fit into 64
  bits, \<open>imulq\<close> the carry flag; the conditional move then takes the cap.
\<close>

definition CapAddAsm :: "i64 \<Rightarrow> i64 \<Rightarrow> i64" where
  "CapAddAsm x y = (let cap = CapWithSignOf x; overflow = \<not> fits64 (sint x + sint y) in if overflow then cap else x + y)"

definition CapSubAsm :: "i64 \<Rightarrow> i64 \<Rightarrow> i64" where
  "CapSubAsm x y = (let cap = CapWithSignOf x; overflow = \<not> fits64 (sint x - sint y) in if overflow then cap else x - y)"

definition CapProdAsm :: "i64 \<Rightarrow> i64 \<Rightarrow> i64" where
  "CapProdAsm x y =
     (let cap = CapWithSignOf (x XOR y); carry = \<not> fits64 (sint x * sint y) in if carry then cap else x * y)"

text \<open>The built-ins give the wrapped result and whether the exact one fits.\<close>

definition builtin_overflow :: "int \<Rightarrow> bool \<times> i64" where
  "builtin_overflow v = (\<not> fits64 v, word_of_int v)"

definition CapAddBuiltIn :: "i64 \<Rightarrow> i64 \<Rightarrow> i64" where
  "CapAddBuiltIn x y =
     (let cap = CapWithSignOf x; (overflowed, result) = builtin_overflow (sint x + sint y)
      in if overflowed then cap else result)"

definition CapSubBuiltIn :: "i64 \<Rightarrow> i64 \<Rightarrow> i64" where
  "CapSubBuiltIn x y =
     (let cap = CapWithSignOf x; (overflowed, result) = builtin_overflow (sint x - sint y)
      in if overflowed then cap else result)"

definition CapProdBuiltIn :: "i64 \<Rightarrow> i64 \<Rightarrow> i64" where
  "CapProdBuiltIn x y =
     (let cap = CapWithSignOf (x XOR y); (overflowed, result) = builtin_overflow (sint x * sint y)
      in if overflowed then cap else result)"

definition CapAddGeneric :: "i64 \<Rightarrow> i64 \<Rightarrow> i64" where
  "CapAddGeneric x y =
     (let result = TwosComplementAddition x y in if AddHadOverflow x y result then CapWithSignOf x else result)"

definition CapSubGeneric :: "i64 \<Rightarrow> i64 \<Rightarrow> i64" where
  "CapSubGeneric x y =
     (let result = TwosComplementSubtraction x y in if SubHadOverflow x y result then CapWithSignOf x else result)"

definition uint_abs :: "i64 \<Rightarrow> u64" where
  "uint_abs n = (if sint n < 0 then NOT n + 1 else n)"

definition CapProdGeneric :: "i64 \<Rightarrow> i64 \<Rightarrow> i64" where
  "CapProdGeneric x y =
     (let a = uint_abs x; b = uint_abs y;
          msb_sum = int (MostSignificantBitPosition64 a + MostSignificantBitPosition64 b);
          kMaxBitIndexInInt64 = 63
      in if msb_sum \<le> kMaxBitIndexInInt64 - 2 then x * y
         else if a = 0 \<or> b = 0 then 0
         else
           (let cap = CapWithSignOf (x XOR y) in
            if msb_sum \<ge> kMaxBitIndexInInt64 then cap
            else
              (let u_prod = a * b in
               if u_prod \<ge> cap then cap
               else (let abs_result = u_prod in if sint cap < 0 then - abs_result else abs_result))))"

text \<open>The variants in use on the x86-64 machines the build supports, with the GNU compiler.\<close>

definition CapAdd :: "i64 \<Rightarrow> i64 \<Rightarrow> i64" where
  "CapAdd x y = CapAddAsm x y"

definition CapAddTo :: "i64 \<Rightarrow> i64 \<Rightarrow> i64" where
  "CapAddTo x y = CapAdd y x"

definition CapSub :: "i64 \<Rightarrow> i64 \<Rightarrow> i64" where
  "CapSub x y = CapSubAsm x y"

definition CapProd :: "i64 \<Rightarrow> i64 \<Rightarrow> i64" where
  "CapProd x y = CapProdAsm x y"

section \<open>Saturation\<close>

definition saturate :: "int \<Rightarrow> int" where
  "saturate v = max (- (2 ^ 63)) (min (2 ^ 63 - 1) v)"

lemma saturate_fits: "fits64 v \<Longrightarrow> saturate v = v"
  by (simp add: saturate_def fits64_def)

lemma sint_limits [simp]: "sint kint64max = 2 ^ 63 - 1" "sint kint64min = - (2 ^ 63)"
  by (simp_all add: kint64max_def kint64min_def)

lemma sint_cap: "sint (CapWithSignOf x) = (if sint x < 0 then - (2 ^ 63) else 2 ^ 63 - 1)"
  by (simp add: CapWithSignOf_def TwosComplementAddition_def kint64max_def)

lemma sint_bounds: "- (2 ^ 63) \<le> sint x" "sint x < 2 ^ 63" for x :: i64
  using sint_fits64 [of x] by (simp_all add: fits64_def)

lemma saturate_add: "sint (if \<not> fits64 (sint x + sint y) then CapWithSignOf x else x + y) = saturate (sint x + sint y)"
  using sint_bounds [of x] sint_bounds [of y] sint_add64 [of x y]
  by (auto simp: saturate_fits sint_cap) (auto simp: saturate_def fits64_def)

lemma saturate_sub: "sint (if \<not> fits64 (sint x - sint y) then CapWithSignOf x else x - y) = saturate (sint x - sint y)"
  using sint_bounds [of x] sint_bounds [of y] sint_sub64 [of x y]
  by (auto simp: saturate_fits sint_cap) (auto simp: saturate_def fits64_def)

lemma sign_bit: "sint (x :: i64) < 0 \<longleftrightarrow> bit x 63"
  using bit_last_iff [of x] by simp

lemma sint_xor: "sint (x XOR y :: i64) < 0 \<longleftrightarrow> (sint x < 0) \<noteq> (sint y < 0)"
  by (simp add: sign_bit bit_xor_iff)

lemma saturate_prod:
  "sint (if \<not> fits64 (sint x * sint y) then CapWithSignOf (x XOR y) else x * y) = saturate (sint x * sint y)"
proof (cases "fits64 (sint x * sint y)")
  case True
  then show ?thesis by (simp add: saturate_fits sint_mul64)
next
  case False
  then have nz: "sint x \<noteq> 0" "sint y \<noteq> 0" by (auto simp: fits64_def)
  then have "sint x * sint y < 0 \<longleftrightarrow> (sint x < 0) \<noteq> (sint y < 0)"
    by (auto simp: mult_less_0_iff)
  then show ?thesis using False by (auto simp: sint_cap sint_xor saturate_def fits64_def)
qed

lemma word_shift64: "(word_of_int (v + 2 ^ 64) :: i64) = word_of_int v" "(word_of_int (v - 2 ^ 64) :: i64) = word_of_int v"
  unfolding word_of_int_eq_iff by (simp_all add: take_bit_eq_mod)

lemma wrapped:
  assumes "- (2 ^ 64) \<le> v" "v < 2 ^ 64"
  shows "sint (word_of_int v :: i64) =
    v + (if fits64 v then 0 else if v < 0 then 2 ^ 64 else - (2 ^ 64))"
  using assms sint_of_int64 [of v] sint_of_int64 [of "v + 2 ^ 64", unfolded word_shift64]
    sint_of_int64 [of "v - 2 ^ 64", unfolded word_shift64]
  by (auto simp: fits64_def)

lemma AddHadOverflow_iff: "AddHadOverflow x y (x + y) \<longleftrightarrow> \<not> fits64 (sint x + sint y)"
proof -
  have "AddHadOverflow x y (x + y) \<longleftrightarrow> (sint x < 0) \<noteq> (sint (x + y) < 0) \<and> (sint y < 0) \<noteq> (sint (x + y) < 0)"
    unfolding AddHadOverflow_def by (simp add: sign_bit bit_and_iff bit_xor_iff)
  also have "\<dots> \<longleftrightarrow> \<not> fits64 (sint x + sint y)"
    using sint_bounds [of x] sint_bounds [of y] wrapped [of "sint x + sint y"]
    by (auto simp: fits64_def split: if_splits)
  finally show ?thesis .
qed

lemma SubHadOverflow_iff: "SubHadOverflow x y (x - y) \<longleftrightarrow> \<not> fits64 (sint x - sint y)"
proof -
  have "SubHadOverflow x y (x - y) \<longleftrightarrow> (sint (x - y) < 0) \<noteq> (sint x < 0) \<and> (sint y < 0) \<noteq> (sint x < 0)"
    unfolding SubHadOverflow_def AddHadOverflow_def by (simp add: sign_bit bit_and_iff bit_xor_iff)
  also have "\<dots> \<longleftrightarrow> \<not> fits64 (sint x - sint y)"
    using sint_bounds [of x] sint_bounds [of y] wrapped [of "sint x - sint y"]
    by (auto simp: fits64_def split: if_splits)
  finally show ?thesis .
qed

section \<open>The product by words\<close>

lemma unat_uint_abs: "int (unat (uint_abs x)) = \<bar>sint x\<bar>"
proof (cases "sint x < 0")
  case True
  have "uint (- x) = - sint x"
  proof -
    have "uint (word_of_int (- sint x) :: i64) = - sint x"
      using True sint_bounds [of x] by (simp add: unsigned_of_int take_bit_int_eq_self del: of_int_minus)
    then show ?thesis by simp
  qed
  then show ?thesis using True by (simp add: uint_abs_def not_plus_one)
next
  case False
  then have "uint x = sint x" using sint_bounds [of x] by (simp add: uint_sint take_bit_int_eq_self)
  then show ?thesis using False by (simp add: uint_abs_def)
qed

lemma msb_bounds:
  assumes "n \<noteq> 0"
  shows "2 ^ MostSignificantBitPosition64 n \<le> unat n" "unat n < 2 ^ Suc (MostSignificantBitPosition64 n)"
  using highest_bit_exists [OF assms] highest_bit_bounds fast_positions(3) by metis+

lemma msb_product:
  assumes "a \<noteq> 0" "b \<noteq> 0"
  defines "s \<equiv> MostSignificantBitPosition64 a + MostSignificantBitPosition64 b"
  shows "2 ^ s \<le> unat a * unat b" "unat a * unat b < 2 ^ (s + 2)"
proof -
  show "2 ^ s \<le> unat a * unat b"
    unfolding s_def power_add by (intro mult_mono msb_bounds assms) auto
  have "unat a * unat b < 2 ^ Suc (MostSignificantBitPosition64 a) * 2 ^ Suc (MostSignificantBitPosition64 b)"
    by (intro mult_strict_mono msb_bounds assms) auto
  then show "unat a * unat b < 2 ^ (s + 2)" by (simp add: s_def power_add)
qed

lemma uint_abs_zero: "uint_abs x = 0 \<longleftrightarrow> sint x = 0"
  using unat_uint_abs [of x] by (metis abs_eq_0 of_nat_0 of_nat_eq_0_iff unat_0 unat_0_iff)

lemma abs_product: "int (unat (uint_abs x) * unat (uint_abs y)) = \<bar>sint x * sint y\<bar>"
  unfolding of_nat_mult unat_uint_abs abs_mult ..

lemma fits_abs: "\<bar>v\<bar> < 2 ^ 63 \<Longrightarrow> fits64 v"
  by (auto simp: fits64_def)

lemma int_power_bounds: "n < 2 ^ k \<Longrightarrow> int n < 2 ^ k" "2 ^ k \<le> n \<Longrightarrow> 2 ^ k \<le> int n"
  by (metis of_nat_less_iff of_nat_numeral of_nat_power) (metis of_nat_le_iff of_nat_numeral of_nat_power)

lemma product_sign: "v \<noteq> 0 \<Longrightarrow> v = sint x * sint y \<Longrightarrow> sint (x XOR y) < 0 \<longleftrightarrow> v < 0" for x y :: i64
  by (auto simp: sint_xor mult_less_0_iff)

lemma CapProdGeneric_saturates: "sint (CapProdGeneric x y) = saturate (sint x * sint y)"
proof -
  let ?a = "uint_abs x" and ?b = "uint_abs y" and ?v = "sint x * sint y"
  let ?s = "MostSignificantBitPosition64 ?a + MostSignificantBitPosition64 ?b"
  have abs: "int (unat ?a * unat ?b) = \<bar>?v\<bar>" by (rule abs_product)
  consider "?a = 0 \<or> ?b = 0" | "?a \<noteq> 0" "?b \<noteq> 0" "?s \<le> 61" | "?a \<noteq> 0" "?b \<noteq> 0" "?s = 62"
    | "?a \<noteq> 0" "?b \<noteq> 0" "63 \<le> ?s" by linarith
  then show ?thesis
  proof cases
    case 1
    then have z: "sint x = 0 \<or> sint y = 0" by (simp add: uint_abs_zero)
    then have "x = 0 \<or> y = 0" by (metis signed_eq_0_iff)
    then show ?thesis using 1 z by (auto simp: CapProdGeneric_def Let_def saturate_def)
  next
    case 2
    have "(2 :: nat) ^ (?s + 2) \<le> 2 ^ 63" using 2(3) by (intro power_increasing) auto
    then have "unat ?a * unat ?b < 2 ^ 63" using msb_product(2) [OF 2(1,2)] by linarith
    then have "fits64 ?v" by (intro fits_abs) (metis abs int_power_bounds(1))
    then show ?thesis using 2 by (simp add: CapProdGeneric_def Let_def sint_mul64 saturate_fits)
  next
    case 3
    have up: "2 ^ 62 \<le> unat ?a * unat ?b" "unat ?a * unat ?b < 2 ^ 64"
      using msb_product [OF 3(1,2)] unfolding 3(3) by simp_all
    let ?u = "?a * ?b"
    have u: "int (unat ?u) = \<bar>?v\<bar>" using up abs unat_mult_lem [of ?a ?b] by simp
    have v: "?v \<noteq> 0"
    proof
      assume "?v = 0"
      then have zero: "unat ?a * unat ?b = 0" using abs by (metis abs_zero of_nat_eq_0_iff)
      show False using up(1) unfolding zero by simp
    qed
    have sign: "sint (x XOR y) < 0 \<longleftrightarrow> ?v < 0" using v by (intro product_sign) auto
    have code: "CapProdGeneric x y = (if ?u \<ge> CapWithSignOf (x XOR y) then CapWithSignOf (x XOR y)
        else if ?v < 0 then - ?u else ?u)"
      using 3 sign sint_cap [of "x XOR y"] by (simp add: CapProdGeneric_def Let_def)
    have cap: "unat (CapWithSignOf (x XOR y)) = (if ?v < 0 then 2 ^ 63 else 2 ^ 63 - 1)"
      using sign by (simp add: CapWithSignOf_def TwosComplementAddition_def kint64max_def)
    show ?thesis
    proof (cases "?u \<ge> CapWithSignOf (x XOR y)")
      case True
      then have "int (unat (CapWithSignOf (x XOR y))) \<le> \<bar>?v\<bar>" 
        unfolding u [symmetric] word_le_nat_alt by (rule of_nat_mono)
      then show ?thesis using True code sign cap by (auto simp: sint_cap saturate_def split: if_splits)
    next
      case False
      then have "unat ?u < unat (CapWithSignOf (x XOR y))" by (simp add: word_le_nat_alt)
      then have "unat ?u < 2 ^ 63" using cap by (auto split: if_splits)
      then have lt: "\<bar>?v\<bar> < 2 ^ 63" unfolding u [symmetric] by (rule int_power_bounds(1))
      have "word_of_int (int (unat ?u)) = ?u" unfolding of_int_of_nat_eq by simp
      then have "?u = word_of_int \<bar>?v\<bar>" unfolding u by (rule sym)
      then have "CapProdGeneric x y = word_of_int ?v" using False code by auto
      then show ?thesis using lt sint_of_int64 [OF fits_abs [OF lt]] saturate_fits [OF fits_abs [OF lt]] by simp
    qed
  next
    case 4
    have "(2 :: nat) ^ 63 \<le> 2 ^ ?s" using 4(3) by (intro power_increasing) auto
    then have "2 ^ 63 \<le> unat ?a * unat ?b" using msb_product(1) [OF 4(1,2)] by linarith
    then have big: "2 ^ 63 \<le> \<bar>?v\<bar>" by (metis abs int_power_bounds(2))
    then have sign: "sint (x XOR y) < 0 \<longleftrightarrow> ?v < 0" by (intro product_sign) auto
    have "CapProdGeneric x y = CapWithSignOf (x XOR y)"
      using 4 by (simp add: CapProdGeneric_def Let_def)
    then show ?thesis using big sign by (auto simp: sint_cap saturate_def)
  qed
qed

section \<open>Properties\<close>

text \<open>C31: The saturating operations compute the exact sum, difference and product of their operands, cut
  to the range of \<open>int64_t\<close>, and the generic variants, which detect an overflow from the words
  alone, agree with the ones that read the flags of the processor and with the built-ins.\<close>

theorem cap_operations_saturate:
  "sint (CapAdd x y) = saturate (sint x + sint y) \<and>
   sint (CapSub x y) = saturate (sint x - sint y) \<and>
   sint (CapProd x y) = saturate (sint x * sint y) \<and>
   CapAddGeneric x y = CapAdd x y \<and> CapSubGeneric x y = CapSub x y \<and> CapProdGeneric x y = CapProd x y \<and>
   CapAddBuiltIn x y = CapAdd x y \<and> CapSubBuiltIn x y = CapSub x y \<and> CapProdBuiltIn x y = CapProd x y"
proof -
  have add: "sint (CapAdd x y) = saturate (sint x + sint y)"
    using saturate_add [of x y] by (simp add: CapAdd_def CapAddAsm_def Let_def)
  have sub: "sint (CapSub x y) = saturate (sint x - sint y)"
    using saturate_sub [of x y] by (simp add: CapSub_def CapSubAsm_def Let_def)
  have prod: "sint (CapProd x y) = saturate (sint x * sint y)"
    using saturate_prod [of x y] by (simp add: CapProd_def CapProdAsm_def Let_def)
  have "CapProdGeneric x y = CapProd x y"
    using CapProdGeneric_saturates [of x y] prod by (metis of_int_sint scast_id)
  then show ?thesis using add sub prod
    by (simp add: CapAdd_def CapSub_def CapProd_def CapAddAsm_def CapSubAsm_def CapProdAsm_def CapAddGeneric_def
        CapSubGeneric_def CapAddBuiltIn_def CapSubBuiltIn_def CapProdBuiltIn_def builtin_overflow_def Let_def
        TwosComplementAddition_def TwosComplementSubtraction_def AddHadOverflow_iff SubHadOverflow_iff)
qed

text \<open>The checks for an overflow are exact, and \<open>SafeAddInto\<close> leaves its operand alone when it fails.\<close>

lemma overflow_checks:
  "AddOverflows x y \<longleftrightarrow> \<not> fits64 (sint x + sint y)" "SubOverflows x y \<longleftrightarrow> \<not> fits64 (sint x - sint y)"
  "SafeAddInto x y = (if fits64 (sint x + sint y) then (True, x + y) else (False, y))"
  by (simp_all add: AddOverflows_def SubOverflows_def SafeAddInto_def TwosComplementAddition_def
      TwosComplementSubtraction_def AddHadOverflow_iff SubHadOverflow_iff)

lemma unary_saturate: "sint (CapOpp v) = saturate (- sint v)" "sint (CapAbs v) = saturate \<bar>sint v\<bar>"
proof -
  have above: "- (2 ^ 63) < sint v" if "v \<noteq> kint64min"
  proof -
    have "sint v \<noteq> - (2 ^ 63)" using that by (metis sint_limits(2) of_int_sint scast_id)
    then show ?thesis using sint_bounds [of v] by simp
  qed
  have neg: "sint (- v) = - sint v" if "v \<noteq> kint64min"
  proof -
    have "fits64 (- sint v)" using above [OF that] sint_bounds [of v] by (simp add: fits64_def)
    from sint_of_int64 [OF this] show ?thesis by simp
  qed
  show "sint (CapOpp v) = saturate (- sint v)"
  proof (cases "v = kint64min")
    case True
    then show ?thesis by (simp add: CapOpp_def saturate_def kint64min_def)
  next
    case False
    then show ?thesis using neg above sint_bounds [of v] by (simp add: CapOpp_def saturate_def)
  qed
  show "sint (CapAbs v) = saturate \<bar>sint v\<bar>"
    using neg above sint_bounds [of v] by (auto simp: CapAbs_def saturate_def)
qed

end
