(* ===== verification/IntegerPQ.thy ===== *)
theory IntegerPQ
  imports Prelude
begin

text \<open>
  The adjustable priority queue of \<open>ortools/util/integer_pq.h\<close>: a binary heap from position 1 on
  with the position of every element kept by its index. The element type with its \<open>Index()\<close>
  and the comparison are the parameters of the template. The theory shows that the queue is a
  finite map from indices to elements whose top is a greatest element.
\<close>

section \<open>The code\<close>

record 'e pq =
  pq_size :: nat
  pq_heap :: "'e list"
  pq_position :: "nat list"

definition pq_Reserve :: "'e \<Rightarrow> nat \<Rightarrow> 'e pq \<Rightarrow> 'e pq" where
  "pq_Reserve d n q = q\<lparr>pq_heap := resizeVec (n + 1) d (pq_heap q), pq_position := resizeVec n 0 (pq_position q)\<rparr>"

definition newPQ :: "'e \<Rightarrow> nat \<Rightarrow> 'e pq" where
  "newPQ d n = pq_Reserve d n \<lparr>pq_size = 0, pq_heap = [], pq_position = []\<rparr>"

definition pq_IsEmpty :: "'e pq \<Rightarrow> bool" where
  "pq_IsEmpty q \<longleftrightarrow> pq_size q = 0"

definition pq_Clear :: "'e pq \<Rightarrow> 'e pq" where
  "pq_Clear q = q\<lparr>pq_size := 0, pq_position := replicate (length (pq_position q)) 0\<rparr>"

definition pq_Contains :: "nat \<Rightarrow> 'e pq \<Rightarrow> fault + bool" where
  "pq_Contains i q = rbind (index_vec (pq_position q) i) (\<lambda>p. Inr (p \<noteq> 0))"

definition pq_Set :: "('e \<Rightarrow> nat) \<Rightarrow> nat \<Rightarrow> 'e \<Rightarrow> 'e pq \<Rightarrow> fault + 'e pq" where
  "pq_Set ix i e q =
     (if i < length (pq_heap q) \<and> ix e < length (pq_position q)
      then Inr (q\<lparr>pq_heap := (pq_heap q)[i := e], pq_position := (pq_position q)[ix e := i]\<rparr>)
      else Inl BadIndex)"

text \<open>
  The loop of \<open>SetAndDecreasePriority\<close>. At position 0, where no element of the queue is, the left
  child is position 0 itself and taking it repeats the same step for ever.
\<close>

function pq_SetAndDecreasePriority ::
    "('e \<Rightarrow> nat) \<Rightarrow> ('e \<Rightarrow> 'e \<Rightarrow> bool) \<Rightarrow> nat \<Rightarrow> 'e \<Rightarrow> 'e pq \<Rightarrow> fault + 'e pq" where
  "pq_SetAndDecreasePriority ix lt i e q =
     (let left = i * 2; right = left + 1 in
      if right > pq_size q then
        (if left > pq_size q then pq_Set ix i e q
         else rbind (index_vec (pq_heap q) left) (\<lambda>left_element.
           if \<not> lt e left_element then pq_Set ix i e q
           else rbind (pq_Set ix i left_element q) (pq_Set ix left e)))
      else rbind (index_vec (pq_heap q) left) (\<lambda>left_element.
        rbind (index_vec (pq_heap q) right) (\<lambda>right_element.
          if lt left_element right_element then
            (if \<not> lt e right_element then pq_Set ix i e q
             else case pq_Set ix i right_element q of
                    Inl err \<Rightarrow> Inl err
                  | Inr q' \<Rightarrow> pq_SetAndDecreasePriority ix lt right e q')
          else
            (if \<not> lt e left_element then pq_Set ix i e q
             else if i = 0 then Inl NoReturn
             else case pq_Set ix i left_element q of
                    Inl err \<Rightarrow> Inl err
                  | Inr q' \<Rightarrow> pq_SetAndDecreasePriority ix lt left e q'))))"
  by pat_completeness auto
termination
  by (relation "measure (\<lambda>(ix, lt, i, e, q). pq_size q + 1 - i)")
    (auto simp: pq_Set_def split: if_splits)

declare pq_SetAndDecreasePriority.simps [simp del]

function pq_SetAndIncreasePriority ::
    "('e \<Rightarrow> nat) \<Rightarrow> ('e \<Rightarrow> 'e \<Rightarrow> bool) \<Rightarrow> nat \<Rightarrow> 'e \<Rightarrow> 'e pq \<Rightarrow> fault + 'e pq" where
  "pq_SetAndIncreasePriority ix lt i e q =
     (if i > 1 then
        rbind (index_vec (pq_heap q) (i div 2)) (\<lambda>parent_element.
          if \<not> lt parent_element e then pq_Set ix i e q
          else rbind (pq_Set ix i parent_element q) (pq_SetAndIncreasePriority ix lt (i div 2) e))
      else pq_Set ix i e q)"
  by pat_completeness auto
termination by (relation "measure (\<lambda>(ix, lt, i, e, q). i)") auto

declare pq_SetAndIncreasePriority.simps [simp del]

definition pq_Add :: "('e \<Rightarrow> nat) \<Rightarrow> ('e \<Rightarrow> 'e \<Rightarrow> bool) \<Rightarrow> 'e \<Rightarrow> 'e pq \<Rightarrow> fault + 'e pq" where
  "pq_Add ix lt e q =
     (let q = q\<lparr>pq_size := pq_size q + 1\<rparr> in pq_SetAndIncreasePriority ix lt (pq_size q) e q)"

definition pq_Top :: "'e pq \<Rightarrow> fault + 'e" where
  "pq_Top q = index_vec (pq_heap q) 1"

definition pq_setPosition :: "nat \<Rightarrow> nat \<Rightarrow> 'e pq \<Rightarrow> fault + 'e pq" where
  "pq_setPosition j p q =
     (if j < length (pq_position q) then Inr (q\<lparr>pq_position := (pq_position q)[j := p]\<rparr>) else Inl BadIndex)"

definition pq_Pop :: "('e \<Rightarrow> nat) \<Rightarrow> ('e \<Rightarrow> 'e \<Rightarrow> bool) \<Rightarrow> 'e pq \<Rightarrow> fault + 'e pq" where
  "pq_Pop ix lt q =
     rbind (pq_Top q) (\<lambda>top.
     rbind (pq_setPosition (ix top) 0 q) (\<lambda>q.
       let old_size = pq_size q; q = q\<lparr>pq_size := old_size - 1\<rparr> in
       if old_size > 1
       then rbind (index_vec (pq_heap q) old_size) (\<lambda>e. pq_SetAndDecreasePriority ix lt 1 e q)
       else Inr q))"

definition pq_Remove :: "('e \<Rightarrow> nat) \<Rightarrow> ('e \<Rightarrow> 'e \<Rightarrow> bool) \<Rightarrow> nat \<Rightarrow> 'e pq \<Rightarrow> fault + 'e pq" where
  "pq_Remove ix lt i q =
     rbind (index_vec (pq_position q) i) (\<lambda>to_replace.
     rbind (pq_setPosition i 0 q) (\<lambda>q.
       let old_size = pq_size q; q = q\<lparr>pq_size := old_size - 1\<rparr> in
       if to_replace = old_size then Inr q
       else rbind (index_vec (pq_heap q) old_size) (\<lambda>e.
         rbind (index_vec (pq_heap q) to_replace) (\<lambda>old.
           if lt e old then pq_SetAndDecreasePriority ix lt to_replace e q
           else pq_SetAndIncreasePriority ix lt to_replace e q))))"

definition pq_ChangePriority :: "('e \<Rightarrow> nat) \<Rightarrow> ('e \<Rightarrow> 'e \<Rightarrow> bool) \<Rightarrow> 'e \<Rightarrow> 'e pq \<Rightarrow> fault + 'e pq" where
  "pq_ChangePriority ix lt e q =
     rbind (index_vec (pq_position q) (ix e)) (\<lambda>i.
       rbind (if i > 1 then rbind (index_vec (pq_heap q) (i div 2)) (\<lambda>p. Inr (lt p e)) else Inr False) (\<lambda>up.
         if up then pq_SetAndIncreasePriority ix lt i e q else pq_SetAndDecreasePriority ix lt i e q))"

definition pq_IncreasePriority :: "('e \<Rightarrow> nat) \<Rightarrow> ('e \<Rightarrow> 'e \<Rightarrow> bool) \<Rightarrow> 'e \<Rightarrow> 'e pq \<Rightarrow> fault + 'e pq" where
  "pq_IncreasePriority ix lt e q =
     rbind (index_vec (pq_position q) (ix e)) (\<lambda>i. pq_SetAndIncreasePriority ix lt i e q)"

definition pq_DecreasePriority :: "('e \<Rightarrow> nat) \<Rightarrow> ('e \<Rightarrow> 'e \<Rightarrow> bool) \<Rightarrow> 'e \<Rightarrow> 'e pq \<Rightarrow> fault + 'e pq" where
  "pq_DecreasePriority ix lt e q =
     rbind (index_vec (pq_position q) (ix e)) (\<lambda>i. pq_SetAndDecreasePriority ix lt i e q)"

definition pq_GetElement :: "nat \<Rightarrow> 'e pq \<Rightarrow> fault + 'e" where
  "pq_GetElement i q = rbind (index_vec (pq_position q) i) (index_vec (pq_heap q))"

definition pq_QueueElement :: "nat \<Rightarrow> 'e pq \<Rightarrow> fault + 'e" where
  "pq_QueueElement i q = index_vec (pq_heap q) (1 + i)"

section \<open>A hole in the heap\<close>

text \<open>
  \<open>holds\<close> says that all positions but the hole hold the elements of the map, and that the element
  to be put into the hole is none of them.
\<close>

definition pq_map :: "'e pq \<Rightarrow> nat \<Rightarrow> 'e option" where
  "pq_map q j = (if j < length (pq_position q) \<and> pq_position q ! j \<noteq> 0 then Some (pq_heap q ! (pq_position q ! j)) else None)"

definition placed :: "('e \<Rightarrow> nat) \<Rightarrow> 'e pq \<Rightarrow> nat \<Rightarrow> bool" where
  "placed ix q k \<longleftrightarrow> ix (pq_heap q ! k) < length (pq_position q) \<and> pq_position q ! ix (pq_heap q ! k) = k"

definition hole :: "('e \<Rightarrow> nat) \<Rightarrow> nat \<Rightarrow> 'e \<Rightarrow> 'e pq \<Rightarrow> bool" where
  "hole ix i e q \<longleftrightarrow> 1 \<le> i \<and> i \<le> pq_size q \<and> pq_size q < length (pq_heap q) \<and> ix e < length (pq_position q) \<and>
     (\<forall>k. 1 \<le> k \<longrightarrow> k \<le> pq_size q \<longrightarrow> k \<noteq> i \<longrightarrow> placed ix q k \<and> ix (pq_heap q ! k) \<noteq> ix e) \<and>
     (\<forall>j < length (pq_position q). j \<noteq> ix e \<longrightarrow> pq_position q ! j \<noteq> 0 \<longrightarrow>
        pq_position q ! j \<le> pq_size q \<and> pq_position q ! j \<noteq> i \<and> ix (pq_heap q ! (pq_position q ! j)) = j)"

definition pq_ok :: "('e \<Rightarrow> nat) \<Rightarrow> 'e pq \<Rightarrow> bool" where
  "pq_ok ix q \<longleftrightarrow> length (pq_heap q) = length (pq_position q) + 1 \<and> pq_size q < length (pq_heap q) \<and>
     (\<forall>k. 1 \<le> k \<longrightarrow> k \<le> pq_size q \<longrightarrow> placed ix q k) \<and>
     (\<forall>j < length (pq_position q). pq_position q ! j \<noteq> 0 \<longrightarrow>
        pq_position q ! j \<le> pq_size q \<and> ix (pq_heap q ! (pq_position q ! j)) = j)"

lemma hole_move:
  assumes "hole ix i e q" "1 \<le> p" "p \<le> pq_size q" "p \<noteq> i"
  shows "\<exists>q'. pq_Set ix i (pq_heap q ! p) q = Inr q' \<and> hole ix p e q' \<and> pq_size q' = pq_size q \<and>
    pq_heap q' = (pq_heap q)[i := pq_heap q ! p] \<and> length (pq_position q') = length (pq_position q) \<and>
    (\<forall>j. j \<noteq> ix e \<longrightarrow> pq_map q' j = pq_map q j)"
proof -
  let ?x = "pq_heap q ! p"
  let ?q = "q\<lparr>pq_heap := (pq_heap q)[i := ?x], pq_position := (pq_position q)[ix ?x := i]\<rparr>"
  have x: "placed ix q p" "ix ?x \<noteq> ix e" using assms by (auto simp: hole_def)
  have eq: "pq_Set ix i ?x q = Inr ?q"
    using assms x by (simp add: pq_Set_def hole_def placed_def)
  have others: "k = p" if "ix ?x = ix (pq_heap q ! k)" "Suc 0 \<le> k" "k \<le> pq_size q" "i \<noteq> k" for k
    using assms that x(1) by (metis One_nat_def hole_def placed_def)
  have "hole ix p e ?q"
    unfolding hole_def
    using assms x by (auto simp: hole_def placed_def nth_list_update dest: others)
  moreover have "pq_map ?q j = pq_map q j" if "j \<noteq> ix e" for j
    using assms x that by (auto simp: pq_map_def hole_def placed_def nth_list_update)
  ultimately show ?thesis using eq by auto
qed

lemma hole_fill:
  assumes "hole ix i e q" "length (pq_heap q) = length (pq_position q) + 1"
  shows "\<exists>q'. pq_Set ix i e q = Inr q' \<and> pq_ok ix q' \<and> pq_size q' = pq_size q \<and>
    pq_heap q' = (pq_heap q)[i := e] \<and> pq_map q' = (pq_map q)(ix e \<mapsto> e)"
proof -
  let ?q = "q\<lparr>pq_heap := (pq_heap q)[i := e], pq_position := (pq_position q)[ix e := i]\<rparr>"
  have eq: "pq_Set ix i e q = Inr ?q" using assms by (simp add: pq_Set_def hole_def)
  have "pq_ok ix ?q"
    using assms by (auto simp: pq_ok_def hole_def placed_def nth_list_update)
  moreover have "pq_map ?q = (pq_map q)(ix e \<mapsto> e)"
    using assms by (auto simp: pq_map_def hole_def placed_def nth_list_update fun_eq_iff)
  ultimately show ?thesis using eq by auto
qed

section \<open>The order of the heap\<close>

definition heap_order :: "('e \<Rightarrow> 'e \<Rightarrow> bool) \<Rightarrow> nat \<Rightarrow> (nat \<Rightarrow> 'e) \<Rightarrow> bool" where
  "heap_order lt n f \<longleftrightarrow> (\<forall>k. 2 \<le> k \<longrightarrow> k \<le> n \<longrightarrow> \<not> lt (f (k div 2)) (f k))"

definition up_order :: "('e \<Rightarrow> 'e \<Rightarrow> bool) \<Rightarrow> nat \<Rightarrow> nat \<Rightarrow> 'e \<Rightarrow> (nat \<Rightarrow> 'e) \<Rightarrow> bool" where
  "up_order lt n i e f \<longleftrightarrow>
     (\<forall>k. 2 \<le> k \<longrightarrow> k \<le> n \<longrightarrow> k \<noteq> i \<longrightarrow> \<not> lt ((f(i := e)) (k div 2)) (f k)) \<and>
     (\<forall>k. 2 \<le> k \<longrightarrow> k \<le> n \<longrightarrow> k div 2 = i \<longrightarrow> 2 \<le> i \<longrightarrow> \<not> lt (f (i div 2)) (f k))"

definition down_order :: "('e \<Rightarrow> 'e \<Rightarrow> bool) \<Rightarrow> nat \<Rightarrow> nat \<Rightarrow> 'e \<Rightarrow> (nat \<Rightarrow> 'e) \<Rightarrow> bool" where
  "down_order lt n i e f \<longleftrightarrow>
     (\<forall>k. 2 \<le> k \<longrightarrow> k \<le> n \<longrightarrow> k div 2 \<noteq> i \<longrightarrow> \<not> lt (f (k div 2)) ((f(i := e)) k)) \<and>
     (\<forall>k. 2 \<le> k \<longrightarrow> k \<le> n \<longrightarrow> k div 2 = i \<longrightarrow> 2 \<le> i \<longrightarrow> \<not> lt (f (i div 2)) (f k))"

lemma up_done:
  assumes "up_order lt n i e f" "i \<le> 1 \<or> \<not> lt (f (i div 2)) e"
  shows "heap_order lt n (f(i := e))"
  unfolding heap_order_def
proof (intro allI impI)
  fix k :: nat
  assume k: "2 \<le> k" "k \<le> n"
  show "\<not> lt ((f(i := e)) (k div 2)) ((f(i := e)) k)"
    using assms k by (cases "k = i") (auto simp: up_order_def)
qed

lemma up_move:
  assumes lt: "strict_weak lt" and up: "up_order lt n i e f" and i: "2 \<le> i" "i \<le> n" "lt (f (i div 2)) e"
  shows "up_order lt n (i div 2) e (f(i := f (i div 2)))"
proof -
  let ?p = "i div 2"
  have p: "?p \<noteq> i" "1 \<le> ?p" "?p \<le> n" using i by auto
  have order: "\<not> lt ((f(i := e)) (k div 2)) (f k)" if "2 \<le> k" "k \<le> n" "k \<noteq> i" for k
    using up that by (simp add: up_order_def)
  have grand: "\<not> lt (f ?p) (f k)" if "2 \<le> k" "k \<le> n" "k div 2 = i" for k
    using up that i(1) by (simp add: up_order_def)
  have sibling: "\<not> lt (f ?p) (f k)" if "2 \<le> k" "k \<le> n" "k \<noteq> i" "k div 2 = ?p" for k
    using order [of k] that p by auto
  show ?thesis
    unfolding up_order_def
  proof (intro conjI allI impI)
    fix k :: nat
    assume k: "2 \<le> k" "k \<le> n" "k \<noteq> ?p"
    consider "k = i" | "k \<noteq> i" "k div 2 = ?p" | "k \<noteq> i" "k div 2 = i" | "k \<noteq> i" "k div 2 \<noteq> ?p" "k div 2 \<noteq> i" by blast
    then show "\<not> lt ((f(i := f ?p, ?p := e)) (k div 2)) ((f(i := f ?p)) k)"
    proof cases
      case 1
      then show ?thesis using strict_weakD(1) [OF lt i(3)] by simp
    next
      case 2
      then show ?thesis using strict_weakD(3) [OF lt i(3)] sibling [OF k(1,2)] by simp
    next
      case 3
      then show ?thesis using grand [OF k(1,2)] p by simp
    next
      case 4
      then show ?thesis using order [OF k(1,2)] by simp
    qed
  next
    fix k :: nat
    assume k: "2 \<le> k" "k \<le> n" "k div 2 = ?p" "2 \<le> ?p"
    have gp: "?p div 2 \<noteq> i" using p by linarith
    then have above: "\<not> lt (f (?p div 2)) (f ?p)"
      using order [of ?p] k(4) p by simp
    show "\<not> lt ((f(i := f ?p)) (?p div 2)) ((f(i := f ?p)) k)"
      using gp above strict_weakD(2) [OF lt above] sibling [OF k(1,2) _ k(3)] by auto
  qed
qed

lemma down_done:
  assumes "down_order lt n i e f" "\<And>k. 2 \<le> k \<Longrightarrow> k \<le> n \<Longrightarrow> k div 2 = i \<Longrightarrow> \<not> lt e (f k)"
  shows "heap_order lt n (f(i := e))"
  unfolding heap_order_def
proof (intro allI impI)
  fix k :: nat
  assume k: "2 \<le> k" "k \<le> n"
  show "\<not> lt ((f(i := e)) (k div 2)) ((f(i := e)) k)"
  proof (cases "k div 2 = i")
    case True
    then have "k \<noteq> i" using k by auto
    then show ?thesis using assms(2) [OF k] True by simp
  next
    case False
    then show ?thesis using assms(1) k by (simp add: down_order_def)
  qed
qed

lemma down_move:
  assumes lt: "strict_weak lt" and down: "down_order lt n i e f" and i: "1 \<le> i"
    and c: "2 \<le> c" "c \<le> n" "c div 2 = i" "lt e (f c)"
    and greatest: "\<And>s. 2 \<le> s \<Longrightarrow> s \<le> n \<Longrightarrow> s div 2 = i \<Longrightarrow> \<not> lt (f c) (f s)"
  shows "down_order lt n c e (f(i := f c))"
proof -
  have ci: "c \<noteq> i" "i < c" using c i by auto
  have order: "\<not> lt (f (k div 2)) ((f(i := e)) k)" if "2 \<le> k" "k \<le> n" "k div 2 \<noteq> i" for k
    using down that by (simp add: down_order_def)
  have grand: "\<not> lt (f (i div 2)) (f k)" if "2 \<le> k" "k \<le> n" "k div 2 = i" "2 \<le> i" for k
    using down that by (simp add: down_order_def)
  show ?thesis
    unfolding down_order_def
  proof (intro conjI allI impI)
    fix k :: nat
    assume k: "2 \<le> k" "k \<le> n" "k div 2 \<noteq> c"
    consider "k = i" | "k = c" | "k \<noteq> i" "k \<noteq> c" "k div 2 = i" | "k \<noteq> i" "k \<noteq> c" "k div 2 \<noteq> i" by blast
    then show "\<not> lt ((f(i := f c)) (k div 2)) ((f(i := f c, c := e)) k)"
    proof cases
      case 1
      then show ?thesis using grand [OF c(1-3)] k ci by auto
    next
      case 2
      then show ?thesis using strict_weakD(1) [OF lt c(4)] c(3) by simp
    next
      case 3
      then show ?thesis using greatest [OF k(1,2)] by simp
    next
      case 4
      then show ?thesis using order [OF k(1,2)] by simp
    qed
  next
    fix k :: nat
    assume k: "2 \<le> k" "k \<le> n" "k div 2 = c" "2 \<le> c"
    then have "k \<noteq> i" using ci by auto
    then show "\<not> lt ((f(i := f c)) (c div 2)) ((f(i := f c)) k)"
      using order [of k] k c(3) ci by simp
  qed
qed

text \<open>Putting another element into a place of an ordered heap.\<close>

lemma heap_grand:
  assumes "strict_weak lt" "heap_order lt n f" "2 \<le> k" "k \<le> n" "k div 2 = i" "2 \<le> i"
  shows "\<not> lt (f (i div 2)) (f k)"
proof -
  have "\<not> lt (f i) (f k)" using assms(2-5) by (auto simp: heap_order_def)
  moreover have "\<not> lt (f (i div 2)) (f i)" using assms(2-6) by (auto simp: heap_order_def)
  ultimately show ?thesis by (metis strict_weakD(2) [OF assms(1)])
qed

lemma replace_down:
  assumes "strict_weak lt" "heap_order lt n f" "m \<le> n" "2 \<le> i \<Longrightarrow> \<not> lt (f (i div 2)) e"
  shows "down_order lt m i e f"
  using assms(2-4) heap_grand [OF assms(1,2)] by (auto simp: down_order_def heap_order_def)

lemma replace_up:
  assumes "strict_weak lt" "heap_order lt n f" "m \<le> n" "\<not> lt e (f i)"
  shows "up_order lt m i e f"
proof -
  have "\<not> lt e (f k)" if "2 \<le> k" "k \<le> n" "k div 2 = i" for k
    using assms(2) that strict_weakD(2) [OF assms(1,4), of "f k"] by (auto simp: heap_order_def)
  then show ?thesis
    using assms(2,3) heap_grand [OF assms(1,2)] by (auto simp: up_order_def heap_order_def)
qed

section \<open>The two loops\<close>

lemma nth_update_fun: "i < length h \<Longrightarrow> (!) (h[i := x]) = ((!) h)(i := x)"
  by (auto simp: fun_eq_iff)

text \<open>A queue: its positions are consistent and its heap is ordered.\<close>

definition pq_inv :: "('e \<Rightarrow> nat) \<Rightarrow> ('e \<Rightarrow> 'e \<Rightarrow> bool) \<Rightarrow> 'e pq \<Rightarrow> bool" where
  "pq_inv ix lt q \<longleftrightarrow> pq_ok ix q \<and> heap_order lt (pq_size q) ((!) (pq_heap q))"

lemma fill_inv:
  assumes "hole ix i e q" "length (pq_heap q) = length (pq_position q) + 1"
    "heap_order lt (pq_size q) (((!) (pq_heap q))(i := e))"
  shows "\<exists>q'. pq_Set ix i e q = Inr q' \<and> pq_inv ix lt q' \<and> pq_size q' = pq_size q \<and> pq_map q' = (pq_map q)(ix e \<mapsto> e)"
proof -
  have "i < length (pq_heap q)" using assms(1) by (simp add: hole_def)
  then show ?thesis
    using hole_fill [OF assms(1,2)] assms(3) by (auto simp: pq_inv_def nth_update_fun)
qed

lemma moved_inv:
  assumes IH: "\<And>q'. hole ix p e q' \<Longrightarrow> R q' \<Longrightarrow>
      length (pq_heap q') = length (pq_position q') + 1 \<Longrightarrow> pq_size q' = pq_size q \<Longrightarrow>
      \<exists>r. f q' = Inr r \<and> pq_inv ix lt r \<and> pq_size r = pq_size q' \<and> pq_map r = (pq_map q')(ix e \<mapsto> e)"
    and q: "hole ix i e q" "1 \<le> p" "p \<le> pq_size q" "p \<noteq> i" "length (pq_heap q) = length (pq_position q) + 1"
    and R: "\<And>q'. (!) (pq_heap q') = ((!) (pq_heap q))(i := pq_heap q ! p) \<Longrightarrow> pq_size q' = pq_size q \<Longrightarrow> R q'"
  shows "\<exists>r. rbind (pq_Set ix i (pq_heap q ! p) q) f = Inr r \<and> pq_inv ix lt r \<and> pq_size r = pq_size q \<and>
    pq_map r = (pq_map q)(ix e \<mapsto> e)"
proof -
  obtain q' where q': "pq_Set ix i (pq_heap q ! p) q = Inr q'" "hole ix p e q'" "pq_size q' = pq_size q"
    "pq_heap q' = (pq_heap q)[i := pq_heap q ! p]" "length (pq_position q') = length (pq_position q)"
    "\<And>j. j \<noteq> ix e \<Longrightarrow> pq_map q' j = pq_map q j"
    using hole_move [OF q(1-4)] by blast
  have "i < length (pq_heap q)" using q(1) by (simp add: hole_def)
  then have "R q'" using q' by (intro R) (simp_all add: nth_update_fun)
  moreover have "(pq_map q')(ix e \<mapsto> e) = (pq_map q)(ix e \<mapsto> e)" using q'(6) by (auto simp: fun_eq_iff)
  ultimately show ?thesis using IH [of q'] q' q(5) by auto
qed

lemma sift_up:
  assumes "strict_weak lt" "hole ix i e q" "up_order lt (pq_size q) i e ((!) (pq_heap q))"
    "length (pq_heap q) = length (pq_position q) + 1"
  shows "\<exists>q'. pq_SetAndIncreasePriority ix lt i e q = Inr q' \<and> pq_inv ix lt q' \<and> pq_size q' = pq_size q \<and>
    pq_map q' = (pq_map q)(ix e \<mapsto> e)"
  using assms(2-)
proof (induction i arbitrary: q rule: less_induct)
  case (less i)
  have i: "1 \<le> i" "i \<le> pq_size q" "pq_size q < length (pq_heap q)" using less.prems(1) by (auto simp: hole_def)
  show ?case
  proof (cases "i > 1 \<and> lt (pq_heap q ! (i div 2)) e")
    case False
    then have code: "pq_SetAndIncreasePriority ix lt i e q = pq_Set ix i e q"
      using i by (subst pq_SetAndIncreasePriority.simps) auto
    have "i \<le> 1 \<or> \<not> lt (pq_heap q ! (i div 2)) e" using False by auto
    then show ?thesis
      unfolding code by (rule fill_inv [OF less.prems(1,3) up_done [OF less.prems(2)]])
  next
    case True
    have code: "pq_SetAndIncreasePriority ix lt i e q =
        rbind (pq_Set ix i (pq_heap q ! (i div 2)) q) (pq_SetAndIncreasePriority ix lt (i div 2) e)"
      using i True by (subst pq_SetAndIncreasePriority.simps) auto
    have up: "up_order lt (pq_size q) (i div 2) e (((!) (pq_heap q))(i := pq_heap q ! (i div 2)))"
      using up_move [OF assms(1) less.prems(2)] True i by simp
    show ?thesis unfolding code
    proof (rule moved_inv [where R = "\<lambda>q'. up_order lt (pq_size q') (i div 2) e ((!) (pq_heap q'))"])
      show "\<exists>r. pq_SetAndIncreasePriority ix lt (i div 2) e q' = Inr r \<and> pq_inv ix lt r \<and> pq_size r = pq_size q' \<and>
          pq_map r = (pq_map q')(ix e \<mapsto> e)"
        if "hole ix (i div 2) e q'" "up_order lt (pq_size q') (i div 2) e ((!) (pq_heap q'))"
          "length (pq_heap q') = length (pq_position q') + 1" for q'
        using True by (intro less.IH that) auto
    qed (use True i less.prems up in auto)
  qed
qed

lemma child_cases: "2 \<le> k \<and> k div 2 = i \<longleftrightarrow> 1 \<le> i \<and> (k = i * 2 \<or> k = i * 2 + 1)" for i k :: nat
  by auto

lemma sift_down:
  assumes "strict_weak lt" "hole ix i e q" "down_order lt (pq_size q) i e ((!) (pq_heap q))"
    "length (pq_heap q) = length (pq_position q) + 1"
  shows "\<exists>q'. pq_SetAndDecreasePriority ix lt i e q = Inr q' \<and> pq_inv ix lt q' \<and> pq_size q' = pq_size q \<and>
    pq_map q' = (pq_map q)(ix e \<mapsto> e)"
  using assms(2-)
proof (induction "pq_size q - i" arbitrary: i q rule: less_induct)
  case less
  let ?h = "(!) (pq_heap q)" and ?n = "pq_size q"
  have i: "1 \<le> i" "i \<le> ?n" "?n < length (pq_heap q)" using less.prems(1) by (auto simp: hole_def)
  have stay: "\<exists>q'. pq_Set ix i e q = Inr q' \<and> pq_inv ix lt q' \<and> pq_size q' = ?n \<and> pq_map q' = (pq_map q)(ix e \<mapsto> e)"
    if "i * 2 \<le> ?n \<Longrightarrow> \<not> lt e (?h (i * 2))" "i * 2 + 1 \<le> ?n \<Longrightarrow> \<not> lt e (?h (i * 2 + 1))"
  proof (rule fill_inv [OF less.prems(1,3)], rule down_done [OF less.prems(2)])
    fix k :: nat
    assume "2 \<le> k" "k \<le> ?n" "k div 2 = i"
    then show "\<not> lt e (?h k)" using that child_cases [of k i] by auto
  qed
  have move: "\<exists>r. rbind (pq_Set ix i (?h c) q) f = Inr r \<and> pq_inv ix lt r \<and> pq_size r = ?n \<and>
      pq_map r = (pq_map q)(ix e \<mapsto> e)"
    if c: "2 \<le> c" "c \<le> ?n" "c div 2 = i" "lt e (?h c)"
      and greatest: "\<And>s. 2 \<le> s \<Longrightarrow> s \<le> ?n \<Longrightarrow> s div 2 = i \<Longrightarrow> \<not> lt (?h c) (?h s)"
      and f: "\<And>q'. hole ix c e q' \<Longrightarrow> down_order lt (pq_size q') c e ((!) (pq_heap q')) \<Longrightarrow>
        length (pq_heap q') = length (pq_position q') + 1 \<Longrightarrow> pq_size q' = ?n \<Longrightarrow>
        \<exists>r. f q' = Inr r \<and> pq_inv ix lt r \<and> pq_size r = pq_size q' \<and> pq_map r = (pq_map q')(ix e \<mapsto> e)" for c f
  proof -
    have down: "down_order lt ?n c e (?h(i := ?h c))"
      by (rule down_move [OF assms(1) less.prems(2) i(1) c greatest])
    show ?thesis
    proof (rule moved_inv [where R = "\<lambda>q'. down_order lt (pq_size q') c e ((!) (pq_heap q'))", OF f])
    qed (use c i less.prems down in auto)
  qed
  have recurse: "\<exists>r. rbind (pq_Set ix i (?h c) q) (pq_SetAndDecreasePriority ix lt c e) = Inr r \<and> pq_inv ix lt r \<and>
      pq_size r = ?n \<and> pq_map r = (pq_map q)(ix e \<mapsto> e)"
    if "2 \<le> c" "c \<le> ?n" "c div 2 = i" "lt e (?h c)"
      "\<And>s. 2 \<le> s \<Longrightarrow> s \<le> ?n \<Longrightarrow> s div 2 = i \<Longrightarrow> \<not> lt (?h c) (?h s)" for c
  proof (rule move [OF that])
    show "\<exists>r. pq_SetAndDecreasePriority ix lt c e q' = Inr r \<and> pq_inv ix lt r \<and> pq_size r = pq_size q' \<and>
        pq_map r = (pq_map q')(ix e \<mapsto> e)"
      if "hole ix c e q'" "down_order lt (pq_size q') c e ((!) (pq_heap q'))"
        "length (pq_heap q') = length (pq_position q') + 1" "pq_size q' = ?n" for q'
      using \<open>c div 2 = i\<close> \<open>c \<le> ?n\<close> i by (intro less.hyps that(1-3)) (auto simp: that(4))
  qed
  let ?l = "i * 2" and ?r = "i * 2 + 1"
  note code = pq_SetAndDecreasePriority.simps [of ix lt i e q, unfolded Let_def]
  consider "?l > ?n" | "?l = ?n" | "?r \<le> ?n" by linarith
  then show ?case
  proof cases
    case 1
    then have "pq_SetAndDecreasePriority ix lt i e q = pq_Set ix i e q" by (subst code) simp
    then show ?thesis using stay 1 by auto
  next
    case 2
    show ?thesis
    proof (cases "lt e (?h ?l)")
      case False
      then have eq: "pq_SetAndDecreasePriority ix lt i e q = pq_Set ix i e q" using 2 i by (subst code) simp
      show ?thesis unfolding eq using 2 False by (intro stay) auto
    next
      case True
      then have eq: "pq_SetAndDecreasePriority ix lt i e q = rbind (pq_Set ix i (?h ?l) q) (pq_Set ix ?l e)"
        using 2 i by (subst code) simp
      show ?thesis unfolding eq
      proof (rule move [OF _ _ _ True])
        fix s assume "2 \<le> s" "s \<le> ?n" "s div 2 = i"
        then have "s = ?l" using 2 by linarith
        then show "\<not> lt (?h ?l) (?h s)" using strict_weakD(1) [OF assms(1), of "?h ?l" "?h ?l"] by auto
      next
        fix q'
        assume q': "hole ix ?l e q'" "down_order lt (pq_size q') ?l e ((!) (pq_heap q'))"
          "length (pq_heap q') = length (pq_position q') + 1" "pq_size q' = ?n"
        show "\<exists>r. pq_Set ix ?l e q' = Inr r \<and> pq_inv ix lt r \<and> pq_size r = pq_size q' \<and> pq_map r = (pq_map q')(ix e \<mapsto> e)"
          by (rule fill_inv [OF q'(1,3)], rule down_done [OF q'(2)]) (use 2 i q' in auto)
      qed (use 2 i in auto)
    qed
  next
    case 3
    define c where "c = (if lt (?h ?l) (?h ?r) then ?r else ?l)"
    have c: "2 \<le> c" "c \<le> ?n" "c div 2 = i" using 3 i by (auto simp: c_def)
    have irrefl: "\<not> lt x x" for x using strict_weakD(1) [OF assms(1)] by blast
    have greatest: "\<not> lt (?h c) (?h s)" if "2 \<le> s" "s \<le> ?n" "s div 2 = i" for s
      using that child_cases [of s i] strict_weakD(1) [OF assms(1)] by (auto simp: c_def irrefl)
    have eq: "pq_SetAndDecreasePriority ix lt i e q =
        (if lt e (?h c) then rbind (pq_Set ix i (?h c) q) (pq_SetAndDecreasePriority ix lt c e) else pq_Set ix i e q)"
      using 3 i by (subst code) (auto simp: c_def rbind_def)
    show ?thesis
    proof (cases "lt e (?h c)")
      case True
      then have eq': "pq_SetAndDecreasePriority ix lt i e q =
          rbind (pq_Set ix i (?h c) q) (pq_SetAndDecreasePriority ix lt c e)" unfolding eq by (rule if_P)
      show ?thesis unfolding eq' by (rule recurse [OF c True greatest])
    next
      case False
      then have eq': "pq_SetAndDecreasePriority ix lt i e q = pq_Set ix i e q" unfolding eq by (rule if_not_P)
      have none: "\<not> lt e (?h s)" if "2 \<le> s" "s \<le> ?n" "s div 2 = i" for s
        using strict_weakD(2) [OF assms(1) False greatest [OF that]] .
      show ?thesis unfolding eq' using i 3 by (intro stay none) auto
    qed
  qed
qed

section \<open>The operations on the map\<close>

lemma pq_map_position: "pq_ok ix q \<Longrightarrow> pq_map q j = Some e \<Longrightarrow>
    j < length (pq_position q) \<and> 1 \<le> pq_position q ! j \<and> pq_position q ! j \<le> pq_size q \<and>
    pq_heap q ! (pq_position q ! j) = e \<and> ix e = j"
  by (auto simp: pq_map_def pq_ok_def split: if_splits)

lemma pq_map_heap: "pq_ok ix q \<Longrightarrow> 1 \<le> k \<Longrightarrow> k \<le> pq_size q \<Longrightarrow> pq_map q (ix (pq_heap q ! k)) = Some (pq_heap q ! k)"
  by (auto simp: pq_map_def pq_ok_def placed_def)

lemma pq_map_root: "pq_ok ix q \<Longrightarrow> pq_map q \<noteq> Map.empty \<longleftrightarrow> 1 \<le> pq_size q"
proof
  assume q: "pq_ok ix q"
  show "pq_map q \<noteq> Map.empty" if "1 \<le> pq_size q" using pq_map_heap [OF q, of 1] that by force
  show "1 \<le> pq_size q" if ne: "pq_map q \<noteq> Map.empty"
  proof -
    obtain j where "pq_map q j \<noteq> None" using ne unfolding fun_eq_iff by auto
    then obtain e where "pq_map q j = Some e" by blast
    then show ?thesis using pq_map_position [OF q, of j e] by linarith
  qed
qed

text \<open>The size leaves room as long as an index is not in use.\<close>

lemma pq_size_room:
  assumes "pq_ok ix q" "j < length (pq_position q)" "pq_map q j = None"
  shows "pq_size q < length (pq_position q)"
proof -
  let ?f = "\<lambda>k. ix (pq_heap q ! k)"
  have "inj_on ?f {1..pq_size q}"
    using assms(1) by (intro inj_onI) (metis pq_ok_def placed_def atLeastAtMost_iff)
  moreover have "?f ` {1..pq_size q} \<subseteq> {..<length (pq_position q)} - {j}"
    using assms pq_map_heap [OF assms(1)] by (fastforce simp: pq_ok_def placed_def)
  ultimately have "card {1..pq_size q} \<le> card ({..<length (pq_position q)} - {j})"
    by (intro card_inj_on_le) auto
  then show ?thesis using assms(2) by simp
qed

lemma heap_top:
  assumes "strict_weak lt" "heap_order lt n f" "1 \<le> k" "k \<le> n"
  shows "\<not> lt (f 1) (f k)"
  using assms(3,4)
proof (induction k rule: less_induct)
  case (less k)
  show ?case
  proof (cases "k = 1")
    case True
    then show ?thesis using strict_weakD(1) [OF assms(1)] by auto
  next
    case False
    then have k: "2 \<le> k" "1 \<le> k div 2" "k div 2 < k" "k div 2 \<le> n" using less.prems by auto
    have "\<not> lt (f 1) (f (k div 2))" using less.IH [OF k(3)] k by simp
    moreover have "\<not> lt (f (k div 2)) (f k)" using assms(2) k(1) less.prems(2) by (simp add: heap_order_def)
    ultimately show ?thesis by (rule strict_weakD(2) [OF assms(1)])
  qed
qed

lemma pq_Top_greatest:
  assumes "strict_weak lt" "pq_inv ix lt q" "pq_map q \<noteq> Map.empty"
  shows "\<exists>e. pq_Top q = Inr e \<and> pq_map q (ix e) = Some e \<and> (\<forall>e' \<in> ran (pq_map q). \<not> lt e e')"
proof -
  have q: "pq_ok ix q" "heap_order lt (pq_size q) ((!) (pq_heap q))" using assms(2) by (simp_all add: pq_inv_def)
  have n: "1 \<le> pq_size q" using pq_map_root [OF q(1)] assms(3) by blast
  have "\<not> lt (pq_heap q ! 1) e'" if e': "e' \<in> ran (pq_map q)" for e'
  proof -
    obtain j where "pq_map q j = Some e'" using e' by (auto simp: ran_def)
    then show ?thesis
      using pq_map_position [OF q(1), of j e'] heap_top [OF assms(1) q(2), of "pq_position q ! j"] by auto
  qed
  moreover have "pq_size q < length (pq_heap q)" using q(1) by (simp add: pq_ok_def)
  then have "1 < length (pq_heap q)" using n by linarith
  then have "pq_Top q = Inr (pq_heap q ! 1)" by (simp add: pq_Top_def)
  ultimately show ?thesis using pq_map_heap [OF q(1) _ n] by auto
qed

text \<open>A new element goes to the end of the heap.\<close>

lemma pq_Add_inserts:
  assumes "strict_weak lt" "pq_inv ix lt q" "ix e < length (pq_position q)" "pq_map q (ix e) = None"
  shows "\<exists>q'. pq_Add ix lt e q = Inr q' \<and> pq_inv ix lt q' \<and> pq_size q' = pq_size q + 1 \<and>
    pq_map q' = (pq_map q)(ix e \<mapsto> e)"
proof -
  let ?q = "q\<lparr>pq_size := pq_size q + 1\<rparr>"
  have q: "pq_ok ix q" "heap_order lt (pq_size q) ((!) (pq_heap q))" using assms(2) by (simp_all add: pq_inv_def)
  have room: "pq_size q < length (pq_position q)" by (rule pq_size_room [OF q(1) assms(3,4)])
  have absent: "ix (pq_heap q ! k) \<noteq> ix e" if "1 \<le> k" "k \<le> pq_size q" for k
    using pq_map_heap [OF q(1) that] assms(4) by auto
  have "hole ix (pq_size q + 1) e ?q"
    using q(1) room assms(3) absent unfolding hole_def pq_ok_def placed_def by (auto simp: le_Suc_eq)
  moreover have "up_order lt (pq_size ?q) (pq_size q + 1) e ((!) (pq_heap ?q))"
    using q(2) by (auto simp: up_order_def heap_order_def le_Suc_eq)
  moreover have "length (pq_heap ?q) = length (pq_position ?q) + 1" using q(1) by (simp add: pq_ok_def)
  ultimately have "\<exists>q'. pq_SetAndIncreasePriority ix lt (pq_size q + 1) e ?q = Inr q' \<and> pq_inv ix lt q' \<and>
      pq_size q' = pq_size ?q \<and> pq_map q' = (pq_map ?q)(ix e \<mapsto> e)"
    by (intro sift_up assms(1))
  moreover have "pq_map ?q = pq_map q" by (simp add: pq_map_def fun_eq_iff)
  ultimately show ?thesis by (auto simp: pq_Add_def Let_def)
qed

text \<open>Taking an element out leaves a hole for the last one.\<close>

lemma removed_map:
  assumes "pq_ok ix q" "j < length (pq_position q)"
  shows "pq_map (q\<lparr>pq_position := (pq_position q)[j := 0], pq_size := n\<rparr>) = (pq_map q)(j := None)"
  by (auto simp: pq_map_def fun_eq_iff nth_list_update)

lemma removed_hole:
  assumes q: "pq_ok ix q" and j: "j < length (pq_position q)" "pq_position q ! j \<noteq> 0" "pq_position q ! j \<noteq> pq_size q"
  defines "r \<equiv> q\<lparr>pq_position := (pq_position q)[j := 0], pq_size := pq_size q - 1\<rparr>"
    and "e \<equiv> pq_heap q ! pq_size q"
  shows "hole ix (pq_position q ! j) e r" "length (pq_heap r) = length (pq_position r) + 1"
    "(pq_map r)(ix e \<mapsto> e) = (pq_map q)(j := None)"
proof -
  let ?i = "pq_position q ! j"
  have i: "1 \<le> ?i" "?i < pq_size q" "ix (pq_heap q ! ?i) = j"
    using q j by (auto simp: pq_ok_def order_le_less)
  have e: "ix e < length (pq_position q)" "pq_position q ! ix e = pq_size q"
    using q i by (auto simp: pq_ok_def placed_def e_def)
  have ej: "ix e \<noteq> j" using e(2) j(3) by auto
  have pl: "ix (pq_heap q ! k) < length (pq_position q)" "pq_position q ! ix (pq_heap q ! k) = k"
    if "1 \<le> k" "k \<le> pq_size q" for k using q that by (auto simp: pq_ok_def placed_def)
  have same: "ix (pq_heap q ! k) \<noteq> ix e \<and> ix (pq_heap q ! k) \<noteq> j" if "1 \<le> k" "k < pq_size q" "k \<noteq> ?i" for k
    using pl [of k] that e(2) by auto
  have kept: "pq_position q ! m \<le> pq_size q - 1 \<and> pq_position q ! m \<noteq> ?i \<and> ix (pq_heap q ! (pq_position q ! m)) = m"
    if "m < length (pq_position q)" "m \<noteq> j" "m \<noteq> ix e" "pq_position q ! m \<noteq> 0" for m
  proof -
    have m: "pq_position q ! m \<le> pq_size q" "ix (pq_heap q ! (pq_position q ! m)) = m"
      using q that by (auto simp: pq_ok_def)
    then have "pq_position q ! m \<noteq> pq_size q" using that(3) by (auto simp: e_def)
    moreover have "pq_position q ! m \<noteq> ?i" using m(2) i(3) that(2) by auto
    ultimately show ?thesis using m by linarith
  qed
  show "hole ix ?i e r"
    unfolding hole_def placed_def r_def
    using i e q same kept pl j(1) by (auto simp: pq_ok_def nth_list_update)
  show "length (pq_heap r) = length (pq_position r) + 1" using q by (simp add: r_def pq_ok_def)
  have "pq_map q (ix e) = Some e" using e i by (simp add: pq_map_def) (simp add: e_def)
  then show "(pq_map r)(ix e \<mapsto> e) = (pq_map q)(j := None)"
    unfolding r_def removed_map [OF q j(1)] using ej by (auto simp: fun_eq_iff)
qed

lemma removed_last:
  assumes "pq_inv ix lt q" "j < length (pq_position q)" "pq_position q ! j = pq_size q" "1 \<le> pq_size q"
  shows "pq_inv ix lt (q\<lparr>pq_position := (pq_position q)[j := 0], pq_size := pq_size q - 1\<rparr>)"
proof -
  have q: "pq_ok ix q" "heap_order lt (pq_size q) ((!) (pq_heap q))" using assms(1) by (simp_all add: pq_inv_def)
  have pl: "ix (pq_heap q ! k) < length (pq_position q)" "pq_position q ! ix (pq_heap q ! k) = k"
    if "1 \<le> k" "k \<le> pq_size q" for k using q(1) that by (auto simp: pq_ok_def placed_def)
  have last: "ix (pq_heap q ! pq_size q) = j" using q(1) assms(2-4) by (auto simp: pq_ok_def)
  have below: "pq_position q ! m \<le> pq_size q - 1 \<and> ix (pq_heap q ! (pq_position q ! m)) = m"
    if "m < length (pq_position q)" "m \<noteq> j" "pq_position q ! m \<noteq> 0" for m
  proof -
    have m: "pq_position q ! m \<le> pq_size q" "ix (pq_heap q ! (pq_position q ! m)) = m" using q(1) that by (auto simp: pq_ok_def)
    then have "pq_position q ! m \<noteq> pq_size q" using last that(2) by auto
    then show ?thesis using m by linarith
  qed
  have other: "ix (pq_heap q ! k) \<noteq> j" if "1 \<le> k" "k \<le> pq_size q - 1" for k
  proof -
    have "k < pq_size q" using that assms(4) by linarith
    then show ?thesis using pl(2) [OF that(1)] assms(3) by auto
  qed
  let ?r = "q\<lparr>pq_position := (pq_position q)[j := 0], pq_size := pq_size q - 1\<rparr>"
  have "placed ix ?r k" if "1 \<le> k" "k \<le> pq_size q - 1" for k
    using other [OF that] pl [of k] that by (simp add: placed_def)
  then have "pq_ok ix ?r" using q(1) below assms(2) unfolding pq_ok_def by (auto simp: nth_list_update)
  then show ?thesis using q(2) by (simp add: pq_inv_def heap_order_def)
qed

lemma pq_Remove_deletes:
  assumes "strict_weak lt" "pq_inv ix lt q" "pq_map q j = Some x"
  shows "\<exists>q'. pq_Remove ix lt j q = Inr q' \<and> pq_inv ix lt q' \<and> pq_map q' = (pq_map q)(j := None)"
proof -
  let ?i = "pq_position q ! j"
  let ?r = "q\<lparr>pq_position := (pq_position q)[j := 0], pq_size := pq_size q - 1\<rparr>"
  have q: "pq_ok ix q" "heap_order lt (pq_size q) ((!) (pq_heap q))" using assms(2) by (simp_all add: pq_inv_def)
  have j: "j < length (pq_position q)" "1 \<le> ?i" "?i \<le> pq_size q" "pq_heap q ! ?i = x"
    using pq_map_position [OF q(1) assms(3)] by auto
  have len: "pq_size q < length (pq_heap q)" using q(1) by (simp add: pq_ok_def)
  show ?thesis
  proof (cases "?i = pq_size q")
    case True
    then have "pq_inv ix lt ?r" using j by (intro removed_last assms(2)) auto
    moreover have "pq_Remove ix lt j q = Inr ?r" using j True by (simp add: pq_Remove_def pq_setPosition_def Let_def)
    ultimately show ?thesis using removed_map [OF q(1) j(1)] by auto
  next
    case False
    let ?e = "pq_heap q ! pq_size q"
    have i: "?i \<noteq> 0" "?i < pq_size q" using j False by auto
    note hole = removed_hole [OF q(1) j(1) i(1) False]
    have code: "pq_Remove ix lt j q =
        (if lt ?e x then pq_SetAndDecreasePriority ix lt ?i ?e ?r else pq_SetAndIncreasePriority ix lt ?i ?e ?r)"
      using j i len by (simp add: pq_Remove_def pq_setPosition_def Let_def)
    show ?thesis
    proof (cases "lt ?e x")
      case True
      have "\<not> lt (pq_heap q ! (?i div 2)) ?e" if "2 \<le> ?i"
        using q(2) that j strict_weakD(4) [OF assms(1) True] by (auto simp: heap_order_def)
      then have "down_order lt (pq_size ?r) ?i ?e ((!) (pq_heap ?r))"
        using replace_down [OF assms(1) q(2)] by simp
      from sift_down [OF assms(1) hole(1) this hole(2)] show ?thesis
        unfolding code hole(3) using True by auto
    next
      case False
      then have "up_order lt (pq_size ?r) ?i ?e ((!) (pq_heap ?r))"
        using replace_up [OF assms(1) q(2)] j(4) by simp
      from sift_up [OF assms(1) hole(1) this hole(2)] show ?thesis
        unfolding code hole(3) using False by auto
    qed
  qed
qed

lemma pq_Pop_deletes:
  assumes "strict_weak lt" "pq_inv ix lt q" "pq_Top q = Inr x" "pq_map q \<noteq> Map.empty"
  shows "\<exists>q'. pq_Pop ix lt q = Inr q' \<and> pq_inv ix lt q' \<and> pq_map q' = (pq_map q)(ix x := None)"
proof -
  let ?r = "q\<lparr>pq_position := (pq_position q)[ix x := 0], pq_size := pq_size q - 1\<rparr>"
  have q: "pq_ok ix q" "heap_order lt (pq_size q) ((!) (pq_heap q))" using assms(2) by (simp_all add: pq_inv_def)
  have n: "1 \<le> pq_size q" using pq_map_root [OF q(1)] assms(4) by blast
  have len: "pq_size q < length (pq_heap q)" using q(1) by (simp add: pq_ok_def)
  have x: "pq_heap q ! 1 = x" using assms(3) by (simp add: pq_Top_def res_simps)
  have pos: "ix x < length (pq_position q)" "pq_position q ! ix x = 1"
    using q(1) n x by (auto simp: pq_ok_def placed_def)
  show ?thesis
  proof (cases "pq_size q = 1")
    case True
    then have "pq_inv ix lt ?r" using pos by (intro removed_last assms(2)) auto
    moreover have "pq_Pop ix lt q = Inr ?r"
      using assms(3) pos True by (simp add: pq_Pop_def pq_setPosition_def Let_def)
    ultimately show ?thesis using removed_map [OF q(1) pos(1)] by auto
  next
    case False
    let ?e = "pq_heap q ! pq_size q"
    have i: "pq_position q ! ix x \<noteq> 0" "pq_position q ! ix x \<noteq> pq_size q" using pos False by auto
    note hole = removed_hole [OF q(1) pos(1) i, unfolded pos(2)]
    have "down_order lt (pq_size ?r) 1 ?e ((!) (pq_heap ?r))"
      using replace_down [OF assms(1) q(2), of "pq_size q - 1" 1] by simp
    from sift_down [OF assms(1) hole(1) this hole(2)] obtain q' where q': "pq_SetAndDecreasePriority ix lt 1 ?e ?r = Inr q'"
      "pq_inv ix lt q'" "pq_map q' = (pq_map q)(ix x := None)" unfolding hole(3) by blast
    moreover have "pq_Pop ix lt q = pq_SetAndDecreasePriority ix lt 1 ?e ?r"
      using assms(3) pos n False len by (simp add: pq_Pop_def pq_setPosition_def Let_def)
    ultimately show ?thesis by simp
  qed
qed

text \<open>Changing the priority of an element puts the new one into its place.\<close>

lemma changed_hole:
  assumes "pq_ok ix q" "pq_map q (ix e) = Some x"
  shows "hole ix (pq_position q ! ix e) e q" "length (pq_heap q) = length (pq_position q) + 1"
proof -
  have i: "ix e < length (pq_position q)" "1 \<le> pq_position q ! ix e" "pq_position q ! ix e \<le> pq_size q"
    using pq_map_position [OF assms] by auto
  have other: "ix (pq_heap q ! k) \<noteq> ix e" if "1 \<le> k" "k \<le> pq_size q" "k \<noteq> pq_position q ! ix e" for k
    using assms(1) that unfolding pq_ok_def placed_def by metis
  have kept: "pq_position q ! m \<noteq> pq_position q ! ix e"
    if "m < length (pq_position q)" "m \<noteq> ix e" "pq_position q ! m \<noteq> 0" for m
    using assms(1) that i unfolding pq_ok_def by metis
  show "hole ix (pq_position q ! ix e) e q"
    using assms(1) i other kept by (auto simp: hole_def pq_ok_def)
  show "length (pq_heap q) = length (pq_position q) + 1" using assms(1) by (simp add: pq_ok_def)
qed

lemma pq_ChangePriority_updates:
  assumes "strict_weak lt" "pq_inv ix lt q" "pq_map q (ix e) = Some x"
  shows "\<exists>q'. pq_ChangePriority ix lt e q = Inr q' \<and> pq_inv ix lt q' \<and> pq_map q' = (pq_map q)(ix e \<mapsto> e)"
proof -
  let ?i = "pq_position q ! ix e" and ?up = "pq_position q ! ix e > 1 \<and> lt (pq_heap q ! (pq_position q ! ix e div 2)) e"
  have q: "pq_ok ix q" "heap_order lt (pq_size q) ((!) (pq_heap q))" using assms(2) by (simp_all add: pq_inv_def)
  have i: "ix e < length (pq_position q)" "1 \<le> ?i" "?i \<le> pq_size q" "pq_heap q ! ?i = x"
    using pq_map_position [OF q(1) assms(3)] by auto
  have len: "pq_size q < length (pq_heap q)" using q(1) by (simp add: pq_ok_def)
  note hole = changed_hole [OF q(1) assms(3)]
  have code: "pq_ChangePriority ix lt e q =
      (if ?up then pq_SetAndIncreasePriority ix lt ?i e q else pq_SetAndDecreasePriority ix lt ?i e q)"
    using i len by (simp add: pq_ChangePriority_def)
  show ?thesis
  proof (cases ?up)
    case True
    then have "\<not> lt (pq_heap q ! (?i div 2)) x" using q(2) i by (auto simp: heap_order_def)
    then have "\<not> lt e x" using True strict_weakD(2) [OF assms(1)] strict_weakD(3) [OF assms(1)] by blast
    then have "up_order lt (pq_size q) ?i e ((!) (pq_heap q))"
      using replace_up [OF assms(1) q(2)] i(4) by simp
    from sift_up [OF assms(1) hole(1) this hole(2)] show ?thesis unfolding code using True by auto
  next
    case False
    then have "down_order lt (pq_size q) ?i e ((!) (pq_heap q))"
      using replace_down [OF assms(1) q(2)] by auto
    from sift_down [OF assms(1) hole(1) this hole(2)] show ?thesis unfolding code using False by auto
  qed
qed

text \<open>The two optimised forms do the same when the priority moves the way they say.\<close>

lemma pq_IncreasePriority_updates:
  assumes "strict_weak lt" "pq_inv ix lt q" "pq_map q (ix e) = Some x" "\<not> lt e x"
  shows "\<exists>q'. pq_IncreasePriority ix lt e q = Inr q' \<and> pq_inv ix lt q' \<and> pq_map q' = (pq_map q)(ix e \<mapsto> e)"
proof -
  have q: "pq_ok ix q" "heap_order lt (pq_size q) ((!) (pq_heap q))" using assms(2) by (simp_all add: pq_inv_def)
  note hole = changed_hole [OF q(1) assms(3)] and at = pq_map_position [OF q(1) assms(3)]
  have "up_order lt (pq_size q) (pq_position q ! ix e) e ((!) (pq_heap q))"
    using replace_up [OF assms(1) q(2)] at assms(4) by simp
  from sift_up [OF assms(1) hole(1) this hole(2)] show ?thesis using at by (auto simp: pq_IncreasePriority_def)
qed

lemma pq_DecreasePriority_updates:
  assumes "strict_weak lt" "pq_inv ix lt q" "pq_map q (ix e) = Some x" "\<not> lt x e"
  shows "\<exists>q'. pq_DecreasePriority ix lt e q = Inr q' \<and> pq_inv ix lt q' \<and> pq_map q' = (pq_map q)(ix e \<mapsto> e)"
proof -
  have q: "pq_ok ix q" "heap_order lt (pq_size q) ((!) (pq_heap q))" using assms(2) by (simp_all add: pq_inv_def)
  note hole = changed_hole [OF q(1) assms(3)] and at = pq_map_position [OF q(1) assms(3)]
  have "\<not> lt (pq_heap q ! (pq_position q ! ix e div 2)) e" if "2 \<le> pq_position q ! ix e"
    using q(2) that at strict_weakD(2) [OF assms(1) _ assms(4)] by (auto simp: heap_order_def)
  then have "down_order lt (pq_size q) (pq_position q ! ix e) e ((!) (pq_heap q))"
    using replace_down [OF assms(1) q(2)] by simp
  from sift_down [OF assms(1) hole(1) this hole(2)] show ?thesis using at by (auto simp: pq_DecreasePriority_def)
qed

section \<open>Properties\<close>

text \<open>C32: An \<open>IntegerPriorityQueue\<close> over a strict weak order is a finite map from indices to elements: \<open>Add\<close>
  inserts an element whose index is free, \<open>ChangePriority\<close> replaces one, \<open>Remove\<close> deletes one, \<open>Top\<close> is an
  element that no other is greater than and \<open>Pop\<close> deletes it, and after each of them the heap is
  ordered again and every position is right.\<close>

theorem pq_refines_map:
  assumes "strict_weak lt" "pq_inv ix lt q"
  shows "(ix e < length (pq_position q) \<longrightarrow> pq_map q (ix e) = None \<longrightarrow>
      (\<exists>q'. pq_Add ix lt e q = Inr q' \<and> pq_inv ix lt q' \<and> pq_map q' = (pq_map q)(ix e \<mapsto> e))) \<and>
    (pq_map q (ix e) \<noteq> None \<longrightarrow>
      (\<exists>q'. pq_ChangePriority ix lt e q = Inr q' \<and> pq_inv ix lt q' \<and> pq_map q' = (pq_map q)(ix e \<mapsto> e)) \<and>
      (\<exists>q'. pq_Remove ix lt (ix e) q = Inr q' \<and> pq_inv ix lt q' \<and> pq_map q' = (pq_map q)(ix e := None))) \<and>
    (pq_map q \<noteq> Map.empty \<longrightarrow>
      (\<exists>x q'. pq_Top q = Inr x \<and> pq_map q (ix x) = Some x \<and> (\<forall>y \<in> ran (pq_map q). \<not> lt x y) \<and>
        pq_Pop ix lt q = Inr q' \<and> pq_inv ix lt q' \<and> pq_map q' = (pq_map q)(ix x := None)))"
proof (intro conjI impI)
  assume "ix e < length (pq_position q)" "pq_map q (ix e) = None"
  then show "\<exists>q'. pq_Add ix lt e q = Inr q' \<and> pq_inv ix lt q' \<and> pq_map q' = (pq_map q)(ix e \<mapsto> e)"
    using pq_Add_inserts [OF assms] by blast
next
  assume "pq_map q (ix e) \<noteq> None"
  then obtain x where x: "pq_map q (ix e) = Some x" by blast
  show "\<exists>q'. pq_ChangePriority ix lt e q = Inr q' \<and> pq_inv ix lt q' \<and> pq_map q' = (pq_map q)(ix e \<mapsto> e)"
    by (rule pq_ChangePriority_updates [OF assms x])
  show "\<exists>q'. pq_Remove ix lt (ix e) q = Inr q' \<and> pq_inv ix lt q' \<and> pq_map q' = (pq_map q)(ix e := None)"
    by (rule pq_Remove_deletes [OF assms x])
next
  assume ne: "pq_map q \<noteq> Map.empty"
  then show "\<exists>x q'. pq_Top q = Inr x \<and> pq_map q (ix x) = Some x \<and> (\<forall>y \<in> ran (pq_map q). \<not> lt x y) \<and>
      pq_Pop ix lt q = Inr q' \<and> pq_inv ix lt q' \<and> pq_map q' = (pq_map q)(ix x := None)"
    using pq_Top_greatest [OF assms ne] pq_Pop_deletes [OF assms _ ne] by blast
qed

lemma newPQ_inv: "pq_inv ix lt (newPQ d n)" "pq_map (newPQ d n) = Map.empty"
  by (auto simp: pq_inv_def pq_ok_def newPQ_def pq_Reserve_def heap_order_def pq_map_def nth_resizeVec fun_eq_iff)

theorem pq_refines_map_witness:
  "\<exists>q' :: (nat \<times> int) pq. pq_Add fst (\<lambda>a b. snd a < snd b) (3, 7) (newPQ (0, 0) 5) = Inr q' \<and>
     pq_map q' = [3 \<mapsto> (3, 7)]"
proof -
  have weak: "strict_weak (\<lambda>a b :: nat \<times> int. snd a < snd b)" by (auto simp: strict_weak_def)
  have "length (pq_position (newPQ (0, 0) 5 :: (nat \<times> int) pq)) = 5" by (simp add: newPQ_def pq_Reserve_def)
  then show ?thesis
    using pq_refines_map [OF weak newPQ_inv(1), of fst "(3, 7)" "(0, 0)" 5] by (auto simp: newPQ_inv(2))
qed

end
