(* ===== verification/LinkedList.thy ===== *)
theory LinkedList
  imports Prelude
begin

text \<open>
  The doubly linked list of \<open>algorithms/dense_doubly_linked_list.h\<close>: the numbers below a size in a
  given order, each with the number before and after it. The theory shows that the two
  arrays describe the order, and that \<open>Remove\<close> takes a number out of it.
\<close>

section \<open>The code\<close>

record dl_list =
  dl_next :: "int list"
  dl_prev :: "int list"

text \<open>The constructor: the loop runs over the elements with the one before it in \<open>last\<close>, -1 at first.\<close>

definition dl_link :: "nat \<Rightarrow> int \<times> dl_list \<Rightarrow> fault + (int \<times> dl_list)" where
  "dl_link e = (\<lambda>(last, l).
     rbind (assignAt e last (dl_prev l)) (\<lambda>pv.
     rbind (if last \<ge> 0 then assignAt (nat last) (int e) (dl_next l) else Inr (dl_next l)) (\<lambda>nx.
       Inr (int e, \<lparr>dl_next = nx, dl_prev = pv\<rparr>))))"

definition newDenseDoublyLinkedList :: "nat list \<Rightarrow> fault + dl_list" where
  "newDenseDoublyLinkedList elements =
     (let n = length elements in
      rbind (rfold dl_link elements (- 1, \<lparr>dl_next = replicate n (- 2), dl_prev = replicate n (- 2)\<rparr>)) (\<lambda>(last, l).
        if elements \<noteq> []
        then rbind (assignAt (List.last elements) (- 1) (dl_next l)) (\<lambda>nx. Inr (l\<lparr>dl_next := nx\<rparr>))
        else Inr l))"

definition dl_Size :: "dl_list \<Rightarrow> nat" where
  "dl_Size l = length (dl_next l)"

definition dl_Next :: "nat \<Rightarrow> dl_list \<Rightarrow> fault + int" where
  "dl_Next i l = index_vec (dl_next l) i"

definition dl_Prev :: "nat \<Rightarrow> dl_list \<Rightarrow> fault + int" where
  "dl_Prev i l = index_vec (dl_prev l) i"

definition dl_Remove :: "nat \<Rightarrow> dl_list \<Rightarrow> fault + dl_list" where
  "dl_Remove i l =
     rbind (dl_Prev i l) (\<lambda>prev.
     rbind (dl_Next i l) (\<lambda>after.
     rbind (if prev \<ge> 0 then assignAt (nat prev) after (dl_next l) else Inr (dl_next l)) (\<lambda>nx.
     rbind (if after \<ge> 0 then assignAt (nat after) prev (dl_prev l) else Inr (dl_prev l)) (\<lambda>pv.
       Inr (l\<lparr>dl_next := nx, dl_prev := pv\<rparr>)))))"

section \<open>The order described\<close>

text \<open>The number after the one at place \<open>k\<close> of a list, and the number before it.\<close>

definition after :: "nat list \<Rightarrow> nat \<Rightarrow> int" where
  "after xs k = (if k + 1 < length xs then int (xs ! (k + 1)) else - 1)"

definition before :: "nat list \<Rightarrow> nat \<Rightarrow> int" where
  "before xs k = (if k = 0 then - 1 else int (xs ! (k - 1)))"

definition dl_repr :: "nat list \<Rightarrow> dl_list \<Rightarrow> bool" where
  "dl_repr xs l \<longleftrightarrow> distinct xs \<and> length (dl_prev l) = length (dl_next l) \<and> set xs \<subseteq> {..< length (dl_next l)} \<and>
     (\<forall>k < length xs. dl_next l ! (xs ! k) = after xs k \<and> dl_prev l ! (xs ! k) = before xs k)"

text \<open>While the constructor runs, the next of the last element is not set.\<close>

definition dl_partial :: "nat list \<Rightarrow> dl_list \<Rightarrow> bool" where
  "dl_partial xs l \<longleftrightarrow> length (dl_prev l) = length (dl_next l) \<and>
     (\<forall>k < length xs. (k + 1 < length xs \<longrightarrow> dl_next l ! (xs ! k) = after xs k) \<and> dl_prev l ! (xs ! k) = before xs k)"

lemma nth_last: "distinct xs \<Longrightarrow> k < length xs \<Longrightarrow> xs ! k = last xs \<longleftrightarrow> k = length xs - 1"
proof -
  assume d: "distinct xs" and k: "k < length xs"
  then have "xs \<noteq> []" by auto
  then show ?thesis using d k by (simp add: last_conv_nth nth_eq_iff_index_eq)
qed

lemma dl_link_all:
  assumes "distinct xs" "set xs \<subseteq> {..< n}"
  shows "\<exists>l. rfold dl_link xs (- 1, \<lparr>dl_next = replicate n (- 2), dl_prev = replicate n (- 2)\<rparr>) =
      Inr (if xs = [] then - 1 else int (last xs), l) \<and> dl_partial xs l \<and> length (dl_next l) = n"
  using assms
proof (induction xs rule: rev_induct)
  case Nil
  then show ?case by (simp add: dl_partial_def)
next
  case (snoc e xs)
  then obtain l where l: "rfold dl_link xs (- 1, \<lparr>dl_next = replicate n (- 2), dl_prev = replicate n (- 2)\<rparr>) =
      Inr (if xs = [] then - 1 else int (last xs), l)" "dl_partial xs l" "length (dl_next l) = n" by auto
  let ?last = "if xs = [] then - 1 else int (last xs)"
  let ?nx = "if xs = [] then dl_next l else (dl_next l)[last xs := int e]"
  let ?l = "\<lparr>dl_next = ?nx, dl_prev = (dl_prev l)[e := ?last]\<rparr>"
  have len: "length (dl_prev l) = n" using l by (simp add: dl_partial_def)
  have e: "e < n" "e \<notin> set xs" using snoc.prems by auto
  have lx: "last xs < n" if "xs \<noteq> []" using snoc.prems(2) last_in_set [OF that] by auto
  have code: "dl_link e (?last, l) = Inr (int e, ?l)"
    using e len l(3) lx by (auto simp: dl_link_def assignAt_def)
  have ne: "xs ! k \<noteq> e" if "k < length xs" for k using e(2) that nth_mem by blast
  have lastk: "xs ! k = last xs \<longleftrightarrow> k = length xs - 1" if "k < length xs" for k
    using snoc.prems(1) that by (intro nth_last) auto
  have "dl_partial (xs @ [e]) ?l"
    unfolding dl_partial_def
  proof (intro conjI allI impI)
    show "length (dl_prev ?l) = length (dl_next ?l)" using len l(3) by simp
    fix k assume k: "k < length (xs @ [e])"
    show "dl_prev ?l ! ((xs @ [e]) ! k) = before (xs @ [e]) k"
    proof (cases "k = length xs")
      case True
      then show ?thesis using e len by (auto simp: before_def last_conv_nth nth_append)
    next
      case False
      then show ?thesis using k ne [of k] l(2) by (auto simp: dl_partial_def before_def nth_append)
    qed
    assume "k + 1 < length (xs @ [e])"
    then have kx: "k < length xs" by simp
    then have "xs ! k \<in> set (xs @ [e])" using nth_mem [OF kx] by simp
    then have mem: "xs ! k < n" using snoc.prems(2) by blast
    show "dl_next ?l ! ((xs @ [e]) ! k) = after (xs @ [e]) k"
      using kx mem lastk [OF kx] l(2,3) by (cases "k = length xs - 1") (auto simp: dl_partial_def after_def nth_append)
  qed
  then show ?case using l code by (auto simp: rfold_append)
qed

text \<open>The constructor builds the order it is given.\<close>

lemma newDenseDoublyLinkedList_repr:
  assumes "distinct xs" "set xs \<subseteq> {..< length xs}"
  shows "\<exists>l. newDenseDoublyLinkedList xs = Inr l \<and> dl_repr xs l"
proof -
  let ?n = "length xs"
  obtain l where l: "rfold dl_link xs (- 1, \<lparr>dl_next = replicate ?n (- 2), dl_prev = replicate ?n (- 2)\<rparr>) =
      Inr (if xs = [] then - 1 else int (last xs), l)" "dl_partial xs l" "length (dl_next l) = ?n"
    using dl_link_all [OF assms] by blast
  show ?thesis
  proof (cases "xs = []")
    case True
    then show ?thesis using l by (simp add: newDenseDoublyLinkedList_def dl_repr_def dl_partial_def)
  next
    case False
    let ?l = "l\<lparr>dl_next := (dl_next l)[last xs := - 1]\<rparr>"
    have "last xs < ?n" using assms(2) last_in_set [OF False] by auto
    then have "newDenseDoublyLinkedList xs = Inr ?l"
      using l False by (simp add: newDenseDoublyLinkedList_def assignAt_def)
    moreover have "dl_repr xs ?l"
      unfolding dl_repr_def
    proof (intro conjI allI impI)
      fix k assume k: "k < length xs"
      have "xs ! k < ?n" using assms(2) nth_mem [OF k] by auto
      moreover have "xs ! k = last xs \<longleftrightarrow> k = length xs - 1"
        by (rule nth_last [OF assms(1) k])
      ultimately show "dl_next ?l ! (xs ! k) = after xs k"
        using k l(2,3) by (cases "k = length xs - 1") (auto simp: dl_partial_def after_def)
      show "dl_prev ?l ! (xs ! k) = before xs k" using k l(2) by (simp add: dl_partial_def)
    qed (use assms l in \<open>auto simp: dl_partial_def\<close>)
    ultimately show ?thesis by blast
  qed
qed

section \<open>Removal\<close>

lemma remove_nth:
  assumes "m < length xs - 1" "k < length xs"
  shows "(take k xs @ drop (k + 1) xs) ! m = (if m < k then xs ! m else xs ! (m + 1))"
  using assms by (auto simp: nth_append)

lemma dl_Remove_repr:
  assumes "dl_repr xs l" "k < length xs"
  shows "\<exists>l'. dl_Remove (xs ! k) l = Inr l' \<and> dl_repr (take k xs @ drop (k + 1) xs) l'"
proof -
  let ?i = "xs ! k" and ?ws = "take k xs @ drop (k + 1) xs"
  let ?p = "before xs k" and ?a = "after xs k"
  have d: "distinct xs" "length (dl_prev l) = length (dl_next l)" "set xs \<subseteq> {..< length (dl_next l)}"
    "\<And>j. j < length xs \<Longrightarrow> dl_next l ! (xs ! j) = after xs j" "\<And>j. j < length xs \<Longrightarrow> dl_prev l ! (xs ! j) = before xs j"
    using assms(1) by (auto simp: dl_repr_def)
  have r: "xs ! j < length (dl_next l)" if "j < length xs" for j using d(3) nth_mem [OF that] by auto
  have same: "xs ! a = xs ! b \<longleftrightarrow> a = b" if "a < length xs" "b < length xs" for a b
    using d(1) that by (simp add: nth_eq_iff_index_eq)
  let ?nx = "if ?p \<ge> 0 then (dl_next l)[nat ?p := ?a] else dl_next l"
  let ?pv = "if ?a \<ge> 0 then (dl_prev l)[nat ?a := ?p] else dl_prev l"
  let ?l = "l\<lparr>dl_next := ?nx, dl_prev := ?pv\<rparr>"
  have p: "?p \<ge> 0 \<longleftrightarrow> 0 < k" "0 < k \<Longrightarrow> nat ?p = xs ! (k - 1)" by (auto simp: before_def)
  have a: "?a \<ge> 0 \<longleftrightarrow> k + 1 < length xs" "k + 1 < length xs \<Longrightarrow> nat ?a = xs ! (k + 1)" by (auto simp: after_def)
  have code: "dl_Remove ?i l = Inr ?l"
    using assms(2) r [of k] r [of "k - 1"] r [of "k + 1"] d(2) d(4,5) [OF assms(2)] p a
    by (auto simp: dl_Remove_def dl_Prev_def dl_Next_def assignAt_def)
  have "dl_repr ?ws ?l"
    unfolding dl_repr_def
  proof (intro conjI allI impI)
    show "distinct ?ws" using d(1) using set_take_disj_set_drop_if_distinct [of xs k "k + 1"] by simp
    show "length (dl_prev ?l) = length (dl_next ?l)" using d(2) by simp
    show "set ?ws \<subseteq> {..< length (dl_next ?l)}" using d(3) set_take_subset [of k xs] set_drop_subset [of "k + 1" xs] by auto
    fix m assume "m < length ?ws"
    then have m: "m < length xs - 1" using assms(2) by auto
    have ws: "?ws ! m = (if m < k then xs ! m else xs ! (m + 1))" by (rule remove_nth [OF m assms(2)])
    have ws1: "?ws ! (m + 1) = (if m + 1 < k then xs ! (m + 1) else xs ! (m + 2))" if "m + 1 < length xs - 1"
      using remove_nth [OF that assms(2)] by simp
    have ws0: "?ws ! (m - 1) = (if m - 1 < k then xs ! (m - 1) else xs ! m)" if "0 < m"
      using remove_nth [of "m - 1" xs k] assms(2) m that by simp
    have len: "length ?ws = length xs - 1" using assms(2) by simp
    show "dl_next ?l ! (?ws ! m) = after ?ws m"
    proof (cases "m + 1 = k")
      case True
      then show ?thesis using m ws ws1 p a r [of m] len by (auto simp: after_def)
    next
      case False
      have "(if m < k then m else m + 1) < length xs" "0 < k \<Longrightarrow> k - 1 < length xs" using m assms(2) by auto
      then have "dl_next ?l ! (?ws ! m) = after xs (if m < k then m else m + 1)"
        using False ws same [of "if m < k then m else m + 1" "k - 1"] p(2) p(1) d(4) by (auto split: if_splits)
      then show ?thesis using False m ws1 len by (auto simp: after_def)
    qed
    show "dl_prev ?l ! (?ws ! m) = before ?ws m"
    proof (cases "m = k")
      case True
      then show ?thesis using m ws ws0 p a r [of "m + 1"] d(2) by (auto simp: before_def)
    next
      case False
      have "(if m < k then m else m + 1) < length xs" using m by auto
      then have "dl_prev ?l ! (?ws ! m) = before xs (if m < k then m else m + 1)"
        using False ws same [of "if m < k then m else m + 1" "k + 1"] a(2) a(1) d(5) by (auto split: if_splits)
      then show ?thesis using False m ws0 by (auto simp: before_def)
    qed
  qed
  then show ?thesis using code by blast
qed

section \<open>Properties\<close>

lemma drop_place: "distinct xs \<Longrightarrow> k < length xs \<Longrightarrow> take k xs @ drop (k + 1) xs = filter (\<lambda>x. x \<noteq> xs ! k) xs"
proof -
  assume d: "distinct xs" and k: "k < length xs"
  let ?a = "take k xs" and ?b = "drop (k + 1) xs"
  have xs: "xs = ?a @ xs ! k # ?b" using id_take_nth_drop [OF k] by simp
  then have "distinct (?a @ xs ! k # ?b)" using d by simp
  then have "filter (\<lambda>x. x \<noteq> xs ! k) ?a = ?a" "filter (\<lambda>x. x \<noteq> xs ! k) ?b = ?b"
    by (simp_all add: filter_id_conv) blast+
  then have "filter (\<lambda>x. x \<noteq> xs ! k) (?a @ xs ! k # ?b) = ?a @ ?b" by simp
  then show ?thesis unfolding xs [symmetric] by (rule sym)
qed

lemma dl_Remove_all:
  assumes "dl_repr xs l" "distinct rs" "set rs \<subseteq> set xs"
  shows "\<exists>l'. rfold dl_Remove rs l = Inr l' \<and> dl_repr (filter (\<lambda>x. x \<notin> set rs) xs) l'"
  using assms
proof (induction rs arbitrary: xs l)
  case (Cons r rs)
  obtain k where k: "k < length xs" "xs ! k = r" using Cons.prems(3) by (auto simp: in_set_conv_nth)
  have "distinct xs" using Cons.prems(1) by (simp add: dl_repr_def)
  then obtain l1 where l1: "dl_Remove r l = Inr l1" "dl_repr (filter (\<lambda>x. x \<noteq> r) xs) l1"
    using dl_Remove_repr [OF Cons.prems(1) k(1)] drop_place [of xs k] k by auto
  have "set rs \<subseteq> set (filter (\<lambda>x. x \<noteq> r) xs)" using Cons.prems by auto
  then obtain l' where l': "rfold dl_Remove rs l1 = Inr l'"
    "dl_repr (filter (\<lambda>x. x \<notin> set rs) (filter (\<lambda>x. x \<noteq> r) xs)) l'"
    using Cons.IH [OF l1(2)] Cons.prems(2) by auto
  moreover have "filter (\<lambda>x. x \<notin> set rs) (filter (\<lambda>x. x \<noteq> r) xs) = filter (\<lambda>x. x \<notin> set (r # rs)) xs"
    by (auto intro!: filter_cong)
  ultimately show ?case using l1 by auto
qed simp

text \<open>A \<open>DenseDoublyLinkedList\<close> built from an order of the numbers below its size, and from which any
  of them were removed, each once and in any order, lists the others: \<open>Next\<close> and \<open>Prev\<close> of
  each are its neighbours in the given order without the removed ones, and -1 at the ends.\<close>

theorem linked_list_order:
  assumes "distinct xs" "set xs \<subseteq> {..< length xs}" "distinct rs" "set rs \<subseteq> set xs"
    and "ws = filter (\<lambda>x. x \<notin> set rs) xs" "k < length ws"
  shows "\<exists>l l'. newDenseDoublyLinkedList xs = Inr l \<and> rfold dl_Remove rs l = Inr l' \<and>
    dl_Next (ws ! k) l' = Inr (if k + 1 < length ws then int (ws ! (k + 1)) else - 1) \<and>
    dl_Prev (ws ! k) l' = Inr (if k = 0 then - 1 else int (ws ! (k - 1)))"
proof -
  obtain l where l: "newDenseDoublyLinkedList xs = Inr l" "dl_repr xs l"
    using newDenseDoublyLinkedList_repr [OF assms(1,2)] by blast
  obtain l' where l': "rfold dl_Remove rs l = Inr l'" "dl_repr ws l'"
    using dl_Remove_all [OF l(2) assms(3,4)] assms(5) by blast
  have "ws ! k < length (dl_next l')" "length (dl_prev l') = length (dl_next l')"
    using l'(2) nth_mem [OF assms(6)] by (auto simp: dl_repr_def)
  then show ?thesis
    using l l' assms(6) by (simp add: dl_repr_def dl_Next_def dl_Prev_def after_def before_def)
qed

theorem linked_list_order_witness:
  "\<exists>l l'. newDenseDoublyLinkedList [2, 0, 3, 1] = Inr l \<and> rfold dl_Remove [3, 2] l = Inr l' \<and>
     dl_Next 0 l' = Inr 1 \<and> dl_Prev 0 l' = Inr (- 1)"
proof -
  have ws: "[0, 1] = filter (\<lambda>x. x \<notin> set [3, 2]) [2, 0, 3, 1 :: nat]" by simp
  show ?thesis using linked_list_order [OF _ _ _ _ ws, of 0] by (simp add: numeral_eq_Suc lessThan_Suc)
qed

end
