(* ===== verification/RangeMinimum.thy ===== *)
theory RangeMinimum
  imports BitWords
begin

text \<open>
  The range minimum queries of \<open>ortools/util/range_minimum_query.h\<close>: a table of the minima of all
  windows whose length is a power of two, two of which cover any range. The theory shows that
  a query returns a least element of its range, and the index variant its place.
\<close>

section \<open>The code\<close>

text \<open>\<open>std::min\<close> with a comparison.\<close>

definition std_min :: "('e \<Rightarrow> 'e \<Rightarrow> bool) \<Rightarrow> 'e \<Rightarrow> 'e \<Rightarrow> 'e" where
  "std_min cmp a b = (if cmp b a then b else a)"

definition rmq_minAt :: "('e \<Rightarrow> 'e \<Rightarrow> bool) \<Rightarrow> 'e list \<Rightarrow> nat \<Rightarrow> nat \<Rightarrow> fault + 'e" where
  "rmq_minAt cmp row i j = rbind (index_vec row i) (\<lambda>a. rbind (index_vec row j) (\<lambda>b. Inr (std_min cmp a b)))"

definition rmq_row :: "('e \<Rightarrow> 'e \<Rightarrow> bool) \<Rightarrow> nat \<Rightarrow> nat \<Rightarrow> 'e list \<Rightarrow> fault + 'e list" where
  "rmq_row cmp array_size row_idx previous =
     (let row_length = nat (int array_size - 2 ^ row_idx + 1); window = 2 ^ (row_idx - 1) in
      rfold (\<lambda>col_idx row. rbind (rmq_minAt cmp previous col_idx (col_idx + window)) (\<lambda>m. Inr (row @ [m])))
        [0..<row_length] [])"

definition newRangeMinimumQuery :: "('e \<Rightarrow> 'e \<Rightarrow> bool) \<Rightarrow> 'e list \<Rightarrow> fault + 'e list list" where
  "newRangeMinimumQuery cmp array =
     rfold (\<lambda>row_idx cache.
        rbind (index_vec cache (row_idx - 1)) (\<lambda>previous.
        rbind (rmq_row cmp (length array) row_idx previous) (\<lambda>row. Inr (cache @ [row]))))
      [1..<MostSignificantBitPosition32 (of_nat (length array)) + 1] [array]"

definition rmq_array :: "'e list list \<Rightarrow> fault + 'e list" where
  "rmq_array cache = index_vec cache 0"

definition GetMinimumFromRange :: "('e \<Rightarrow> 'e \<Rightarrow> bool) \<Rightarrow> nat \<Rightarrow> nat \<Rightarrow> 'e list list \<Rightarrow> fault + 'e" where
  "GetMinimumFromRange cmp i j cache =
     (let log_diff = MostSignificantBitPosition32 (of_nat (j - i)); window = 2 ^ log_diff in
      rbind (index_vec cache log_diff) (\<lambda>row. rmq_minAt cmp row i (j - window)))"

text \<open>The index variant: the array is that of the indices, compared by what they point to.\<close>

record 'e index_query =
  iq_array :: "'e list"
  iq_rmq :: "nat list list"

definition indexComparator :: "('e \<Rightarrow> 'e \<Rightarrow> bool) \<Rightarrow> 'e list \<Rightarrow> nat \<Rightarrow> nat \<Rightarrow> bool" where
  "indexComparator cmp array lhs_idx rhs_idx = cmp (array ! lhs_idx) (array ! rhs_idx)"

definition createIndexVector :: "nat \<Rightarrow> nat list" where
  "createIndexVector n = [0..<n]"

definition newRangeMinimumIndexQuery :: "('e \<Rightarrow> 'e \<Rightarrow> bool) \<Rightarrow> 'e list \<Rightarrow> fault + 'e index_query" where
  "newRangeMinimumIndexQuery cmp array =
     rbind (newRangeMinimumQuery (indexComparator cmp array) (createIndexVector (length array))) (\<lambda>rmq.
       Inr \<lparr>iq_array = array, iq_rmq = rmq\<rparr>)"

definition GetMinimumIndexFromRange :: "('e \<Rightarrow> 'e \<Rightarrow> bool) \<Rightarrow> nat \<Rightarrow> nat \<Rightarrow> 'e index_query \<Rightarrow> fault + nat" where
  "GetMinimumIndexFromRange cmp i j q = GetMinimumFromRange (indexComparator cmp (iq_array q)) i j (iq_rmq q)"

section \<open>Least elements\<close>

definition least_in :: "('e \<Rightarrow> 'e \<Rightarrow> bool) \<Rightarrow> 'e list \<Rightarrow> nat \<Rightarrow> nat \<Rightarrow> 'e \<Rightarrow> bool" where
  "least_in cmp xs i j m \<longleftrightarrow>
     (\<exists>k. i \<le> k \<and> k < j \<and> xs ! k = m) \<and> (\<forall>k. i \<le> k \<longrightarrow> k < j \<longrightarrow> \<not> cmp (xs ! k) m)"

lemma std_min_below:
  assumes "strict_weak cmp" "\<not> cmp x a \<or> \<not> cmp x b"
  shows "\<not> cmp x (std_min cmp a b)"
proof (cases "cmp b a")
  case True
  then show ?thesis using assms(2) strict_weakD(4) [OF assms(1) True] by (auto simp: std_min_def)
next
  case False
  then show ?thesis using assms(2) strict_weakD(2) [OF assms(1) _ False] by (auto simp: std_min_def)
qed

lemma least_in_join:
  assumes "strict_weak cmp" "least_in cmp xs i j a" "least_in cmp xs i' j' b" "i \<le> i'" "i' \<le> j" "j \<le> j'"
  shows "least_in cmp xs i j' (std_min cmp a b)"
  unfolding least_in_def
proof (intro conjI allI impI)
  obtain k l where k: "i \<le> k" "k < j" "xs ! k = a" and l: "i' \<le> l" "l < j'" "xs ! l = b"
    using assms(2,3) by (auto simp: least_in_def)
  show "\<exists>k. i \<le> k \<and> k < j' \<and> xs ! k = std_min cmp a b"
  proof (cases "cmp b a")
    case True
    then show ?thesis using l assms(4) by (intro exI [of _ l]) (simp add: std_min_def)
  next
    case False
    then show ?thesis using k assms(6) by (intro exI [of _ k]) (simp add: std_min_def)
  qed
  fix k assume "i \<le> k" "k < j'"
  then consider "i \<le> k" "k < j" | "i' \<le> k" "k < j'" using assms(5) by linarith
  then show "\<not> cmp (xs ! k) (std_min cmp a b)"
  proof cases
    case 1
    then have "\<not> cmp (xs ! k) a" using assms(2) by (simp add: least_in_def)
    then show ?thesis using std_min_below [OF assms(1)] by blast
  next
    case 2
    then have "\<not> cmp (xs ! k) b" using assms(3) by (simp add: least_in_def)
    then show ?thesis using std_min_below [OF assms(1)] by blast
  qed
qed

section \<open>The table\<close>

lemma rmq_minAt_Inr: "i < length row \<Longrightarrow> j < length row \<Longrightarrow> rmq_minAt cmp row i j = Inr (std_min cmp (row ! i) (row ! j))"
  by (simp add: rmq_minAt_def)

lemma rmq_row_map:
  assumes "\<And>i. i < n \<Longrightarrow> i + w < length previous"
  shows "rfold (\<lambda>col_idx row. rbind (rmq_minAt cmp previous col_idx (col_idx + w)) (\<lambda>m. Inr (row @ [m]))) [0..<n] [] =
    Inr (map (\<lambda>i. std_min cmp (previous ! i) (previous ! (i + w))) [0..<n])"
  using assms
proof (induction n)
  case (Suc n)
  have "n + w < length previous" by (rule Suc.prems) simp
  moreover from this have "n < length previous" by linarith
  ultimately show ?case using Suc by (simp add: rfold_append rmq_minAt_Inr)
qed simp

text \<open>Row \<open>k\<close> holds the least elements of all windows of length \<open>2 ^ k\<close>.\<close>

definition rmq_ok :: "('e \<Rightarrow> 'e \<Rightarrow> bool) \<Rightarrow> 'e list \<Rightarrow> nat \<Rightarrow> 'e list \<Rightarrow> bool" where
  "rmq_ok cmp xs k row \<longleftrightarrow> length row = length xs + 1 - 2 ^ k \<and>
     (\<forall>i < length row. least_in cmp xs i (i + 2 ^ k) (row ! i))"

lemma rmq_row_ok:
  assumes "strict_weak cmp" "rmq_ok cmp xs k previous" "2 ^ Suc k \<le> length xs"
  shows "\<exists>row. rmq_row cmp (length xs) (Suc k) previous = Inr row \<and> rmq_ok cmp xs (Suc k) row"
proof -
  let ?n = "length xs + 1 - 2 ^ Suc k"
  let ?row = "map (\<lambda>i. std_min cmp (previous ! i) (previous ! (i + 2 ^ k))) [0..<?n]"
  have len: "length previous = length xs + 1 - 2 ^ k" using assms(2) by (simp add: rmq_ok_def)
  have n: "nat (int (length xs) - 2 ^ Suc k + 1) = ?n" 
  proof -
    have "int ?n = int (length xs) - 2 ^ Suc k + 1" using assms(3) by (simp add: of_nat_diff)
    then show ?thesis by (metis nat_int)
  qed
  have inside: "i + 2 ^ k < length previous" if "i < ?n" for i using that len by simp
  have "rmq_row cmp (length xs) (Suc k) previous = Inr ?row"
    unfolding rmq_row_def Let_def n using rmq_row_map [of ?n "2 ^ k" previous cmp, OF inside] by simp
  moreover have "least_in cmp xs i (i + 2 ^ Suc k) (?row ! i)" if i: "i < ?n" for i
  proof -
    have "least_in cmp xs i (i + 2 ^ k) (previous ! i)" "least_in cmp xs (i + 2 ^ k) (i + 2 ^ k + 2 ^ k) (previous ! (i + 2 ^ k))"
      using assms(2) inside [OF i] by (auto simp: rmq_ok_def)
    from least_in_join [OF assms(1) this] show ?thesis using i by (simp add: mult_2 add.assoc)
  qed
  ultimately show ?thesis by (auto simp: rmq_ok_def)
qed

lemma table_rows:
  assumes "strict_weak cmp" "2 ^ n \<le> length xs"
  shows "\<exists>cache. rfold (\<lambda>row_idx cache.
        rbind (index_vec cache (row_idx - 1)) (\<lambda>previous.
        rbind (rmq_row cmp (length xs) row_idx previous) (\<lambda>row. Inr (cache @ [row])))) [1..<n + 1] [xs] = Inr cache \<and>
      length cache = n + 1 \<and> (\<forall>k \<le> n. rmq_ok cmp xs k (cache ! k))"
  using assms(2)
proof (induction n)
  case 0
  have "\<not> cmp x x" for x using strict_weakD(1) [OF assms(1)] by blast
  then show ?case by (auto simp: rmq_ok_def least_in_def less_Suc_eq intro!: exI)
next
  case (Suc n)
  have "(2 :: nat) ^ n \<le> 2 ^ Suc n" by simp
  then obtain cache where c: "rfold (\<lambda>row_idx cache.
        rbind (index_vec cache (row_idx - 1)) (\<lambda>previous.
        rbind (rmq_row cmp (length xs) row_idx previous) (\<lambda>row. Inr (cache @ [row])))) [1..<n + 1] [xs] = Inr cache"
      "length cache = n + 1" "\<forall>k \<le> n. rmq_ok cmp xs k (cache ! k)" using Suc by (meson le_trans)
  obtain row where row: "rmq_row cmp (length xs) (Suc n) (cache ! n) = Inr row" "rmq_ok cmp xs (Suc n) row"
    using rmq_row_ok [OF assms(1), of xs n "cache ! n"] c(3) Suc.prems by auto
  have "[1..<Suc n + 1] = [1..<n + 1] @ [Suc n]" by simp
  then show ?case using c row by (auto simp: rfold_append nth_append le_Suc_eq)
qed

section \<open>Properties\<close>

lemma msb32_bounds:
  assumes "0 < n" "n < 2 ^ 32"
  shows "2 ^ MostSignificantBitPosition32 (of_nat n) \<le> n" "n < 2 * 2 ^ MostSignificantBitPosition32 (of_nat n)"
proof -
  have n: "unat (of_nat n :: u32) = n" using assms(2) by (simp add: unat_of_nat)
  then have "(of_nat n :: u32) \<noteq> 0" using assms(1) by (metis less_numeral_extra(3) unat_0)
  then obtain i where i: "highest_bit (of_nat n :: u32) i" using highest_bit_exists by blast
  from highest_bit_bounds [OF i] show "2 ^ MostSignificantBitPosition32 (of_nat n) \<le> n"
    "n < 2 * 2 ^ MostSignificantBitPosition32 (of_nat n)"
    unfolding fast_positions(4) [OF i] n by simp_all
qed

text \<open>A \<open>RangeMinimumQuery\<close> over a strict weak order answers every range of its array with an
  element of the range that no other one of the range is less than, and the index variant
  with the place of such an element.\<close>

theorem range_minimum_correct:
  assumes "strict_weak cmp" "i < j" "j \<le> length xs" "length xs < 2 ^ 31"
  shows "(\<exists>q m. newRangeMinimumQuery cmp xs = Inr q \<and> GetMinimumFromRange cmp i j q = Inr m \<and> least_in cmp xs i j m) \<and>
    (\<exists>q k. newRangeMinimumIndexQuery cmp xs = Inr q \<and> GetMinimumIndexFromRange cmp i j q = Inr k \<and>
      i \<le> k \<and> k < j \<and> least_in cmp xs i j (xs ! k))"
proof -
  have query: "\<exists>q m. newRangeMinimumQuery c ys = Inr q \<and> GetMinimumFromRange c i j q = Inr m \<and> least_in c ys i j m"
    if c: "strict_weak c" and len: "length ys = length xs" for c :: "'x \<Rightarrow> 'x \<Rightarrow> bool" and ys
  proof -
    let ?t = "MostSignificantBitPosition32 (of_nat (length ys))" and ?d = "MostSignificantBitPosition32 (of_nat (j - i))"
    have "0 < length ys" "length ys < 2 ^ 32" "0 < j - i" "j - i < 2 ^ 32" using assms(2-4) len by auto
    note t = msb32_bounds [OF this(1,2)] and d = msb32_bounds [OF this(3,4)]
    obtain q where q: "newRangeMinimumQuery c ys = Inr q" "length q = ?t + 1" "\<forall>k \<le> ?t. rmq_ok c ys k (q ! k)"
      using table_rows [OF c t(1)] unfolding newRangeMinimumQuery_def by blast
    have "(2 :: nat) ^ ?d < 2 ^ Suc ?t" using d(1) t(2) assms(2,3) len by simp
    then have dt: "?d \<le> ?t" by (simp only: power_strict_increasing_iff)
    let ?row = "q ! ?d" and ?w = "2 ^ ?d"
    have row: "rmq_ok c ys ?d ?row" using q(3) dt by blast
    then have rl: "length ?row = length ys + 1 - ?w" by (simp add: rmq_ok_def)
    have in1: "i < length ?row" "j - ?w < length ?row" using rl d assms(2,3) len by auto
    have "least_in c ys i (i + ?w) (?row ! i)" "least_in c ys (j - ?w) (j - ?w + ?w) (?row ! (j - ?w))"
      using row in1 by (auto simp: rmq_ok_def)
    from least_in_join [OF c this] have "least_in c ys i j (std_min c (?row ! i) (?row ! (j - ?w)))"
      using d assms(2) by auto
    moreover have "GetMinimumFromRange c i j q = Inr (std_min c (?row ! i) (?row ! (j - ?w)))"
      using q(2) dt in1 by (simp add: GetMinimumFromRange_def Let_def rmq_minAt_Inr)
    ultimately show ?thesis using q(1) by blast
  qed
  have "strict_weak (indexComparator cmp xs)"
    using assms(1) unfolding strict_weak_def indexComparator_def by blast
  then obtain q k where q: "newRangeMinimumQuery (indexComparator cmp xs) [0..<length xs] = Inr q"
    "GetMinimumFromRange (indexComparator cmp xs) i j q = Inr k" "least_in (indexComparator cmp xs) [0..<length xs] i j k"
    using query [of "indexComparator cmp xs" "[0..<length xs]"] by auto
  have k: "i \<le> k" "k < j" using q(3) assms(3) by (auto simp: least_in_def)
  moreover have "least_in cmp xs i j (xs ! k)"
    using q(3) k assms(3) by (auto simp: least_in_def indexComparator_def)
  ultimately show ?thesis
    using query [OF assms(1) refl] q
    by (auto simp: newRangeMinimumIndexQuery_def createIndexVector_def GetMinimumIndexFromRange_def)
qed

theorem range_minimum_correct_witness:
  "\<exists>q k. newRangeMinimumIndexQuery (<) [4, 1, 3, 2 :: int] = Inr q \<and> GetMinimumIndexFromRange (<) 2 4 q = Inr k \<and>
     least_in (<) [4, 1, 3, 2 :: int] 2 4 ([4, 1, 3, 2] ! k)"
proof -
  have "strict_weak ((<) :: int \<Rightarrow> int \<Rightarrow> bool)" by (auto simp: strict_weak_def)
  then show ?thesis using range_minimum_correct [of "(<)" 2 4 "[4, 1, 3, 2 :: int]"] by auto
qed

end
