(* ===== verification/MonoidTree.thy ===== *)
theory MonoidTree
  imports Prelude
begin

text \<open>
  The operation tree of \<open>ortools/util/monoid_operation_tree.h\<close>: a perfect binary tree in an array
  whose leaves are the operands and whose inner nodes are the products of their children. The
  operation and its identity are the parameters of the template. The theory shows that the
  root is the product of the operands in order, whatever was set before.
\<close>

section \<open>The code\<close>

record 'a monoid_tree =
  mt_size :: nat
  mt_leaf_offset :: nat
  mt_num_nodes :: nat
  mt_nodes :: "'a list"

text \<open>The power of two is kept by its exponent, which each shift increases.\<close>

function mt_power :: "nat \<Rightarrow> nat \<Rightarrow> nat" where
  "mt_power n k = (if 2 ^ k < n then mt_power n (k + 1) else 2 ^ k)"
  by pat_completeness auto
termination
proof (relation "measure (\<lambda>(n, k). n - k)")
  fix n k :: nat
  assume "2 ^ k < n"
  then show "((n, k + 1), (n, k)) \<in> measure (\<lambda>(n, k). n - k)"
    using less_trans [OF less_exp [of k]] by (simp add: diff_less_mono2)
qed simp

declare mt_power.simps [simp del]

definition mt_ComputeLeafOffset :: "nat \<Rightarrow> nat" where
  "mt_ComputeLeafOffset n = max 1 (mt_power n 0 - 1)"

definition mt_ComputeNumberOfNodes :: "nat \<Rightarrow> nat" where
  "mt_ComputeNumberOfNodes leaf_offset = (let num_leaves = leaf_offset + 1 in leaf_offset + num_leaves)"

definition newMonoidTree :: "'a \<Rightarrow> nat \<Rightarrow> 'a monoid_tree" where
  "newMonoidTree e n =
     (let leaf_offset = mt_ComputeLeafOffset n; num_nodes = mt_ComputeNumberOfNodes leaf_offset in
      \<lparr>mt_size = n, mt_leaf_offset = leaf_offset, mt_num_nodes = num_nodes, mt_nodes = replicate num_nodes e\<rparr>)"

definition mt_father :: "nat \<Rightarrow> nat" where
  "mt_father pos = (pos - 1) div 2"

definition mt_left :: "nat \<Rightarrow> nat" where
  "mt_left pos = pos * 2 + 1"

definition mt_right :: "nat \<Rightarrow> nat" where
  "mt_right pos = (pos + 1) * 2"

definition mt_PositionOfLeaf :: "nat \<Rightarrow> 'a monoid_tree \<Rightarrow> nat" where
  "mt_PositionOfLeaf i t = mt_leaf_offset t + i"

definition mt_IsLeaf :: "nat \<Rightarrow> 'a monoid_tree \<Rightarrow> bool" where
  "mt_IsLeaf pos t \<longleftrightarrow> pos \<ge> mt_leaf_offset t"

definition mt_ArgumentIndex :: "nat \<Rightarrow> 'a monoid_tree \<Rightarrow> nat" where
  "mt_ArgumentIndex pos t = pos - mt_leaf_offset t"

definition mt_result :: "'a monoid_tree \<Rightarrow> fault + 'a" where
  "mt_result t = index_vec (mt_nodes t) 0"

definition mt_GetOperand :: "nat \<Rightarrow> 'a monoid_tree \<Rightarrow> fault + 'a" where
  "mt_GetOperand i t = index_vec (mt_nodes t) (mt_PositionOfLeaf i t)"

definition mt_assign :: "nat \<Rightarrow> 'a \<Rightarrow> 'a monoid_tree \<Rightarrow> fault + 'a monoid_tree" where
  "mt_assign pos a t =
     (if pos < length (mt_nodes t) then Inr (t\<lparr>mt_nodes := (mt_nodes t)[pos := a]\<rparr>) else Inl BadIndex)"

definition mt_Compute :: "('a \<Rightarrow> 'a \<Rightarrow> 'a) \<Rightarrow> nat \<Rightarrow> 'a monoid_tree \<Rightarrow> fault + 'a monoid_tree" where
  "mt_Compute f pos t =
     rbind (index_vec (mt_nodes t) (mt_left pos)) (\<lambda>left_child.
     rbind (index_vec (mt_nodes t) (mt_right pos)) (\<lambda>right_child.
       mt_assign pos (f left_child right_child) t))"

text \<open>The loop of \<open>ComputeAbove\<close> from the first position on, with the computation of the root.\<close>

function mt_computeFrom :: "('a \<Rightarrow> 'a \<Rightarrow> 'a) \<Rightarrow> nat \<Rightarrow> 'a monoid_tree \<Rightarrow> fault + 'a monoid_tree" where
  "mt_computeFrom f pos t =
     (if pos > 0 then rbind (mt_Compute f pos t) (mt_computeFrom f (mt_father pos)) else mt_Compute f 0 t)"
  by pat_completeness auto
termination by (relation "measure (\<lambda>(f, pos, t). pos)") (auto simp: mt_father_def)

declare mt_computeFrom.simps [simp del]

definition mt_ComputeAbove :: "('a \<Rightarrow> 'a \<Rightarrow> 'a) \<Rightarrow> nat \<Rightarrow> 'a monoid_tree \<Rightarrow> fault + 'a monoid_tree" where
  "mt_ComputeAbove f position t = mt_computeFrom f (mt_father position) t"

text \<open>The check that the index is below the size ends the program when it fails.\<close>

definition mt_Set :: "('a \<Rightarrow> 'a \<Rightarrow> 'a) \<Rightarrow> nat \<Rightarrow> 'a \<Rightarrow> 'a monoid_tree \<Rightarrow> fault + 'a monoid_tree" where
  "mt_Set f argument_index argument t =
     (if \<not> argument_index < mt_size t then Inl CheckFailed
      else
        (let position = mt_leaf_offset t + argument_index in
         rbind (mt_assign position argument t) (mt_ComputeAbove f position)))"

definition mt_Reset :: "('a \<Rightarrow> 'a \<Rightarrow> 'a) \<Rightarrow> 'a \<Rightarrow> nat \<Rightarrow> 'a monoid_tree \<Rightarrow> fault + 'a monoid_tree" where
  "mt_Reset f e argument_index t = mt_Set f argument_index e t"

definition mt_Clear :: "'a \<Rightarrow> 'a monoid_tree \<Rightarrow> 'a monoid_tree" where
  "mt_Clear e t = t\<lparr>mt_nodes := replicate (length (mt_nodes t)) e\<rparr>"

text \<open>A walk down the tree: the diver's state and its four callbacks are parameters.\<close>

record ('a, 's) diver =
  dv_ChooseGoLeft :: "'a \<Rightarrow> 'a \<Rightarrow> 'a \<Rightarrow> 's \<Rightarrow> bool \<times> 's"
  dv_OnComeBackFromLeft :: "'a \<Rightarrow> 'a \<Rightarrow> 'a \<Rightarrow> 's \<Rightarrow> 's"
  dv_OnComeBackFromRight :: "'a \<Rightarrow> 'a \<Rightarrow> 'a \<Rightarrow> 's \<Rightarrow> 's"
  dv_OnArgumentReached :: "nat \<Rightarrow> 'a \<Rightarrow> 's \<Rightarrow> 's"

function mt_DiveInTree :: "('a, 's) diver \<Rightarrow> nat \<Rightarrow> 'a monoid_tree \<Rightarrow> 's \<Rightarrow> fault + 's" where
  "mt_DiveInTree d position t s =
     (if mt_IsLeaf position t then
        rbind (index_vec (mt_nodes t) position) (\<lambda>argument.
          Inr (dv_OnArgumentReached d (mt_ArgumentIndex position t) argument s))
      else
        rbind (index_vec (mt_nodes t) position) (\<lambda>current.
        rbind (index_vec (mt_nodes t) (mt_left position)) (\<lambda>left_child.
        rbind (index_vec (mt_nodes t) (mt_right position)) (\<lambda>right_child.
          (case dv_ChooseGoLeft d current left_child right_child s of (go_left, s) \<Rightarrow>
            if go_left
            then rbind (mt_DiveInTree d (mt_left position) t s) (\<lambda>s.
              Inr (dv_OnComeBackFromLeft d current left_child right_child s))
            else rbind (mt_DiveInTree d (mt_right position) t s) (\<lambda>s.
              Inr (dv_OnComeBackFromRight d current left_child right_child s)))))))"
  by pat_completeness auto
termination
  by (relation "measure (\<lambda>(d, position, t, s). mt_leaf_offset t - position)")
    (auto simp: mt_IsLeaf_def mt_left_def mt_right_def)

declare mt_DiveInTree.simps [simp del]

section \<open>Sizes\<close>

lemma mt_power_exp: "\<exists>k. mt_power n j = 2 ^ k \<and> n \<le> 2 ^ k"
  by (induction n j rule: mt_power.induct) (subst mt_power.simps, auto simp: not_less)

lemma leaf_offset_power: "\<exists>h \<ge> 1. mt_ComputeLeafOffset n + 1 = 2 ^ h \<and> n \<le> 2 ^ h"
proof -
  obtain k where k: "mt_power n 0 = 2 ^ k" "n \<le> 2 ^ k" using mt_power_exp [of n 0] by blast
  show ?thesis
  proof (cases k)
    case 0
    then show ?thesis using k by (intro exI [of _ 1]) (auto simp: mt_ComputeLeafOffset_def)
  next
    case (Suc m)
    then have "(2 :: nat) \<le> 2 ^ k" using power_increasing [of 1 k "2 :: nat"] by simp
    moreover have "max 1 (x - 1) + 1 = x" if "2 \<le> x" for x :: nat using that by auto
    ultimately have "mt_ComputeLeafOffset n + 1 = 2 ^ k" unfolding mt_ComputeLeafOffset_def k(1) by blast
    then show ?thesis using k(2) Suc by (intro exI [of _ k]) simp
  qed
qed

section \<open>The nodes above a position\<close>

definition node_ok :: "('a \<Rightarrow> 'a \<Rightarrow> 'a) \<Rightarrow> 'a monoid_tree \<Rightarrow> nat \<Rightarrow> bool" where
  "node_ok f t p \<longleftrightarrow> mt_nodes t ! p = f (mt_nodes t ! (2 * p + 1)) (mt_nodes t ! (2 * p + 2))"

definition above :: "nat \<Rightarrow> nat set" where
  "above p = {q. \<exists>k. q = (mt_father ^^ k) p}"

lemma above_father: "above p = insert p (above (mt_father p))"
proof
  show "above p \<subseteq> insert p (above (mt_father p))"
  proof
    fix q assume "q \<in> above p"
    then obtain k where k: "q = (mt_father ^^ k) p" by (auto simp: above_def)
    show "q \<in> insert p (above (mt_father p))"
    proof (cases k)
      case (Suc j)
      then have "q = (mt_father ^^ j) (mt_father p)" using k by (simp add: funpow_swap1)
      then show ?thesis by (auto simp: above_def)
    qed (use k in simp)
  qed
  show "insert p (above (mt_father p)) \<subseteq> above p"
  proof
    fix q assume "q \<in> insert p (above (mt_father p))"
    then show "q \<in> above p"
    proof
      assume "q = p"
      then show ?thesis unfolding above_def by (auto intro: exI [of _ 0])
    next
      assume "q \<in> above (mt_father p)"
      then obtain j where "q = (mt_father ^^ j) (mt_father p)" by (auto simp: above_def)
      then have "q = (mt_father ^^ Suc j) p" by (simp add: funpow_swap1)
      then show ?thesis unfolding above_def by blast
    qed
  qed
qed

lemma above_root: "above 0 = {0}"
proof -
  have "(mt_father ^^ k) 0 = 0" for k by (induction k) (simp_all add: mt_father_def)
  then show ?thesis by (auto simp: above_def)
qed

text \<open>The tree without the products: its lengths, and the leaves that no operand uses.\<close>

definition mt_shape :: "'a \<Rightarrow> 'a monoid_tree \<Rightarrow> bool" where
  "mt_shape e t \<longleftrightarrow> (\<exists>h. mt_leaf_offset t + 1 = 2 ^ h) \<and> 1 \<le> mt_leaf_offset t \<and> mt_size t \<le> mt_leaf_offset t + 1 \<and>
     length (mt_nodes t) = 2 * mt_leaf_offset t + 1 \<and> mt_num_nodes t = length (mt_nodes t) \<and>
     (\<forall>i. mt_size t \<le> i \<longrightarrow> i \<le> mt_leaf_offset t \<longrightarrow> mt_nodes t ! (mt_leaf_offset t + i) = e)"

definition mt_inv :: "('a \<Rightarrow> 'a \<Rightarrow> 'a) \<Rightarrow> 'a \<Rightarrow> 'a monoid_tree \<Rightarrow> bool" where
  "mt_inv f e t \<longleftrightarrow> mt_shape e t \<and> (\<forall>p < mt_leaf_offset t. node_ok f t p)"

definition operands :: "'a monoid_tree \<Rightarrow> 'a list" where
  "operands t = map (\<lambda>i. mt_nodes t ! (mt_leaf_offset t + i)) [0..<mt_size t]"

lemma mt_Compute_node:
  assumes "mt_shape e t" "p < mt_leaf_offset t"
  shows "\<exists>t'. mt_Compute f p t = Inr t' \<and> mt_shape e t' \<and> mt_leaf_offset t' = mt_leaf_offset t \<and>
    mt_size t' = mt_size t \<and> operands t' = operands t \<and> node_ok f t' p \<and>
    (\<forall>q. q \<noteq> p \<longrightarrow> q \<noteq> mt_father p \<or> p = 0 \<longrightarrow> node_ok f t q \<longrightarrow> node_ok f t' q)"
proof -
  let ?v = "f (mt_nodes t ! (2 * p + 1)) (mt_nodes t ! (2 * p + 2))"
  let ?t = "t\<lparr>mt_nodes := (mt_nodes t)[p := ?v]\<rparr>"
  have len: "length (mt_nodes t) = 2 * mt_leaf_offset t + 1" using assms(1) by (simp add: mt_shape_def)
  have children: "mt_left p = 2 * p + 1" "mt_right p = 2 * p + 2" by (simp_all add: mt_left_def mt_right_def)
  have "mt_Compute f p t = Inr ?t"
    using assms(2) len by (simp add: mt_Compute_def children mt_assign_def)
  moreover have "mt_shape e ?t" using assms by (auto simp: mt_shape_def nth_list_update)
  moreover have "operands ?t = operands t" using assms(2) by (simp add: operands_def)
  moreover have "node_ok f ?t p" using assms(2) len by (simp add: node_ok_def)
  moreover have "node_ok f ?t q" if q: "q \<noteq> p" "q \<noteq> mt_father p \<or> p = 0" "node_ok f t q" for q
  proof -
    have "p \<noteq> 2 * q + 1" "p \<noteq> 2 * q + 2" using q(2) by (auto simp: mt_father_def)
    then show ?thesis using q(1,3) by (simp add: node_ok_def)
  qed
  ultimately show ?thesis by (intro exI [of _ ?t]) auto
qed

lemma mt_computeFrom_inv:
  assumes "mt_shape e t" "p < mt_leaf_offset t" "\<And>q. q < mt_leaf_offset t \<Longrightarrow> q \<notin> above p \<Longrightarrow> node_ok f t q"
  shows "\<exists>t'. mt_computeFrom f p t = Inr t' \<and> mt_inv f e t' \<and> operands t' = operands t \<and> mt_size t' = mt_size t"
  using assms
proof (induction p arbitrary: t rule: less_induct)
  case (less p)
  obtain t1 where t1: "mt_Compute f p t = Inr t1" "mt_shape e t1" "mt_leaf_offset t1 = mt_leaf_offset t"
    "mt_size t1 = mt_size t" "operands t1 = operands t" "node_ok f t1 p"
    "\<And>q. q \<noteq> p \<Longrightarrow> q \<noteq> mt_father p \<or> p = 0 \<Longrightarrow> node_ok f t q \<Longrightarrow> node_ok f t1 q"
    using mt_Compute_node [OF less.prems(1,2), of f] by blast
  show ?case
  proof (cases "p = 0")
    case True
    have "node_ok f t1 q" if "q < mt_leaf_offset t" for q
      using t1(6) t1(7) [of q] less.prems(3) [OF that] True by (cases "q = 0") (auto simp: above_root)
    then have "mt_inv f e t1" using t1(2,3) by (simp add: mt_inv_def)
    then show ?thesis using t1 True by (subst mt_computeFrom.simps) simp
  next
    case False
    have lt: "mt_father p < p" using False by (auto simp: mt_father_def)
    have rest: "node_ok f t1 q" if "q < mt_leaf_offset t1" "q \<notin> above (mt_father p)" for q
    proof (cases "q = p")
      case True
      then show ?thesis using t1(6) by simp
    next
      case qp: False
      have "q \<noteq> mt_father p" using that(2) above_father [of "mt_father p"] by auto
      then show ?thesis using that t1(3) less.prems(3) [of q] t1(7) [OF qp] qp above_father [of p] by auto
    qed
    have "mt_father p < mt_leaf_offset t1" using lt less.prems(2) t1(3) by simp
    then obtain t' where "mt_computeFrom f (mt_father p) t1 = Inr t'" "mt_inv f e t'" "operands t' = operands t1" "mt_size t' = mt_size t1"
      using less.IH [OF lt t1(2) _ rest] by blast
    then show ?thesis using t1 False by (subst mt_computeFrom.simps) simp
  qed
qed

text \<open>Setting an operand changes the operand and makes every product right again.\<close>

lemma mt_Set_operand:
  assumes "mt_inv f e t" "i < mt_size t"
  shows "\<exists>t'. mt_Set f i a t = Inr t' \<and> mt_inv f e t' \<and> operands t' = (operands t)[i := a] \<and> mt_size t' = mt_size t"
proof -
  let ?p = "mt_leaf_offset t + i"
  let ?t = "t\<lparr>mt_nodes := (mt_nodes t)[?p := a]\<rparr>"
  have shape: "mt_shape e t" and ok: "\<And>q. q < mt_leaf_offset t \<Longrightarrow> node_ok f t q" using assms(1) by (simp_all add: mt_inv_def)
  have p: "?p < length (mt_nodes t)" "1 \<le> mt_leaf_offset t" "i \<le> mt_leaf_offset t"
    using shape assms(2) by (auto simp: mt_shape_def)
  have "mt_shape e ?t" using shape assms(2) by (auto simp: mt_shape_def nth_list_update)
  moreover have "mt_father ?p < mt_leaf_offset ?t" using p by (auto simp: mt_father_def)
  moreover have "node_ok f ?t q" if "q < mt_leaf_offset ?t" "q \<notin> above (mt_father ?p)" for q
  proof -
    have "q \<noteq> mt_father ?p" using that(2) above_father [of "mt_father ?p"] by auto
    then have "?p \<noteq> 2 * q + 1" "?p \<noteq> 2 * q + 2" by (auto simp: mt_father_def)
    then show ?thesis using ok [of q] that(1) by (simp add: node_ok_def)
  qed
  ultimately obtain t' where "mt_computeFrom f (mt_father ?p) ?t = Inr t'" "mt_inv f e t'"
    "operands t' = operands ?t" "mt_size t' = mt_size ?t"
    using mt_computeFrom_inv [of e ?t "mt_father ?p" f] by blast
  moreover have "operands ?t = (operands t)[i := a]"
    using p assms(2) by (auto simp: operands_def intro!: nth_equalityI simp: nth_list_update)
  ultimately show ?thesis using p assms(2) by (auto simp: mt_Set_def mt_assign_def mt_ComputeAbove_def Let_def)
qed

section \<open>The product\<close>

definition product :: "('a \<Rightarrow> 'a \<Rightarrow> 'a) \<Rightarrow> 'a \<Rightarrow> 'a list \<Rightarrow> 'a" where
  "product f e xs = foldr f xs e"

definition level :: "'a monoid_tree \<Rightarrow> nat \<Rightarrow> 'a list" where
  "level t d = map (\<lambda>j. mt_nodes t ! (2 ^ d - 1 + j)) [0..<2 ^ d]"

lemma monoidD:
  assumes "monoid f e"
  shows "f (f a b) c = f a (f b c)" "f e a = a" "f a e = a"
  using assms by (simp_all add: monoid_def semigroup_def monoid_axioms_def)

lemma product_append: "monoid f e \<Longrightarrow> product f e (xs @ ys) = f (product f e xs) (product f e ys)"
  by (induction xs) (simp_all add: product_def monoidD)

lemma product_pairs:
  assumes "monoid f e"
  shows "product f e (map (\<lambda>j. f (g (2 * j)) (g (2 * j + 1))) [0..<n]) = product f e (map g [0..<2 * n])"
proof (induction n)
  case (Suc n)
  have "[0..<2 * Suc n] = [0..<2 * n] @ [2 * n, 2 * n + 1]" by simp
  then show ?case
    using Suc by (simp add: product_append [OF assms]) (simp add: product_def monoidD [OF assms])
qed simp

lemma product_identities: "monoid f e \<Longrightarrow> product f e (replicate n e) = e"
  by (induction n) (simp_all add: product_def monoidD)

lemma double_place:
  "1 \<le> x \<Longrightarrow> 2 * (x - 1 + j) + 1 = 2 * x - 1 + 2 * j" "1 \<le> x \<Longrightarrow> 2 * (x - 1 + j) + 2 = 2 * x - 1 + (2 * j + 1)"
  for x j :: nat
  by presburger+

lemma level_product:
  assumes "monoid f e" "\<And>p. p < 2 ^ h - 1 \<Longrightarrow> node_ok f t p" "d \<le> h"
  shows "product f e (level t d) = mt_nodes t ! 0"
  using assms(3)
proof (induction d)
  case 0
  show ?case by (simp add: level_def product_def monoidD [OF assms(1)])
next
  case (Suc d)
  let ?g = "\<lambda>j. mt_nodes t ! (2 ^ Suc d - 1 + j)"
  have pos: "(2 :: nat) ^ d \<ge> 1" by simp
  have "mt_nodes t ! (2 ^ d - 1 + j) = f (?g (2 * j)) (?g (2 * j + 1))" if "j < 2 ^ d" for j
  proof -
    have "(2 :: nat) ^ Suc d \<le> 2 ^ h" using Suc.prems by (intro power_increasing) auto
    then have "2 ^ d - 1 + j < 2 ^ h - 1" using that pos by simp
    moreover have "2 * (2 ^ d - 1 + j) + 1 = 2 ^ Suc d - 1 + 2 * j" using pos
      unfolding power_Suc by (rule double_place)
    moreover have "2 * (2 ^ d - 1 + j) + 2 = 2 ^ Suc d - 1 + (2 * j + 1)" using pos
      unfolding power_Suc by (rule double_place)
    ultimately show ?thesis using assms(2) [of "2 ^ d - 1 + j"] unfolding node_ok_def by metis
  qed
  then have "level t d = map (\<lambda>j. f (?g (2 * j)) (?g (2 * j + 1))) [0..<2 ^ d]" by (simp add: level_def)
  then have "product f e (level t d) = product f e (map ?g [0..<2 * 2 ^ d])"
    using product_pairs [OF assms(1), of ?g "2 ^ d"] by (simp only:)
  then show ?case using Suc by (simp add: level_def)
qed

lemma mt_result_product:
  assumes "monoid f e" "mt_inv f e t"
  shows "mt_result t = Inr (product f e (operands t))"
proof -
  obtain h where h: "mt_leaf_offset t + 1 = 2 ^ h" using assms(2) by (auto simp: mt_inv_def mt_shape_def)
  have shape: "mt_size t \<le> 2 ^ h" "length (mt_nodes t) = 2 * mt_leaf_offset t + 1"
    "\<And>i. mt_size t \<le> i \<Longrightarrow> i < 2 ^ h \<Longrightarrow> mt_nodes t ! (mt_leaf_offset t + i) = e"
    using assms(2) h [symmetric] by (auto simp: mt_inv_def mt_shape_def)
  have lo: "mt_leaf_offset t = 2 ^ h - 1" using h by simp
  then have "\<And>p. p < 2 ^ h - 1 \<Longrightarrow> node_ok f t p" using assms(2) by (simp add: mt_inv_def)
  then have root: "product f e (level t h) = mt_nodes t ! 0" by (rule level_product [OF assms(1) _ order_refl])
  have "level t h = map (\<lambda>i. mt_nodes t ! (mt_leaf_offset t + i)) ([0..<mt_size t] @ [mt_size t..<2 ^ h])"
    using upt_add_eq_append [of 0 "mt_size t" "2 ^ h - mt_size t"] shape(1) by (simp add: level_def lo)
  also have "\<dots> = operands t @ replicate (2 ^ h - mt_size t) e"
    using shape(3) by (auto simp: operands_def intro!: replicate_eqI)
  finally have "product f e (operands t) = mt_nodes t ! 0"
    using root by (simp add: product_append [OF assms(1)] product_identities [OF assms(1)] monoidD [OF assms(1)])
  then show ?thesis using shape(2) by (simp add: mt_result_def)
qed

lemma newMonoidTree_inv:
  assumes "monoid f e"
  shows "mt_inv f e (newMonoidTree e n)" "operands (newMonoidTree e n) = replicate n e" "mt_size (newMonoidTree e n) = n"
proof -
  obtain h where h: "1 \<le> h" "mt_ComputeLeafOffset n + 1 = 2 ^ h" "n \<le> 2 ^ h" using leaf_offset_power [of n] by blast
  have lo: "1 \<le> mt_ComputeLeafOffset n" by (simp add: mt_ComputeLeafOffset_def)
  show "mt_inv f e (newMonoidTree e n)"
    using h lo unfolding mt_inv_def mt_shape_def node_ok_def newMonoidTree_def mt_ComputeNumberOfNodes_def Let_def
    by (auto simp: monoidD [OF assms] simp del: replicate.simps)
  show "operands (newMonoidTree e n) = replicate n e" "mt_size (newMonoidTree e n) = n"
    using h by (auto simp: operands_def newMonoidTree_def Let_def mt_ComputeNumberOfNodes_def
        intro!: nth_equalityI simp del: replicate.simps)
qed

lemma mt_GetOperand_operand: "mt_inv f e t \<Longrightarrow> i < mt_size t \<Longrightarrow> mt_GetOperand i t = Inr (operands t ! i)"
  by (auto simp: mt_GetOperand_def mt_PositionOfLeaf_def operands_def mt_inv_def mt_shape_def)

lemma mt_Clear_inv:
  assumes "monoid f e" "mt_inv f e t"
  shows "mt_inv f e (mt_Clear e t)" "operands (mt_Clear e t) = replicate (mt_size t) e"
  using assms(2) by (auto simp: mt_inv_def mt_shape_def node_ok_def mt_Clear_def monoidD [OF assms(1)] operands_def
      intro!: nth_equalityI simp del: replicate.simps)

text \<open>A walk from the root ends at a leaf without a fault.\<close>

lemma mt_DiveInTree_ends:
  assumes "mt_inv f e t" "position < length (mt_nodes t)"
  shows "\<exists>s'. mt_DiveInTree d position t s = Inr s'"
  using assms(2)
proof (induction "mt_leaf_offset t - position" arbitrary: position s rule: less_induct)
  case less
  have len: "length (mt_nodes t) = 2 * mt_leaf_offset t + 1" using assms(1) by (simp add: mt_inv_def mt_shape_def)
  show ?case
  proof (cases "mt_IsLeaf position t")
    case True
    then show ?thesis using less.prems by (subst mt_DiveInTree.simps) simp
  next
    case False
    then have lt: "position < mt_leaf_offset t" by (simp add: mt_IsLeaf_def)
    obtain go s1 where go: "dv_ChooseGoLeft d (mt_nodes t ! position) (mt_nodes t ! mt_left position)
        (mt_nodes t ! mt_right position) s = (go, s1)" by fastforce
    have "\<exists>s'. mt_DiveInTree d (mt_left position) t s1 = Inr s'" "\<exists>s'. mt_DiveInTree d (mt_right position) t s1 = Inr s'"
      using lt len by (intro less.hyps; simp add: mt_left_def mt_right_def)+
    then show ?thesis
      using lt len less.prems False go by (subst mt_DiveInTree.simps) (auto simp: mt_left_def mt_right_def)
  qed
qed

section \<open>Properties\<close>

text \<open>A \<open>MonoidOperationTree\<close> keeps the product of its operands in order: after any sequence of
  \<open>Set\<close> calls with indices in range, starting from identities, \<open>GetOperand\<close> returns what was set
  last and the result is the product of all operands from the first to the last.\<close>

theorem monoid_tree_product:
  assumes "monoid f e" "\<forall>(i, a) \<in> set calls. i < n"
  defines "args \<equiv> fold (\<lambda>(i, a) xs. xs[i := a]) calls (replicate n e)"
  shows "\<exists>t. rfold (\<lambda>(i, a). mt_Set f i a) calls (newMonoidTree e n) = Inr t \<and>
    mt_result t = Inr (foldr f args e) \<and> (\<forall>i < n. mt_GetOperand i t = Inr (args ! i))"
proof -
  have "\<exists>t'. rfold (\<lambda>(i, a). mt_Set f i a) cs t = Inr t' \<and> mt_inv f e t' \<and> mt_size t' = n \<and>
      operands t' = fold (\<lambda>(i, a) xs. xs[i := a]) cs (operands t)"
    if "\<forall>(i, a) \<in> set cs. i < n" "mt_inv f e t" "mt_size t = n" for cs t
    using that
  proof (induction cs arbitrary: t)
    case (Cons c cs)
    obtain i a where c: "c = (i, a)" by (cases c)
    then obtain t1 where "mt_Set f i a t = Inr t1" "mt_inv f e t1" "operands t1 = (operands t)[i := a]" "mt_size t1 = n"
      using mt_Set_operand [OF Cons.prems(2), of i a] Cons.prems by auto
    then show ?case using Cons.IH [of t1] Cons.prems(1) c by auto
  qed simp
  from this [OF assms(2) newMonoidTree_inv(1,3) [OF assms(1)]] obtain t where
    t: "rfold (\<lambda>(i, a). mt_Set f i a) calls (newMonoidTree e n) = Inr t" "mt_inv f e t" "mt_size t = n" "operands t = args"
    unfolding newMonoidTree_inv(2) [OF assms(1)] args_def by blast
  then show ?thesis
    using mt_result_product [OF assms(1) t(2)] mt_GetOperand_operand [OF t(2)] by (simp add: product_def)
qed

theorem monoid_tree_product_witness:
  "\<exists>t. rfold (\<lambda>(i, a). mt_Set (@) i a) [(2, ''c''), (0, ''a'')] (newMonoidTree [] 3) = Inr t \<and> mt_result t = Inr ''ac''"
proof -
  have m: "monoid (@) ([] :: string)" by (rule append.monoid_axioms)
  show ?thesis using monoid_tree_product [OF m, of "[(2, ''c''), (0, ''a'')]" 3] by (auto simp: numeral_eq_Suc)
qed

end
