(* ===== verification/Rev.thy ===== *)
theory Rev
  imports Prelude
begin

text \<open>
  The reversible containers of \<open>util/rev.h\<close>: a repository of saved values, a vector, a map and a
  multimap whose changes above level zero are undone when the level goes down. The contract
  they share, an undo log with the log position of every level, is the locale \<open>reversible\<close>; it
  refines a state with one saved copy per level, and is interpreted on each of the four.
\<close>

section \<open>The code\<close>

subsection \<open>RevRepository\<close>

text \<open>Objects are cells of a memory \<open>'p \<Rightarrow> 'a\<close>. The stamp is a counter far below its 64 bits.\<close>

record ('p, 'a) rev_repository =
  rr_stamp :: int
  rr_end_of_level :: "nat list"
  rr_stack :: "('p \<times> 'a) list"

definition newRevRepository :: "('p, 'a) rev_repository" where
  "newRevRepository = \<lparr>rr_stamp = 0, rr_end_of_level = [], rr_stack = []\<rparr>"

definition rr_Level :: "('p, 'a) rev_repository \<Rightarrow> int" where
  "rr_Level r = int (length (rr_end_of_level r))"

definition rr_SaveState :: "'p \<Rightarrow> ('p \<Rightarrow> 'a) \<Rightarrow> ('p, 'a) rev_repository \<Rightarrow> ('p, 'a) rev_repository" where
  "rr_SaveState obj mem r =
     (if rr_end_of_level r = [] then r else r\<lparr>rr_stack := rr_stack r @ [(obj, mem obj)]\<rparr>)"

definition rr_SaveStateWithStamp ::
    "'p \<Rightarrow> ('p \<Rightarrow> 'a) \<Rightarrow> int \<Rightarrow> ('p, 'a) rev_repository \<Rightarrow> int \<times> ('p, 'a) rev_repository" where
  "rr_SaveStateWithStamp obj mem stamp r =
     (if stamp = rr_stamp r then (stamp, r) else (rr_stamp r, rr_SaveState obj mem r))"

definition rr_restore :: "'p \<times> 'a \<Rightarrow> ('p \<Rightarrow> 'a) \<Rightarrow> ('p \<Rightarrow> 'a)" where
  "rr_restore e mem = mem(fst e := snd e)"

definition rr_SetLevel ::
    "int \<Rightarrow> ('p \<Rightarrow> 'a) \<times> ('p, 'a) rev_repository \<Rightarrow> fault + ('p \<Rightarrow> 'a) \<times> ('p, 'a) rev_repository" where
  "rr_SetLevel level = (\<lambda>(mem, r).
     if level = rr_Level r then Inr (mem, r)
     else let r = r\<lparr>rr_stamp := rr_stamp r + 1\<rparr> in
       if level < rr_Level r
       then rbind (if level \<ge> 0 then index_vec (rr_end_of_level r) (nat level) else Inl BadIndex) (\<lambda>index.
         Inr (fold rr_restore (rev (drop index (rr_stack r))) mem,
              r\<lparr>rr_end_of_level := take (nat level) (rr_end_of_level r), rr_stack := take index (rr_stack r)\<rparr>))
       else Inr (mem, r\<lparr>rr_end_of_level := resizeVec (nat level) (length (rr_stack r)) (rr_end_of_level r)\<rparr>))"

subsection \<open>RevVector\<close>

record 'a rev_vector =
  rv_end_of_level :: "nat list"
  rv_stack :: "(nat \<times> 'a) list"
  rv_vector :: "'a list"

definition rv_at :: "nat \<Rightarrow> 'a rev_vector \<Rightarrow> fault + 'a" where
  "rv_at index s = index_vec (rv_vector s) index"

text \<open>\<open>MutableRef\<close> saves the element; \<open>rv_write\<close> is a store through the reference it returns.\<close>

definition rv_MutableRef :: "nat \<Rightarrow> 'a rev_vector \<Rightarrow> fault + 'a rev_vector" where
  "rv_MutableRef index s =
     rbind (rv_at index s) (\<lambda>old.
       Inr (if rv_end_of_level s \<noteq> [] then s\<lparr>rv_stack := rv_stack s @ [(index, old)]\<rparr> else s))"

definition rv_write :: "nat \<Rightarrow> 'a \<Rightarrow> 'a rev_vector \<Rightarrow> fault + 'a rev_vector" where
  "rv_write index x s =
     rbind (rv_MutableRef index s) (\<lambda>s.
     rbind (assignAt index x (rv_vector s)) (\<lambda>v. Inr (s\<lparr>rv_vector := v\<rparr>)))"

definition rv_size :: "'a rev_vector \<Rightarrow> nat" where
  "rv_size s = length (rv_vector s)"

definition rv_Grow :: "'a \<Rightarrow> nat \<Rightarrow> 'a rev_vector \<Rightarrow> fault + 'a rev_vector" where
  "rv_Grow d new_size s =
     (if new_size \<ge> rv_size s then Inr (s\<lparr>rv_vector := resizeVec new_size d (rv_vector s)\<rparr>) else Inl CheckFailed)"

definition rv_GrowByOne :: "'a \<Rightarrow> 'a rev_vector \<Rightarrow> 'a rev_vector" where
  "rv_GrowByOne d s = s\<lparr>rv_vector := resizeVec (rv_size s + 1) d (rv_vector s)\<rparr>"

definition rv_Level :: "'a rev_vector \<Rightarrow> int" where
  "rv_Level s = int (length (rv_end_of_level s))"

definition rv_restore :: "nat \<times> 'a \<Rightarrow> 'a list \<Rightarrow> fault + 'a list" where
  "rv_restore e = assignAt (fst e) (snd e)"

definition rv_SetLevel :: "int \<Rightarrow> 'a rev_vector \<Rightarrow> fault + 'a rev_vector" where
  "rv_SetLevel level s =
     (if level = rv_Level s then Inr s
      else if level < rv_Level s
      then rbind (if level \<ge> 0 then index_vec (rv_end_of_level s) (nat level) else Inl BadIndex) (\<lambda>index.
        rbind (rfold rv_restore (rev (drop index (rv_stack s))) (rv_vector s)) (\<lambda>v.
          Inr (s\<lparr>rv_end_of_level := take (nat level) (rv_end_of_level s), rv_stack := take index (rv_stack s),
                 rv_vector := v\<rparr>)))
      else Inr (s\<lparr>rv_end_of_level := resizeVec (nat level) (length (rv_stack s)) (rv_end_of_level s)\<rparr>))"

subsection \<open>RevMap\<close>

record ('k, 'v) undo_operation =
  un_is_deletion :: bool
  un_key :: 'k
  un_value :: 'v

record ('k, 'v) rev_map =
  rm_map :: "('k, 'v) hmap"
  rm_operations :: "('k, 'v) undo_operation list"
  rm_first_op_index_of_next_level :: "nat list"

definition rm_Level :: "('k, 'v) rev_map \<Rightarrow> int" where
  "rm_Level s = int (length (rm_first_op_index_of_next_level s))"

definition rm_contains :: "'k \<Rightarrow> ('k, 'v) rev_map \<Rightarrow> bool" where
  "rm_contains key s \<longleftrightarrow> hm_find (rm_map s) key \<noteq> None"

definition rm_at :: "'k \<Rightarrow> ('k, 'v) rev_map \<Rightarrow> fault + 'v" where
  "rm_at key s = hm_at (rm_map s) key"

definition rm_size :: "('k, 'v) rev_map \<Rightarrow> nat" where
  "rm_size s = length (rm_map s)"

definition rm_empty :: "('k, 'v) rev_map \<Rightarrow> bool" where
  "rm_empty s \<longleftrightarrow> rm_map s = []"

definition rm_find :: "'k \<Rightarrow> ('k, 'v) rev_map \<Rightarrow> 'v option" where
  "rm_find k s = hm_find (rm_map s) k"

definition rm_EraseOrDie :: "'k \<Rightarrow> ('k, 'v) rev_map \<Rightarrow> fault + ('k, 'v) rev_map" where
  "rm_EraseOrDie key s =
     (case hm_find (rm_map s) key of
        None \<Rightarrow> Inl CheckFailed
      | Some old \<Rightarrow>
          let s = (if rm_Level s > 0
                   then s\<lparr>rm_operations := rm_operations s @ [\<lparr>un_is_deletion = False, un_key = key, un_value = old\<rparr>]\<rparr>
                   else s)
          in Inr (s\<lparr>rm_map := hm_erase key (rm_map s)\<rparr>))"

text \<open>\<open>d\<close> is the value the undo of an insertion is initialised with; it is never read.\<close>

definition rm_Set :: "'v \<Rightarrow> 'k \<Rightarrow> 'v \<Rightarrow> ('k, 'v) rev_map \<Rightarrow> fault + ('k, 'v) rev_map" where
  "rm_Set d key x s =
     (let inserted = hm_find (rm_map s) key = None;
          s = s\<lparr>rm_map := hm_emplace key x (rm_map s)\<rparr> in
      rbind (hm_at (rm_map s) key) (\<lambda>second.
        let s = (if rm_Level s > 0
                 then if inserted
                   then s\<lparr>rm_operations := rm_operations s @ [\<lparr>un_is_deletion = True, un_key = key, un_value = d\<rparr>]\<rparr>
                   else s\<lparr>rm_operations := rm_operations s @ [\<lparr>un_is_deletion = False, un_key = key, un_value = second\<rparr>]\<rparr>
                 else s)
        in Inr (s\<lparr>rm_map := hm_set key x (rm_map s)\<rparr>)))"

definition rm_undo :: "('k, 'v) undo_operation \<Rightarrow> ('k, 'v) hmap \<Rightarrow> ('k, 'v) hmap" where
  "rm_undo to_undo m =
     (if un_is_deletion to_undo then hm_erase (un_key to_undo) m
      else hm_set (un_key to_undo) (un_value to_undo) (hm_emplace (un_key to_undo) (un_value to_undo) m))"

function rm_backtrack :: "nat \<Rightarrow> ('k, 'v) rev_map \<Rightarrow> ('k, 'v) rev_map" where
  "rm_backtrack backtrack_level s =
     (if length (rm_operations s) > backtrack_level
      then rm_backtrack backtrack_level
        (s\<lparr>rm_map := rm_undo (last (rm_operations s)) (rm_map s), rm_operations := butlast (rm_operations s)\<rparr>)
      else s)"
  by auto
termination by (relation "measure (\<lambda>(n, s). length (rm_operations s))") auto

declare rm_backtrack.simps [simp del]

definition rm_SetLevel :: "int \<Rightarrow> ('k, 'v) rev_map \<Rightarrow> fault + ('k, 'v) rev_map" where
  "rm_SetLevel level s =
     (if level < rm_Level s
      then rbind (if level \<ge> 0 then index_vec (rm_first_op_index_of_next_level s) (nat level) else Inl BadIndex) (\<lambda>backtrack_level.
        Inr (rm_backtrack backtrack_level
          (s\<lparr>rm_first_op_index_of_next_level := take (nat level) (rm_first_op_index_of_next_level s)\<rparr>)))
      else Inr (s\<lparr>rm_first_op_index_of_next_level :=
              resizeVec (nat level) (length (rm_operations s)) (rm_first_op_index_of_next_level s)\<rparr>))"

subsection \<open>RevGrowingMultiMap\<close>

record ('k, 'v) rev_multimap =
  mm_map :: "('k, 'v list) hmap"
  mm_added_keys :: "'k list"
  mm_first_added_key_of_next_level :: "nat list"

definition mm_Values :: "'k \<Rightarrow> ('k, 'v) rev_multimap \<Rightarrow> 'v list" where
  "mm_Values key s = (case hm_find (mm_map s) key of Some xs \<Rightarrow> xs | None \<Rightarrow> [])"

definition mm_Add :: "'k \<Rightarrow> 'v \<Rightarrow> ('k, 'v) rev_multimap \<Rightarrow> ('k, 'v) rev_multimap" where
  "mm_Add key x s =
     (let s = (if mm_first_added_key_of_next_level s \<noteq> [] then s\<lparr>mm_added_keys := mm_added_keys s @ [key]\<rparr> else s)
      in s\<lparr>mm_map := hm_modify [] key (\<lambda>xs. xs @ [x]) (mm_map s)\<rparr>)"

text \<open>The end iterator of a missing key must not be read: a fault.\<close>

definition mm_undo :: "'k \<Rightarrow> ('k, 'v list) hmap \<Rightarrow> fault + ('k, 'v list) hmap" where
  "mm_undo key m =
     (case hm_find m key of
        None \<Rightarrow> Inl NullDeref
      | Some xs \<Rightarrow> Inr (if length xs > 1 then hm_set key (butlast xs) m else hm_erase key m))"

function mm_backtrack :: "nat \<Rightarrow> ('k, 'v) rev_multimap \<Rightarrow> fault + ('k, 'v) rev_multimap" where
  "mm_backtrack backtrack_level s =
     (if length (mm_added_keys s) > backtrack_level
      then case mm_undo (last (mm_added_keys s)) (mm_map s) of
          Inl e \<Rightarrow> Inl e
        | Inr m \<Rightarrow> mm_backtrack backtrack_level (s\<lparr>mm_map := m, mm_added_keys := butlast (mm_added_keys s)\<rparr>)
      else Inr s)"
  by auto
termination by (relation "measure (\<lambda>(n, s). length (mm_added_keys s))") auto

declare mm_backtrack.simps [simp del]

text \<open>The level is compared as a \<open>size_t\<close>: a negative one is larger than any size, and the vector cannot
  be resized to it.\<close>

definition mm_SetLevel :: "int \<Rightarrow> ('k, 'v) rev_multimap \<Rightarrow> fault + ('k, 'v) rev_multimap" where
  "mm_SetLevel level s =
     (if level < 0 then Inl LengthError
      else if level < int (length (mm_first_added_key_of_next_level s))
      then rbind (index_vec (mm_first_added_key_of_next_level s) (nat level)) (\<lambda>backtrack_level.
        mm_backtrack backtrack_level
          (s\<lparr>mm_first_added_key_of_next_level := take (nat level) (mm_first_added_key_of_next_level s)\<rparr>))
      else Inr (s\<lparr>mm_first_added_key_of_next_level :=
              resizeVec (nat level) (length (mm_added_keys s)) (mm_first_added_key_of_next_level s)\<rparr>))"

section \<open>The contract\<close>

text \<open>
  The specification: a value, and the copies of it that were saved when each level was
  entered. Going down to a level brings its copy back and drops the later ones. A negative level
  is the fault \<open>neg\<close>.
\<close>

definition spec_SetLevel :: "fault \<Rightarrow> int \<Rightarrow> 'v \<times> 'v list \<Rightarrow> fault + 'v \<times> 'v list" where
  "spec_SetLevel neg level = (\<lambda>(v, saved).
     if level < 0 then Inl neg
     else if nat level < length saved then Inr (saved ! nat level, take (nat level) saved)
     else Inr (v, saved @ replicate (nat level - length saved) v))"

datatype 'm level_op = Modify 'm | SetLevel int

definition level_step :: "('m \<Rightarrow> 's \<Rightarrow> fault + 's) \<Rightarrow> (int \<Rightarrow> 's \<Rightarrow> fault + 's) \<Rightarrow> 'm level_op \<Rightarrow> 's \<Rightarrow> fault + 's" where
  "level_step modify setLevel op s = (case op of Modify m \<Rightarrow> modify m s | SetLevel l \<Rightarrow> setLevel l s)"

text \<open>A change of the value, and what it does to the copies: \<open>carry\<close> is the identity except where a
  change is not undone.\<close>

definition on_value ::
    "('m \<Rightarrow> 'v \<Rightarrow> fault + 'v) \<Rightarrow> ('m \<Rightarrow> 'v \<Rightarrow> 'v) \<Rightarrow> 'm \<Rightarrow> 'v \<times> 'v list \<Rightarrow> fault + 'v \<times> 'v list" where
  "on_value change carry m = (\<lambda>(v, saved). rbind (change m v) (\<lambda>v'. Inr (v', map (carry m) saved)))"

definition restored :: "'m \<Rightarrow> 'v \<Rightarrow> 'v" where
  "restored m v = v"

lemma map_restored [simp]: "map (restored m) saved = saved"
  by (simp add: restored_def map_idI)

text \<open>What an undo log saves: the value each level's log position leads back to.\<close>

definition snapshots :: "('u \<Rightarrow> 'v \<Rightarrow> 'v) \<Rightarrow> 'v \<Rightarrow> 'u list \<Rightarrow> nat list \<Rightarrow> 'v list" where
  "snapshots undo v log ends = map (\<lambda>e. foldr undo (drop e log) v) ends"

definition log_ok :: "'u list \<Rightarrow> nat list \<Rightarrow> bool" where
  "log_ok log ends \<longleftrightarrow> sorted ends \<and> (\<forall>e \<in> set ends. e \<le> length log)"

lemma log_ok_Nil [simp]: "log_ok log []"
  by (simp add: log_ok_def)

lemma log_ok_append: "log_ok log ends \<Longrightarrow> log_ok (log @ es) ends"
  by (auto simp: log_ok_def)

lemma log_ok_nth: "log_ok log ends \<Longrightarrow> l < length ends \<Longrightarrow> ends ! l \<le> length log"
  by (simp add: log_ok_def)

lemma log_ok_take:
  assumes "log_ok log ends" "l < length ends"
  shows "log_ok (take (ends ! l) log) (take l ends)"
proof -
  have "e \<le> ends ! l" if "e \<in> set (take l ends)" for e
    using that assms by (auto simp: log_ok_def in_set_conv_nth sorted_iff_nth_mono)
  then show ?thesis using assms by (auto simp: log_ok_def sorted_wrt_take dest: in_set_takeD)
qed

lemma resizeVec_grow: "length xs \<le> n \<Longrightarrow> resizeVec n d xs = xs @ replicate (n - length xs) d"
  by (simp add: resizeVec_def)

lemma log_ok_grow: "log_ok log ends \<Longrightarrow> length ends \<le> l \<Longrightarrow> log_ok log (resizeVec l (length log) ends)"
  by (auto simp: log_ok_def resizeVec_grow sorted_append)

lemma snapshots_take:
  assumes "log_ok log ends" "l < length ends"
  shows "snapshots undo (foldr undo (drop (ends ! l) log) v) (take (ends ! l) log) (take l ends) =
    take l (snapshots undo v log ends)"
proof -
  have "foldr undo (drop e (take (ends ! l) log)) (foldr undo (drop (ends ! l) log) v) = foldr undo (drop e log) v"
    if "e \<in> set (take l ends)" for e
  proof -
    have "e \<le> ends ! l"
      using that assms by (auto simp: log_ok_def in_set_conv_nth sorted_iff_nth_mono)
    then have "drop e (take (ends ! l) log) @ drop (ends ! l) log = drop e log"
      using log_ok_nth [OF assms] by (metis append_take_drop_id diff_is_0_eq drop_0 drop_append length_take min.absorb2)
    then show ?thesis by (metis comp_apply foldr_append)
  qed
  then show ?thesis by (simp add: snapshots_def take_map)
qed

lemma snapshots_append:
  "log_ok log ends \<Longrightarrow> snapshots undo v (log @ es) ends = snapshots undo (foldr undo es v) log ends"
  by (auto simp: snapshots_def log_ok_def)

lemma logged_snapshots:
  assumes "log_ok log ends" "ends \<noteq> [] \<Longrightarrow> foldr undo es v' = v"
  shows "snapshots undo v' (log @ es) ends = snapshots undo v log ends"
  using assms by (cases "ends = []") (simp_all add: snapshots_append, simp add: snapshots_def)

lemma snapshots_grow:
  "length ends \<le> l \<Longrightarrow> snapshots undo v log (resizeVec l (length log) ends) =
    snapshots undo v log ends @ replicate (l - length ends) v"
  by (simp add: snapshots_def resizeVec_grow)

lemma length_snapshots [simp]: "length (snapshots undo v log ends) = length ends"
  by (simp add: snapshots_def)

text \<open>
  What a provider promises: going down takes the log back to the position of the level and undoes
  the rest, going up remembers the position, and a modification either faults as the value's own
  change does, or makes that change and logs enough to take every saved copy back, as far as \<open>carry\<close> says.
\<close>

locale reversible =
  fixes content :: "'s \<Rightarrow> 'v" and log :: "'s \<Rightarrow> 'u list" and ends :: "'s \<Rightarrow> nat list"
    and undo :: "'u \<Rightarrow> 'v \<Rightarrow> 'v" and setLevel :: "int \<Rightarrow> 's \<Rightarrow> fault + 's" and wf :: "'s \<Rightarrow> bool"
    and modify :: "'m \<Rightarrow> 's \<Rightarrow> fault + 's" and change :: "'m \<Rightarrow> 'v \<Rightarrow> fault + 'v"
    and carry :: "'m \<Rightarrow> 'v \<Rightarrow> 'v" and neg :: fault
  assumes negative: "l < 0 \<Longrightarrow> setLevel l s = Inl neg"
    and shrink: "wf s \<Longrightarrow> log_ok (log s) (ends s) \<Longrightarrow> k < length (ends s) \<Longrightarrow>
      \<exists>s'. setLevel (int k) s = Inr s' \<and> wf s' \<and> content s' = foldr undo (drop (ends s ! k) (log s)) (content s) \<and>
        log s' = take (ends s ! k) (log s) \<and> ends s' = take k (ends s)"
    and grow: "wf s \<Longrightarrow> length (ends s) \<le> k \<Longrightarrow>
      \<exists>s'. setLevel (int k) s = Inr s' \<and> wf s' \<and> content s' = content s \<and> log s' = log s \<and>
        ends s' = resizeVec k (length (log s)) (ends s)"
    and modify_faults: "wf s \<Longrightarrow> change m (content s) = Inl e \<Longrightarrow> modify m s = Inl e"
    and modifies: "wf s \<Longrightarrow> log_ok (log s) (ends s) \<Longrightarrow> change m (content s) = Inr v \<Longrightarrow>
      \<exists>s' es. modify m s = Inr s' \<and> wf s' \<and> content s' = v \<and> ends s' = ends s \<and> log s' = log s @ es \<and>
        snapshots undo v (log s @ es) (ends s) = map (carry m) (snapshots undo (content s) (log s) (ends s))"
begin

lemma set_level_refines:
  assumes "wf s" "log_ok (log s) (ends s)"
  shows "map_sum id (\<lambda>s. (content s, snapshots undo (content s) (log s) (ends s))) (setLevel l s) =
      spec_SetLevel neg l (content s, snapshots undo (content s) (log s) (ends s))"
    and "setLevel l s = Inr s' \<Longrightarrow> wf s' \<and> log_ok (log s') (ends s')"
proof -
  let ?abs = "\<lambda>s. (content s, snapshots undo (content s) (log s) (ends s))"
  consider "l < 0" | k where "l = int k" "k < length (ends s)" | k where "l = int k" "length (ends s) \<le> k"
    by (metis int_nat_eq linorder_not_less)
  then have "map_sum id ?abs (setLevel l s) = spec_SetLevel neg l (?abs s) \<and>
      (setLevel l s = Inr s' \<longrightarrow> wf s' \<and> log_ok (log s') (ends s'))"
  proof cases
    case 1
    then show ?thesis by (simp add: negative spec_SetLevel_def)
  next
    case (2 k)
    obtain t where t: "setLevel (int k) s = Inr t" "wf t" "content t = foldr undo (drop (ends s ! k) (log s)) (content s)"
      "log t = take (ends s ! k) (log s)" "ends t = take k (ends s)" using shrink [OF assms 2(2)] by blast
    have "snapshots undo (content s) (log s) (ends s) ! k = content t" using 2(2) by (simp add: snapshots_def t(3))
    moreover have "snapshots undo (content t) (log t) (ends t) = take k (snapshots undo (content s) (log s) (ends s))"
      unfolding t(3-5) by (rule snapshots_take [OF assms(2) 2(2)])
    moreover have "log_ok (log t) (ends t)" unfolding t(4,5) by (rule log_ok_take [OF assms(2) 2(2)])
    ultimately show ?thesis using 2 t(1,2) by (auto simp: spec_SetLevel_def)
  next
    case (3 k)
    obtain t where t: "setLevel (int k) s = Inr t" "wf t" "content t = content s" "log t = log s"
      "ends t = resizeVec k (length (log s)) (ends s)" using grow [OF assms(1) 3(2)] by blast
    moreover have "log_ok (log t) (ends t)" unfolding t(4,5) by (rule log_ok_grow [OF assms(2) 3(2)])
    ultimately show ?thesis using 3 by (auto simp: spec_SetLevel_def snapshots_grow)
  qed
  then show "map_sum id ?abs (setLevel l s) = spec_SetLevel neg l (?abs s)"
    "setLevel l s = Inr s' \<Longrightarrow> wf s' \<and> log_ok (log s') (ends s')" by simp_all
qed

lemma run_refines:
  assumes "wf s" "log_ok (log s) (ends s)"
  shows "map_sum id (\<lambda>s. (content s, snapshots undo (content s) (log s) (ends s)))
      (rfold (level_step modify setLevel) ops s) =
    rfold (level_step (on_value change carry) (spec_SetLevel neg)) ops
      (content s, snapshots undo (content s) (log s) (ends s))"
  using assms
proof (induction ops arbitrary: s)
  case (Cons op ops)
  let ?abs = "\<lambda>s. (content s, snapshots undo (content s) (log s) (ends s))"
  have step: "map_sum id ?abs (level_step modify setLevel op s) = level_step (on_value change carry) (spec_SetLevel neg) op (?abs s) \<and>
      (\<forall>t. level_step modify setLevel op s = Inr t \<longrightarrow> wf t \<and> log_ok (log t) (ends t))"
  proof (cases op)
    case (SetLevel l)
    then show ?thesis using set_level_refines [OF Cons.prems] by (simp add: level_step_def)
  next
    case (Modify m)
    show ?thesis
    proof (cases "change m (content s)")
      case (Inl e)
      then show ?thesis using modify_faults [OF Cons.prems(1) Inl] by (simp add: Modify level_step_def on_value_def)
    next
      case (Inr v)
      obtain t es where "modify m s = Inr t" "wf t" "content t = v" "ends t = ends s" "log t = log s @ es"
        "snapshots undo v (log s @ es) (ends s) = map (carry m) (snapshots undo (content s) (log s) (ends s))"
        using modifies [OF Cons.prems Inr] by blast
      then show ?thesis using Inr Cons.prems(2) by (simp add: Modify level_step_def on_value_def log_ok_append)
    qed
  qed
  show ?case
  proof (cases "level_step modify setLevel op s")
    case (Inl e)
    have "level_step (on_value change carry) (spec_SetLevel neg) op (?abs s) = Inl e"
      using step [THEN conjunct1, symmetric] by (simp add: Inl)
    then show ?thesis by (simp add: Inl)
  next
    case (Inr t)
    then have t: "wf t" "log_ok (log t) (ends t)" using step by simp_all
    have "level_step (on_value change carry) (spec_SetLevel neg) op (?abs s) = Inr (?abs t)"
      using step [THEN conjunct1, symmetric] by (simp add: Inr)
    then show ?thesis using Cons.IH [OF t] by (simp add: Inr)
  qed
qed simp

end

section \<open>The map\<close>

datatype ('k, 'v) map_change = SetKey 'k 'v | EraseKey 'k

definition rm_modify :: "'v \<Rightarrow> ('k, 'v) map_change \<Rightarrow> ('k, 'v) rev_map \<Rightarrow> fault + ('k, 'v) rev_map" where
  "rm_modify d m s = (case m of SetKey k x \<Rightarrow> rm_Set d k x s | EraseKey k \<Rightarrow> rm_EraseOrDie k s)"

definition map_modify :: "('k, 'v) map_change \<Rightarrow> ('k \<Rightarrow> 'v option) \<Rightarrow> fault + ('k \<Rightarrow> 'v option)" where
  "map_modify m f =
     (case m of SetKey k x \<Rightarrow> Inr (f(k \<mapsto> x))
      | EraseKey k \<Rightarrow> if f k = None then Inl CheckFailed else Inr (f(k := None)))"

definition map_undo :: "('k, 'v) undo_operation \<Rightarrow> ('k \<Rightarrow> 'v option) \<Rightarrow> ('k \<Rightarrow> 'v option)" where
  "map_undo u f = f(un_key u := (if un_is_deletion u then None else Some (un_value u)))"

lemma drop_last: "n < length xs \<Longrightarrow> drop n xs = drop n (butlast xs) @ [last xs]"
  by (cases xs rule: rev_cases) auto

lemma take_last: "n < length xs \<Longrightarrow> take n xs = take n (butlast xs)"
  by (simp add: take_butlast)

lemma rm_undo_find: "hm_find (rm_undo u m) = map_undo u (hm_find m)"
  by (auto simp: rm_undo_def map_undo_def hmap_simps fun_eq_iff split: option.splits)

lemma rm_undo_distinct: "hm_distinct m \<Longrightarrow> hm_distinct (rm_undo u m)"
  unfolding rm_undo_def by (auto intro!: hm_distinct_set hm_distinct_erase hm_distinct_emplace)

lemma rm_backtrack_eq:
  "rm_backtrack n s = s\<lparr>rm_map := foldr rm_undo (drop n (rm_operations s)) (rm_map s),
     rm_operations := take n (rm_operations s)\<rparr>"
proof (induction n s rule: rm_backtrack.induct)
  case (1 n s)
  then show ?case
    by (subst rm_backtrack.simps) (auto simp: drop_last take_last)
qed

lemma foldr_rm_undo:
  "hm_find (foldr rm_undo us m) = foldr map_undo us (hm_find m)"
  "hm_distinct m \<Longrightarrow> hm_distinct (foldr rm_undo us m)"
  by (induction us) (simp_all add: rm_undo_find rm_undo_distinct)

lemma rm_Set_eq:
  "rm_Set d k x s = Inr (s\<lparr>rm_map := hm_set k x (hm_emplace k x (rm_map s)),
     rm_operations := rm_operations s @ (if rm_first_op_index_of_next_level s = [] then [] else
       [case hm_find (rm_map s) k of None \<Rightarrow> \<lparr>un_is_deletion = True, un_key = k, un_value = d\<rparr>
        | Some old \<Rightarrow> \<lparr>un_is_deletion = False, un_key = k, un_value = old\<rparr>])\<rparr>)"
  by (auto simp: rm_Set_def Let_def rm_Level_def hm_at_def hmap_simps split: option.split)

lemma rm_EraseOrDie_eq:
  "rm_EraseOrDie k s = (case hm_find (rm_map s) k of None \<Rightarrow> Inl CheckFailed
     | Some old \<Rightarrow> Inr (s\<lparr>rm_map := hm_erase k (rm_map s),
         rm_operations := rm_operations s @ (if rm_first_op_index_of_next_level s = [] then [] else
           [\<lparr>un_is_deletion = False, un_key = k, un_value = old\<rparr>])\<rparr>))"
  by (auto simp: rm_EraseOrDie_def Let_def rm_Level_def split: option.split)

lemma rm_modifies:
  assumes "hm_distinct (rm_map s)" "log_ok (rm_operations s) (rm_first_op_index_of_next_level s)"
    and "map_modify m (hm_find (rm_map s)) = Inr v"
  shows "\<exists>s' es. rm_modify d m s = Inr s' \<and> hm_distinct (rm_map s') \<and> hm_find (rm_map s') = v \<and>
    rm_first_op_index_of_next_level s' = rm_first_op_index_of_next_level s \<and> rm_operations s' = rm_operations s @ es \<and>
    snapshots map_undo v (rm_operations s @ es) (rm_first_op_index_of_next_level s) =
      snapshots map_undo (hm_find (rm_map s)) (rm_operations s) (rm_first_op_index_of_next_level s)"
proof (cases m)
  case (SetKey k x)
  let ?u = "case hm_find (rm_map s) k of None \<Rightarrow> \<lparr>un_is_deletion = True, un_key = k, un_value = d\<rparr>
    | Some old \<Rightarrow> \<lparr>un_is_deletion = False, un_key = k, un_value = old\<rparr>"
  let ?es = "if rm_first_op_index_of_next_level s = [] then [] else [?u]"
  have v: "v = (hm_find (rm_map s))(k \<mapsto> x)" using assms(3) by (simp add: SetKey map_modify_def)
  have "map_undo ?u v = hm_find (rm_map s)" by (auto simp: v map_undo_def fun_eq_iff split: option.split)
  then have "foldr map_undo ?es v = hm_find (rm_map s)" if "rm_first_op_index_of_next_level s \<noteq> []" using that by simp
  note undone = logged_snapshots [OF assms(2) this]
  let ?t = "s\<lparr>rm_map := hm_set k x (hm_emplace k x (rm_map s)), rm_operations := rm_operations s @ ?es\<rparr>"
  have "rm_modify d m s = Inr ?t" by (simp add: SetKey rm_modify_def rm_Set_eq)
  moreover have "hm_find (rm_map ?t) = v" by (auto simp: v hmap_simps fun_eq_iff split: option.split)
  moreover have "hm_distinct (rm_map ?t)" using assms(1) by (simp add: hm_distinct_set hm_distinct_emplace)
  moreover have "rm_first_op_index_of_next_level ?t = rm_first_op_index_of_next_level s" by simp
  moreover have "rm_operations ?t = rm_operations s @ ?es" by simp
  ultimately show ?thesis using undone by blast
next
  case (EraseKey k)
  then obtain old where old: "hm_find (rm_map s) k = Some old" and v: "v = (hm_find (rm_map s))(k := None)"
    using assms(3) by (auto simp: map_modify_def split: if_splits)
  let ?es = "if rm_first_op_index_of_next_level s = [] then [] else
    [\<lparr>un_is_deletion = False, un_key = k, un_value = old\<rparr>]"
  have "foldr map_undo ?es v = hm_find (rm_map s)" if "rm_first_op_index_of_next_level s \<noteq> []"
    using that by (simp add: v map_undo_def fun_eq_iff old)
  note undone = logged_snapshots [OF assms(2) this]
  let ?t = "s\<lparr>rm_map := hm_erase k (rm_map s), rm_operations := rm_operations s @ ?es\<rparr>"
  have "rm_modify d m s = Inr ?t" by (simp add: EraseKey rm_modify_def rm_EraseOrDie_eq old)
  moreover have "hm_find (rm_map ?t) = v" by (simp add: v)
  moreover have "hm_distinct (rm_map ?t)" using assms(1) by (simp add: hm_distinct_erase)
  moreover have "rm_first_op_index_of_next_level ?t = rm_first_op_index_of_next_level s" by simp
  moreover have "rm_operations ?t = rm_operations s @ ?es" by simp
  ultimately show ?thesis using undone by blast
qed

interpretation rev_map: reversible "\<lambda>s. hm_find (rm_map s)" rm_operations rm_first_op_index_of_next_level
  map_undo rm_SetLevel "\<lambda>s. hm_distinct (rm_map s)" "rm_modify d" map_modify restored BadIndex for d
proof (unfold_locales, goal_cases)
  case (5 s m v)
  from rm_modifies [OF this] show ?case by (simp only: map_restored)
qed (auto simp: rm_SetLevel_def rm_Level_def rm_backtrack_eq foldr_rm_undo
      rm_modify_def map_modify_def rm_EraseOrDie_eq split: map_change.splits if_splits)

section \<open>The vector\<close>

text \<open>\<open>d\<close> is the default value of an element that the vector grows by.\<close>

datatype 'a vector_change = WriteRef nat 'a | Grow nat | GrowByOne

definition rv_modify :: "'a \<Rightarrow> 'a vector_change \<Rightarrow> 'a rev_vector \<Rightarrow> fault + 'a rev_vector" where
  "rv_modify d m s =
     (case m of WriteRef i x \<Rightarrow> rv_write i x s | Grow n \<Rightarrow> rv_Grow d n s | GrowByOne \<Rightarrow> Inr (rv_GrowByOne d s))"

definition vector_modify :: "'a \<Rightarrow> 'a vector_change \<Rightarrow> 'a list \<Rightarrow> fault + 'a list" where
  "vector_modify d m v =
     (case m of
        WriteRef i x \<Rightarrow> assignAt i x v
      | Grow n \<Rightarrow> if n < length v then Inl CheckFailed else Inr (v @ replicate (n - length v) d)
      | GrowByOne \<Rightarrow> Inr (v @ [d]))"

text \<open>A store is undone in the copies; what the vector grows by stays, in every copy.\<close>

definition grown_by :: "'a \<Rightarrow> 'a vector_change \<Rightarrow> 'a list \<Rightarrow> 'a list" where
  "grown_by d m saved =
     (case m of
        WriteRef i x \<Rightarrow> saved
      | Grow n \<Rightarrow> saved @ replicate (n - length saved) d
      | GrowByOne \<Rightarrow> saved @ [d])"

definition vector_undo :: "nat \<times> 'a \<Rightarrow> 'a list \<Rightarrow> 'a list" where
  "vector_undo e v = v[fst e := snd e]"

definition rv_ok :: "'a rev_vector \<Rightarrow> bool" where
  "rv_ok s \<longleftrightarrow> (\<forall>e \<in> set (rv_stack s). fst e < rv_size s)"

lemma length_vector_undo [simp]: "length (foldr vector_undo es v) = length v"
  by (induction es) (simp_all add: vector_undo_def)

lemma rv_restore_all:
  "\<forall>e \<in> set es. fst e < length v \<Longrightarrow> rfold rv_restore (rev es) v = Inr (foldr vector_undo es v)"
  by (induction es) (simp_all add: rfold_append rv_restore_def vector_undo_def)

lemma rv_write_eq:
  "rv_write i x s = (if i < rv_size s
     then Inr (s\<lparr>rv_stack := rv_stack s @ (if rv_end_of_level s = [] then [] else [(i, rv_vector s ! i)]),
                 rv_vector := (rv_vector s)[i := x]\<rparr>)
     else Inl BadIndex)"
  by (auto simp: rv_write_def rv_MutableRef_def rv_at_def index_vec_def rv_size_def)

lemma vector_undo_grow:
  "\<forall>e \<in> set es. fst e < length v \<Longrightarrow> foldr vector_undo es (v @ w) = foldr vector_undo es v @ w"
  by (induction es) (simp_all add: vector_undo_def list_update_append1)

text \<open>Growing leaves the log as it is and extends every copy it leads back to.\<close>

lemma rv_grows:
  assumes "rv_ok s"
  shows "rv_ok (s\<lparr>rv_vector := rv_vector s @ w\<rparr>)" "snapshots vector_undo (rv_vector s @ w) (rv_stack s) (rv_end_of_level s) =
    map (\<lambda>v. v @ w) (snapshots vector_undo (rv_vector s) (rv_stack s) (rv_end_of_level s))"
proof -
  have "foldr vector_undo (drop e (rv_stack s)) (rv_vector s @ w) = foldr vector_undo (drop e (rv_stack s)) (rv_vector s) @ w"
    for e using assms(1) by (intro vector_undo_grow) (auto simp: rv_ok_def rv_size_def dest: in_set_dropD)
  then show "snapshots vector_undo (rv_vector s @ w) (rv_stack s) (rv_end_of_level s) =
      map (\<lambda>v. v @ w) (snapshots vector_undo (rv_vector s) (rv_stack s) (rv_end_of_level s))"
    by (simp add: snapshots_def)
  show "rv_ok (s\<lparr>rv_vector := rv_vector s @ w\<rparr>)" using assms by (auto simp: rv_ok_def rv_size_def)
qed

lemma length_copies: "c \<in> set (snapshots vector_undo v log ends) \<Longrightarrow> length c = length v"
  by (auto simp: snapshots_def)

lemma rv_modifies:
  assumes "rv_ok s" "log_ok (rv_stack s) (rv_end_of_level s)" "vector_modify d m (rv_vector s) = Inr v"
  shows "\<exists>s' es. rv_modify d m s = Inr s' \<and> rv_ok s' \<and> rv_vector s' = v \<and> rv_end_of_level s' = rv_end_of_level s \<and>
    rv_stack s' = rv_stack s @ es \<and>
    snapshots vector_undo v (rv_stack s @ es) (rv_end_of_level s) =
      map (grown_by d m) (snapshots vector_undo (rv_vector s) (rv_stack s) (rv_end_of_level s))"
proof -
  let ?copies = "snapshots vector_undo (rv_vector s) (rv_stack s) (rv_end_of_level s)"
  have grows: ?thesis if "rv_modify d m s = Inr (s\<lparr>rv_vector := rv_vector s @ w\<rparr>)" "v = rv_vector s @ w"
    "\<And>c. c \<in> set ?copies \<Longrightarrow> grown_by d m c = c @ w" for w
    using rv_grows [OF assms(1), of w] that
    by (intro exI [of _ "s\<lparr>rv_vector := rv_vector s @ w\<rparr>"] exI [of _ "[]"]) simp
  show ?thesis
  proof (cases m)
    case (WriteRef i x)
    have i: "i < rv_size s" and v: "v = (rv_vector s)[i := x]"
      using assms(3) by (auto simp: WriteRef vector_modify_def rv_size_def res_simps)
    let ?es = "if rv_end_of_level s = [] then [] else [(i, rv_vector s ! i)]"
    have "foldr vector_undo ?es v = rv_vector s" if "rv_end_of_level s \<noteq> []"
      using that i by (simp add: v vector_undo_def)
    note undone = logged_snapshots [OF assms(2) this]
    let ?t = "s\<lparr>rv_stack := rv_stack s @ ?es, rv_vector := v\<rparr>"
    have "rv_modify d m s = Inr ?t" using i by (simp add: WriteRef rv_modify_def rv_write_eq v)
    moreover have "rv_ok ?t" using assms(1) i by (auto simp: rv_ok_def rv_size_def v)
    moreover have "map (grown_by d m) ?copies = ?copies" by (simp add: grown_by_def WriteRef map_idI)
    moreover have "rv_vector ?t = v" "rv_end_of_level ?t = rv_end_of_level s" "rv_stack ?t = rv_stack s @ ?es" by simp_all
    ultimately show ?thesis using undone by metis
  next
    case (Grow n)
    then have "rv_modify d m s = Inr (s\<lparr>rv_vector := rv_vector s @ replicate (n - length (rv_vector s)) d\<rparr>)"
      "v = rv_vector s @ replicate (n - length (rv_vector s)) d"
      using assms(3) by (auto simp: vector_modify_def rv_modify_def rv_Grow_def rv_size_def resizeVec_def split: if_splits)
    moreover have "grown_by d m c = c @ replicate (n - length (rv_vector s)) d" if "c \<in> set ?copies" for c
      using length_copies [OF that] by (simp add: grown_by_def Grow)
    ultimately show ?thesis by (rule grows)
  next
    case GrowByOne
    then show ?thesis
      using assms(3) by (intro grows [of "[d]"])
        (simp_all add: vector_modify_def rv_modify_def rv_GrowByOne_def rv_size_def resizeVec_def grown_by_def)
  qed
qed

interpretation rev_vector: reversible rv_vector rv_stack rv_end_of_level vector_undo rv_SetLevel rv_ok
  "rv_modify d" "vector_modify d" "grown_by d" BadIndex for d
proof (unfold_locales, goal_cases)
  case (2 s k)
  have "\<forall>e \<in> set (drop (rv_end_of_level s ! k) (rv_stack s)). fst e < length (rv_vector s)"
    using 2(1) by (auto simp: rv_ok_def rv_size_def dest: in_set_dropD)
  note restored = rv_restore_all [OF this]
  show ?case using 2
    by (auto simp: rv_SetLevel_def rv_Level_def restored rv_ok_def rv_size_def dest: in_set_takeD)
next
  case (5 s m v)
  then show ?case by (rule rv_modifies)
qed (auto simp: rv_SetLevel_def rv_Level_def rv_ok_def rv_size_def rv_modify_def vector_modify_def rv_write_eq rv_Grow_def
      assignAt_def resizeVec_def split: vector_change.splits if_splits)

section \<open>The repository\<close>

text \<open>
  A client that saves an object before each store to it, by \<open>SaveStateWithStamp\<close> with the stamp of the
  object, where one entry per object and level is enough, or by \<open>SaveState\<close>. It may also save an object
  and not change it.
\<close>

type_synonym ('p, 'a) rev_client = "('p \<Rightarrow> 'a) \<times> ('p \<Rightarrow> int) \<times> ('p, 'a) rev_repository"

datatype ('p, 'a) cell_change = StampedStore 'p 'a | SavedStore 'p 'a | SaveOnly 'p

definition rc_write :: "('p, 'a) cell_change \<Rightarrow> ('p, 'a) rev_client \<Rightarrow> fault + ('p, 'a) rev_client" where
  "rc_write m = (\<lambda>(mem, stamps, r). case m of
       StampedStore p x \<Rightarrow>
         let (stamp, r') = rr_SaveStateWithStamp p mem (stamps p) r
         in Inr (mem(p := x), stamps(p := stamp), r')
     | SavedStore p x \<Rightarrow> Inr (mem(p := x), stamps, rr_SaveState p mem r)
     | SaveOnly p \<Rightarrow> Inr (mem, stamps, rr_SaveState p mem r))"

definition rc_SetLevel :: "int \<Rightarrow> ('p, 'a) rev_client \<Rightarrow> fault + ('p, 'a) rev_client" where
  "rc_SetLevel level = (\<lambda>(mem, stamps, r).
     rbind (rr_SetLevel level (mem, r)) (\<lambda>(mem, r). Inr (mem, stamps, r)))"

definition cell_modify :: "('p, 'a) cell_change \<Rightarrow> ('p \<Rightarrow> 'a) \<Rightarrow> fault + ('p \<Rightarrow> 'a)" where
  "cell_modify m mem =
     (case m of StampedStore p x \<Rightarrow> Inr (mem(p := x)) | SavedStore p x \<Rightarrow> Inr (mem(p := x)) | SaveOnly p \<Rightarrow> Inr mem)"

definition rc_log :: "('p, 'a) rev_client \<Rightarrow> ('p \<times> 'a) list" where
  "rc_log c = rr_stack (snd (snd c))"

definition rc_ends :: "('p, 'a) rev_client \<Rightarrow> nat list" where
  "rc_ends c = rr_end_of_level (snd (snd c))"

definition rc_ok :: "('p, 'a) rev_client \<Rightarrow> bool" where
  "rc_ok = (\<lambda>(mem, stamps, r). \<forall>p. stamps p \<le> rr_stamp r \<and>
     (stamps p = rr_stamp r \<and> rr_end_of_level r \<noteq> [] \<longrightarrow>
       p \<in> fst ` set (drop (last (rr_end_of_level r)) (rr_stack r))))"

lemma saved_overwrites: "p \<in> fst ` set es \<Longrightarrow> foldr rr_restore es (mem(p := x)) = foldr rr_restore es mem"
proof (induction es)
  case (Cons e es)
  have other: "foldr rr_restore us (mem(p := x)) q = foldr rr_restore us mem q" if "q \<noteq> p" for us q
    using that by (induction us) (simp_all add: rr_restore_def)
  show ?case
  proof (cases "p = fst e")
    case True
    have "rr_restore e (foldr rr_restore es (mem(p := x))) q = rr_restore e (foldr rr_restore es mem) q" for q
      using other [of q es] by (cases "q = p") (simp_all add: rr_restore_def True)
    then show ?thesis by (simp only: foldr.simps comp_apply)
  next
    case False
    then show ?thesis using Cons by simp
  qed
qed simp

lemma sorted_le_last: "sorted es \<Longrightarrow> e \<in> set es \<Longrightarrow> e \<le> last es"
  by (induction es) auto

lemma saved_snapshots:
  assumes "log_ok log ends" "ends \<noteq> [] \<Longrightarrow> p \<in> fst ` set (drop (last ends) log)"
  shows "snapshots rr_restore (mem(p := x)) log ends = snapshots rr_restore mem log ends"
proof -
  have "p \<in> fst ` set (drop e log)" if "e \<in> set ends" for e
  proof -
    have "e \<le> last ends" using assms(1) that by (simp add: log_ok_def sorted_le_last)
    then have "set (drop (last ends) log) \<subseteq> set (drop e log)" by (rule set_drop_subset_set_drop)
    moreover have "ends \<noteq> []" using that by auto
    ultimately show ?thesis using assms(2) by blast
  qed
  then show ?thesis by (simp add: snapshots_def saved_overwrites)
qed

lemma rc_saves:
  assumes "rc_ok (mem, stamps, r)" "log_ok (rr_stack r) (rr_end_of_level r)" and v: "\<And>q. q \<noteq> p \<Longrightarrow> v q = mem q"
    and st: "stamps' = stamps \<or> stamps' = stamps(p := rr_stamp r)"
  shows "\<exists>es. rc_ok (v, stamps', rr_SaveState p mem r) \<and> rr_end_of_level (rr_SaveState p mem r) = rr_end_of_level r \<and>
    rr_stack (rr_SaveState p mem r) = rr_stack r @ es \<and>
    snapshots rr_restore v (rr_stack r @ es) (rr_end_of_level r) = snapshots rr_restore mem (rr_stack r) (rr_end_of_level r)"
proof -
  let ?es = "if rr_end_of_level r = [] then [] else [(p, mem p)]"
  have "foldr rr_restore ?es v = mem" if "rr_end_of_level r \<noteq> []" using that v by (auto simp: rr_restore_def)
  note undone = logged_snapshots [OF assms(2) this]
  have "rr_SaveState p mem r = r\<lparr>rr_stack := rr_stack r @ ?es\<rparr>" by (simp add: rr_SaveState_def)
  moreover have "rc_ok (v, stamps', r\<lparr>rr_stack := rr_stack r @ ?es\<rparr>)"
    using assms(1,2) st by (auto simp: rc_ok_def log_ok_def image_Un)
  ultimately show ?thesis using undone by (intro exI [of _ ?es]) simp
qed

lemma rc_modifies:
  assumes "rc_ok c" "log_ok (rc_log c) (rc_ends c)" "cell_modify m (fst c) = Inr v"
  shows "\<exists>c' es. rc_write m c = Inr c' \<and> rc_ok c' \<and> fst c' = v \<and> rc_ends c' = rc_ends c \<and> rc_log c' = rc_log c @ es \<and>
    snapshots rr_restore v (rc_log c @ es) (rc_ends c) = snapshots rr_restore (fst c) (rc_log c) (rc_ends c)"
proof -
  obtain mem stamps r where c: "c = (mem, stamps, r)" by (cases c)
  have ok: "log_ok (rr_stack r) (rr_end_of_level r)" using assms(2) by (simp add: c rc_log_def rc_ends_def)
  have saved: ?thesis if "rc_write m c = Inr (v, stamps', rr_SaveState p mem r)" "\<And>q. q \<noteq> p \<Longrightarrow> v q = mem q"
    "stamps' = stamps \<or> stamps' = stamps(p := rr_stamp r)" for p stamps'
    using rc_saves [OF assms(1) [unfolded c] ok that(2,3)] that(1) by (auto simp: c rc_log_def rc_ends_def)
  show ?thesis
  proof (cases m)
    case (StampedStore p x)
    have v: "v = mem(p := x)" using assms(3) by (simp add: c StampedStore cell_modify_def)
    show ?thesis
    proof (cases "stamps p = rr_stamp r")
      case True
      have "p \<in> fst ` set (drop (last (rr_end_of_level r)) (rr_stack r))" if "rr_end_of_level r \<noteq> []"
        using assms(1) that True by (simp add: c rc_ok_def)
      note same = saved_snapshots [OF ok this]
      have "rc_write m c = Inr (mem(p := x), stamps(p := stamps p), r)"
        using True by (simp add: c StampedStore rc_write_def rr_SaveStateWithStamp_def)
      then show ?thesis using assms(1) by (intro exI [of _ "(v, stamps, r)"] exI [of _ "[]"])
          (simp add: v c rc_ok_def rc_log_def rc_ends_def same)
    next
      case False
      then show ?thesis
        by (intro saved [of "stamps(p := rr_stamp r)" p])
          (simp_all add: c v StampedStore rc_write_def rr_SaveStateWithStamp_def)
    qed
  next
    case (SavedStore p x)
    then show ?thesis using assms(3) by (intro saved [of stamps p]) (auto simp: c rc_write_def cell_modify_def)
  next
    case (SaveOnly p)
    then show ?thesis using assms(3) by (intro saved [of stamps p]) (auto simp: c rc_write_def cell_modify_def)
  qed
qed

lemma rc_ok_new_stamp: "rc_ok (mem, stamps, r) \<Longrightarrow> rr_stamp r' = rr_stamp r + 1 \<Longrightarrow> rc_ok (mem', stamps, r')"
  unfolding rc_ok_def by (simp, smt (verit))

interpretation rev_client: reversible fst rc_log rc_ends rr_restore rc_SetLevel rc_ok rc_write cell_modify
  restored BadIndex
proof (unfold_locales, goal_cases)
  case (2 s k)
  obtain mem stamps r where s: "s = (mem, stamps, r)" by (cases s)
  have "k < length (rr_end_of_level r)" using 2(3) by (simp add: s rc_ends_def)
  then show ?case
    by (simp add: rc_ok_new_stamp [OF 2(1) [unfolded s]] s rc_SetLevel_def rr_SetLevel_def rr_Level_def rc_log_def rc_ends_def foldr_conv_fold)
next
  case (3 s k)
  obtain mem stamps r where s: "s = (mem, stamps, r)" by (cases s)
  have k: "length (rr_end_of_level r) \<le> k" using 3(2) by (simp add: s rc_ends_def)
  show ?case
  proof (cases "k = length (rr_end_of_level r)")
    case True
    then show ?thesis using 3(1)
      by (simp add: s rc_SetLevel_def rr_SetLevel_def rr_Level_def rc_log_def rc_ends_def resizeVec_def)
  next
    case False
    then show ?thesis using k
      by (simp add: rc_ok_new_stamp [OF 3(1) [unfolded s]] s rc_SetLevel_def rr_SetLevel_def rr_Level_def rc_log_def rc_ends_def)
  qed
next
  case (5 s m v)
  from rc_modifies [OF this] show ?case by (simp only: map_restored)
qed (auto simp: rc_SetLevel_def rr_SetLevel_def rr_Level_def cell_modify_def split: cell_change.splits)

section \<open>The multimap\<close>

definition mm_modify :: "'k \<times> 'v \<Rightarrow> ('k, 'v) rev_multimap \<Rightarrow> fault + ('k, 'v) rev_multimap" where
  "mm_modify m s = Inr (mm_Add (fst m) (snd m) s)"

definition values_modify :: "'k \<times> 'v \<Rightarrow> ('k \<Rightarrow> 'v list) \<Rightarrow> fault + ('k \<Rightarrow> 'v list)" where
  "values_modify m f = Inr (f(fst m := f (fst m) @ [snd m]))"

definition values_undo :: "'k \<Rightarrow> ('k \<Rightarrow> 'v list) \<Rightarrow> ('k \<Rightarrow> 'v list)" where
  "values_undo k f = f(k := butlast (f k))"

definition mm_content :: "('k, 'v) rev_multimap \<Rightarrow> 'k \<Rightarrow> 'v list" where
  "mm_content s k = mm_Values k s"

text \<open>Every stored list has a value, and every addition that is logged is still there.\<close>

definition mm_ok :: "('k, 'v) rev_multimap \<Rightarrow> bool" where
  "mm_ok s \<longleftrightarrow> (\<forall>k. hm_find (mm_map s) k \<noteq> Some [] \<and> count_list (mm_added_keys s) k \<le> length (mm_content s k))"

lemma mm_content_get: "mm_content s k = hm_get [] (mm_map s) k"
  by (simp add: mm_content_def mm_Values_def hm_get_def split: option.split)

lemma mm_undo_ok:
  assumes "mm_ok s" "mm_added_keys s \<noteq> []"
  defines "k \<equiv> last (mm_added_keys s)"
  shows "\<exists>m. mm_undo k (mm_map s) = Inr m \<and> mm_ok (s\<lparr>mm_map := m, mm_added_keys := butlast (mm_added_keys s)\<rparr>) \<and>
    mm_content (s\<lparr>mm_map := m, mm_added_keys := butlast (mm_added_keys s)\<rparr>) = values_undo k (mm_content s)"
proof -
  have keys: "mm_added_keys s = butlast (mm_added_keys s) @ [k]" using assms(2) by (simp add: k_def)
  have counts: "count_list (mm_added_keys s) q = count_list (butlast (mm_added_keys s)) q + (if q = k then 1 else 0)" for q
    by (subst keys) simp
  have enough: "count_list (mm_added_keys s) q \<le> length (mm_content s q)" "hm_find (mm_map s) q \<noteq> Some []" for q
    using assms(1) by (simp_all add: mm_ok_def)
  have "mm_content s k \<noteq> []" using enough(1) [of k] counts [of k] by auto
  then obtain xs where xs: "hm_find (mm_map s) k = Some xs" "mm_content s k = xs" "xs \<noteq> []"
    by (cases "hm_find (mm_map s) k") (simp_all add: mm_content_get)
  let ?m = "if length xs > 1 then hm_set k (butlast xs) (mm_map s) else hm_erase k (mm_map s)"
  let ?t = "s\<lparr>mm_map := ?m, mm_added_keys := butlast (mm_added_keys s)\<rparr>"
  have found: "hm_find ?m q = (if q = k then if length xs > 1 then Some (butlast xs) else None else hm_find (mm_map s) q)" for q
    by simp
  have short: "\<not> length xs > 1 \<Longrightarrow> butlast xs = []" by (cases xs) auto
  have content: "mm_content ?t = values_undo k (mm_content s)"
  proof
    fix q
    show "mm_content ?t q = values_undo k (mm_content s) q"
      using short xs(2) by (simp add: mm_content_get values_undo_def hm_get_def found)
  qed
  have "hm_find ?m q \<noteq> Some []" for q
    using enough(2) [of q] by (cases xs rule: rev_cases) (auto simp: found)
  moreover have "count_list (butlast (mm_added_keys s)) q \<le> length (mm_content ?t q)" for q
    unfolding content using enough(1) [of q] counts [of q] by (auto simp: values_undo_def)
  ultimately have "mm_ok ?t" by (simp add: mm_ok_def)
  moreover have "mm_undo k (mm_map s) = Inr ?m" by (simp add: mm_undo_def xs(1))
  ultimately show ?thesis using content by blast
qed

lemma mm_backtrack_ok:
  "mm_ok s \<Longrightarrow> \<exists>s'. mm_backtrack n s = Inr s' \<and> mm_ok s' \<and>
    mm_content s' = foldr values_undo (drop n (mm_added_keys s)) (mm_content s) \<and>
    mm_added_keys s' = take n (mm_added_keys s) \<and>
    mm_first_added_key_of_next_level s' = mm_first_added_key_of_next_level s"
proof (induction n s rule: mm_backtrack.induct)
  case (1 n s)
  show ?case
  proof (cases "length (mm_added_keys s) > n")
    case True
    then have "mm_added_keys s \<noteq> []" by auto
    then obtain m where m: "mm_undo (last (mm_added_keys s)) (mm_map s) = Inr m"
      "mm_ok (s\<lparr>mm_map := m, mm_added_keys := butlast (mm_added_keys s)\<rparr>)"
      "mm_content (s\<lparr>mm_map := m, mm_added_keys := butlast (mm_added_keys s)\<rparr>) =
        values_undo (last (mm_added_keys s)) (mm_content s)"
      using mm_undo_ok [OF 1(2)] by blast
    show ?thesis
      using 1(1) [OF True m(1,2)] True m
      by (subst mm_backtrack.simps) (simp add: drop_last take_last)
  next
    case False
    then show ?thesis using 1(2) by (subst mm_backtrack.simps) simp
  qed
qed

lemma mm_modifies:
  assumes "mm_ok s" "log_ok (mm_added_keys s) (mm_first_added_key_of_next_level s)" "values_modify m (mm_content s) = Inr v"
  shows "\<exists>s' es. mm_modify m s = Inr s' \<and> mm_ok s' \<and> mm_content s' = v \<and>
    mm_first_added_key_of_next_level s' = mm_first_added_key_of_next_level s \<and> mm_added_keys s' = mm_added_keys s @ es \<and>
    snapshots values_undo v (mm_added_keys s @ es) (mm_first_added_key_of_next_level s) =
      snapshots values_undo (mm_content s) (mm_added_keys s) (mm_first_added_key_of_next_level s)"
proof -
  obtain k x where m: "m = (k, x)" by (cases m)
  have v: "v = (mm_content s)(k := mm_content s k @ [x])" using assms(3) by (simp add: m values_modify_def)
  let ?es = "if mm_first_added_key_of_next_level s = [] then [] else [k]"
  let ?t = "s\<lparr>mm_map := hm_modify [] k (\<lambda>xs. xs @ [x]) (mm_map s), mm_added_keys := mm_added_keys s @ ?es\<rparr>"
  have "foldr values_undo ?es v = mm_content s" if "mm_first_added_key_of_next_level s \<noteq> []"
    using that by (simp add: v values_undo_def)
  note undone = logged_snapshots [OF assms(2) this]
  have "mm_modify m s = Inr ?t" by (simp add: m mm_modify_def mm_Add_def)
  moreover have content: "mm_content ?t = v"
    by (auto simp: mm_content_get v hmap_simps hm_get_def fun_eq_iff)
  moreover have "mm_ok ?t"
  proof -
    have "hm_find (mm_map ?t) q \<noteq> Some []" for q using assms(1) by (simp add: mm_ok_def hmap_simps)
    moreover have "count_list (mm_added_keys ?t) q \<le> length (mm_content ?t q)" for q
      using assms(1) [unfolded mm_ok_def] unfolding content v by (auto intro: le_SucI)
    ultimately show ?thesis by (simp add: mm_ok_def)
  qed
  moreover have "mm_first_added_key_of_next_level ?t = mm_first_added_key_of_next_level s"
    "mm_added_keys ?t = mm_added_keys s @ ?es" by simp_all
  ultimately show ?thesis using undone by blast
qed

interpretation rev_multimap: reversible mm_content mm_added_keys mm_first_added_key_of_next_level values_undo
  mm_SetLevel mm_ok mm_modify values_modify restored LengthError
proof (unfold_locales, goal_cases)
  case (2 s k)
  let ?s = "s\<lparr>mm_first_added_key_of_next_level := take k (mm_first_added_key_of_next_level s)\<rparr>"
  have "mm_ok ?s" using 2(1) by (simp add: mm_ok_def mm_content_get)
  moreover have "mm_content ?s = mm_content s" by (simp add: fun_eq_iff mm_content_get)
  ultimately show ?case using 2(3) mm_backtrack_ok [of ?s "mm_first_added_key_of_next_level s ! k"]
    by (simp add: mm_SetLevel_def)
next
  case (3 s k)
  then show ?case by (simp add: mm_SetLevel_def mm_ok_def mm_content_get fun_eq_iff)
next
  case (5 s m v)
  from mm_modifies [OF this] show ?case by (simp only: map_restored)
qed (auto simp: mm_SetLevel_def values_modify_def)

section \<open>Properties\<close>

definition newRevMap :: "('k, 'v) rev_map" where
  "newRevMap = \<lparr>rm_map = [], rm_operations = [], rm_first_op_index_of_next_level = []\<rparr>"

definition newRevMultiMap :: "('k, 'v) rev_multimap" where
  "newRevMultiMap = \<lparr>mm_map = [], mm_added_keys = [], mm_first_added_key_of_next_level = []\<rparr>"

definition newRevVector :: "'a list \<Rightarrow> 'a rev_vector" where
  "newRevVector xs = \<lparr>rv_end_of_level = [], rv_stack = [], rv_vector = xs\<rparr>"

text \<open>What a container holds, and what each level would bring back.\<close>

definition rm_abs :: "('k, 'v) rev_map \<Rightarrow> ('k \<Rightarrow> 'v option) \<times> ('k \<Rightarrow> 'v option) list" where
  "rm_abs s = (hm_find (rm_map s), snapshots map_undo (hm_find (rm_map s)) (rm_operations s) (rm_first_op_index_of_next_level s))"

definition mm_abs :: "('k, 'v) rev_multimap \<Rightarrow> ('k \<Rightarrow> 'v list) \<times> ('k \<Rightarrow> 'v list) list" where
  "mm_abs s = (mm_content s, snapshots values_undo (mm_content s) (mm_added_keys s) (mm_first_added_key_of_next_level s))"

definition rv_abs :: "'a rev_vector \<Rightarrow> 'a list \<times> 'a list list" where
  "rv_abs s = (rv_vector s, snapshots vector_undo (rv_vector s) (rv_stack s) (rv_end_of_level s))"

definition rc_abs :: "('p, 'a) rev_client \<Rightarrow> ('p \<Rightarrow> 'a) \<times> ('p \<Rightarrow> 'a) list" where
  "rc_abs c = (fst c, snapshots rr_restore (fst c) (rc_log c) (rc_ends c))"

text \<open>C35: Over any sequence of changes and level changes, from empty, the reversible map, multimap and
  vector and the memory of a client of the repository are, step by step and with the same
  faults, a value with one saved copy per level: going down to a level brings back the value
  that was there when the level was last entered from below. The one change that is not undone is the
  growth of a vector: \<open>Grow\<close> and \<open>GrowByOne\<close> add their elements to the vector and to every saved copy, so
  the size stays when a level is left.\<close>

theorem reversible_containers_backtrack:
  "map_sum id rm_abs (rfold (level_step (rm_modify e) rm_SetLevel) map_ops newRevMap) =
     rfold (level_step (on_value map_modify restored) (spec_SetLevel BadIndex)) map_ops (Map.empty, []) \<and>
   map_sum id mm_abs (rfold (level_step mm_modify mm_SetLevel) multimap_ops newRevMultiMap) =
     rfold (level_step (on_value values_modify restored) (spec_SetLevel LengthError)) multimap_ops (\<lambda>_. [], []) \<and>
   map_sum id rv_abs (rfold (level_step (rv_modify d) rv_SetLevel) vector_ops (newRevVector xs)) =
     rfold (level_step (on_value (vector_modify d) (grown_by d)) (spec_SetLevel BadIndex)) vector_ops (xs, []) \<and>
   map_sum id rc_abs (rfold (level_step rc_write rc_SetLevel) writes (mem, \<lambda>_. 0, newRevRepository)) =
     rfold (level_step (on_value cell_modify restored) (spec_SetLevel BadIndex)) writes (mem, [])"
proof (intro conjI)
  have abs: "rm_abs = (\<lambda>s. (hm_find (rm_map s), snapshots map_undo (hm_find (rm_map s)) (rm_operations s) (rm_first_op_index_of_next_level s)))"
    by (simp add: fun_eq_iff rm_abs_def)
  show "map_sum id rm_abs (rfold (level_step (rm_modify e) rm_SetLevel) map_ops newRevMap) =
      rfold (level_step (on_value map_modify restored) (spec_SetLevel BadIndex)) map_ops (Map.empty, [])"
    unfolding abs by (subst rev_map.run_refines) (simp_all add: newRevMap_def snapshots_def)
  have abs: "mm_abs = (\<lambda>s. (mm_content s, snapshots values_undo (mm_content s) (mm_added_keys s) (mm_first_added_key_of_next_level s)))"
    by (simp add: fun_eq_iff mm_abs_def)
  have fresh: "mm_content newRevMultiMap = (\<lambda>_. [])" "mm_added_keys newRevMultiMap = []"
    "mm_first_added_key_of_next_level newRevMultiMap = []" "mm_ok newRevMultiMap"
    by (simp_all add: fun_eq_iff mm_ok_def mm_content_get newRevMultiMap_def)
  show "map_sum id mm_abs (rfold (level_step mm_modify mm_SetLevel) multimap_ops newRevMultiMap) =
      rfold (level_step (on_value values_modify restored) (spec_SetLevel LengthError)) multimap_ops (\<lambda>_. [], [])"
    unfolding abs by (subst rev_multimap.run_refines) (simp_all add: fresh snapshots_def)
  have abs: "rv_abs = (\<lambda>s. (rv_vector s, snapshots vector_undo (rv_vector s) (rv_stack s) (rv_end_of_level s)))"
    by (simp add: fun_eq_iff rv_abs_def)
  show "map_sum id rv_abs (rfold (level_step (rv_modify d) rv_SetLevel) vector_ops (newRevVector xs)) =
      rfold (level_step (on_value (vector_modify d) (grown_by d)) (spec_SetLevel BadIndex)) vector_ops (xs, [])"
    unfolding abs by (subst rev_vector.run_refines) (simp_all add: newRevVector_def snapshots_def rv_ok_def)
  have abs: "rc_abs = (\<lambda>c. (fst c, snapshots rr_restore (fst c) (rc_log c) (rc_ends c)))"
    by (simp add: fun_eq_iff rc_abs_def)
  show "map_sum id rc_abs (rfold (level_step rc_write rc_SetLevel) writes (mem, \<lambda>_. 0, newRevRepository)) =
      rfold (level_step (on_value cell_modify restored) (spec_SetLevel BadIndex)) writes (mem, [])"
    unfolding abs
    by (subst rev_client.run_refines) (simp_all add: newRevRepository_def snapshots_def rc_ok_def rc_log_def rc_ends_def)
qed

end
