(* ===== verification/AffineRelation.thy ===== *)
theory AffineRelation
  imports Prelude "HOL-Library.Signed_Division"
begin

text \<open>
  The affine relations of \<open>util/affine_relation.h\<close>: a union-find over variables in which every
  variable is an affine function of its representative. The theory shows that the variables
  can take exactly the values that satisfy the relations that were not ignored, unless a coefficient
  or an offset leaves 64 bits: the source does not check for that, and the overflow of a signed
  number is undefined, so each operation on an \<open>int64_t\<close> that leaves its range is the fault \<open>Overflow\<close>.
\<close>

section \<open>The code\<close>

definition arith64 :: "int \<Rightarrow> fault + int" where
  "arith64 n = (if - (2 ^ 63) \<le> n \<and> n < 2 ^ 63 then Inr n else Inl Overflow)"

record affine =
  ar_num_relations :: int
  ar_representative :: "nat list"
  ar_coeff :: "int list"
  ar_offset :: "int list"
  ar_size :: "int list"

definition newAffineRelation :: affine where
  "newAffineRelation =
     \<lparr>ar_num_relations = 0, ar_representative = [], ar_coeff = [], ar_offset = [], ar_size = []\<rparr>"

definition ar_NumRelations :: "affine \<Rightarrow> int" where
  "ar_NumRelations s = ar_num_relations s"

record relation =
  rel_representative :: int
  rel_coeff :: int
  rel_offset :: int

definition rel_equal :: "relation \<Rightarrow> relation \<Rightarrow> bool" where
  "rel_equal r other \<longleftrightarrow> rel_representative r = rel_representative other \<and>
     rel_coeff r = rel_coeff other \<and> rel_offset r = rel_offset other"

definition kSizeForRemovedEntry :: int where
  "kSizeForRemovedEntry = 0"

definition ar_IncreaseSizeOfMemberVectors :: "nat \<Rightarrow> affine \<Rightarrow> affine" where
  "ar_IncreaseSizeOfMemberVectors new_size s =
     (if new_size \<le> length (ar_representative s) then s
      else s\<lparr>ar_representative := ar_representative s @ [length (ar_representative s)..<new_size],
             ar_offset := resizeVec new_size 0 (ar_offset s),
             ar_coeff := resizeVec new_size 1 (ar_coeff s),
             ar_size := resizeVec new_size 1 (ar_size s)\<rparr>)"

text \<open>The first loop of \<open>CompressPath\<close>: the root above a variable and the path to it.\<close>

partial_function (option) ar_root_path :: "nat list \<Rightarrow> nat \<Rightarrow> nat list \<Rightarrow> (fault + nat \<times> nat list) option" where
  "ar_root_path rep parent path =
     (if \<not> parent < length rep then Some (Inl BadIndex)
      else if parent \<noteq> rep ! parent then ar_root_path rep (rep ! parent) (path @ [parent])
      else Some (Inr (parent, path)))"

declare ar_root_path.simps [code]

definition ar_compressVar :: "nat \<Rightarrow> nat \<Rightarrow> affine \<Rightarrow> fault + affine" where
  "ar_compressVar parent var s =
     rbind (index_vec (ar_representative s) var) (\<lambda>old_parent.
     rbind (index_vec (ar_offset s) var) (\<lambda>offset.
     rbind (index_vec (ar_coeff s) var) (\<lambda>coeff.
     rbind (index_vec (ar_offset s) old_parent) (\<lambda>parent_offset.
     rbind (index_vec (ar_coeff s) old_parent) (\<lambda>parent_coeff.
     rbind (arith64 (coeff * parent_offset)) (\<lambda>shifted.
     rbind (arith64 (offset + shifted)) (\<lambda>new_offset.
     rbind (arith64 (coeff * parent_coeff)) (\<lambda>new_coeff.
       Inr (s\<lparr>ar_offset := (ar_offset s)[var := new_offset],
              ar_coeff := (ar_coeff s)[var := new_coeff],
              ar_representative := (ar_representative s)[var := parent]\<rparr>)))))))))"

definition ar_CompressPath :: "nat \<Rightarrow> affine \<Rightarrow> fault + affine" where
  "ar_CompressPath x s =
     (case ar_root_path (ar_representative s) x [] of
        None \<Rightarrow> Inl NoReturn
      | Some found \<Rightarrow> rbind found (\<lambda>(parent, path). rfold (ar_compressVar parent) (rev path) s))"

text \<open>A comparison of an \<open>int\<close> with a \<open>size_t\<close> takes a negative number for a large one.\<close>

definition ar_Get :: "int \<Rightarrow> affine \<Rightarrow> fault + relation \<times> affine" where
  "ar_Get x s =
     (if x < 0 \<or> x \<ge> int (length (ar_representative s)) \<or> int (ar_representative s ! nat x) = x
      then Inr (\<lparr>rel_representative = x, rel_coeff = 1, rel_offset = 0\<rparr>, s)
      else rbind (ar_CompressPath (nat x) s) (\<lambda>s.
           rbind (index_vec (ar_representative s) (nat x)) (\<lambda>r.
           rbind (index_vec (ar_coeff s) (nat x)) (\<lambda>c.
           rbind (index_vec (ar_offset s) (nat x)) (\<lambda>off.
             Inr (\<lparr>rel_representative = int r, rel_coeff = c, rel_offset = off\<rparr>, s))))))"

definition ar_ClassSize :: "int \<Rightarrow> affine \<Rightarrow> fault + int \<times> affine" where
  "ar_ClassSize x s =
     (if x < 0 \<or> x \<ge> int (length (ar_representative s)) then Inr (1, s)
      else rbind (ar_Get x s) (\<lambda>(r, s).
           rbind (index_vec (ar_size s) (nat (rel_representative r))) (\<lambda>n. Inr (n, s))))"

definition check :: "bool \<Rightarrow> fault + 'a \<Rightarrow> fault + 'a" where
  "check b k = (if b then k else Inl CheckFailed)"

definition ar_IgnoreFromClassSize :: "int \<Rightarrow> affine \<Rightarrow> fault + affine" where
  "ar_IgnoreFromClassSize x s =
     (if x < 0 \<or> x \<ge> int (length (ar_size s)) then Inr s
      else check (ar_size s ! nat x \<noteq> kSizeForRemovedEntry)
        (rbind (ar_Get x s) (\<lambda>(rel, s). let r = rel_representative rel in
         rbind (index_vec (ar_size s) (nat r)) (\<lambda>n.
         rbind (if r \<noteq> x then check (n > 1) (Inr (s\<lparr>ar_size := (ar_size s)[nat r := n - 1]\<rparr>))
                else check (n = 1) (Inr s)) (\<lambda>s.
           Inr (s\<lparr>ar_size := (ar_size s)[nat x := kSizeForRemovedEntry]\<rparr>))))))"

text \<open>\<open>/\<close> of two 64-bit integers; \<open>%\<close> is undefined where the quotient is.\<close>

definition quotient64 :: "int \<Rightarrow> int \<Rightarrow> fault + int" where
  "quotient64 a b = (if b = 0 then Inl DivideByZero else arith64 (a sdiv b))"

definition divides :: "int \<Rightarrow> int \<Rightarrow> fault + bool" where
  "divides a b = rbind (quotient64 a b) (\<lambda>_. Inr (a smod b = 0))"

definition rconj :: "bool \<Rightarrow> fault + bool \<Rightarrow> fault + bool" where
  "rconj b m = (if b then m else Inr False)"

definition ar_condition :: "bool \<Rightarrow> int \<Rightarrow> int \<Rightarrow> int \<Rightarrow> fault + bool" where
  "ar_condition allowed a b offset =
     rconj allowed (rbind (divides a b) (\<lambda>d. rconj d (divides offset b)))"

text \<open>The merge of a root into another: \<open>child\<close> gets a representative, which counts its class.\<close>

definition ar_merge :: "nat \<Rightarrow> nat \<Rightarrow> int \<Rightarrow> int \<Rightarrow> affine \<Rightarrow> affine" where
  "ar_merge child root coeff offset s =
     s\<lparr>ar_representative := (ar_representative s)[child := root],
       ar_size := (ar_size s)[root := ar_size s ! root + ar_size s ! child],
       ar_coeff := (ar_coeff s)[child := coeff],
       ar_offset := (ar_offset s)[child := offset],
       ar_num_relations := ar_num_relations s + 1\<rparr>"

definition ar_join :: "nat \<Rightarrow> nat \<Rightarrow> int \<Rightarrow> int \<Rightarrow> bool \<Rightarrow> bool \<Rightarrow> affine \<Rightarrow> fault + bool \<times> affine" where
  "ar_join x y coeff offset allow_rep_x allow_rep_y s =
     (let rep_x = ar_representative s ! x; rep_y = ar_representative s ! y in
      if rep_x = rep_y then Inr (False, s)
      else let coeff_x = ar_coeff s ! x;
               offset_x = ar_offset s ! x in
        rbind (arith64 (coeff * (ar_coeff s ! y))) (\<lambda>new_coeff.
        rbind (arith64 (coeff * (ar_offset s ! y))) (\<lambda>scaled.
        rbind (arith64 (scaled + offset)) (\<lambda>moved.
        rbind (arith64 (moved - offset_x)) (\<lambda>new_offset.
        rbind (ar_condition allow_rep_y new_coeff coeff_x new_offset) (\<lambda>condition1.
        rbind (ar_condition allow_rep_x coeff_x new_coeff new_offset) (\<lambda>condition2.
          if condition1 \<and> (\<not> condition2 \<or> ar_size s ! x \<le> ar_size s ! y)
          then rbind (quotient64 new_coeff coeff_x) (\<lambda>c. rbind (quotient64 new_offset coeff_x) (\<lambda>off.
            Inr (True, ar_merge rep_x rep_y c off s)))
          else if condition2
          then rbind (quotient64 coeff_x new_coeff) (\<lambda>c. rbind (arith64 (- new_offset)) (\<lambda>neg.
            rbind (quotient64 neg new_coeff) (\<lambda>off. Inr (True, ar_merge rep_y rep_x c off s))))
          else Inr (False, s))))))))"

definition ar_TryAdd :: "int \<Rightarrow> int \<Rightarrow> int \<Rightarrow> int \<Rightarrow> bool \<Rightarrow> bool \<Rightarrow> affine \<Rightarrow> fault + bool \<times> affine" where
  "ar_TryAdd x y coeff offset allow_rep_x allow_rep_y s =
     check (coeff \<noteq> 0) (check (x \<noteq> y) (check (x \<ge> 0) (check (y \<ge> 0)
       (if max x y \<ge> 2 ^ 31 - 1 then Inl Overflow
        else let s = ar_IncreaseSizeOfMemberVectors (nat (max x y) + 1) s in
        check (ar_size s ! nat x \<noteq> kSizeForRemovedEntry) (check (ar_size s ! nat y \<noteq> kSizeForRemovedEntry)
          (rbind (ar_CompressPath (nat x) s) (\<lambda>s.
           rbind (ar_CompressPath (nat y) s) (\<lambda>s.
             ar_join (nat x) (nat y) coeff offset allow_rep_x allow_rep_y s))))))))"

definition ar_TryAddAny :: "int \<Rightarrow> int \<Rightarrow> int \<Rightarrow> int \<Rightarrow> affine \<Rightarrow> fault + bool \<times> affine" where
  "ar_TryAddAny x y coeff offset = ar_TryAdd x y coeff offset True True"

section \<open>Results but for an overflow\<close>

definition barring_overflow :: "fault + 'a \<Rightarrow> ('a \<Rightarrow> bool) \<Rightarrow> bool" where
  "barring_overflow m Q \<longleftrightarrow> (case m of Inl e \<Rightarrow> e = Overflow | Inr r \<Rightarrow> Q r)"

lemma barring_simps [simp]:
  "barring_overflow (Inl e) Q \<longleftrightarrow> e = Overflow"
  "barring_overflow (Inr r) Q \<longleftrightarrow> Q r"
  by (simp_all add: barring_overflow_def)

lemma barring_bind: "barring_overflow m P \<Longrightarrow> (\<And>r. P r \<Longrightarrow> barring_overflow (f r) Q) \<Longrightarrow> barring_overflow (rbind m f) Q"
  by (cases m) simp_all

lemma barring_arith: "barring_overflow (arith64 n) (\<lambda>r. r = n)"
  by (simp add: arith64_def)

lemma barring_quotient: "b \<noteq> 0 \<Longrightarrow> barring_overflow (quotient64 a b) (\<lambda>r. r = a sdiv b)"
  by (simp add: quotient64_def barring_arith)

lemma barring_weaken: "barring_overflow m P \<Longrightarrow> (\<And>r. P r \<Longrightarrow> Q r) \<Longrightarrow> barring_overflow m Q"
  by (cases m) simp_all

text \<open>The computations of the class: each bound value is the exact one.\<close>

lemma bind_arith: "barring_overflow (f n) Q \<Longrightarrow> barring_overflow (rbind (arith64 n) f) Q"
  by (rule barring_bind [OF barring_arith]) simp

lemma bind_quotient: "b \<noteq> 0 \<Longrightarrow> barring_overflow (f (a sdiv b)) Q \<Longrightarrow> barring_overflow (rbind (quotient64 a b) f) Q"
  by (rule barring_bind [OF barring_quotient]) simp_all

section \<open>The forest\<close>

definition up :: "affine \<Rightarrow> (nat \<times> nat) set" where
  "up s = {(i, j). i < length (ar_representative s) \<and> ar_representative s ! i = j \<and> i \<noteq> j}"

definition ar_inv :: "affine \<Rightarrow> bool" where
  "ar_inv s \<longleftrightarrow> (let n = length (ar_representative s) in
     length (ar_coeff s) = n \<and> length (ar_offset s) = n \<and> length (ar_size s) = n \<and> acyclic (up s) \<and>
     (\<forall>i < n. ar_representative s ! i < n \<and> ar_coeff s ! i \<noteq> 0 \<and> ar_size s ! i \<ge> 1 \<and>
       (ar_representative s ! i = i \<longrightarrow> ar_coeff s ! i = 1 \<and> ar_offset s ! i = 0)))"

text \<open>The values the variables can take.\<close>

definition solutions :: "affine \<Rightarrow> (nat \<Rightarrow> int) set" where
  "solutions s = {v. \<forall>i < length (ar_representative s).
     v i = ar_coeff s ! i * v (ar_representative s ! i) + ar_offset s ! i}"

lemma ar_invD:
  assumes "ar_inv s" "i < length (ar_representative s)"
  shows "length (ar_coeff s) = length (ar_representative s)" "length (ar_offset s) = length (ar_representative s)"
    "length (ar_size s) = length (ar_representative s)" "acyclic (up s)"
    "ar_representative s ! i < length (ar_representative s)" "ar_coeff s ! i \<noteq> 0" "ar_size s ! i \<ge> 1"
    "ar_representative s ! i = i \<Longrightarrow> ar_coeff s ! i = 1" "ar_representative s ! i = i \<Longrightarrow> ar_offset s ! i = 0"
  using assms by (simp_all add: ar_inv_def Let_def)

lemma finite_up: "finite (up s)"
proof -
  have "up s \<subseteq> (\<lambda>i. (i, ar_representative s ! i)) ` {..< length (ar_representative s)}" by (auto simp: up_def)
  then show ?thesis by (rule finite_subset) simp
qed

text \<open>A path to a root, each variable below the next.\<close>

fun chain :: "nat list \<Rightarrow> nat list \<Rightarrow> nat \<Rightarrow> bool" where
  "chain rep [] root \<longleftrightarrow> root < length rep \<and> rep ! root = root"
| "chain rep (p # ps) root \<longleftrightarrow> p < length rep \<and> rep ! p \<noteq> p \<and> rep ! p = (if ps = [] then root else hd ps) \<and> chain rep ps root"

lemma chain_root: "chain rep ps root \<Longrightarrow> root < length rep \<and> rep ! root = root"
  by (induction ps) auto

lemma chain_set: "chain rep ps root \<Longrightarrow> p \<in> set ps \<Longrightarrow> p < length rep \<and> rep ! p \<noteq> p"
  by (induction ps) auto

lemma root_path_ends:
  assumes "ar_inv s" "p < length (ar_representative s)"
  shows "\<exists>root ps. ar_root_path (ar_representative s) p path = Some (Inr (root, path @ ps)) \<and>
    chain (ar_representative s) ps root \<and> p = (if ps = [] then root else hd ps)"
proof -
  have "wf ((up s)\<inverse>)"
    using ar_invD(4) [OF assms] by (intro finite_acyclic_wf_converse finite_up)
  then show ?thesis using assms(2)
  proof (induction p arbitrary: path)
    case (less p)
    let ?rep = "ar_representative s"
    show ?case
    proof (cases "?rep ! p = p")
      case True
      then show ?thesis using less.prems by (subst ar_root_path.simps) (auto intro!: exI [of _ "[]"])
    next
      case False
      have "(?rep ! p, p) \<in> (up s)\<inverse>" using less.prems False by (auto simp: up_def)
      from less.IH [OF this ar_invD(5) [OF assms(1) less.prems], of "path @ [p]"]
      obtain root ps where ps: "ar_root_path ?rep (?rep ! p) (path @ [p]) = Some (Inr (root, (path @ [p]) @ ps))"
        "chain ?rep ps root" "?rep ! p = (if ps = [] then root else hd ps)" by blast
      have "ar_root_path ?rep p path = Some (Inr (root, path @ (p # ps)))"
        using less.prems False ps(1) by (subst ar_root_path.simps) simp
      moreover have "chain ?rep (p # ps) root" using less.prems False ps(2,3) by simp
      ultimately show ?thesis by (intro exI [of _ root] exI [of _ "p # ps"]) simp
    qed
  qed
qed

section \<open>Path compression\<close>

lemma compressVar:
  assumes inv: "ar_inv s" and var: "var < length (ar_representative s)" "ar_representative s ! var \<noteq> var"
    and root: "root < length (ar_representative s)" "ar_representative s ! root = root"
    and near: "ar_representative s ! (ar_representative s ! var) = root"
  shows "barring_overflow (ar_compressVar root var s) (\<lambda>s'. ar_inv s' \<and> solutions s' = solutions s \<and>
    ar_representative s' = (ar_representative s)[var := root] \<and> ar_size s' = ar_size s \<and>
    ar_num_relations s' = ar_num_relations s)"
proof -
  let ?old = "ar_representative s ! var"
  let ?s = "s\<lparr>ar_offset := (ar_offset s)[var := ar_offset s ! var + ar_coeff s ! var * ar_offset s ! ?old],
    ar_coeff := (ar_coeff s)[var := ar_coeff s ! var * ar_coeff s ! ?old],
    ar_representative := (ar_representative s)[var := root]\<rparr>"
  note v = ar_invD [OF inv var(1)]
  note o = ar_invD [OF inv v(5)]
  have step: "barring_overflow (ar_compressVar root var s) (\<lambda>s'. s' = ?s)"
    using var(1) v(1,2,5) by (simp add: ar_compressVar_def bind_arith)
  have nroot: "root \<noteq> var" using root var(2) by metis
  have path: "(var, ?old) \<in> up s" using var by (auto simp: up_def)
  have "(var, root) \<in> (up s)\<^sup>+"
  proof (cases "?old = root")
    case True
    then show ?thesis using path by auto
  next
    case False
    then have "(?old, root) \<in> up s" using v(5) near by (auto simp: up_def)
    with path show ?thesis by (meson r_into_trancl trancl_into_trancl)
  qed
  moreover have "up ?s \<subseteq> insert (var, root) (up s)" using var(1) by (auto simp: up_def nth_list_update)
  ultimately have "up ?s \<subseteq> (up s)\<^sup>+" by auto
  moreover have "acyclic ((up s)\<^sup>+)" using v(4) by (simp add: acyclic_def)
  ultimately have "acyclic (up ?s)" by (rule acyclic_subset [rotated])
  moreover have "ar_representative ?s ! i < length (ar_representative s) \<and> ar_coeff ?s ! i \<noteq> 0 \<and> ar_size ?s ! i \<ge> 1 \<and>
      (ar_representative ?s ! i = i \<longrightarrow> ar_coeff ?s ! i = 1 \<and> ar_offset ?s ! i = 0)" if "i < length (ar_representative s)" for i
    using ar_invD [OF inv that] root(1) nroot v(1,2,6) o(6) that by (cases "i = var") auto
  ultimately have "ar_inv ?s" using v(1-3) by (simp add: ar_inv_def Let_def)
  moreover have "solutions ?s = solutions s"
  proof -
    have "w \<in> solutions ?s \<longleftrightarrow> w \<in> solutions s" for w
    proof -
      let ?holds = "\<lambda>s i. w i = ar_coeff s ! i * w (ar_representative s ! i) + ar_offset s ! i"
      have other: "?holds ?s i \<longleftrightarrow> ?holds s i" if "i \<noteq> var" for i using that by simp
      have "?holds ?s var \<longleftrightarrow> ?holds s var" if "?holds s ?old"
        using that var(1) v(1,2) near by (simp add: algebra_simps)
      moreover have "?holds ?s ?old \<longleftrightarrow> ?holds s ?old" using other var(2) by blast
      ultimately have "(\<forall>i < length (ar_representative s). ?holds ?s i) \<longleftrightarrow> (\<forall>i < length (ar_representative s). ?holds s i)"
        using other v(5) by metis
      then show ?thesis by (simp add: solutions_def)
    qed
    then show ?thesis by blast
  qed
  ultimately show ?thesis by (intro barring_weaken [OF step]) simp
qed

text \<open>What the compression of the path \<open>ps\<close> to \<open>root\<close> leaves.\<close>

definition compressed :: "nat list \<Rightarrow> nat \<Rightarrow> affine \<Rightarrow> affine \<Rightarrow> bool" where
  "compressed ps root s s' \<longleftrightarrow> ar_inv s' \<and> solutions s' = solutions s \<and>
    length (ar_representative s') = length (ar_representative s) \<and>
    (\<forall>i. ar_representative s' ! i = (if i \<in> set ps then root else ar_representative s ! i)) \<and>
    ar_size s' = ar_size s \<and> ar_num_relations s' = ar_num_relations s"

lemma compress_one:
  assumes t: "compressed ps root s t" and chain: "chain (ar_representative s) (p # ps) root"
  shows "barring_overflow (ar_compressVar root p t) (compressed (p # ps) root s)"
proof -
  have p: "p < length (ar_representative s)" "ar_representative s ! p \<noteq> p"
    "ar_representative s ! p = (if ps = [] then root else hd ps)" using chain by simp_all
  have root: "root < length (ar_representative s)" "ar_representative s ! root = root" using chain_root [OF chain] by simp_all
  have inv: "ar_inv t" and len: "length (ar_representative t) = length (ar_representative s)"
    and rep: "\<And>i. ar_representative t ! i = (if i \<in> set ps then root else ar_representative s ! i)"
    using t by (simp_all add: compressed_def)
  have rt: "ar_representative t ! root = root" using root by (simp add: rep)
  have "ar_representative t ! p \<noteq> p" using p(2) root(2) by (simp add: rep) metis
  moreover have "ar_representative t ! (ar_representative t ! p) = root"
  proof (cases "p \<in> set ps \<or> ps = []")
    case True
    then have "ar_representative t ! p = root" using p(3) by (auto simp: rep)
    then show ?thesis using rt by simp
  next
    case False
    then have "ar_representative t ! p = hd ps" "hd ps \<in> set ps" using p(3) by (auto simp: rep)
    then show ?thesis by (simp add: rep)
  qed
  ultimately have "barring_overflow (ar_compressVar root p t) (\<lambda>u. ar_inv u \<and> solutions u = solutions t \<and>
      ar_representative u = (ar_representative t)[p := root] \<and> ar_size u = ar_size t \<and>
      ar_num_relations u = ar_num_relations t)"
    using compressVar [OF inv, of p root] p(1) root(1) rt len by simp
  then show ?thesis
  proof (rule barring_weaken)
    fix u
    assume u: "ar_inv u \<and> solutions u = solutions t \<and> ar_representative u = (ar_representative t)[p := root] \<and>
        ar_size u = ar_size t \<and> ar_num_relations u = ar_num_relations t"
    have "ar_representative u ! i = (if i \<in> set (p # ps) then root else ar_representative s ! i)" for i
      using u p(1) len by (cases "i = p") (simp_all add: rep)
    then show "compressed (p # ps) root s u" using u t by (simp add: compressed_def)
  qed
qed

lemma compress_path:
  assumes "ar_inv s" "chain (ar_representative s) ps root"
  shows "barring_overflow (rfold (ar_compressVar root) (rev ps) s) (compressed ps root s)"
  using assms(2)
proof (induction ps)
  case Nil
  then show ?case using assms(1) by (simp add: compressed_def)
next
  case (Cons p ps)
  then have "barring_overflow (rfold (ar_compressVar root) (rev ps) s) (compressed ps root s)" by simp
  then have "barring_overflow (rbind (rfold (ar_compressVar root) (rev ps) s) (ar_compressVar root p)) (compressed (p # ps) root s)"
    by (rule barring_bind) (rule compress_one [OF _ Cons.prems])
  moreover have "rfold (ar_compressVar root) [p] = ar_compressVar root p"
    by (simp add: fun_eq_iff rbind_def split: sum.split)
  ultimately show ?case by (simp only: rev.simps rfold_append)
qed

text \<open>Compression puts a variable directly below its root and changes no solution and no root.\<close>

definition placed_below :: "nat \<Rightarrow> affine \<Rightarrow> affine \<Rightarrow> bool" where
  "placed_below x s s' \<longleftrightarrow> ar_inv s' \<and> solutions s' = solutions s \<and>
    length (ar_representative s') = length (ar_representative s) \<and> ar_size s' = ar_size s \<and>
    ar_num_relations s' = ar_num_relations s \<and>
    ar_representative s' ! (ar_representative s' ! x) = ar_representative s' ! x \<and>
    (\<forall>y < length (ar_representative s). ar_representative s ! (ar_representative s ! y) = ar_representative s ! y \<longrightarrow>
      ar_representative s' ! (ar_representative s' ! y) = ar_representative s' ! y)"

lemma compress:
  assumes "ar_inv s" "x < length (ar_representative s)"
  shows "barring_overflow (ar_CompressPath x s) (placed_below x s)"
proof -
  obtain root ps where path: "ar_root_path (ar_representative s) x [] = Some (Inr (root, ps))"
    "chain (ar_representative s) ps root" "x = (if ps = [] then root else hd ps)"
    using root_path_ends [OF assms, of "[]"] by auto
  note root = chain_root [OF path(2)]
  have notroot: "r \<notin> set ps" if "ar_representative s ! r = r" for r using chain_set [OF path(2)] that by auto
  have "barring_overflow (rfold (ar_compressVar root) (rev ps) s) (placed_below x s)"
    using compress_path [OF assms(1) path(2)]
  proof (rule barring_weaken)
    fix t
    assume t: "compressed ps root s t"
    then have rep: "ar_representative t ! i = (if i \<in> set ps then root else ar_representative s ! i)" for i
      by (simp add: compressed_def)
    have rt: "ar_representative t ! root = root" using root by (simp add: rep)
    have "ar_representative t ! x = root" using path(3) root by (auto simp: rep)
    moreover have "ar_representative t ! (ar_representative t ! y) = ar_representative t ! y"
      if "ar_representative s ! (ar_representative s ! y) = ar_representative s ! y" for y
      using notroot [OF that] rt that by (cases "y \<in> set ps") (simp_all add: rep)
    ultimately show "placed_below x s t" using t rt by (simp add: placed_below_def compressed_def)
  qed
  then show ?thesis by (simp add: ar_CompressPath_def path(1))
qed

section \<open>Growing and merging\<close>

lemma grown:
  assumes "ar_inv s"
  shows "ar_inv (ar_IncreaseSizeOfMemberVectors n s)" "solutions (ar_IncreaseSizeOfMemberVectors n s) = solutions s"
    "length (ar_representative (ar_IncreaseSizeOfMemberVectors n s)) = max n (length (ar_representative s))"
    "ar_num_relations (ar_IncreaseSizeOfMemberVectors n s) = ar_num_relations s"
proof -
  let ?m = "length (ar_representative s)"
  let ?s = "ar_IncreaseSizeOfMemberVectors n s"
  have len: "length (ar_coeff s) = ?m" "length (ar_offset s) = ?m" "length (ar_size s) = ?m" "acyclic (up s)"
    using assms by (simp_all add: ar_inv_def Let_def)
  have nth: "i < ?m \<Longrightarrow> ar_representative ?s ! i = ar_representative s ! i \<and> ar_coeff ?s ! i = ar_coeff s ! i \<and>
      ar_offset ?s ! i = ar_offset s ! i \<and> ar_size ?s ! i = ar_size s ! i"
    and new: "?m \<le> i \<Longrightarrow> i < n \<Longrightarrow> ar_representative ?s ! i = i \<and> ar_coeff ?s ! i = 1 \<and>
      ar_offset ?s ! i = 0 \<and> ar_size ?s ! i = 1" for i
    using len by (auto simp: ar_IncreaseSizeOfMemberVectors_def nth_resizeVec nth_append)
  show length: "length (ar_representative ?s) = max n ?m" by (simp add: ar_IncreaseSizeOfMemberVectors_def)
  have lens: "length (ar_coeff ?s) = max n ?m" "length (ar_offset ?s) = max n ?m" "length (ar_size ?s) = max n ?m"
    using len by (simp_all add: ar_IncreaseSizeOfMemberVectors_def)
  have split: "i < max n ?m \<longleftrightarrow> i < ?m \<or> ?m \<le> i \<and> i < n" for i by auto
  have "(i, j) \<in> up ?s \<longleftrightarrow> (i, j) \<in> up s" for i j
    unfolding up_def mem_Collect_eq prod.case length split using nth [of i] new [of i] by auto
  then have "up ?s = up s" by auto
  moreover have "ar_representative ?s ! i < max n ?m \<and> ar_coeff ?s ! i \<noteq> 0 \<and> ar_size ?s ! i \<ge> 1 \<and>
      (ar_representative ?s ! i = i \<longrightarrow> ar_coeff ?s ! i = 1 \<and> ar_offset ?s ! i = 0)" if "i < max n ?m" for i
    using that nth [of i] new [of i] ar_invD(5-9) [OF assms, of i] by (cases "i < ?m") auto
  ultimately show "ar_inv ?s" using len lens by (simp add: ar_inv_def Let_def length)
  have "(\<forall>i < max n ?m. v i = ar_coeff ?s ! i * v (ar_representative ?s ! i) + ar_offset ?s ! i) \<longleftrightarrow>
      (\<forall>i < ?m. v i = ar_coeff s ! i * v (ar_representative s ! i) + ar_offset s ! i)" for v
    unfolding split using nth new by auto
  then show "solutions ?s = solutions s" by (simp add: solutions_def length)
  show "ar_num_relations ?s = ar_num_relations s" by (simp add: ar_IncreaseSizeOfMemberVectors_def)
qed

lemma merged:
  assumes inv: "ar_inv s" and a: "a < length (ar_representative s)" "ar_representative s ! a = a"
    and b: "b < length (ar_representative s)" "ar_representative s ! b = b" "a \<noteq> b" and c: "c \<noteq> 0"
  shows "ar_inv (ar_merge a b c off s)" "solutions (ar_merge a b c off s) = solutions s \<inter> {v. v a = c * v b + off}"
proof -
  let ?s = "ar_merge a b c off s"
  note da = ar_invD [OF inv a(1)]
  have nth: "ar_representative ?s ! i = (if i = a then b else ar_representative s ! i)"
    "ar_coeff ?s ! i = (if i = a then c else ar_coeff s ! i)" "ar_offset ?s ! i = (if i = a then off else ar_offset s ! i)" for i
    using a(1) da(1,2) by (simp_all add: ar_merge_def)
  have size: "ar_size ?s ! i \<ge> 1" if "i < length (ar_representative s)" for i
    using ar_invD(7) [OF inv that] ar_invD(7) [OF inv b(1)] da(3,7) b(1) by (cases "i = b") (simp_all add: ar_merge_def)
  have "up ?s = insert (a, b) (up s)"
    using a b(3) by (auto simp: up_def nth(1) ar_merge_def nth_list_update)
  moreover have "(b, a) \<notin> (up s)\<^sup>*"
    using b(2,3) by (auto simp: up_def elim: converse_rtranclE)
  ultimately have "acyclic (up ?s)" using da(4) by (simp add: acyclic_insert)
  moreover have "ar_representative ?s ! i < length (ar_representative s) \<and> ar_coeff ?s ! i \<noteq> 0 \<and> ar_size ?s ! i \<ge> 1 \<and>
      (ar_representative ?s ! i = i \<longrightarrow> ar_coeff ?s ! i = 1 \<and> ar_offset ?s ! i = 0)" if "i < length (ar_representative s)" for i
    using size [OF that] ar_invD [OF inv that] b(1,3) c by (auto simp: nth)
  ultimately show "ar_inv ?s" using da(1-3) by (simp add: ar_inv_def Let_def ar_merge_def)
  let ?holds = "\<lambda>s v i. v i = ar_coeff s ! i * v (ar_representative s ! i) + ar_offset s ! i"
  have holds: "?holds ?s v i \<longleftrightarrow> (if i = a then v a = c * v b + off else ?holds s v i)" for v i by (simp add: nth)
  have root: "?holds s v a" for v using a(2) da(8,9) by simp
  have "(\<forall>i < length (ar_representative s). ?holds ?s v i) \<longleftrightarrow>
      (\<forall>i < length (ar_representative s). ?holds s v i) \<and> v a = c * v b + off" for v
    unfolding holds using a(1) root by metis
  moreover have "length (ar_representative ?s) = length (ar_representative s)" by (simp add: ar_merge_def)
  ultimately show "solutions ?s = solutions s \<inter> {v. v a = c * v b + off}" unfolding solutions_def by auto
qed

lemma merge_simps:
  "length (ar_representative (ar_merge a b c off s)) = length (ar_representative s)"
  "ar_num_relations (ar_merge a b c off s) = ar_num_relations s + 1"
  by (simp_all add: ar_merge_def)

lemma smod_dvd: "a smod b = 0 \<longleftrightarrow> b dvd a" for a b :: int
  by (auto simp: smod_int_alt_def sgn_0_0 mod_eq_0_iff_dvd)

lemma bind_divides: "b \<noteq> 0 \<Longrightarrow> barring_overflow (f (b dvd a)) Q \<Longrightarrow> barring_overflow (rbind (divides a b) f) Q"
  by (rule barring_bind [of _ "\<lambda>r. r = (b dvd a)"]) (simp_all add: divides_def smod_dvd bind_quotient)

lemma sdiv_exact: "b dvd a \<Longrightarrow> a sdiv b * b = a" for a b :: int
  using sdiv_mult_smod_eq [of a b] by (simp add: smod_dvd [symmetric])

lemma bind_condition:
  assumes "b \<noteq> 0" "barring_overflow (f (allowed \<and> b dvd a \<and> b dvd off)) Q"
  shows "barring_overflow (rbind (ar_condition allowed a b off) f) Q"
proof -
  have "barring_overflow (divides off b) (\<lambda>r. r = (b dvd off))"
    using bind_divides [OF assms(1), of Inr off "\<lambda>r. r = (b dvd off)"] by simp
  then have "barring_overflow (ar_condition allowed a b off) (\<lambda>r. r = (allowed \<and> b dvd a \<and> b dvd off))"
    unfolding ar_condition_def rconj_def using assms(1)
    by (cases allowed; cases "b dvd a") (simp_all add: bind_divides)
  then show ?thesis by (rule barring_bind) (use assms(2) in simp)
qed

text \<open>A relation between multiples of two unknowns, solved for either.\<close>

lemma solved_left:
  fixes cx nc off X Y :: int
  assumes "cx \<noteq> 0" "cx dvd nc" "cx dvd off"
  shows "cx * X = nc * Y + off \<longleftrightarrow> X = (nc sdiv cx) * Y + off sdiv cx"
proof -
  have "nc * Y + off = cx * ((nc sdiv cx) * Y + off sdiv cx)"
    using sdiv_exact [OF assms(2)] sdiv_exact [OF assms(3)] by (simp add: algebra_simps)
  then show ?thesis using assms(1) by simp
qed

lemma sdiv_nonzero: "b dvd a \<Longrightarrow> a \<noteq> 0 \<Longrightarrow> a sdiv b \<noteq> 0" for a b :: int
  using sdiv_exact by fastforce

section \<open>Adding a relation\<close>

definition affine_relation :: "nat \<Rightarrow> nat \<Rightarrow> int \<Rightarrow> int \<Rightarrow> (nat \<Rightarrow> int) set" where
  "affine_relation x y coeff offset = {v. v x = coeff * v y + offset}"

definition related :: "nat \<Rightarrow> nat \<Rightarrow> int \<Rightarrow> int \<Rightarrow> affine \<Rightarrow> bool \<times> affine \<Rightarrow> bool" where
  "related x y coeff offset s = (\<lambda>(b, s'). ar_inv s' \<and>
    ar_num_relations s' = ar_num_relations s + (if b then 1 else 0) \<and>
    solutions s' = solutions s \<inter> (if b then affine_relation x y coeff offset else UNIV))"

lemma join_merges:
  assumes inv: "ar_inv s" and x: "x < length (ar_representative s)" and y: "y < length (ar_representative s)"
    and root: "ar_representative s ! (ar_representative s ! x) = ar_representative s ! x"
      "ar_representative s ! (ar_representative s ! y) = ar_representative s ! y"
    and coeff: "coeff \<noteq> 0"
  shows "barring_overflow (ar_join x y coeff offset ax ay s) (related x y coeff offset s)"
proof -
  let ?rx = "ar_representative s ! x" and ?ry = "ar_representative s ! y"
  let ?cx = "ar_coeff s ! x" and ?nc = "coeff * (ar_coeff s ! y)"
  let ?no = "coeff * (ar_offset s ! y) + offset - ar_offset s ! x"
  note dx = ar_invD [OF inv x] and dy = ar_invD [OF inv y]
  have nc: "?nc \<noteq> 0" using coeff dy(6) by simp
  have meaning: "v \<in> affine_relation x y coeff offset \<longleftrightarrow> ?cx * v ?rx = ?nc * v ?ry + ?no" if "v \<in> solutions s" for v
  proof -
    have "v x = ?cx * v ?rx + ar_offset s ! x" "v y = ar_coeff s ! y * v ?ry + ar_offset s ! y"
      using that x y by (auto simp: solutions_def)
    then show ?thesis by (simp add: affine_relation_def algebra_simps)
  qed
  have left: "related x y coeff offset s (True, ar_merge ?rx ?ry (?nc sdiv ?cx) (?no sdiv ?cx) s)"
    if "?rx \<noteq> ?ry" "?cx dvd ?nc" "?cx dvd ?no"
  proof -
    note m = merged [OF inv dx(5) root(1) dy(5) root(2) that(1) sdiv_nonzero [OF that(2) nc], of "?no sdiv ?cx"]
    have "solutions (ar_merge ?rx ?ry (?nc sdiv ?cx) (?no sdiv ?cx) s) = solutions s \<inter> affine_relation x y coeff offset"
      unfolding m(2) using meaning solved_left [OF dx(6) that(2,3)] by blast
    then show ?thesis using m(1) by (simp add: related_def merge_simps)
  qed
  have right: "related x y coeff offset s (True, ar_merge ?ry ?rx (?cx sdiv ?nc) (- ?no sdiv ?nc) s)"
    if "?rx \<noteq> ?ry" "?nc dvd ?cx" "?nc dvd ?no"
  proof -
    have flip: "?nc dvd - ?no" by (rule dvd_minus_iff [THEN iffD2, OF that(3)])
    have "?nc * v ?ry = ?cx * v ?rx + - ?no \<longleftrightarrow> v ?ry = (?cx sdiv ?nc) * v ?rx + (- ?no) sdiv ?nc" for v :: "nat \<Rightarrow> int"
      by (rule solved_left [OF nc that(2) flip])
    moreover have "?cx * v ?rx = ?nc * v ?ry + ?no \<longleftrightarrow> ?nc * v ?ry = ?cx * v ?rx + - ?no" for v :: "nat \<Rightarrow> int" by auto
    ultimately have solved: "?cx * v ?rx = ?nc * v ?ry + ?no \<longleftrightarrow> v ?ry = (?cx sdiv ?nc) * v ?rx + (- ?no) sdiv ?nc" for v :: "nat \<Rightarrow> int"
      by metis
    note m = merged [OF inv dy(5) root(2) dx(5) root(1) that(1) [symmetric] sdiv_nonzero [OF that(2) dx(6)], of "- ?no sdiv ?nc"]
    have "solutions (ar_merge ?ry ?rx (?cx sdiv ?nc) (- ?no sdiv ?nc) s) = solutions s \<inter> affine_relation x y coeff offset"
      unfolding m(2) using meaning solved by blast
    then show ?thesis using m(1) by (simp add: related_def merge_simps)
  qed
  have ignored: "related x y coeff offset s (False, s)" using inv by (simp add: related_def)
  show ?thesis
  proof (cases "?rx = ?ry")
    case True
    then show ?thesis using ignored by (simp add: ar_join_def)
  next
    case False
    have neg: "(- a) sdiv b = - (a sdiv b)" for a b :: int by simp
    note run = bind_arith bind_quotient [OF dx(6)] bind_quotient [OF nc] bind_condition [OF dx(6)] bind_condition [OF nc]
    show ?thesis
      unfolding ar_join_def Let_def if_not_P [OF False]
      by (rule run)+ (auto intro!: run ignored left [OF False] right [OF False, unfolded neg] simp del: minus_diff_eq)
  qed
qed

lemma try_add:
  assumes inv: "ar_inv s" and args: "x \<ge> 0" "y \<ge> 0" "x \<noteq> y" "coeff \<noteq> 0"
  shows "barring_overflow (ar_TryAdd x y coeff offset ax ay s) (related (nat x) (nat y) coeff offset s)"
proof -
  define g where "g = ar_IncreaseSizeOfMemberVectors (nat (max x y) + 1) s"
  note g = grown [OF inv, of "nat (max x y) + 1", folded g_def]
  have x: "nat x < length (ar_representative g)" and y: "nat y < length (ar_representative g)"
    unfolding g(3) using args by auto
  have sizes: "ar_size g ! nat x \<noteq> kSizeForRemovedEntry" "ar_size g ! nat y \<noteq> kSizeForRemovedEntry"
    using ar_invD(7) [OF g(1) x] ar_invD(7) [OF g(1) y] by (simp_all add: kSizeForRemovedEntry_def)
  have "barring_overflow (ar_join (nat x) (nat y) coeff offset ax ay u) (related (nat x) (nat y) coeff offset s)"
    if t: "placed_below (nat x) g t" and u: "placed_below (nat y) t u" for t u
  proof -
    have "nat x < length (ar_representative u)" "nat y < length (ar_representative u)"
      using x y t u by (simp_all add: placed_below_def)
    moreover have "ar_inv u" "ar_representative u ! (ar_representative u ! nat x) = ar_representative u ! nat x"
      "ar_representative u ! (ar_representative u ! nat y) = ar_representative u ! nat y"
      using x t u by (simp_all add: placed_below_def)
    moreover have "solutions u = solutions s" "ar_num_relations u = ar_num_relations s"
      using t u g by (simp_all add: placed_below_def)
    ultimately show ?thesis
      using join_merges [of u "nat x" "nat y" coeff offset ax ay] args(4) by (simp add: related_def)
  qed
  moreover have "barring_overflow (ar_CompressPath (nat y) t) (placed_below (nat y) t)" if "placed_below (nat x) g t" for t
    using compress [of t "nat y"] y that by (simp add: placed_below_def)
  ultimately have "barring_overflow (rbind (ar_CompressPath (nat x) g) (\<lambda>s. rbind (ar_CompressPath (nat y) s)
      (ar_join (nat x) (nat y) coeff offset ax ay))) (related (nat x) (nat y) coeff offset s)"
    by (intro barring_bind [OF compress [OF g(1) x]] barring_bind) blast+
  then show ?thesis
    unfolding ar_TryAdd_def Let_def g_def [symmetric] using args sizes by (simp add: check_def)
qed

text \<open>What \<open>Get\<close> tells of a variable, and that the representative is its own.\<close>

definition expresses :: "int \<Rightarrow> affine \<Rightarrow> relation \<times> affine \<Rightarrow> bool" where
  "expresses x s = (\<lambda>(rel, s'). ar_inv s' \<and> solutions s' = solutions s \<and> ar_num_relations s' = ar_num_relations s \<and>
    (x \<ge> 0 \<longrightarrow> (\<forall>v \<in> solutions s. v (nat x) = rel_coeff rel * v (nat (rel_representative rel)) + rel_offset rel)) \<and>
    (x \<ge> 0 \<longrightarrow> rel_representative rel \<ge> 0 \<and> ar_Get (rel_representative rel) s' =
      Inr (\<lparr>rel_representative = rel_representative rel, rel_coeff = 1, rel_offset = 0\<rparr>, s')))"

lemma get:
  assumes inv: "ar_inv s"
  shows "barring_overflow (ar_Get x s) (expresses x s)"
proof (cases "x < 0 \<or> x \<ge> int (length (ar_representative s)) \<or> int (ar_representative s ! nat x) = x")
  case True
  then show ?thesis using inv by (auto simp: ar_Get_def expresses_def)
next
  case False
  then have x: "nat x < length (ar_representative s)" by auto
  have "barring_overflow (rbind (index_vec (ar_representative t) (nat x)) (\<lambda>r.
      rbind (index_vec (ar_coeff t) (nat x)) (\<lambda>c. rbind (index_vec (ar_offset t) (nat x)) (\<lambda>off.
        Inr (\<lparr>rel_representative = int r, rel_coeff = c, rel_offset = off\<rparr>, t))))) (expresses x s)"
    if t: "placed_below (nat x) s t" for t
  proof -
    have inv: "ar_inv t" and xt: "nat x < length (ar_representative t)" and sol: "solutions t = solutions s"
      using t x by (simp_all add: placed_below_def)
    note dx = ar_invD [OF inv xt]
    have "v (nat x) = ar_coeff t ! nat x * v (ar_representative t ! nat x) + ar_offset t ! nat x" if "v \<in> solutions t" for v
      using that xt by (auto simp: solutions_def)
    then show ?thesis using False t xt dx inv sol by (simp add: expresses_def ar_Get_def placed_below_def)
  qed
  from barring_bind [OF compress [OF inv x] this] show ?thesis using False by (simp add: ar_Get_def)
qed

section \<open>Properties\<close>

type_synonym relation_request = "int \<times> int \<times> int \<times> int \<times> bool \<times> bool"

fun ar_run :: "relation_request list \<Rightarrow> affine \<Rightarrow> fault + bool list \<times> affine" where
  "ar_run [] s = Inr ([], s)"
| "ar_run ((x, y, coeff, offset, ax, ay) # reqs) s =
     rbind (ar_TryAdd x y coeff offset ax ay s) (\<lambda>(b, s).
     rbind (ar_run reqs s) (\<lambda>(bs, s). Inr (b # bs, s)))"

definition checked :: "relation_request \<Rightarrow> bool" where
  "checked = (\<lambda>(x, y, coeff, offset, ax, ay). x \<ge> 0 \<and> y \<ge> 0 \<and> x \<noteq> y \<and> coeff \<noteq> 0)"

definition holds :: "(nat \<Rightarrow> int) \<Rightarrow> relation_request \<Rightarrow> bool" where
  "holds v = (\<lambda>(x, y, coeff, offset, ax, ay). v (nat x) = coeff * v (nat y) + offset)"

definition kept :: "relation_request list \<Rightarrow> affine \<Rightarrow> bool list \<times> affine \<Rightarrow> bool" where
  "kept reqs s = (\<lambda>(bs, s'). ar_inv s' \<and> length bs = length reqs \<and>
    ar_num_relations s' = ar_num_relations s + int (length (filter (\<lambda>b. b) bs)) \<and>
    solutions s' = solutions s \<inter> {v. \<forall>(r, b) \<in> set (zip reqs bs). b \<longrightarrow> holds v r})"

lemma run_solutions:
  "ar_inv s \<Longrightarrow> \<forall>r \<in> set reqs. checked r \<Longrightarrow> barring_overflow (ar_run reqs s) (kept reqs s)"
proof (induction reqs arbitrary: s)
  case Nil
  then show ?case by (simp add: kept_def)
next
  case (Cons r reqs)
  obtain x y coeff offset ax ay where r: "r = (x, y, coeff, offset, ax, ay)" by (cases r)
  have "x \<ge> 0" "y \<ge> 0" "x \<noteq> y" "coeff \<noteq> 0" using Cons.prems(2) by (simp_all add: r checked_def)
  note first = try_add [OF Cons.prems(1) this, of offset ax ay]
  have "barring_overflow (rbind (ar_run reqs t) (\<lambda>(bs, s). Inr (b # bs, s))) (kept (r # reqs) s)"
    if t: "related (nat x) (nat y) coeff offset s (b, t)" for b t
  proof -
    have "barring_overflow (ar_run reqs t) (kept reqs t)" using Cons t by (simp add: related_def)
    then show ?thesis
    proof (rule barring_bind)
      fix res
      assume "kept reqs t res"
      then show "barring_overflow (case res of (bs, s) \<Rightarrow> Inr (b # bs, s)) (kept (r # reqs) s)"
        using t by (cases res) (auto simp: kept_def related_def r holds_def affine_relation_def)
    qed
  qed
  then have "barring_overflow (case res of (b, t) \<Rightarrow> rbind (ar_run reqs t) (\<lambda>(bs, s). Inr (b # bs, s))) (kept (r # reqs) s)"
    if "related (nat x) (nat y) coeff offset s res" for res using that by (cases res) simp
  from barring_bind [OF first this] show ?case by (simp add: r)
qed

lemma new_affine: "ar_inv newAffineRelation" "solutions newAffineRelation = UNIV"
  by (simp_all add: ar_inv_def newAffineRelation_def up_def solutions_def acyclic_def)

text \<open>C36: A sequence of TryAdd calls whose arguments pass their checks ends, and its only fault is an
  operation that leaves 64 bits, or a variable too large for an \<open>int\<close>. When it returns, the variables can take
  exactly the values that satisfy all relations for which TryAdd returned true, NumRelations counts those,
  and Get of any variable is again either such an overflow or expresses the variable by its
  representative, correctly for all these values, without changing them.\<close>

theorem affine_relations_sound:
  assumes "\<forall>r \<in> set reqs. checked r"
  shows "case ar_run reqs newAffineRelation of
      Inl e \<Rightarrow> e = Overflow
    | Inr (bs, s) \<Rightarrow> length bs = length reqs \<and> ar_NumRelations s = int (length (filter (\<lambda>b. b) bs)) \<and>
        solutions s = {v. \<forall>(r, b) \<in> set (zip reqs bs). b \<longrightarrow> holds v r} \<and>
        (\<forall>x \<ge> 0. case ar_Get x s of
            Inl e \<Rightarrow> e = Overflow
          | Inr (rel, s') \<Rightarrow> solutions s' = solutions s \<and> rel_representative rel \<ge> 0 \<and>
              (\<forall>v \<in> solutions s. v (nat x) = rel_coeff rel * v (nat (rel_representative rel)) + rel_offset rel) \<and>
              ar_Get (rel_representative rel) s' =
                Inr (\<lparr>rel_representative = rel_representative rel, rel_coeff = 1, rel_offset = 0\<rparr>, s'))"
proof (cases "ar_run reqs newAffineRelation")
  case (Inl e)
  then show ?thesis using run_solutions [OF new_affine(1) assms] by simp
next
  case (Inr res)
  obtain bs s where res: "res = (bs, s)" by (cases res)
  have kept: "kept reqs newAffineRelation (bs, s)"
    using run_solutions [OF new_affine(1) assms] by (simp add: Inr res)
  have "ar_num_relations newAffineRelation = 0" by (simp add: newAffineRelation_def)
  then have "ar_NumRelations s = int (length (filter (\<lambda>b. b) bs))" using kept by (simp add: kept_def ar_NumRelations_def)
  moreover have "case ar_Get x s of Inl e \<Rightarrow> e = Overflow
      | Inr (rel, s') \<Rightarrow> solutions s' = solutions s \<and> rel_representative rel \<ge> 0 \<and>
          (\<forall>v \<in> solutions s. v (nat x) = rel_coeff rel * v (nat (rel_representative rel)) + rel_offset rel) \<and>
          ar_Get (rel_representative rel) s' =
            Inr (\<lparr>rel_representative = rel_representative rel, rel_coeff = 1, rel_offset = 0\<rparr>, s')" if "x \<ge> 0" for x
    using get [of s x] kept that by (cases "ar_Get x s") (auto simp: kept_def expresses_def)
  ultimately show ?thesis using kept by (simp add: Inr res kept_def new_affine(2))
qed

text \<open>x0 = 2 x1 + 1 and x1 = -x2 are kept; with x0 = x2 the values would be fixed, so it is ignored.\<close>

definition exampleRequests :: "relation_request list" where
  "exampleRequests = [(0, 1, 2, 1, True, True), (1, 2, -1, 0, True, True), (0, 2, 1, 0, True, True)]"

lemma example_kept: "map_sum id fst (ar_run exampleRequests newAffineRelation) = Inr [True, True, False]"
  by code_simp

theorem affine_relations_sound_witness:
  "\<exists>s. ar_run exampleRequests newAffineRelation = Inr ([True, True, False], s) \<and>
    solutions s = {v. v 0 = 2 * v 1 + 1 \<and> v 1 = - v 2}"
proof -
  have req: "\<forall>r \<in> set exampleRequests. checked r" by code_simp
  obtain s where s: "ar_run exampleRequests newAffineRelation = Inr ([True, True, False], s)"
    using example_kept by (cases "ar_run exampleRequests newAffineRelation") auto
  have "solutions s = {v. \<forall>(r, b) \<in> set (zip exampleRequests [True, True, False]). b \<longrightarrow> holds v r}"
    using affine_relations_sound [OF req] unfolding s by simp
  then have "solutions s = {v. v 0 = 2 * v 1 + 1 \<and> v 1 = - v 2}"
    by (simp add: exampleRequests_def holds_def)
  then show ?thesis using s by blast
qed

text \<open>Two relations with a coefficient of 2 to the 40: the product that the third call forms on the path of its first variable
  does not fit.\<close>

lemma coefficients_overflow:
  "map_sum id fst (ar_run [(0, 1, 2 ^ 40, 0, True, True), (1, 2, 2 ^ 40, 0, True, True), (0, 3, 1, 0, True, True)]
     newAffineRelation) = Inl Overflow"
  by code_simp

end
