(* ===== verification/RunningStat.thy ===== *)
theory RunningStat
  imports Prelude
begin

text \<open>
  The statistics over a stream of \<open>util/running_stat.h\<close>: the average of the last numbers and of all
  numbers, and the maximum of the last numbers, which is recomputed only when it leaves the
  window. The theory shows that both agree with their definitions on the whole stream.
\<close>

section \<open>The code\<close>

subsection \<open>RunningAverage\<close>

text \<open>
  The sums are \<open>double\<close>s of integers, exact below \<open>2 ^ 53\<close> and \<open>int\<close> here; an average is the pair of
  the dividend and the divisor of its division.
\<close>

record running_average =
  ra_window_size :: int
  ra_num_adds :: int
  ra_global_sum :: int
  ra_local_sum :: int
  ra_values :: "int list"

definition newRunningAverage :: "int \<Rightarrow> fault + running_average" where
  "newRunningAverage window_size =
     (if window_size > 0
      then Inr \<lparr>ra_window_size = window_size, ra_num_adds = 0, ra_global_sum = 0, ra_local_sum = 0, ra_values = []\<rparr>
      else Inl CheckFailed)"

definition ra_ClearWindow :: "running_average \<Rightarrow> running_average" where
  "ra_ClearWindow s = s\<lparr>ra_local_sum := 0, ra_values := []\<rparr>"

definition ra_Reset :: "int \<Rightarrow> running_average \<Rightarrow> running_average" where
  "ra_Reset window_size s =
     ra_ClearWindow (s\<lparr>ra_window_size := window_size, ra_num_adds := 0, ra_global_sum := 0\<rparr>)"

definition ra_Add :: "int \<Rightarrow> running_average \<Rightarrow> running_average" where
  "ra_Add x s =
     (let s = s\<lparr>ra_num_adds := ra_num_adds s + 1, ra_global_sum := ra_global_sum s + x,
               ra_local_sum := ra_local_sum s + x, ra_values := ra_values s @ [x]\<rparr> in
      if int (length (ra_values s)) > ra_window_size s
      then s\<lparr>ra_local_sum := ra_local_sum s - hd (ra_values s), ra_values := tl (ra_values s)\<rparr>
      else s)"

definition ra_GlobalAverage :: "running_average \<Rightarrow> int \<times> int" where
  "ra_GlobalAverage s = (if ra_num_adds s = 0 then (0, 1) else (ra_global_sum s, ra_num_adds s))"

definition ra_WindowAverage :: "running_average \<Rightarrow> int \<times> int" where
  "ra_WindowAverage s = (if ra_values s = [] then (0, 1) else (ra_local_sum s, int (length (ra_values s))))"

definition ra_IsWindowFull :: "running_average \<Rightarrow> bool" where
  "ra_IsWindowFull s \<longleftrightarrow> int (length (ra_values s)) = ra_window_size s"

subsection \<open>RunningMax\<close>

record 'n running_max =
  rx_window_size :: nat
  rx_values :: "'n list"
  rx_last_index :: nat
  rx_max_index :: nat

definition newRunningMax :: "nat \<Rightarrow> 'n running_max" where
  "newRunningMax window_size =
     \<lparr>rx_window_size = window_size, rx_values = [], rx_last_index = 0, rx_max_index = 0\<rparr>"

definition rx_GetCurrentMax :: "'n running_max \<Rightarrow> fault + 'n" where
  "rx_GetCurrentMax s = index_vec (rx_values s) (rx_max_index s)"

text \<open>The loop that looks for the maximum, over the index it has reached.\<close>

definition rx_visit :: "'n::linorder list \<Rightarrow> nat \<Rightarrow> 'n \<times> nat \<Rightarrow> 'n \<times> nat" where
  "rx_visit xs i = (\<lambda>(max_value, max_index). if xs ! i > max_value then (xs ! i, i) else (max_value, max_index))"

definition rx_recompute :: "'n::linorder list \<Rightarrow> fault + nat" where
  "rx_recompute xs = rbind (index_vec xs 0) (\<lambda>max_value.
     Inr (snd (fold (rx_visit xs) [1..<length xs] (max_value, 0))))"

definition rx_Add :: "'n::linorder \<Rightarrow> 'n running_max \<Rightarrow> fault + 'n running_max" where
  "rx_Add x s =
     (if length (rx_values s) < rx_window_size s
      then rbind (if rx_values s = [] then Inr True else rbind (rx_GetCurrentMax s) (\<lambda>top. Inr (x \<ge> top))) (\<lambda>new_max.
        Inr (s\<lparr>rx_max_index := if new_max then length (rx_values s) else rx_max_index s,
               rx_values := rx_values s @ [x]\<rparr>))
      else rbind (rx_GetCurrentMax s) (\<lambda>top.
        rbind (assignAt (rx_last_index s) x (rx_values s)) (\<lambda>vs.
        rbind (if x \<ge> top then Inr (rx_last_index s)
               else if rx_last_index s = rx_max_index s then rx_recompute vs
               else Inr (rx_max_index s)) (\<lambda>max_index.
          let last_index = rx_last_index s + 1 in
          Inr (s\<lparr>rx_values := vs, rx_max_index := max_index,
                 rx_last_index := if last_index = rx_window_size s then 0 else last_index\<rparr>)))))"

section \<open>The window\<close>

definition window :: "nat \<Rightarrow> 'a list \<Rightarrow> 'a list" where
  "window w xs = drop (length xs - w) xs"

lemma window_snoc: "0 < w \<Longrightarrow> window w (xs @ [x]) =
    (if length (window w xs) < w then window w xs @ [x] else tl (window w xs) @ [x])"
proof -
  assume w: "0 < w"
  show ?thesis
  proof (cases "length xs < w")
    case True
    then show ?thesis by (simp add: window_def)
  next
    case False
    then have "length xs + 1 - w = Suc (length xs - w)" "length xs - w < length xs" using w by auto
    then show ?thesis using False by (simp add: window_def tl_drop drop_Suc)
  qed
qed

lemma length_window: "length (window w xs) = min w (length xs)"
  by (auto simp: window_def)

definition ra_inv :: "int list \<Rightarrow> running_average \<Rightarrow> bool" where
  "ra_inv xs s \<longleftrightarrow> ra_window_size s > 0 \<and> ra_num_adds s = int (length xs) \<and> ra_global_sum s = sum_list xs \<and>
     ra_values s = window (nat (ra_window_size s)) xs \<and> ra_local_sum s = sum_list (ra_values s)"

lemma ra_Add_inv:
  assumes "ra_inv xs s"
  shows "ra_inv (xs @ [x]) (ra_Add x s)" "ra_window_size (ra_Add x s) = ra_window_size s"
proof -
  let ?w = "nat (ra_window_size s)"
  have w: "0 < ?w" using assms by (simp add: ra_inv_def)
  have vals: "ra_values s = window ?w xs" using assms by (simp add: ra_inv_def)
  have len: "length (window ?w xs) \<le> ?w" by (simp add: length_window)
  show "ra_window_size (ra_Add x s) = ra_window_size s" by (simp add: ra_Add_def Let_def)
  show "ra_inv (xs @ [x]) (ra_Add x s)"
  proof (cases "length (window ?w xs) < ?w")
    case True
    then show ?thesis using assms w by (auto simp: ra_inv_def ra_Add_def Let_def window_snoc)
  next
    case False
    then have full: "length (window ?w xs) = ?w" using len by simp
    then obtain y ys where ys: "window ?w xs = y # ys" using w by (cases "window ?w xs") auto
    have "length ys + 1 = ?w" using full by (simp add: ys)
    then have big: "int (length ys) + 2 > ra_window_size s" by linarith
    have "window ?w (xs @ [x]) = ys @ [x]" using window_snoc [OF w, of xs x] False by (simp add: ys)
    then show ?thesis using assms big by (simp add: ra_inv_def ra_Add_def Let_def ys)
  qed
qed

text \<open>The buffer of the maximum is the window, rotated by the index that is written next.\<close>

definition rx_inv :: "'n::linorder list \<Rightarrow> 'n running_max \<Rightarrow> bool" where
  "rx_inv xs s \<longleftrightarrow> rx_window_size s > 0 \<and> rx_last_index s < rx_window_size s \<and>
     (length (rx_values s) < rx_window_size s \<longrightarrow> rx_last_index s = 0) \<and>
     drop (rx_last_index s) (rx_values s) @ take (rx_last_index s) (rx_values s) = window (rx_window_size s) xs \<and>
     (xs \<noteq> [] \<longrightarrow> rx_max_index s < length (rx_values s) \<and>
       (\<forall>y \<in> set (rx_values s). y \<le> rx_values s ! rx_max_index s))"

lemma visit_all:
  assumes "n \<le> length xs" "0 < n"
  shows "case fold (rx_visit xs) [1..<n] (xs ! 0, 0) of (m, k) \<Rightarrow> k < n \<and> xs ! k = m \<and> (\<forall>i < n. xs ! i \<le> m)"
  using assms(2,1)
proof (induction n rule: nat_induct_non_zero)
  case (Suc n)
  obtain m k where mk: "fold (rx_visit xs) [1..<n] (xs ! 0, 0) = (m, k)" by (cases "fold (rx_visit xs) [1..<n] (xs ! 0, 0)")
  have step: "fold (rx_visit xs) [1..<Suc n] (xs ! 0, 0) = rx_visit xs n (m, k)" using Suc.hyps by (simp add: mk [simplified])
  have "k < n" "xs ! k = m" "\<forall>i < n. xs ! i \<le> m" using Suc.IH Suc.prems by (simp_all add: mk [simplified])
  then show ?case unfolding step by (auto simp: rx_visit_def less_Suc_eq)
qed simp

lemma recompute_max:
  assumes "xs \<noteq> []"
  shows "\<exists>k < length xs. rx_recompute xs = Inr k \<and> (\<forall>y \<in> set xs. y \<le> xs ! k)"
proof -
  obtain m k where mk: "fold (rx_visit xs) [1..<length xs] (xs ! 0, 0) = (m, k)"
    by (cases "fold (rx_visit xs) [1..<length xs] (xs ! 0, 0)")
  then have "k < length xs" "xs ! k = m" "\<forall>i < length xs. xs ! i \<le> m" using visit_all [of "length xs" xs] assms by simp_all
  moreover have "rx_recompute xs = Inr k" using assms mk by (simp add: rx_recompute_def)
  ultimately show ?thesis by (auto simp: in_set_conv_nth)
qed

lemma rx_Add_inv:
  assumes inv: "rx_inv xs s"
  shows "\<exists>s'. rx_Add x s = Inr s' \<and> rx_inv (xs @ [x]) s' \<and> rx_window_size s' = rx_window_size s"
proof -
  let ?vs = "rx_values s" and ?w = "rx_window_size s" and ?li = "rx_last_index s" and ?mi = "rx_max_index s"
  have w: "0 < ?w" and li: "?li < ?w" using inv by (simp_all add: rx_inv_def)
  have rot: "drop ?li ?vs @ take ?li ?vs = window ?w xs" using inv by (simp add: rx_inv_def)
  have len: "length ?vs = length (window ?w xs)" using arg_cong [OF rot, of length] by simp
  have empty: "xs = [] \<longleftrightarrow> ?vs = []" using len w by (auto simp: length_window min_def split: if_splits)
  have top: "?mi < length ?vs" "\<forall>y \<in> set ?vs. y \<le> ?vs ! ?mi" if "?vs \<noteq> []" using inv that empty by (simp_all add: rx_inv_def)
  show ?thesis
  proof (cases "length ?vs < ?w")
    case True
    then have li0: "?li = 0" using inv by (simp add: rx_inv_def)
    have win: "window ?w (xs @ [x]) = ?vs @ [x]" using window_snoc [OF w, of xs x] True len rot by (simp add: li0)
    show ?thesis
    proof (cases "?vs = []")
      case True
      then show ?thesis using \<open>length ?vs < ?w\<close> win li0 by (simp add: rx_Add_def rx_inv_def)
    next
      case False
      then show ?thesis using True top [OF False] win li0
        by (auto simp: rx_Add_def rx_GetCurrentMax_def rx_inv_def nth_append intro: order_trans)
    qed
  next
    case False
    then have full: "length ?vs = ?w" using len by (simp add: length_window)
    then have ne: "?vs \<noteq> []" using w by auto
    note mx = top [OF ne]
    let ?v = "?vs[?li := x]"
    let ?next = "if ?li + 1 = ?w then 0 else ?li + 1"
    have vne: "?v \<noteq> []" "length ?v = ?w" using ne full by simp_all
    have v: "?v = take ?li ?vs @ x # drop (Suc ?li) ?vs" using li full by (simp add: upd_conv_take_nth_drop)
    have drops: "drop ?li ?vs = ?vs ! ?li # drop (Suc ?li) ?vs" using li full by (simp add: Cons_nth_drop_Suc)
    have window_tl: "tl (window ?w xs) = drop (Suc ?li) ?vs @ take ?li ?vs"
      unfolding rot [symmetric] drops by simp
    have nonlt: "\<not> length (window ?w xs) < ?w" using full len by simp
    have lt: "length (take ?li ?vs) = ?li" using li full by simp
    have "window ?w (xs @ [x]) = drop (Suc ?li) ?vs @ take ?li ?vs @ [x]"
      using window_snoc [OF w, of xs x] nonlt by (simp add: window_tl)
    moreover have "drop ?next ?v @ take ?next ?v = drop (Suc ?li) ?vs @ take ?li ?vs @ [x]"
    proof (cases "?li + 1 = ?w")
      case True
      then have "drop (Suc ?li) ?vs = []" using full by simp
      then show ?thesis using True v by simp
    next
      case False
      then show ?thesis unfolding v using lt by simp
    qed
    ultimately have rot': "drop ?next ?v @ take ?next ?v = window ?w (xs @ [x])" by simp
    have nxt: "?next < ?w" using li by auto
    have "\<exists>k. (if x \<ge> ?vs ! ?mi then Inr ?li else if ?li = ?mi then rx_recompute ?v else Inr ?mi) = Inr k \<and>
        k < length ?v \<and> (\<forall>y \<in> set ?v. y \<le> ?v ! k)"
    proof (cases "x \<ge> ?vs ! ?mi")
      case True
      have "y \<le> x" if "y \<in> set ?v" for y
        using that mx(2) True set_update_subset_insert [of ?vs ?li x] by (auto intro: order_trans)
      then show ?thesis using True li full by simp
    next
      case False
      show ?thesis
      proof (cases "?li = ?mi")
        case True
        then show ?thesis using False recompute_max [OF vne(1)] by auto
      next
        case other: False
        have "y \<le> ?vs ! ?mi" if "y \<in> set ?v" for y
          using that mx(2) False set_update_subset_insert [of ?vs ?li x] by auto
        then show ?thesis using False other mx(1) by simp
      qed
    qed
    then obtain k where k: "(if x \<ge> ?vs ! ?mi then Inr ?li else if ?li = ?mi then rx_recompute ?v else Inr ?mi) = Inr k"
      "k < length ?v" "\<forall>y \<in> set ?v. y \<le> ?v ! k" by blast
    let ?s = "s\<lparr>rx_values := ?v, rx_max_index := k, rx_last_index := ?next\<rparr>"
    have "rx_Add x s = Inr ?s"
      using False li full mx(1) k(1) by (simp add: rx_Add_def rx_GetCurrentMax_def Let_def)
    moreover have "rx_inv (xs @ [x]) ?s"
      unfolding rx_inv_def using w nxt rot' k(2,3) vne(2) by simp
    ultimately show ?thesis by auto
  qed
qed

section \<open>The statistics of a stream\<close>

lemma rx_run:
  "rx_inv ys s \<Longrightarrow> \<exists>s'. rfold rx_Add xs s = Inr s' \<and> rx_inv (ys @ xs) s' \<and> rx_window_size s' = rx_window_size s"
proof (induction xs arbitrary: ys s)
  case (Cons x xs)
  obtain t where t: "rx_Add x s = Inr t" "rx_inv (ys @ [x]) t" "rx_window_size t = rx_window_size s"
    using rx_Add_inv [OF Cons.prems] by blast
  show ?case using Cons.IH [OF t(2)] by (simp add: t(1,3))
qed simp

lemma ra_run:
  "ra_inv ys s \<Longrightarrow> ra_inv (ys @ xs) (fold ra_Add xs s) \<and> ra_window_size (fold ra_Add xs s) = ra_window_size s"
proof (induction xs arbitrary: ys s)
  case (Cons x xs)
  show ?case using Cons.IH [OF ra_Add_inv(1) [OF Cons.prems], of x] ra_Add_inv(2) [OF Cons.prems, of x] by simp
qed simp

theorem running_max_correct:
  assumes "0 < w"
  shows "\<exists>s. rfold rx_Add xs (newRunningMax w) = Inr s \<and>
    (xs \<noteq> [] \<longrightarrow> rx_GetCurrentMax s = Inr (Max (set (window w xs))))"
proof -
  have "rx_inv [] (newRunningMax w)" using assms by (simp add: rx_inv_def newRunningMax_def window_def)
  from rx_run [OF this, of xs] obtain s where s: "rfold rx_Add xs (newRunningMax w) = Inr s" "rx_inv xs s" "rx_window_size s = w"
    by (auto simp: newRunningMax_def)
  have "rx_GetCurrentMax s = Inr (Max (set (window w xs)))" if "xs \<noteq> []"
  proof -
    have rot: "drop (rx_last_index s) (rx_values s) @ take (rx_last_index s) (rx_values s) = window w xs"
      using s(2,3) by (simp add: rx_inv_def)
    have "set (window w xs) = set (rx_values s)"
      unfolding rot [symmetric] by (metis Un_commute append_take_drop_id set_append)
    moreover have "rx_max_index s < length (rx_values s)" "\<forall>y \<in> set (rx_values s). y \<le> rx_values s ! rx_max_index s"
      using s(2) that by (simp_all add: rx_inv_def)
    ultimately show ?thesis by (auto simp: rx_GetCurrentMax_def intro!: Max_eqI [symmetric])
  qed
  then show ?thesis using s(1) by blast
qed

theorem running_average_correct:
  fixes xs :: "int list"
  assumes "newRunningAverage w = Inr s0"
  defines "s \<equiv> fold ra_Add xs s0"
  shows "ra_GlobalAverage s = (if xs = [] then (0, 1) else (sum_list xs, int (length xs)))"
    and "ra_WindowAverage s = (if xs = [] then (0, 1)
      else (sum_list (window (nat w) xs), int (length (window (nat w) xs))))"
    and "ra_IsWindowFull s \<longleftrightarrow> w \<le> int (length xs)"
proof -
  have s0: "ra_inv [] s0" "ra_window_size s0 = w" and w: "0 < w"
    using assms(1) by (auto simp: newRunningAverage_def ra_inv_def window_def split: if_splits)
  have s: "ra_inv xs s" "ra_window_size s = w" using ra_run [OF s0(1), of xs] s0(2) by (simp_all add: s_def)
  have empty: "window (nat w) xs = [] \<longleftrightarrow> xs = []" using w length_window [of "nat w" xs]
    by (metis length_0_conv min_0R min_def_raw nat_0_iff not_le order_refl zero_less_nat_eq le_zero_eq)
  show "ra_GlobalAverage s = (if xs = [] then (0, 1) else (sum_list xs, int (length xs)))"
    using s(1) by (simp add: ra_inv_def ra_GlobalAverage_def)
  show "ra_WindowAverage s = (if xs = [] then (0, 1)
      else (sum_list (window (nat w) xs), int (length (window (nat w) xs))))"
    using s empty by (simp add: ra_inv_def ra_WindowAverage_def)
  show "ra_IsWindowFull s \<longleftrightarrow> w \<le> int (length xs)"
    using s w by (simp add: ra_inv_def ra_IsWindowFull_def length_window min_def) linarith
qed

text \<open>Resetting leaves what the constructor with the same window makes.\<close>

lemma reset_is_new: "0 < w \<Longrightarrow> newRunningAverage w = Inr (ra_Reset w s)"
  by (simp add: newRunningAverage_def ra_Reset_def ra_ClearWindow_def)

end
