(* ===== verification/Sort.thy ===== *)
theory Sort
  imports Prelude "HOL-Library.Multiset"
begin

text \<open>
  The sorts for almost sorted ranges of \<open>util/sort.h\<close>: one pass of bubble sort, then insertion sort,
  which gives up for the library's sort after a number of comparisons. The inner loop of the
  insertion reads the element before its position without looking where the range begins. The
  theory shows that it never leaves the range, and that the result is the sorted range, with the
  order of equal elements kept where that is promised.
\<close>

section \<open>The code\<close>

text \<open>A range is a list, an iterator its position; the element before the first is out of range.\<close>

definition iter_swap :: "nat \<Rightarrow> nat \<Rightarrow> 'a list \<Rightarrow> 'a list" where
  "iter_swap i j xs = xs[i := xs ! j, j := xs ! i]"

text \<open>The loop from the last position down, with the position of the last swap.\<close>

fun bubble :: "('a \<Rightarrow> 'a \<Rightarrow> bool) \<Rightarrow> nat \<Rightarrow> 'a list \<Rightarrow> nat \<Rightarrow> 'a list \<times> nat" where
  "bubble lt 0 xs last_sorted = (xs, last_sorted)"
| "bubble lt (Suc i) xs last_sorted =
     (if lt (xs ! Suc i) (xs ! i) then bubble lt i (iter_swap (Suc i) i xs) (Suc i)
      else bubble lt i xs last_sorted)"

text \<open>The inner loop: make room for an element, counting the comparisons left.\<close>

fun make_room :: "('a \<Rightarrow> 'a \<Rightarrow> bool) \<Rightarrow> 'a \<Rightarrow> nat \<Rightarrow> int \<Rightarrow> 'a list \<Rightarrow> fault + nat \<times> int \<times> 'a list" where
  "make_room lt inserted 0 max_comparisons xs = Inl BadIndex"
| "make_room lt inserted (Suc j) max_comparisons xs =
     (if lt inserted (xs ! j) then make_room lt inserted j (max_comparisons - 1) (xs[Suc j := xs ! j])
      else Inr (Suc j, max_comparisons, xs))"

definition insert_one :: "('a \<Rightarrow> 'a \<Rightarrow> bool) \<Rightarrow> nat \<Rightarrow> int \<Rightarrow> 'a list \<Rightarrow> fault + int \<times> 'a list" where
  "insert_one lt it max_comparisons xs =
     (let inserted = xs ! it in
      rbind (make_room lt inserted it max_comparisons xs) (\<lambda>(j, left, ys). Inr (left, ys[j := inserted])))"

text \<open>The outer loop, up to the end \<open>past\<close> of the range.\<close>

function insert_while :: "('a \<Rightarrow> 'a \<Rightarrow> bool) \<Rightarrow> nat \<Rightarrow> nat \<Rightarrow> int \<Rightarrow> 'a list \<Rightarrow> fault + nat \<times> 'a list" where
  "insert_while lt past it max_comparisons xs =
     (if it < past \<and> max_comparisons > 0
      then case insert_one lt it (max_comparisons - 1) xs of
             Inl e \<Rightarrow> Inl e
           | Inr (left, ys) \<Rightarrow> insert_while lt past (Suc it) left ys
      else Inr (it, xs))"
  by pat_completeness auto
termination by (relation "measure (\<lambda>(lt, past, it, k, xs). past - it)") auto

declare insert_while.simps [simp del]

text \<open>\<open>std::stable_sort\<close>; what \<open>std::sort\<close> does with equal elements is left open, it is a parameter.\<close>

fun insert_stable :: "('a \<Rightarrow> 'a \<Rightarrow> bool) \<Rightarrow> 'a \<Rightarrow> 'a list \<Rightarrow> 'a list" where
  "insert_stable lt x [] = [x]"
| "insert_stable lt x (y # ys) = (if lt y x then y # insert_stable lt x ys else x # y # ys)"

definition std_stable_sort :: "('a \<Rightarrow> 'a \<Rightarrow> bool) \<Rightarrow> 'a list \<Rightarrow> 'a list" where
  "std_stable_sort lt xs = foldr (insert_stable lt) xs []"

definition IncrementalSortBounded ::
    "('a list \<Rightarrow> 'a list) \<Rightarrow> int \<Rightarrow> ('a \<Rightarrow> 'a \<Rightarrow> bool) \<Rightarrow> bool \<Rightarrow> 'a list \<Rightarrow> fault + 'a list" where
  "IncrementalSortBounded std_sort max_comparisons lt is_stable xs =
     (if length xs \<le> 1 then Inr xs
      else let (xs, last_sorted) = bubble lt (length xs - 1) xs (length xs - 1) in
        rbind (insert_while lt (length xs) (last_sorted + 1) max_comparisons xs) (\<lambda>(it, xs).
          if it = length xs then Inr xs
          else Inr (take last_sorted xs @
                (if is_stable then std_stable_sort lt else std_sort) (drop last_sorted xs))))"

definition InsertionSort :: "('a \<Rightarrow> 'a \<Rightarrow> bool) \<Rightarrow> 'a list \<Rightarrow> fault + 'a list" where
  "InsertionSort lt xs =
     (if length xs \<le> 1 then Inr xs
      else let (xs, last_sorted) = bubble lt (length xs - 1) xs (length xs - 1) in
        rfold (\<lambda>it xs. rbind (insert_one lt it 0 xs) (\<lambda>(_, ys). Inr ys)) [last_sorted + 1..<length xs] xs)"

definition IncrementalSort ::
    "('a list \<Rightarrow> 'a list) \<Rightarrow> ('a \<Rightarrow> 'a \<Rightarrow> bool) \<Rightarrow> bool \<Rightarrow> 'a list \<Rightarrow> fault + 'a list" where
  "IncrementalSort std_sort lt is_stable xs =
     (let n = int (length xs) in
      if n \<le> 32 then InsertionSort lt xs else IncrementalSortBounded std_sort (n * 8) lt is_stable xs)"

section \<open>Order\<close>

text \<open>Not after, and of the same place in the order.\<close>

abbreviation ordered :: "('a \<Rightarrow> 'a \<Rightarrow> bool) \<Rightarrow> 'a list \<Rightarrow> bool" where
  "ordered lt \<equiv> sorted_wrt (\<lambda>a b. \<not> lt b a)"

definition equals_of :: "('a \<Rightarrow> 'a \<Rightarrow> bool) \<Rightarrow> 'a \<Rightarrow> 'a list \<Rightarrow> 'a list" where
  "equals_of lt a xs = filter (\<lambda>x. \<not> lt a x \<and> \<not> lt x a) xs"

text \<open>The equal elements of every place are the same, in the same order.\<close>

definition same_order :: "('a \<Rightarrow> 'a \<Rightarrow> bool) \<Rightarrow> 'a list \<Rightarrow> 'a list \<Rightarrow> bool" where
  "same_order lt xs ys \<longleftrightarrow> (\<forall>a. equals_of lt a xs = equals_of lt a ys)"

lemma ordered_append:
  "ordered lt (xs @ ys) \<longleftrightarrow> ordered lt xs \<and> ordered lt ys \<and> (\<forall>x \<in> set xs. \<forall>y \<in> set ys. \<not> lt y x)"
  by (simp add: sorted_wrt_append)

lemma equals_of_append [simp]: "equals_of lt a (xs @ ys) = equals_of lt a xs @ equals_of lt a ys"
  by (simp add: equals_of_def)

lemma same_order_refl [simp]: "same_order lt xs xs"
  by (simp add: same_order_def)

lemma same_order_trans [trans]: "same_order lt xs ys \<Longrightarrow> same_order lt ys zs \<Longrightarrow> same_order lt xs zs"
  by (simp add: same_order_def)

lemma same_order_append: "same_order lt xs xs' \<Longrightarrow> same_order lt ys ys' \<Longrightarrow> same_order lt (xs @ ys) (xs' @ ys')"
  by (simp add: same_order_def)

text \<open>An element moved over elements it goes before keeps the order of equals.\<close>

lemma same_order_move:
  assumes "strict_weak lt" "\<forall>v \<in> set vs. lt x v"
  shows "same_order lt (vs @ [x]) (x # vs)"
proof -
  have "equals_of lt a vs = []" if "\<not> lt a x" "\<not> lt x a" for a
    using assms that strict_weakD(2-4) [OF assms(1)] unfolding equals_of_def filter_empty_conv by blast
  then show ?thesis by (auto simp: same_order_def) (auto simp: equals_of_def)
qed

lemma same_order_mset: "strict_weak lt \<Longrightarrow> same_order lt xs ys \<Longrightarrow> mset xs = mset ys"
proof (rule multiset_eqI)
  fix a
  assume "strict_weak lt" and same: "same_order lt xs ys"
  then have irrefl: "\<not> lt a a" using strict_weakD(1) by metis
  have counts: "count (mset zs) a = count (mset (equals_of lt a zs)) a" for zs
    using irrefl by (simp add: equals_of_def)
  show "count (mset xs) a = count (mset ys) a"
    unfolding counts [of xs] counts [of ys] using same by (simp only: same_order_def)
qed

section \<open>Insertion\<close>

lemma make_room_shifts:
  assumes "us \<noteq> []" "\<not> lt x (last us)" "\<forall>v \<in> set vs. lt x v"
  shows "\<exists>g k'. make_room lt x (length us + length vs) k (us @ vs @ h # cs) = Inr (length us, k', us @ g # vs @ cs)"
  using assms(3)
proof (induction vs arbitrary: k h cs rule: rev_induct)
  case Nil
  obtain u ts where us: "us = ts @ [u]" using assms(1) by (cases us rule: rev_cases) auto
  then have "\<not> lt x ((us @ h # cs) ! length ts)" using assms(2) by (simp add: nth_append)
  then show ?case by (simp add: us)
next
  case (snoc v vs)
  have at: "(us @ (vs @ [v]) @ h # cs) ! (length us + length vs) = v" by (simp add: nth_append)
  have moved: "(us @ (vs @ [v]) @ h # cs)[Suc (length us + length vs) := v] = us @ vs @ v # v # cs"
    by (simp add: list_update_append)
  have "lt x v" using snoc.prems by simp
  then have "make_room lt x (length us + length (vs @ [v])) k (us @ (vs @ [v]) @ h # cs) =
      make_room lt x (length us + length vs) (k - 1) (us @ vs @ v # v # cs)"
    using at moved by simp
  also obtain g k' where "make_room lt x (length us + length vs) (k - 1) (us @ vs @ v # (v # cs)) =
      Inr (length us, k', us @ g # vs @ v # cs)" using snoc.IH [of "k - 1" v "v # cs"] snoc.prems by auto
  finally show ?case by auto
qed

text \<open>The place of an element in a list: behind the last element it does not go before.\<close>

lemma insertion_point:
  assumes "\<exists>y \<in> set ys. \<not> P y"
  shows "\<exists>us vs. ys = us @ vs \<and> us \<noteq> [] \<and> \<not> P (last us) \<and> (\<forall>v \<in> set vs. P v)"
  using assms
proof (induction ys rule: rev_induct)
  case (snoc y ys)
  show ?case
  proof (cases "P y")
    case True
    then obtain us vs where "ys = us @ vs" "us \<noteq> []" "\<not> P (last us)" "\<forall>v \<in> set vs. P v" using snoc by auto
    then show ?thesis using True by (intro exI [of _ us] exI [of _ "vs @ [y]"]) auto
  next
    case False
    then show ?thesis by (intro exI [of _ "ys @ [y]"] exI [of _ "[]"]) simp
  qed
qed simp

lemma insert_one_sorts:
  assumes sw: "strict_weak lt" and small: "ps \<noteq> []" "\<forall>p \<in> set ps. \<forall>r \<in> set (rs @ x # cs). \<not> lt r p"
    and rs: "ordered lt rs"
  shows "\<exists>k' rs'. insert_one lt (length ps + length rs) k (ps @ rs @ x # cs) = Inr (k', ps @ rs' @ cs) \<and>
    ordered lt rs' \<and> same_order lt (rs @ [x]) rs' \<and> set rs' = insert x (set rs) \<and> length rs' = Suc (length rs)"
proof -
  have "\<exists>y \<in> set (ps @ rs). \<not> lt x y" using small by (cases ps) auto
  then obtain us vs where uv: "ps @ rs = us @ vs" "us \<noteq> []" "\<not> lt x (last us)" "\<forall>v \<in> set vs. lt x v"
    using insertion_point [of "ps @ rs" "lt x"] by blast
  have "length ps \<le> length us"
  proof (rule ccontr)
    assume "\<not> length ps \<le> length us"
    then have short: "length us < length ps" by simp
    then have "ps ! length us \<in> set ps" "(ps @ rs) ! length us = ps ! length us" by (simp_all add: nth_append)
    moreover have "length us < length (us @ vs)" unfolding uv(1) [symmetric] using short by simp
    then have "(us @ vs) ! length us \<in> set vs" by (simp add: nth_append)
    then have "(ps @ rs) ! length us \<in> set vs" by (simp add: uv(1))
    ultimately show False using uv(4) small(2) by auto
  qed
  then obtain ws where us: "us = ps @ ws" "rs = ws @ vs"
    using uv(1) by (metis append_eq_append_conv_if append_take_drop_id)
  obtain g k' where room: "make_room lt x (length us + length vs) k (us @ vs @ x # cs) = Inr (length us, k', us @ g # vs @ cs)"
    using make_room_shifts [where us = us and vs = vs and lt = lt and x = x, OF uv(2-4)] by blast
  have at: "(us @ vs @ x # cs) ! (length us + length vs) = x" by (simp add: nth_append)
  have "insert_one lt (length us + length vs) k (us @ vs @ x # cs) = Inr (k', us @ x # vs @ cs)"
    using room by (simp add: insert_one_def at Let_def)
  then have one: "insert_one lt (length ps + length rs) k (ps @ rs @ x # cs) = Inr (k', ps @ (ws @ x # vs) @ cs)"
    by (simp add: us add.assoc)
  have "\<forall>w \<in> set ws. \<not> lt x w"
  proof
    fix w assume w: "w \<in> set ws"
    then have "\<not> lt (last ws) w" using rs us(2) by (cases ws rule: rev_cases) (auto simp: sorted_wrt_append dest: strict_weakD(1) [OF sw])
    moreover have "last us = last ws" using w us(1) by (cases ws) auto
    ultimately show "\<not> lt x w" using uv(3) strict_weakD(2) [OF sw] by metis
  qed
  then have "ordered lt (ws @ x # vs)"
    using rs uv(4) strict_weakD(1) [OF sw] by (auto simp: us(2) sorted_wrt_append)
  moreover have "same_order lt (rs @ [x]) (ws @ x # vs)"
    using same_order_append [OF same_order_refl same_order_move [OF sw uv(4)]] by (simp add: us(2))
  ultimately show ?thesis using one by (intro exI [of _ k'] exI [of _ "ws @ x # vs"]) (auto simp: us(2))
qed

section \<open>The bubble pass\<close>

text \<open>Between the place reached and the last swap, every element goes before all that follow.\<close>

definition bubbled :: "('a \<Rightarrow> 'a \<Rightarrow> bool) \<Rightarrow> nat \<Rightarrow> 'a list \<Rightarrow> nat \<Rightarrow> bool" where
  "bubbled lt i xs l \<longleftrightarrow> i \<le> l \<and> l < length xs \<and>
     (\<forall>p q. i \<le> p \<longrightarrow> (p < l \<or> p = i) \<longrightarrow> p < q \<longrightarrow> q < length xs \<longrightarrow> \<not> lt (xs ! q) (xs ! p))"

lemma swap_order:
  assumes "strict_weak lt" "Suc i < length xs" "lt (xs ! Suc i) (xs ! i)"
  shows "same_order lt xs (iter_swap (Suc i) i xs)"
proof -
  have xs: "xs = take i xs @ [xs ! i, xs ! Suc i] @ drop (Suc (Suc i)) xs"
    using assms(2) by (simp add: Cons_nth_drop_Suc Suc_lessD)
  have "iter_swap (Suc i) i xs = take i xs @ [xs ! Suc i, xs ! i] @ drop (Suc (Suc i)) xs"
  proof (rule nth_equalityI)
    show "length (iter_swap (Suc i) i xs) = length (take i xs @ [xs ! Suc i, xs ! i] @ drop (Suc (Suc i)) xs)"
      using assms(2) by (simp add: iter_swap_def)
    fix k assume "k < length (iter_swap (Suc i) i xs)"
    then have k: "k < length xs" by (simp add: iter_swap_def)
    consider "k < i" | "k = i" | "k = Suc i" | d where "k = i + 2 + d" by (metis add_2_eq_Suc' less_SucE less_add_Suc1 linorder_neqE_nat less_imp_Suc_add add_Suc add_Suc_right)
    then show "iter_swap (Suc i) i xs ! k = (take i xs @ [xs ! Suc i, xs ! i] @ drop (Suc (Suc i)) xs) ! k"
      using k assms(2) by cases (simp_all add: iter_swap_def nth_append)
  qed
  moreover have "same_order lt ([xs ! i] @ [xs ! Suc i]) (xs ! Suc i # [xs ! i])"
    by (rule same_order_move [OF assms(1)]) (simp add: assms(3))
  then have "same_order lt (take i xs @ [xs ! i, xs ! Suc i] @ drop (Suc (Suc i)) xs)
      (take i xs @ [xs ! Suc i, xs ! i] @ drop (Suc (Suc i)) xs)"
    by (intro same_order_append same_order_refl) simp
  ultimately show ?thesis using xs by metis
qed

lemma bubble_step:
  assumes sw: "strict_weak lt" and inv: "bubbled lt (Suc i) xs l"
  shows "lt (xs ! Suc i) (xs ! i) \<Longrightarrow> bubbled lt i (iter_swap (Suc i) i xs) (Suc i)"
    and "\<not> lt (xs ! Suc i) (xs ! i) \<Longrightarrow> bubbled lt i xs l"
proof -
  have len: "Suc i < length xs" using inv by (simp add: bubbled_def)
  have least: "\<not> lt (xs ! q) (xs ! Suc i)" if "Suc i < q" "q < length xs" for q
    using inv that unfolding bubbled_def by blast
  show "bubbled lt i (iter_swap (Suc i) i xs) (Suc i)" if out: "lt (xs ! Suc i) (xs ! i)"
  proof -
    have "\<not> lt (iter_swap (Suc i) i xs ! q) (iter_swap (Suc i) i xs ! i)" if "i < q" "q < length xs" for q
      using least [of q] that len strict_weakD(1) [OF sw out] by (cases "q = Suc i") (simp_all add: iter_swap_def)
    then show ?thesis using len by (auto simp: bubbled_def iter_swap_def less_Suc_eq)
  qed
  show "bubbled lt i xs l" if le: "\<not> lt (xs ! Suc i) (xs ! i)"
  proof -
    have "\<not> lt (xs ! q) (xs ! i)" if "i < q" "q < length xs" for q
      using least [of q] that le strict_weakD(2) [OF sw] by (cases "q = Suc i") (simp, metis Suc_lessI)
    then show ?thesis using inv by (auto simp: bubbled_def) (metis Suc_leI le_neq_implies_less)
  qed
qed

lemma bubble_sorts:
  assumes "strict_weak lt" "bubbled lt i xs l" "0 < l"
  shows "case bubble lt i xs l of (ys, m) \<Rightarrow>
    same_order lt xs ys \<and> length ys = length xs \<and> 0 < m \<and> bubbled lt 0 ys m"
  using assms(2,3)
proof (induction i arbitrary: xs l)
  case (Suc i)
  have len: "Suc i < length xs" using Suc.prems(1) by (simp add: bubbled_def)
  note step = bubble_step [OF assms(1) Suc.prems(1)]
  show ?case
  proof (cases "lt (xs ! Suc i) (xs ! i)")
    case True
    then show ?thesis using Suc.IH [OF step(1)] swap_order [OF assms(1) len True]
      by (auto simp: iter_swap_def intro: same_order_trans split: prod.splits)
  next
    case False
    then show ?thesis using Suc.IH [OF step(2) Suc.prems(2)] by simp
  qed
qed simp

text \<open>After the pass the range is a sorted beginning that goes before the rest.\<close>

lemma bubble_splits:
  assumes sw: "strict_weak lt" and len: "1 < length xs"
  shows "\<exists>ys m. bubble lt (length xs - 1) xs (length xs - 1) = (ys, m) \<and> same_order lt xs ys \<and> length ys = length xs \<and>
    0 < m \<and> m < length ys \<and> ordered lt (take m ys) \<and> (\<forall>p \<in> set (take m ys). \<forall>r \<in> set (drop m ys). \<not> lt r p)"
proof -
  obtain ys m where b: "bubble lt (length xs - 1) xs (length xs - 1) = (ys, m)" by fastforce
  have "bubbled lt (length xs - 1) xs (length xs - 1)" using len by (auto simp: bubbled_def)
  from bubble_sorts [OF sw this] len have ys: "same_order lt xs ys" "length ys = length xs" "0 < m" "bubbled lt 0 ys m"
    by (simp_all add: b [simplified])
  then have order: "\<not> lt (ys ! q) (ys ! p)" if "p < m" "p < q" "q < length ys" for p q
    using that by (simp add: bubbled_def)
  have m: "m < length ys" using ys(4) by (simp add: bubbled_def)
  have "ordered lt (take m ys)" using m by (auto simp: sorted_wrt_iff_nth_less order)
  moreover have "\<forall>p \<in> set (take m ys). \<forall>r \<in> set (drop m ys). \<not> lt r p"
    using m order by (auto simp: in_set_conv_nth)
  ultimately show ?thesis using b ys m by blast
qed

section \<open>The sorts\<close>

text \<open>The range during the insertions: a sorted beginning, a sorted middle, and the rest.\<close>

lemma insert_while_sorts:
  assumes sw: "strict_weak lt" and "ps \<noteq> []" "\<forall>p \<in> set ps. \<forall>r \<in> set (rs @ cs). \<not> lt r p" "ordered lt rs"
  shows "\<exists>rs' cs'. insert_while lt (length ps + length rs + length cs) (length ps + length rs) k (ps @ rs @ cs) =
      Inr (length ps + length rs', ps @ rs' @ cs') \<and> length rs' + length cs' = length rs + length cs \<and>
    ordered lt rs' \<and> same_order lt (rs @ cs) (rs' @ cs')"
  using assms(2-)
proof (induction cs arbitrary: rs k)
  case Nil
  then show ?case by (intro exI [of _ rs] exI [of _ "[]"]) (simp add: insert_while.simps)
next
  case (Cons x cs)
  show ?case
  proof (cases "k > 0")
    case True
    obtain k' rs' where one: "insert_one lt (length ps + length rs) (k - 1) (ps @ rs @ x # cs) = Inr (k', ps @ rs' @ cs)"
      "ordered lt rs'" "same_order lt (rs @ [x]) rs'" "set rs' = insert x (set rs)" "length rs' = Suc (length rs)"
      using insert_one_sorts [OF sw Cons.prems] by blast
    have "\<forall>p \<in> set ps. \<forall>r \<in> set (rs' @ cs). \<not> lt r p" using Cons.prems(2) one(4) by auto
    then obtain ts ds where rest: "insert_while lt (length ps + length rs' + length cs) (length ps + length rs') k' (ps @ rs' @ cs) =
        Inr (length ps + length ts, ps @ ts @ ds)" "length ts + length ds = length rs' + length cs" "ordered lt ts"
      "same_order lt (rs' @ cs) (ts @ ds)" using Cons.IH [OF Cons.prems(1) _ one(2), of k'] by blast
    have "insert_while lt (length ps + length rs + length (x # cs)) (length ps + length rs) k (ps @ rs @ x # cs) =
        Inr (length ps + length ts, ps @ ts @ ds)"
      using True rest(1) by (subst insert_while.simps) (simp add: one(1,5))
    moreover have "same_order lt ((rs @ [x]) @ cs) (ts @ ds)"
      using same_order_append [OF one(3) same_order_refl] rest(4) by (rule same_order_trans)
    then have "same_order lt (rs @ x # cs) (ts @ ds)" by simp
    ultimately show ?thesis using rest(2,3) one(5) by (intro exI [of _ ts] exI [of _ ds]) simp
  next
    case False
    then show ?thesis using Cons.prems by (intro exI [of _ rs] exI [of _ "x # cs"]) (subst insert_while.simps, simp)
  qed
qed

lemma insertions_sort:
  assumes sw: "strict_weak lt" and "ps \<noteq> []" "\<forall>p \<in> set ps. \<forall>r \<in> set (rs @ cs). \<not> lt r p" "ordered lt rs"
  shows "\<exists>rs'. rfold (\<lambda>it xs. rbind (insert_one lt it k xs) (\<lambda>(_, ys). Inr ys))
      [length ps + length rs..<length ps + length rs + length cs] (ps @ rs @ cs) = Inr (ps @ rs') \<and>
    ordered lt rs' \<and> same_order lt (rs @ cs) rs'"
  using assms(2-)
proof (induction cs arbitrary: rs)
  case (Cons x cs)
  obtain k' rs' where one: "insert_one lt (length ps + length rs) k (ps @ rs @ x # cs) = Inr (k', ps @ rs' @ cs)"
    "ordered lt rs'" "same_order lt (rs @ [x]) rs'" "set rs' = insert x (set rs)" "length rs' = Suc (length rs)"
    using insert_one_sorts [OF sw Cons.prems] by blast
  have "\<forall>p \<in> set ps. \<forall>r \<in> set (rs' @ cs). \<not> lt r p" using Cons.prems(2) one(4) by auto
  then obtain ts where rest: "rfold (\<lambda>it xs. rbind (insert_one lt it k xs) (\<lambda>(_, ys). Inr ys))
      [length ps + length rs'..<length ps + length rs' + length cs] (ps @ rs' @ cs) = Inr (ps @ ts)" "ordered lt ts"
    "same_order lt (rs' @ cs) ts" using Cons.IH [OF Cons.prems(1) _ one(2)] by blast
  have "[length ps + length rs..<length ps + length rs + length (x # cs)] =
      (length ps + length rs) # [length ps + length rs'..<length ps + length rs' + length cs]"
    by (subst upt_conv_Cons) (simp_all add: one(5))
  moreover have "same_order lt ((rs @ [x]) @ cs) ts"
    using same_order_append [OF one(3) same_order_refl] rest(3) by (rule same_order_trans)
  ultimately show ?case using one(1) rest(1,2) by (intro exI [of _ ts]) simp
qed auto

lemma stable_insert:
  assumes "strict_weak lt"
  shows "same_order lt (x # ys) (insert_stable lt x ys) \<and> set (insert_stable lt x ys) = insert x (set ys) \<and>
    (ordered lt ys \<longrightarrow> ordered lt (insert_stable lt x ys))"
proof (induction ys)
  case (Cons y ys)
  show ?case
  proof (cases "lt y x")
    case True
    have "same_order lt ([x] @ [y]) (y # [x])" by (rule same_order_move [OF assms]) (simp add: True)
    from same_order_append [OF this same_order_refl, of ys]
    have "same_order lt (x # y # ys) (y # x # ys)" by simp
    moreover have "same_order lt (y # x # ys) (y # insert_stable lt x ys)"
      using same_order_append [OF same_order_refl, of lt "x # ys" "insert_stable lt x ys" "[y]"] Cons.IH by simp
    ultimately have "same_order lt (x # y # ys) (y # insert_stable lt x ys)" by (rule same_order_trans)
    then show ?thesis using Cons.IH True strict_weakD(1) [OF assms True] by auto
  next
    case False
    have "\<not> lt z x" if "\<not> lt z y" for z using strict_weakD(2) [OF assms that False] .
    then show ?thesis using False by auto
  qed
qed simp

lemma stable_sort:
  assumes "strict_weak lt"
  shows "same_order lt xs (std_stable_sort lt xs) \<and> ordered lt (std_stable_sort lt xs)"
proof (induction xs)
  case (Cons x xs)
  have eq: "std_stable_sort lt (x # xs) = insert_stable lt x (std_stable_sort lt xs)" by (simp add: std_stable_sort_def)
  have "same_order lt ([x] @ xs) ([x] @ std_stable_sort lt xs)" using Cons.IH by (blast intro: same_order_append same_order_refl)
  then show ?case unfolding eq using Cons.IH stable_insert [OF assms, of x "std_stable_sort lt xs"]
    by (auto intro: same_order_trans)
qed (simp add: std_stable_sort_def)

lemma bubble_parts:
  assumes "strict_weak lt" "1 < length xs"
  shows "\<exists>ps x cs. bubble lt (length xs - 1) xs (length xs - 1) = (ps @ x # cs, length ps) \<and> ps \<noteq> [] \<and>
    same_order lt xs (ps @ x # cs) \<and> length (ps @ x # cs) = length xs \<and> ordered lt ps \<and>
    (\<forall>p \<in> set ps. \<forall>r \<in> set (x # cs). \<not> lt r p)"
proof -
  obtain ys m where ys: "bubble lt (length xs - 1) xs (length xs - 1) = (ys, m)" "same_order lt xs ys" "length ys = length xs"
    "0 < m" "m < length ys" "ordered lt (take m ys)" "\<forall>p \<in> set (take m ys). \<forall>r \<in> set (drop m ys). \<not> lt r p"
    using bubble_splits [OF assms] by blast
  obtain x cs where cs: "drop m ys = x # cs" using ys(5) by (cases "drop m ys") auto
  have parts: "take m ys @ x # cs = ys" unfolding cs [symmetric] by (rule append_take_drop_id)
  have "bubble lt (length xs - 1) xs (length xs - 1) = (take m ys @ x # cs, length (take m ys))"
    unfolding parts using ys(1,5) by simp
  moreover have "take m ys \<noteq> []" using ys(4,5) by auto
  moreover have "same_order lt xs (take m ys @ x # cs)" "length (take m ys @ x # cs) = length xs"
    unfolding parts by (rule ys(2), rule ys(3))
  ultimately show ?thesis using ys(6,7) unfolding cs by blast
qed

lemma ordered_short: "length xs \<le> 1 \<Longrightarrow> ordered lt xs"
  by (cases xs) auto

lemma ordered_parts:
  assumes "ordered lt ps" "ordered lt rs" "\<forall>p \<in> set ps. \<forall>r \<in> set qs. \<not> lt r p" "mset rs = mset qs"
  shows "ordered lt (ps @ rs)"
  using assms(1-3) mset_eq_setD [OF assms(4)] by (auto simp: sorted_wrt_append)

lemma insertion_sort:
  assumes sw: "strict_weak lt"
  shows "\<exists>ys. InsertionSort lt xs = Inr ys \<and> ordered lt ys \<and> same_order lt xs ys"
proof (cases "length xs \<le> 1")
  case True
  then show ?thesis using ordered_short [OF True] by (auto simp: InsertionSort_def)
next
  case False
  then have long: "1 < length xs" by simp
  obtain ps x cs where b: "bubble lt (length xs - 1) xs (length xs - 1) = (ps @ x # cs, length ps)" "ps \<noteq> []"
    "same_order lt xs (ps @ x # cs)" "length (ps @ x # cs) = length xs" "ordered lt ps"
    "\<forall>p \<in> set ps. \<forall>r \<in> set (x # cs). \<not> lt r p" using bubble_parts [OF sw long] by blast
  have "\<forall>p \<in> set ps. \<forall>r \<in> set ([x] @ cs). \<not> lt r p" using b(6) by simp
  from insertions_sort [OF sw b(2) this, of 0]
  obtain rs where rs: "rfold (\<lambda>it xs. rbind (insert_one lt it 0 xs) (\<lambda>(_, ys). Inr ys))
      [length ps + 1..<length ps + 1 + length cs] (ps @ x # cs) = Inr (ps @ rs)" "ordered lt rs" "same_order lt (x # cs) rs"
    by auto
  have range_end: "length (ps @ x # cs) = length ps + 1 + length cs" by simp
  have "InsertionSort lt xs = Inr (ps @ rs)"
    unfolding InsertionSort_def b(1) Let_def prod.case range_end using False rs(1) by simp
  moreover have "ordered lt (ps @ rs)" using ordered_parts [OF b(5) rs(2) b(6)] same_order_mset [OF sw rs(3)] by simp
  moreover have "same_order lt xs (ps @ rs)"
    using b(3) same_order_append [OF same_order_refl rs(3)] by (rule same_order_trans)
  ultimately show ?thesis by blast
qed

lemma incremental_sort:
  assumes sw: "strict_weak lt" and std: "\<And>ys. mset (std_sort ys) = mset ys" "\<And>ys. ordered lt (std_sort ys)"
  shows "\<exists>ys. IncrementalSortBounded std_sort k lt is_stable xs = Inr ys \<and> ordered lt ys \<and> mset ys = mset xs \<and>
    (is_stable \<longrightarrow> same_order lt xs ys)"
proof (cases "length xs \<le> 1")
  case True
  then show ?thesis using ordered_short [OF True] by (auto simp: IncrementalSortBounded_def)
next
  case False
  then have long: "1 < length xs" by simp
  obtain ps x cs where b: "bubble lt (length xs - 1) xs (length xs - 1) = (ps @ x # cs, length ps)" "ps \<noteq> []"
    "same_order lt xs (ps @ x # cs)" "length (ps @ x # cs) = length xs" "ordered lt ps"
    "\<forall>p \<in> set ps. \<forall>r \<in> set (x # cs). \<not> lt r p" using bubble_parts [OF sw long] by blast
  have "\<forall>p \<in> set ps. \<forall>r \<in> set ([x] @ cs). \<not> lt r p" using b(6) by simp
  from insert_while_sorts [OF sw b(2) this, of k]
  obtain rs ds where w: "insert_while lt (length ps + 1 + length cs) (length ps + 1) k (ps @ x # cs) =
      Inr (length ps + length rs, ps @ rs @ ds)" "length rs + length ds = 1 + length cs" "ordered lt rs"
    "same_order lt (x # cs) (rs @ ds)" by auto
  have range_end: "length (ps @ x # cs) = length ps + 1 + length cs" by simp
  let ?sort = "if is_stable then std_stable_sort lt else std_sort"
  let ?ys = "if ds = [] then ps @ rs else ps @ ?sort (rs @ ds)"
  have "IncrementalSortBounded std_sort k lt is_stable xs = Inr ?ys"
    unfolding IncrementalSortBounded_def b(1) Let_def prod.case range_end w(1) using False by auto
  moreover have "ordered lt ?ys \<and> mset ?ys = mset xs \<and> (is_stable \<longrightarrow> same_order lt xs ?ys)"
  proof -
    let ?t = "if ds = [] then rs else ?sort (rs @ ds)"
    have st: "mset (std_stable_sort lt (rs @ ds)) = mset (rs @ ds)"
      by (rule same_order_mset [OF sw stable_sort [OF sw, THEN conjunct1], symmetric])
    have t: "ordered lt ?t" "mset ?t = mset (rs @ ds)" "is_stable \<Longrightarrow> same_order lt (rs @ ds) ?t"
      using w(3) std stable_sort [OF sw, of "rs @ ds"] st by auto
    have ys: "?ys = ps @ ?t" by simp
    have m: "mset ?t = mset (x # cs)" using t(2) same_order_mset [OF sw w(4)] by simp
    have "ordered lt (ps @ ?t)" by (rule ordered_parts [OF b(5) t(1) b(6) m])
    moreover have "mset (ps @ ?t) = mset xs" using m same_order_mset [OF sw b(3)] by simp
    moreover have "same_order lt xs (ps @ ?t)" if "is_stable"
      using b(3) same_order_append [OF same_order_refl same_order_trans [OF w(4) t(3) [OF that]]] by (rule same_order_trans)
    ultimately show ?thesis unfolding ys by blast
  qed
  ultimately show ?thesis by blast
qed

section \<open>Properties\<close>

text \<open>C37: For a strict weak order no sort of the header leaves its range or faults; each returns the
  range's elements in order, keeps the order of equal elements when it is asked to be stable or
  is the insertion sort, whatever the number of comparisons after which it gives up.\<close>

theorem incremental_sorts_sort:
  assumes "strict_weak lt" and "\<And>ys. mset (std_sort ys) = mset ys \<and> ordered lt (std_sort ys)"
  shows "(\<exists>ys. IncrementalSortBounded std_sort k lt is_stable xs = Inr ys \<and> ordered lt ys \<and> mset ys = mset xs \<and>
      (is_stable \<longrightarrow> same_order lt xs ys)) \<and>
    (\<exists>ys. InsertionSort lt xs = Inr ys \<and> ordered lt ys \<and> mset ys = mset xs \<and> same_order lt xs ys) \<and>
    (\<exists>ys. IncrementalSort std_sort lt is_stable xs = Inr ys \<and> ordered lt ys \<and> mset ys = mset xs \<and>
      (is_stable \<or> length xs \<le> 32 \<longrightarrow> same_order lt xs ys))"
proof -
  have "\<exists>ys. IncrementalSortBounded std_sort k lt is_stable xs = Inr ys \<and> ordered lt ys \<and> mset ys = mset xs \<and>
      (is_stable \<longrightarrow> same_order lt xs ys)" for k
    using incremental_sort [OF assms(1)] assms(2) by blast
  moreover obtain zs where "InsertionSort lt xs = Inr zs" "ordered lt zs" "mset zs = mset xs" "same_order lt xs zs"
    using insertion_sort [OF assms(1), of xs] same_order_mset [OF assms(1)] by metis
  moreover from this have "\<exists>ys. IncrementalSort std_sort lt is_stable xs = Inr ys \<and> ordered lt ys \<and> mset ys = mset xs \<and>
      (is_stable \<or> length xs \<le> 32 \<longrightarrow> same_order lt xs ys)"
    using calculation(1) by (cases "length xs \<le> 32") (auto simp: IncrementalSort_def Let_def)
  ultimately show ?thesis by blast
qed

text \<open>Tasks sorted by priority, with the name as the mark of their order; two comparisons are allowed.\<close>

definition exampleTasks :: "(nat \<times> char) list" where
  "exampleTasks = [(3, CHR ''a''), (1, CHR ''b''), (3, CHR ''c''), (2, CHR ''d''), (1, CHR ''e'')]"

lemma example_sorted:
  "IncrementalSortBounded (std_stable_sort (\<lambda>a b. fst a < fst b)) 2 (\<lambda>a b. fst a < fst b) True exampleTasks =
    Inr [(1, CHR ''b''), (1, CHR ''e''), (2, CHR ''d''), (3, CHR ''a''), (3, CHR ''c'')]"
  by code_simp

theorem incremental_sorts_sort_witness:
  "ordered (\<lambda>a b. fst a < fst b) [(1 :: nat, CHR ''b''), (1, CHR ''e''), (2, CHR ''d''), (3, CHR ''a''), (3, CHR ''c'')] \<and>
   same_order (\<lambda>a b. fst a < fst b) exampleTasks [(1, CHR ''b''), (1, CHR ''e''), (2, CHR ''d''), (3, CHR ''a''), (3, CHR ''c'')]"
proof -
  let ?lt = "\<lambda>a b :: nat \<times> char. fst a < fst b"
  have sw: "strict_weak ?lt" by (auto simp: strict_weak_def)
  have "mset (std_stable_sort ?lt ys) = mset ys \<and> ordered ?lt (std_stable_sort ?lt ys)" for ys
    using stable_sort [OF sw, of ys] same_order_mset [OF sw] by metis
  from incremental_sorts_sort [OF sw this, of 2 True exampleTasks] show ?thesis
    by (simp only: example_sorted sum.inject) blast
qed

end
