(* ===== verification/ArcGraph.thy ===== *)
theory ArcGraph
  imports Prelude
begin

text \<open>
  The graph with reverse arcs of \<open>ortools/graph/graph.h\<close>: \<open>BaseGraph\<close> and \<open>ReverseArcListGraph\<close>. The
  arcs of a node are linked lists through a vector that is indexed from both sides, where arc
  \<open>~a\<close> is the reverse of arc \<open>a\<close>. The theory shows that a graph built by \<open>AddArc\<close> represents the list
  of its arcs, and what every iteration over it yields. Debug checks and the storage behind a vector are
  left out; node numbers are taken to fit their type, and the number of arcs is bounded by \<open>kNilArc\<close>.
\<close>

section \<open>A vector with two sides\<close>

text \<open>\<open>SVector\<close>: the valid indices are those from \<open>- size\<close> to \<open>size - 1\<close>.\<close>

record 'a svector =
  sv_right :: "'a list"  \<comment> \<open>0, 1, ...\<close>
  sv_left :: "'a list"  \<comment> \<open>-1, -2, ...\<close>

definition svector_empty :: "'a svector" where
  "svector_empty = \<lparr>sv_right = [], sv_left = []\<rparr>"

definition svector_size :: "'a svector \<Rightarrow> nat" where
  "svector_size x = length (sv_right x)"

definition svector_at :: "'a svector \<Rightarrow> int \<Rightarrow> fault + 'a" where
  "svector_at x n = (if 0 \<le> n then index_vec (sv_right x) (nat n) else index_vec (sv_left x) (nat (- n - 1)))"

definition svector_grow :: "'a \<Rightarrow> 'a \<Rightarrow> 'a svector \<Rightarrow> 'a svector" where
  "svector_grow left right x = x\<lparr>sv_right := sv_right x @ [right], sv_left := sv_left x @ [left]\<rparr>"

section \<open>The base class\<close>

definition kNilArc :: int where
  "kNilArc = 2147483647"

record arc_graph =
  rg_num_nodes :: nat
  rg_node_capacity :: nat
  rg_num_arcs :: nat
  rg_arc_capacity :: nat
  rg_const_capacities :: bool
  rg_start :: "int list"
  rg_reverse_start :: "int list"
  rg_next :: "int svector"
  rg_head :: "nat svector"

definition rg_empty :: arc_graph where
  "rg_empty =
     \<lparr>rg_num_nodes = 0, rg_node_capacity = 0, rg_num_arcs = 0, rg_arc_capacity = 0, rg_const_capacities = False,
      rg_start = [], rg_reverse_start = [], rg_next = svector_empty, rg_head = svector_empty\<rparr>"

definition AllNodes :: "arc_graph \<Rightarrow> nat list" where
  "AllNodes g = [0..<rg_num_nodes g]"

definition AllForwardArcs :: "arc_graph \<Rightarrow> int list" where
  "AllForwardArcs g = map int [0..<rg_num_arcs g]"

definition IsNodeValid :: "arc_graph \<Rightarrow> int \<Rightarrow> bool" where
  "IsNodeValid g node \<longleftrightarrow> 0 \<le> node \<and> node < int (rg_num_nodes g)"

definition IsArcValid :: "arc_graph \<Rightarrow> int \<Rightarrow> bool" where
  "IsArcValid g arc \<longleftrightarrow> - int (rg_num_arcs g) \<le> arc \<and> arc < int (rg_num_arcs g)"

definition node_capacity :: "arc_graph \<Rightarrow> nat" where
  "node_capacity g = (if rg_num_nodes g < rg_node_capacity g then rg_node_capacity g else rg_num_nodes g)"

definition arc_capacity :: "arc_graph \<Rightarrow> nat" where
  "arc_capacity g = (if rg_num_arcs g < rg_arc_capacity g then rg_arc_capacity g else rg_num_arcs g)"

text \<open>Reserving storage changes the capacity and nothing else.\<close>

definition ReserveNodes :: "nat \<Rightarrow> arc_graph \<Rightarrow> arc_graph" where
  "ReserveNodes bound g = (if bound \<le> rg_num_nodes g then g else g\<lparr>rg_node_capacity := bound\<rparr>)"

definition ReserveArcs :: "nat \<Rightarrow> arc_graph \<Rightarrow> arc_graph" where
  "ReserveArcs bound g = (if bound \<le> rg_num_arcs g then g else g\<lparr>rg_arc_capacity := bound\<rparr>)"

definition ReserveGraph :: "nat \<Rightarrow> nat \<Rightarrow> arc_graph \<Rightarrow> arc_graph" where
  "ReserveGraph nodes arcs g = ReserveArcs arcs (ReserveNodes nodes g)"

definition FreezeCapacities :: "arc_graph \<Rightarrow> arc_graph" where
  "FreezeCapacities g =
     g\<lparr>rg_const_capacities := True, rg_node_capacity := max (rg_node_capacity g) (rg_num_nodes g),
       rg_arc_capacity := max (rg_arc_capacity g) (rg_num_arcs g)\<rparr>"

section \<open>The graph with reverse arcs\<close>

definition OppositeArc :: "int \<Rightarrow> int" where
  "OppositeArc arc = - arc - 1"

definition HeadOf :: "arc_graph \<Rightarrow> int \<Rightarrow> fault + nat" where
  "HeadOf g arc = svector_at (rg_head g) arc"

definition TailOf :: "arc_graph \<Rightarrow> int \<Rightarrow> fault + nat" where
  "TailOf g arc = svector_at (rg_head g) (OppositeArc arc)"

definition AddNode :: "int \<Rightarrow> arc_graph \<Rightarrow> arc_graph" where
  "AddNode node g =
     (if node < int (rg_num_nodes g) then g
      else let n = nat (node + 1) in
        g\<lparr>rg_num_nodes := n, rg_start := resizeVec n kNilArc (rg_start g),
          rg_reverse_start := resizeVec n kNilArc (rg_reverse_start g)\<rparr>)"

definition AddArc :: "nat \<Rightarrow> nat \<Rightarrow> arc_graph \<Rightarrow> fault + arc_graph \<times> int" where
  "AddArc tail head g =
     (let g1 = AddNode (if head < tail then int tail else int head) g; num_arcs = int (rg_num_arcs g1) in
      rbind (index_vec (rg_reverse_start g1) head) (\<lambda>before_head.
      rbind (index_vec (rg_start g1) tail) (\<lambda>before_tail.
      rbind (assignAt tail num_arcs (rg_start g1)) (\<lambda>start.
      rbind (assignAt head (OppositeArc num_arcs) (rg_reverse_start g1)) (\<lambda>reverse_start.
        Inr (g1\<lparr>rg_head := svector_grow tail head (rg_head g1),
                rg_next := svector_grow before_head before_tail (rg_next g1),
                rg_start := start, rg_reverse_start := reverse_start,
                rg_num_arcs := Suc (rg_num_arcs g1)\<rparr>, num_arcs))))))"

definition newReverseArcListGraph :: "nat \<Rightarrow> nat \<Rightarrow> arc_graph" where
  "newReverseArcListGraph num_nodes arc_cap =
     AddNode (int num_nodes - 1) (FreezeCapacities (ReserveGraph num_nodes arc_cap rg_empty))"

text \<open>Nothing is left to build; a permutation of the arcs is cleared.\<close>

definition Build :: "int list option \<Rightarrow> arc_graph \<Rightarrow> arc_graph \<times> int list option" where
  "Build permutation g = (g, case permutation of None \<Rightarrow> None | Some _ \<Rightarrow> Some [])"

definition max_end_arc_index :: "arc_graph \<Rightarrow> nat" where
  "max_end_arc_index g = rg_arc_capacity g"

section \<open>Iteration\<close>

text \<open>
  A range of arcs is where its iterator starts and how it moves on, up to \<open>kNilArc\<close>. The fuel is one
  more than the arcs there are in both directions.
\<close>

primrec arcRange :: "nat \<Rightarrow> (int \<Rightarrow> fault + int) \<Rightarrow> int \<Rightarrow> fault + int list" where
  "arcRange 0 nxt i = Inl NoReturn"
| "arcRange (Suc fuel) nxt i =
     (if i = kNilArc then Inr []
      else rbind (nxt i) (\<lambda>j. rbind (arcRange fuel nxt j) (\<lambda>arcs. Inr (i # arcs))))"

definition rangeFuel :: "arc_graph \<Rightarrow> nat" where
  "rangeFuel g = Suc (2 * rg_num_arcs g)"

definition nextArc :: "arc_graph \<Rightarrow> int \<Rightarrow> fault + int" where
  "nextArc g i = svector_at (rg_next g) i"

definition OutgoingArcsStartingFrom :: "arc_graph \<Rightarrow> nat \<Rightarrow> int \<Rightarrow> fault + int list" where
  "OutgoingArcsStartingFrom g node i = arcRange (rangeFuel g) (nextArc g) i"

definition OutgoingArcs :: "arc_graph \<Rightarrow> nat \<Rightarrow> fault + int list" where
  "OutgoingArcs g node = rbind (index_vec (rg_start g) node) (OutgoingArcsStartingFrom g node)"

definition OppositeIncomingArcsStartingFrom :: "arc_graph \<Rightarrow> nat \<Rightarrow> int \<Rightarrow> fault + int list" where
  "OppositeIncomingArcsStartingFrom g node i = arcRange (rangeFuel g) (nextArc g) i"

definition OppositeIncomingArcs :: "arc_graph \<Rightarrow> nat \<Rightarrow> fault + int list" where
  "OppositeIncomingArcs g node =
     rbind (index_vec (rg_reverse_start g) node) (OppositeIncomingArcsStartingFrom g node)"

definition IncomingArcsStartingFrom :: "arc_graph \<Rightarrow> nat \<Rightarrow> int \<Rightarrow> fault + int list" where
  "IncomingArcsStartingFrom g node i =
     rbind (OppositeIncomingArcsStartingFrom g node (if i = kNilArc then kNilArc else OppositeArc i))
       (\<lambda>arcs. Inr (map OppositeArc arcs))"

definition IncomingArcs :: "arc_graph \<Rightarrow> nat \<Rightarrow> fault + int list" where
  "IncomingArcs g node = rbind (OppositeIncomingArcs g node) (\<lambda>arcs. Inr (map OppositeArc arcs))"

text \<open>First the reverse arcs of a node, then its arcs.\<close>

definition bothBegin :: "arc_graph \<Rightarrow> nat \<Rightarrow> fault + int" where
  "bothBegin g node =
     rbind (index_vec (rg_reverse_start g) node) (\<lambda>i. if i = kNilArc then index_vec (rg_start g) node else Inr i)"

definition bothNext :: "arc_graph \<Rightarrow> nat \<Rightarrow> int \<Rightarrow> fault + int" where
  "bothNext g node i =
     (if i < 0 then rbind (nextArc g i) (\<lambda>j. if j = kNilArc then index_vec (rg_start g) node else Inr j)
      else nextArc g i)"

definition BothArcsStartingFrom :: "arc_graph \<Rightarrow> nat \<Rightarrow> int \<Rightarrow> fault + int list" where
  "BothArcsStartingFrom g node i = arcRange (rangeFuel g) (bothNext g node) i"

definition BothArcs :: "arc_graph \<Rightarrow> nat \<Rightarrow> fault + int list" where
  "BothArcs g node = rbind (bothBegin g node) (BothArcsStartingFrom g node)"

definition outgoingHeads :: "arc_graph \<Rightarrow> nat \<Rightarrow> fault + nat list" where
  "outgoingHeads g node =
     rbind (OutgoingArcs g node) (\<lambda>arcs.
       rfold (\<lambda>arc heads. rbind (HeadOf g arc) (\<lambda>head. Inr (heads @ [head]))) arcs [])"

definition OutDegree :: "arc_graph \<Rightarrow> nat \<Rightarrow> fault + nat" where
  "OutDegree g node = rbind (OutgoingArcs g node) (\<lambda>arcs. Inr (length arcs))"

definition InDegree :: "arc_graph \<Rightarrow> nat \<Rightarrow> fault + nat" where
  "InDegree g node = rbind (OppositeIncomingArcs g node) (\<lambda>arcs. Inr (length arcs))"

section \<open>The list of arcs a graph represents\<close>

text \<open>The arcs of a node, last added first; a reverse arc is named by the complement of its index.\<close>

definition outArcs :: "(nat \<times> nat) list \<Rightarrow> nat \<Rightarrow> int list" where
  "outArcs es v = map int (filter (\<lambda>i. fst (es ! i) = v) (rev [0..<length es]))"

definition inArcs :: "(nat \<times> nat) list \<Rightarrow> nat \<Rightarrow> int list" where
  "inArcs es v = map (\<lambda>i. OppositeArc (int i)) (filter (\<lambda>i. snd (es ! i) = v) (rev [0..<length es]))"

definition bothArcs :: "(nat \<times> nat) list \<Rightarrow> nat \<Rightarrow> int list" where
  "bothArcs es v = inArcs es v @ outArcs es v"

text \<open>A linked list: what an iterator visits from a position on.\<close>

fun chain :: "(int \<Rightarrow> fault + int) \<Rightarrow> int \<Rightarrow> int list \<Rightarrow> bool" where
  "chain nxt i [] \<longleftrightarrow> i = kNilArc"
| "chain nxt i (a # as) \<longleftrightarrow> i = a \<and> a \<noteq> kNilArc \<and> (\<exists>j. nxt a = Inr j \<and> chain nxt j as)"

definition represents :: "nat \<Rightarrow> (nat \<times> nat) list \<Rightarrow> arc_graph \<Rightarrow> bool" where
  "represents n es g \<longleftrightarrow> rg_num_nodes g = n \<and> rg_num_arcs g = length es \<and> int (length es) \<le> kNilArc \<and>
     (\<forall>(t, h) \<in> set es. t < n \<and> h < n) \<and>
     rg_head g = \<lparr>sv_right = map snd es, sv_left = map fst es\<rparr> \<and>
     length (rg_start g) = n \<and> length (rg_reverse_start g) = n \<and>
     length (sv_right (rg_next g)) = length es \<and> length (sv_left (rg_next g)) = length es \<and>
     (\<forall>v < n. chain (nextArc g) (rg_start g ! v) (outArcs es v) \<and> chain (nextArc g) (rg_reverse_start g ! v) (inArcs es v))"

lemma arcs_snoc:
  "outArcs (es @ [e]) v = (if fst e = v then [int (length es)] else []) @ outArcs es v"
  "inArcs (es @ [e]) v = (if snd e = v then [OppositeArc (int (length es))] else []) @ inArcs es v"
proof -
  have "filter (\<lambda>i. P ((es @ [e]) ! i)) (rev [0..<length es]) = filter (\<lambda>i. P (es ! i)) (rev [0..<length es])" for P
    by (rule filter_cong) (auto simp: nth_append)
  note same = this [of "\<lambda>e. fst e = v"] this [of "\<lambda>e. snd e = v"]
  show "outArcs (es @ [e]) v = (if fst e = v then [int (length es)] else []) @ outArcs es v"
    "inArcs (es @ [e]) v = (if snd e = v then [OppositeArc (int (length es))] else []) @ inArcs es v"
    by (simp_all add: outArcs_def inArcs_def same)
qed

lemma arcs_range:
  "a \<in> set (outArcs es v) \<longleftrightarrow> (\<exists>i < length es. a = int i \<and> fst (es ! i) = v)"
  "a \<in> set (inArcs es v) \<longleftrightarrow> (\<exists>i < length es. a = OppositeArc (int i) \<and> snd (es ! i) = v)"
  by (auto simp: outArcs_def inArcs_def)

lemma length_arcs: "length (outArcs es v) \<le> length es" "length (inArcs es v) \<le> length es"
  using length_filter_le [of _ "rev [0..<length es]"] by (auto simp: outArcs_def inArcs_def)

lemma chain_range: "chain nxt i as \<Longrightarrow> length as < fuel \<Longrightarrow> arcRange fuel nxt i = Inr as"
proof (induction as arbitrary: i fuel)
  case Nil
  then show ?case by (cases fuel) auto
next
  case (Cons a as)
  then show ?case by (cases fuel) auto
qed

lemma chain_mono: "chain nxt i as \<Longrightarrow> (\<And>a j. nxt a = Inr j \<Longrightarrow> nxt' a = Inr j) \<Longrightarrow> chain nxt' i as"
  by (induction as arbitrary: i) auto

lemma chain_from: "chain nxt i (xs @ a # ys) \<Longrightarrow> chain nxt a (a # ys)"
  by (induction xs arbitrary: i) auto

lemma svector_at_grow: "svector_at x a = Inr j \<Longrightarrow> svector_at (svector_grow l r x) a = Inr j"
  by (auto simp: svector_at_def svector_grow_def res_simps nth_append split: if_splits)

lemma svector_at_new:
  "length (sv_right x) = n \<Longrightarrow> svector_at (svector_grow l r x) (int n) = Inr r"
  "length (sv_left x) = n \<Longrightarrow> svector_at (svector_grow l r x) (OppositeArc (int n)) = Inr l"
  by (simp_all add: svector_at_def svector_grow_def OppositeArc_def index_vec_def nth_append)

lemma represents_AddNode:
  assumes "represents n es g"
  shows "represents (max n (nat (node + 1))) es (AddNode node g)"
proof (cases "node < int n")
  case True
  then have "max n (nat (node + 1)) = n" by simp
  then show ?thesis using assms True by (simp add: AddNode_def represents_def)
next
  case False
  then have m: "max n (nat (node + 1)) = nat (node + 1)" "n \<le> nat (node + 1)" by auto
  let ?g = "AddNode node g"
  have nxt: "nextArc ?g = nextArc g" by (simp add: nextArc_def AddNode_def Let_def fun_eq_iff)
  have none: "outArcs es v = [] \<and> inArcs es v = []" if "n \<le> v" for v
  proof -
    have "fst (es ! i) < n \<and> snd (es ! i) < n" if "i < length es" for i
      using assms nth_mem [OF that] by (fastforce simp: represents_def)
    then show ?thesis using that by (fastforce simp: outArcs_def inArcs_def filter_empty_conv)
  qed
  have "chain (nextArc g) (rg_start ?g ! v) (outArcs es v) \<and> chain (nextArc g) (rg_reverse_start ?g ! v) (inArcs es v)"
    if v: "v < nat (node + 1)" for v
    using assms False none [of v] v by (cases "v < n") (auto simp: AddNode_def Let_def represents_def nth_resizeVec)
  then show ?thesis
    using assms False m unfolding represents_def nxt
    by (fastforce simp: AddNode_def Let_def intro: less_le_trans)
qed

lemma represents_AddArc:
  assumes g: "represents n es g" and room: "int (length es) < kNilArc"
  shows "\<exists>g'. AddArc t h g = Inr (g', int (length es)) \<and> represents (max n (Suc (max t h))) (es @ [(t, h)]) g'"
proof -
  define m where "m = max n (Suc (max t h))"
  define g1 where "g1 = AddNode (if h < t then int t else int h) g"
  have g1: "represents m es g1"
  proof -
    have "max n (nat ((if h < t then int t else int h) + 1)) = m" by (auto simp: max_def m_def)
    then show ?thesis using represents_AddNode [OF g, of "if h < t then int t else int h"] unfolding g1_def by metis
  qed
  have th: "t < m" "h < m" by (simp_all add: m_def)
  have len: "length (rg_start g1) = m" "length (rg_reverse_start g1) = m" "rg_num_arcs g1 = length es"
    "length (sv_right (rg_next g1)) = length es" "length (sv_left (rg_next g1)) = length es" "rg_num_nodes g1 = m"
    "rg_head g1 = \<lparr>sv_right = map snd es, sv_left = map fst es\<rparr>" "\<And>t h. (t, h) \<in> set es \<Longrightarrow> t < m \<and> h < m"
    using g1 by (auto simp: represents_def)
  have old_chains: "chain (nextArc g1) (rg_start g1 ! v) (outArcs es v)" "chain (nextArc g1) (rg_reverse_start g1 ! v) (inArcs es v)"
    if "v < m" for v using g1 that by (auto simp: represents_def)
  define g2 where "g2 = g1\<lparr>rg_head := svector_grow t h (rg_head g1),
    rg_next := svector_grow (rg_reverse_start g1 ! h) (rg_start g1 ! t) (rg_next g1),
    rg_start := (rg_start g1)[t := int (length es)], rg_reverse_start := (rg_reverse_start g1)[h := OppositeArc (int (length es))],
    rg_num_arcs := Suc (rg_num_arcs g1)\<rparr>"
  have run: "AddArc t h g = Inr (g2, int (length es))"
    using len th by (simp add: AddArc_def g1_def [symmetric] g2_def Let_def index_vec_def assignAt_def)
  have old: "nextArc g2 a = Inr j" if "nextArc g1 a = Inr j" for a j
    using svector_at_grow that by (simp add: nextArc_def g2_def)
  have new: "nextArc g2 (int (length es)) = Inr (rg_start g1 ! t)"
    "nextArc g2 (OppositeArc (int (length es))) = Inr (rg_reverse_start g1 ! h)"
    using svector_at_new len(4,5) by (simp_all add: nextArc_def g2_def)
  have nil: "int (length es) \<noteq> kNilArc" "OppositeArc (int (length es)) \<noteq> kNilArc"
    using room by (simp_all add: OppositeArc_def kNilArc_def)
  have chains: "chain (nextArc g2) (rg_start g1 ! v) (outArcs es v)" "chain (nextArc g2) (rg_reverse_start g1 ! v) (inArcs es v)"
    if "v < m" for v
    by (rule chain_mono [OF old_chains(1) [OF that] old], assumption)
      (rule chain_mono [OF old_chains(2) [OF that] old], assumption)
  have start: "rg_start g2 ! v = (if v = t then int (length es) else rg_start g1 ! v)"
    "rg_reverse_start g2 ! v = (if v = h then OppositeArc (int (length es)) else rg_reverse_start g1 ! v)" if "v < m" for v
    using that len th by (simp_all add: g2_def nth_list_update)
  have "chain (nextArc g2) (rg_start g2 ! v) (outArcs (es @ [(t, h)]) v)" if "v < m" for v
    using chains(1) [OF that] by (cases "v = t") (auto simp: arcs_snoc start that th new nil)
  moreover have "chain (nextArc g2) (rg_reverse_start g2 ! v) (inArcs (es @ [(t, h)]) v)" if "v < m" for v
    using chains(2) [OF that] by (cases "v = h") (auto simp: arcs_snoc start that th new nil)
  ultimately have "represents m (es @ [(t, h)]) g2"
    unfolding represents_def using len th room by (auto simp: g2_def svector_grow_def)
  with run show ?thesis unfolding m_def by blast
qed


section \<open>What the iterations yield\<close>

lemma representsD:
  assumes "represents n es g"
  shows "rg_num_nodes g = n" "rg_num_arcs g = length es" "length (rg_start g) = n" "length (rg_reverse_start g) = n"
    "i < length es \<Longrightarrow> fst (es ! i) < n \<and> snd (es ! i) < n"
    "v < n \<Longrightarrow> chain (nextArc g) (rg_start g ! v) (outArcs es v)"
    "v < n \<Longrightarrow> chain (nextArc g) (rg_reverse_start g ! v) (inArcs es v)"
    "rg_head g = \<lparr>sv_right = map snd es, sv_left = map fst es\<rparr>"
  using assms nth_mem [of i es] by (auto simp: represents_def split_beta)

lemma chain_both:
  assumes "chain (nextArc g) i xs" "\<forall>a \<in> set xs. a < 0" "chain (nextArc g) (rg_start g ! v) ys" "\<forall>a \<in> set ys. 0 \<le> a"
    "v < length (rg_start g)"
  shows "chain (bothNext g v) (if i = kNilArc then rg_start g ! v else i) (xs @ ys)"
proof -
  have nat: "chain (nextArc g) j zs \<Longrightarrow> \<forall>a \<in> set zs. 0 \<le> a \<Longrightarrow> chain (bothNext g v) j zs" for j zs
    by (induction zs arbitrary: j) (auto simp: bothNext_def)
  show ?thesis using assms(1,2)
  proof (induction xs arbitrary: i)
    case Nil
    then show ?case using nat assms(3,4) by simp
  next
    case (Cons a xs)
    then obtain j where a: "i = a" "a \<noteq> kNilArc" "nextArc g a = Inr j" "chain (nextArc g) j xs" "a < 0" by auto
    have "bothNext g v a = Inr (if j = kNilArc then rg_start g ! v else j)"
      using a assms(5) by (simp add: bothNext_def index_vec_def)
    then show ?case using Cons a by simp
  qed
qed

lemma both_chain:
  assumes "represents n es g" "v < n"
  obtains i where "bothBegin g v = Inr i" "chain (bothNext g v) i (bothArcs es v)"
proof -
  note r = representsD [OF assms(1)]
  have "chain (bothNext g v) (if rg_reverse_start g ! v = kNilArc then rg_start g ! v else rg_reverse_start g ! v)
      (inArcs es v @ outArcs es v)"
    by (rule chain_both) (use r assms(2) in \<open>auto simp: arcs_range OppositeArc_def\<close>)
  moreover have "bothBegin g v =
      Inr (if rg_reverse_start g ! v = kNilArc then rg_start g ! v else rg_reverse_start g ! v)"
    using r(3,4) assms(2) by (simp add: bothBegin_def)
  ultimately show ?thesis using that by (simp add: bothArcs_def)
qed

lemma both_from:
  assumes "represents n es g" "v < n" "bothArcs es v = xs @ a # ys"
  shows "BothArcsStartingFrom g v a = Inr (a # ys)"
proof -
  obtain i where "chain (bothNext g v) i (xs @ a # ys)" using both_chain assms by metis
  from chain_from [OF this] have "chain (bothNext g v) a (a # ys)" .
  moreover have "length (bothArcs es v) \<le> 2 * length es"
    using length_arcs [of es v] by (simp add: bothArcs_def)
  ultimately show ?thesis
    using assms(3) unfolding BothArcsStartingFrom_def
    by (intro chain_range) (auto simp: rangeFuel_def representsD [OF assms(1)])
qed

lemma iterations:
  assumes "represents n es g" "v < n"
  shows "OutgoingArcs g v = Inr (outArcs es v)" "OppositeIncomingArcs g v = Inr (inArcs es v)"
    "BothArcs g v = Inr (bothArcs es v)"
proof -
  note r = representsD [OF assms(1)] and len = length_arcs [of es v]
  have run: "arcRange (rangeFuel g) nxt i = Inr as" if "chain nxt i as" "length as \<le> 2 * length es" for nxt i as
    using that by (intro chain_range) (simp_all add: rangeFuel_def r(2))
  have "arcRange (rangeFuel g) (nextArc g) (rg_start g ! v) = Inr (outArcs es v)"
    using run [OF r(6) [OF assms(2)]] len by simp
  then show "OutgoingArcs g v = Inr (outArcs es v)"
    using r(3) assms(2) by (simp add: OutgoingArcs_def OutgoingArcsStartingFrom_def)
  have "arcRange (rangeFuel g) (nextArc g) (rg_reverse_start g ! v) = Inr (inArcs es v)"
    using run [OF r(7) [OF assms(2)]] len by simp
  then show "OppositeIncomingArcs g v = Inr (inArcs es v)"
    using r(4) assms(2) by (simp add: OppositeIncomingArcs_def OppositeIncomingArcsStartingFrom_def)
  obtain i where i: "bothBegin g v = Inr i" "chain (bothNext g v) i (bothArcs es v)" using both_chain assms .
  have "length (bothArcs es v) \<le> 2 * length es" using len by (simp add: bothArcs_def)
  then show "BothArcs g v = Inr (bothArcs es v)"
    using run [OF i(2)] by (simp add: i(1) BothArcs_def BothArcsStartingFrom_def)
qed

lemma head_tail:
  assumes "represents n es g" "i < length es"
  shows "HeadOf g (int i) = Inr (snd (es ! i))" "HeadOf g (OppositeArc (int i)) = Inr (fst (es ! i))"
    "TailOf g (int i) = Inr (fst (es ! i))" "TailOf g (OppositeArc (int i)) = Inr (snd (es ! i))"
  using assms(2) by (simp_all add: HeadOf_def TailOf_def svector_at_def OppositeArc_def representsD [OF assms(1)])

lemma degrees:
  assumes "represents n es g" "v < n"
  shows "OutDegree g v = Inr (length (outArcs es v))" "InDegree g v = Inr (length (inArcs es v))"
  by (simp_all add: OutDegree_def InDegree_def iterations [OF assms])

lemma opposite_opposite [simp]: "OppositeArc (OppositeArc a) = a"
  by (simp add: OppositeArc_def)

lemma incoming_iteration:
  assumes "represents n es g" "v < n"
  shows "IncomingArcs g v = Inr (map int (filter (\<lambda>i. snd (es ! i) = v) (rev [0..<length es])))"
  by (simp add: IncomingArcs_def iterations [OF assms] inArcs_def o_def)

lemma heads_iteration:
  assumes "represents n es g" "v < n"
  shows "outgoingHeads g v = Inr (map (\<lambda>a. snd (es ! nat a)) (outArcs es v))"
proof -
  have "rfold (\<lambda>arc heads. rbind (HeadOf g arc) (\<lambda>head. Inr (heads @ [head]))) as hs =
      Inr (hs @ map (\<lambda>a. snd (es ! nat a)) as)" if "set as \<subseteq> set (outArcs es v)" for as hs
    using that
  proof (induction as arbitrary: hs)
    case (Cons a as)
    then obtain i where "a = int i" "i < length es" by (auto simp: arcs_range)
    with Cons show ?case by (simp add: head_tail [OF assms(1)])
  qed simp
  then show ?thesis by (simp add: outgoingHeads_def iterations [OF assms])
qed

section \<open>A graph built by its client\<close>

text \<open>A client makes the graph for some nodes and adds the arcs of a list; nodes are added as arcs name them.\<close>

definition addArcs :: "(nat \<times> nat) list \<Rightarrow> arc_graph \<Rightarrow> fault + arc_graph" where
  "addArcs es = rfold (\<lambda>(t, h) g. rbind (AddArc t h g) (\<lambda>r. Inr (fst r))) es"

definition nodeCount :: "nat \<Rightarrow> (nat \<times> nat) list \<Rightarrow> nat" where
  "nodeCount n es = foldl (\<lambda>n (t, h). max n (Suc (max t h))) n es"

lemma represents_new: "represents n [] (newReverseArcListGraph n arcs)"
  by (auto simp: represents_def newReverseArcListGraph_def FreezeCapacities_def ReserveGraph_def ReserveArcs_def
      ReserveNodes_def rg_empty_def AddNode_def Let_def svector_empty_def kNilArc_def nth_resizeVec outArcs_def inArcs_def)

lemma built_represents:
  "int (length es) \<le> kNilArc \<Longrightarrow>
    \<exists>g. addArcs es (newReverseArcListGraph n arcs) = Inr g \<and> represents (nodeCount n es) es g"
proof (induction es rule: rev_induct)
  case Nil
  then show ?case by (simp add: addArcs_def nodeCount_def represents_new)
next
  case (snoc e es)
  then obtain g where g: "addArcs es (newReverseArcListGraph n arcs) = Inr g" "represents (nodeCount n es) es g"
    by fastforce
  obtain t h where e: "e = (t, h)" by (cases e)
  obtain g' where "AddArc t h g = Inr (g', int (length es))" "represents (max (nodeCount n es) (Suc (max t h))) (es @ [(t, h)]) g'"
    using represents_AddArc [OF g(2)] snoc.prems by fastforce
  then show ?case using g(1) unfolding e by (simp add: addArcs_def rfold_append nodeCount_def)
qed

text \<open>
  A graph that is made for \<open>n\<close> nodes and given the arcs of a list returns them: every iteration over
  a node yields exactly the arcs that leave it, enter it, or both, last added first, with each reverse arc
  named by the complement of the index; the ends and the degrees are those of the list.
\<close>

theorem built_graph_has_its_arcs:
  assumes "int (length es) \<le> kNilArc"
  shows "\<exists>g. addArcs es (newReverseArcListGraph n arcs) = Inr g \<and> AllNodes g = [0..<nodeCount n es] \<and>
    (\<forall>v \<in> set (AllNodes g). OutgoingArcs g v = Inr (outArcs es v) \<and> OppositeIncomingArcs g v = Inr (inArcs es v) \<and>
      IncomingArcs g v = Inr (map OppositeArc (inArcs es v)) \<and> BothArcs g v = Inr (inArcs es v @ outArcs es v) \<and>
      outgoingHeads g v = Inr (map (\<lambda>a. snd (es ! nat a)) (outArcs es v)) \<and>
      OutDegree g v = Inr (length (outArcs es v)) \<and> InDegree g v = Inr (length (inArcs es v))) \<and>
    (\<forall>i < length es. TailOf g (int i) = Inr (fst (es ! i)) \<and> HeadOf g (int i) = Inr (snd (es ! i)) \<and>
      TailOf g (OppositeArc (int i)) = Inr (snd (es ! i)) \<and> HeadOf g (OppositeArc (int i)) = Inr (fst (es ! i)))"
proof -
  obtain g where g: "addArcs es (newReverseArcListGraph n arcs) = Inr g" and r: "represents (nodeCount n es) es g"
    using built_represents [OF assms] by blast
  have "IncomingArcs g v = Inr (map OppositeArc (inArcs es v))" if "v < nodeCount n es" for v
    using iterations(2) [OF r that] by (simp add: IncomingArcs_def)
  with r show ?thesis
    by (intro exI [of _ g])
      (simp add: g AllNodes_def representsD [OF r] iterations [OF r] degrees [OF r] head_tail [OF r]
        heads_iteration [OF r] bothArcs_def)
qed

lemma built_graph_has_its_arcs_witness:
  "\<exists>g. addArcs [(0, 1), (2, 1), (1, 0)] (newReverseArcListGraph 2 0) = Inr g \<and> BothArcs g 1 = Inr [-2, -1, 2]"
proof -
  have v: "nodeCount 2 [(0, 1), (2, 1), (1, 0)] = 3" by (simp add: nodeCount_def)
  have "inArcs [(0, 1), (2, 1), (1, 0)] 1 = [-2, -1]" "outArcs [(0, 1), (2, 1), (1, 0)] 1 = [2]" by code_simp+
  then show ?thesis
    using built_graph_has_its_arcs [of "[(0, 1), (2, 1), (1, 0)]" 2 0] v by (fastforce simp: kNilArc_def)
qed

end
