(* ===== verification/Euler.thy ===== *)
theory Euler
  imports ArcGraph
begin

text \<open>
  Eulerian paths and tours of \<open>ortools/graph/eulerian_path.h\<close> over a graph with reverse arcs. Hierholzer's
  algorithm is shown to return a trail over every edge of a connected graph; the connectivity check is
  shown to count the first node twice.
\<close>

section \<open>Connectivity\<close>

record dfs =
  df_num_visited :: nat
  df_stack :: "nat list"  \<comment> \<open>top first\<close>
  df_visited :: "bool list"

text \<open>The inner loop; \<open>True\<close> means that the function has returned \<open>true\<close>.\<close>

primrec visitNeighbours :: "arc_graph \<Rightarrow> nat \<Rightarrow> int list \<Rightarrow> dfs \<Rightarrow> fault + bool \<times> dfs" where
  "visitNeighbours g n [] d = Inr (False, d)"
| "visitNeighbours g n (arc # arcs) d =
     rbind (HeadOf g arc) (\<lambda>neigh.
     rbind (index_vec (df_visited d) neigh) (\<lambda>seen.
       if seen then visitNeighbours g n arcs d
       else let d' = d\<lparr>df_visited := (df_visited d)[neigh := True], df_stack := neigh # df_stack d,
                       df_num_visited := Suc (df_num_visited d)\<rparr> in
         if df_num_visited d' = n then Inr (True, d') else visitNeighbours g n arcs d'))"

primrec connectedLoop :: "nat \<Rightarrow> arc_graph \<Rightarrow> nat \<Rightarrow> dfs \<Rightarrow> fault + bool" where
  "connectedLoop 0 g n d = Inl NoReturn"
| "connectedLoop (Suc fuel) g n d =
     (case df_stack d of [] \<Rightarrow> Inr False
      | node # stack \<Rightarrow>
          rbind (BothArcs g node) (\<lambda>arcs.
          rbind (visitNeighbours g n arcs (d\<lparr>df_stack := stack\<rparr>)) (\<lambda>(found, d').
            if found then Inr True else connectedLoop fuel g n d')))"

definition GraphIsConnected :: "arc_graph \<Rightarrow> fault + bool" where
  "GraphIsConnected g =
     (let n = rg_num_nodes g in
      if n \<le> 1 then Inr True
      else connectedLoop (n + 2) g n \<lparr>df_num_visited = 1, df_stack = [0], df_visited = replicate n False\<rparr>)"

section \<open>Degrees\<close>

definition nodeDegree :: "arc_graph \<Rightarrow> nat \<Rightarrow> fault + nat" where
  "nodeDegree g node = rbind (OutDegree g node) (\<lambda>out. rbind (InDegree g node) (\<lambda>inc. Inr (out + inc)))"

primrec allEven :: "arc_graph \<Rightarrow> nat list \<Rightarrow> fault + bool" where
  "allEven g [] = Inr True"
| "allEven g (node # nodes) =
     rbind (nodeDegree g node) (\<lambda>degree. if degree mod 2 \<noteq> 0 then Inr False else allEven g nodes)"

definition IsEulerianGraph :: "arc_graph \<Rightarrow> bool \<Rightarrow> fault + bool" where
  "IsEulerianGraph g assume_connectivity =
     rbind (allEven g (AllNodes g)) (\<lambda>even.
       if \<not> even then Inr False else if assume_connectivity then Inr True else GraphIsConnected g)"

definition IsSemiEulerianGraph :: "arc_graph \<Rightarrow> nat list \<Rightarrow> bool \<Rightarrow> fault + bool \<times> nat list" where
  "IsSemiEulerianGraph g odd_nodes assume_connectivity =
     rbind (rfold (\<lambda>node odd_nodes. rbind (nodeDegree g node) (\<lambda>degree.
         Inr (if degree mod 2 \<noteq> 0 then odd_nodes @ [node] else odd_nodes))) (AllNodes g) odd_nodes) (\<lambda>odd_nodes.
       if length odd_nodes > 2 then Inr (False, odd_nodes)
       else if assume_connectivity then Inr (True, odd_nodes)
       else rbind (GraphIsConnected g) (\<lambda>connected. Inr (connected, odd_nodes)))"

section \<open>Paths and tours\<close>

record euler =
  eu_unvisited :: "bool list"  \<comment> \<open>per edge\<close>
  eu_tour :: "nat list"
  eu_stack :: "nat list"  \<comment> \<open>top first\<close>
  eu_active :: "int list"  \<comment> \<open>per node, where to go on looking\<close>

definition edgeOf :: "int \<Rightarrow> nat" where
  "edgeOf arc = nat (if arc < 0 then OppositeArc arc else arc)"

text \<open>The \<open>for\<close> loop over the arcs of a node, from its active arc to the first unvisited edge.\<close>

primrec findUnvisited :: "nat \<Rightarrow> arc_graph \<Rightarrow> bool list \<Rightarrow> nat \<Rightarrow> int \<Rightarrow> fault + int option" where
  "findUnvisited 0 g unvisited node arc = Inl NoReturn"
| "findUnvisited (Suc fuel) g unvisited node arc =
     (if arc = kNilArc then Inr None
      else rbind (index_vec unvisited (edgeOf arc)) (\<lambda>open.
        if open then Inr (Some arc) else rbind (bothNext g node arc) (findUnvisited fuel g unvisited node)))"

definition eulerStep :: "arc_graph \<Rightarrow> nat \<Rightarrow> nat list \<Rightarrow> euler \<Rightarrow> fault + euler" where
  "eulerStep g node below s =
     rbind (index_vec (eu_active s) node) (\<lambda>active.
     rbind (findUnvisited (rangeFuel g) g (eu_unvisited s) node active) (\<lambda>found. case found of
         None \<Rightarrow> Inr (s\<lparr>eu_tour := eu_tour s @ [node], eu_stack := below\<rparr>)
       | Some arc \<Rightarrow>
           rbind (assignAt node arc (eu_active s)) (\<lambda>active_arcs.
           rbind (HeadOf g arc) (\<lambda>head.
           rbind (assignAt (edgeOf arc) False (eu_unvisited s)) (\<lambda>unvisited.
             Inr (s\<lparr>eu_active := active_arcs, eu_stack := head # eu_stack s, eu_unvisited := unvisited\<rparr>))))))"

primrec eulerLoop :: "nat \<Rightarrow> arc_graph \<Rightarrow> euler \<Rightarrow> fault + nat list" where
  "eulerLoop 0 g s = Inl NoReturn"
| "eulerLoop (Suc fuel) g s =
     (case eu_stack s of [] \<Rightarrow> Inr (eu_tour s)
      | node # below \<Rightarrow> rbind (eulerStep g node below s) (eulerLoop fuel g))"

definition initActive :: "arc_graph \<Rightarrow> fault + int list" where
  "initActive g =
     rfold (\<lambda>node active. rbind (bothBegin g node) (\<lambda>arc. assignAt node arc active)) (AllNodes g)
       (replicate (rg_num_nodes g) 0)"

text \<open>An edge is visited once, and every visit pushes one node: the fuel allows for all of them to be popped.\<close>

definition BuildEulerianPathFromNode :: "arc_graph \<Rightarrow> int \<Rightarrow> fault + nat list" where
  "BuildEulerianPathFromNode g root =
     (if IsNodeValid g root then
        rbind (initActive g) (\<lambda>active.
          eulerLoop (2 * rg_num_arcs g + 2) g
            \<lparr>eu_unvisited = replicate (rg_num_arcs g) True, eu_tour = [], eu_stack = [nat root], eu_active = active\<rparr>)
      else Inr [])"

definition BuildEulerianTourFromNode :: "arc_graph \<Rightarrow> int \<Rightarrow> bool \<Rightarrow> fault + nat list" where
  "BuildEulerianTourFromNode g root assume_connectivity =
     rbind (IsEulerianGraph g assume_connectivity) (\<lambda>eulerian.
       if eulerian then BuildEulerianPathFromNode g root else Inr [])"

definition BuildEulerianTour :: "arc_graph \<Rightarrow> bool \<Rightarrow> fault + nat list" where
  "BuildEulerianTour g assume_connectivity = BuildEulerianTourFromNode g 0 assume_connectivity"

definition BuildEulerianPath :: "arc_graph \<Rightarrow> bool \<Rightarrow> fault + nat list" where
  "BuildEulerianPath g assume_connectivity =
     rbind (IsSemiEulerianGraph g [] assume_connectivity) (\<lambda>(semi, roots).
       if semi then BuildEulerianPathFromNode g (if roots = [] then 0 else int (last roots)) else Inr [])"

section \<open>Trails over a list of arcs\<close>

text \<open>Edges join their ends in both directions.\<close>

definition joins :: "(nat \<times> nat) list \<Rightarrow> nat \<Rightarrow> nat \<Rightarrow> nat \<Rightarrow> bool" where
  "joins es k u v \<longleftrightarrow> k < length es \<and> (es ! k = (u, v) \<or> es ! k = (v, u))"

definition adjacent :: "(nat \<times> nat) list \<Rightarrow> (nat \<times> nat) set" where
  "adjacent es = {(u, v). \<exists>k. joins es k u v}"

definition connected :: "nat \<Rightarrow> (nat \<times> nat) list \<Rightarrow> bool" where
  "connected n es \<longleftrightarrow> (\<forall>v < n. (0, v) \<in> (adjacent es)\<^sup>*)"

fun trail :: "(nat \<times> nat) list \<Rightarrow> nat list \<Rightarrow> nat list \<Rightarrow> bool" where
  "trail es [] ks \<longleftrightarrow> False"
| "trail es [v] ks \<longleftrightarrow> ks = []"
| "trail es (u # v # vs) [] \<longleftrightarrow> False"
| "trail es (u # v # vs) (k # ks) \<longleftrightarrow> joins es k u v \<and> trail es (v # vs) ks"

text \<open>A trail over every edge, each once.\<close>

definition eulerTrail :: "(nat \<times> nat) list \<Rightarrow> nat list \<Rightarrow> bool" where
  "eulerTrail es vs \<longleftrightarrow> (\<exists>ks. trail es vs ks \<and> distinct ks \<and> set ks = {..<length es})"

text \<open>How often an edge meets a node, and the degree of a node within a set of edges.\<close>

definition meets :: "(nat \<times> nat) list \<Rightarrow> nat \<Rightarrow> nat \<Rightarrow> nat" where
  "meets es v k = of_bool (fst (es ! k) = v) + of_bool (snd (es ! k) = v)"

definition degreeIn :: "(nat \<times> nat) list \<Rightarrow> nat set \<Rightarrow> nat \<Rightarrow> nat" where
  "degreeIn es U v = (\<Sum>k \<in> U. meets es v k)"

lemma joins_sym: "joins es k u v \<longleftrightarrow> joins es k v u"
  by (auto simp: joins_def)

lemma meets_joins: "joins es k u w \<Longrightarrow> meets es v k = of_bool (u = v) + of_bool (w = v)"
  unfolding joins_def meets_def by (elim conjE disjE) simp_all

lemma trail_no_edges: "trail es vs [] \<longleftrightarrow> length vs = 1"
  by (cases "(es, vs, [] :: nat list)" rule: trail.cases) auto

lemma trail_snoc: "trail es (vs @ [u, v]) (ks @ [k]) \<longleftrightarrow> trail es (vs @ [u]) ks \<and> joins es k u v"
proof (induction vs arbitrary: ks)
  case Nil
  then show ?case by (cases ks; cases "tl ks") (auto simp: trail_no_edges)
next
  case (Cons w vs)
  then show ?case by (cases vs; cases ks) (auto simp: trail_no_edges)
qed

lemma trail_nodes: "trail es vs ks \<Longrightarrow> k \<in> set ks \<Longrightarrow> joins es k u v \<Longrightarrow> u \<in> set vs \<and> v \<in> set vs"
proof (induction es vs ks rule: trail.induct)
  case (4 es u' v' vs k' ks)
  then show ?case by (cases "k = k'") (auto simp: joins_def)
qed auto

lemma joins_degree: "joins es k v w \<Longrightarrow> k \<in> U \<Longrightarrow> finite U \<Longrightarrow> degreeIn es U v \<noteq> 0"
  by (auto simp: degreeIn_def meets_joins intro!: bexI [of _ k])

lemma degree_remove:
  assumes "joins es k u w" "k \<in> U" "finite U"
  shows "degreeIn es U v = of_bool (u = v) + of_bool (w = v) + degreeIn es (U - {k}) v"
  using assms by (simp add: degreeIn_def sum.remove [of U k] meets_joins)

lemma both_arc:
  assumes "represents n es g" "a \<in> set (bothArcs es v)"
  obtains w where "edgeOf a < length es" "HeadOf g a = Inr w" "joins es (edgeOf a) v w" "w < n"
proof -
  from assms(2) consider i where "i < length es" "a = int i" "fst (es ! i) = v"
    | i where "i < length es" "a = OppositeArc (int i)" "snd (es ! i) = v"
    by (auto simp: bothArcs_def arcs_range)
  then show ?thesis
  proof cases
    case 1
    then show ?thesis using that [of "snd (es ! i)"] head_tail [OF assms(1) 1(1)] representsD(5) [OF assms(1) 1(1)]
      by (auto simp: edgeOf_def joins_def prod_eq_iff)
  next
    case 2
    moreover have "OppositeArc (int i) < 0" by (simp add: OppositeArc_def)
    ultimately show ?thesis using that [of "fst (es ! i)"] head_tail [OF assms(1) 2(1)] representsD(5) [OF assms(1) 2(1)]
      by (auto simp: edgeOf_def joins_def prod_eq_iff)
  qed
qed

lemma no_unvisited_arc:
  assumes "\<forall>a \<in> set (bothArcs es v). \<not> un ! edgeOf a"
  shows "degreeIn es {k. k < length es \<and> un ! k} v = 0"
proof -
  have "meets es v k = 0" if k: "k < length es" "un ! k" for k
  proof (rule ccontr)
    assume "meets es v k \<noteq> 0"
    then have "int k \<in> set (bothArcs es v) \<or> OppositeArc (int k) \<in> set (bothArcs es v)"
      using k by (auto simp: meets_def bothArcs_def arcs_range split: if_splits)
    moreover have "edgeOf (int k) = k" "edgeOf (OppositeArc (int k)) = k"
      by (simp_all add: edgeOf_def OppositeArc_def)
    ultimately show False using assms k by auto
  qed
  then show ?thesis by (simp add: degreeIn_def)
qed

lemma find_split:
  "find P xs = Some a \<Longrightarrow> \<exists>zs ws. xs = zs @ a # ws \<and> P a \<and> (\<forall>z \<in> set zs. \<not> P z)"
proof (induction xs)
  case (Cons x xs)
  show ?case
  proof (cases "P x")
    case True
    with Cons.prems show ?thesis by (intro exI [of _ "[]"] exI [of _ xs]) simp
  next
    case False
    with Cons obtain zs ws where "xs = zs @ a # ws" "P a" "\<forall>z \<in> set zs. \<not> P z" by auto
    with False show ?thesis by (intro exI [of _ "x # zs"] exI [of _ ws]) simp
  qed
qed simp

lemma findUnvisited_find:
  "chain (bothNext g v) a ys \<Longrightarrow> length ys < fuel \<Longrightarrow> \<forall>b \<in> set ys. edgeOf b < length un \<Longrightarrow>
    findUnvisited fuel g un v a = Inr (find (\<lambda>b. un ! edgeOf b) ys)"
proof (induction ys arbitrary: a fuel)
  case Nil
  then show ?case by (cases fuel) auto
next
  case (Cons b ys)
  then show ?case by (cases fuel) auto
qed

section \<open>Hierholzer's algorithm\<close>

text \<open>The edges still to be visited, and an active arc before which every edge has been.\<close>

definition openEdges :: "(nat \<times> nat) list \<Rightarrow> euler \<Rightarrow> nat set" where
  "openEdges es s = {k. k < length es \<and> eu_unvisited s ! k}"

definition activeOk :: "(nat \<times> nat) list \<Rightarrow> arc_graph \<Rightarrow> bool list \<Rightarrow> nat \<Rightarrow> int \<Rightarrow> bool" where
  "activeOk es g un v a \<longleftrightarrow>
     (\<exists>xs ys. bothArcs es v = xs @ ys \<and> chain (bothNext g v) a ys \<and> (\<forall>b \<in> set xs. \<not> un ! edgeOf b))"

text \<open>
  The stack and the tour are trails over the visited edges. The tour goes on to the gap node, where the
  open walk that the stack ends with began; the two ends of that walk are the only nodes of odd degree among
  the unvisited edges.
\<close>

definition eulerShape :: "nat \<Rightarrow> (nat \<times> nat) list \<Rightarrow> arc_graph \<Rightarrow> euler \<Rightarrow> bool" where
  "eulerShape n es g s \<longleftrightarrow> length (eu_unvisited s) = length es \<and> length (eu_active s) = n \<and>
     (\<forall>v < n. activeOk es g (eu_unvisited s) v (eu_active s ! v)) \<and> set (eu_stack s) \<subseteq> {..<n} \<and>
     (\<forall>v \<in> set (eu_tour s). degreeIn es (openEdges es s) v = 0)"

definition eulerWalk :: "(nat \<times> nat) list \<Rightarrow> nat \<Rightarrow> nat \<Rightarrow> euler \<Rightarrow> nat list \<Rightarrow> nat list \<Rightarrow> nat \<Rightarrow> bool" where
  "eulerWalk es root start s tk sk gap \<longleftrightarrow>
     distinct (tk @ sk) \<and> set (tk @ sk) = {..<length es} - openEdges es s \<and>
     trail es (eu_stack s) sk \<and> last (eu_stack s) = root \<and>
     trail es (eu_tour s @ [gap]) tk \<and> hd (eu_tour s @ [gap]) = start \<and>
     (\<forall>v. odd (degreeIn es (openEdges es s) v) \<longleftrightarrow> (v = hd (eu_stack s)) \<noteq> (v = gap))"

definition eulerDone :: "(nat \<times> nat) list \<Rightarrow> nat \<Rightarrow> nat \<Rightarrow> euler \<Rightarrow> bool" where
  "eulerDone es root start s \<longleftrightarrow> eu_stack s = [] \<and> hd (eu_tour s) = start \<and> last (eu_tour s) = root \<and> eu_tour s \<noteq> [] \<and>
     (\<forall>v \<in> set (eu_tour s). degreeIn es (openEdges es s) v = 0) \<and>
     (\<exists>tk. distinct tk \<and> set tk = {..<length es} - openEdges es s \<and> trail es (eu_tour s) tk)"

lemma finite_openEdges [simp]: "finite (openEdges es s)"
  by (simp add: openEdges_def)

lemma activeOk_mono: "activeOk es g un v a \<Longrightarrow> (\<And>j. \<not> un ! j \<Longrightarrow> \<not> un' ! j) \<Longrightarrow> activeOk es g un' v a"
  unfolding activeOk_def by blast

lemma look_at_top:
  assumes r: "represents n es g" and s: "eulerShape n es g s" "v < n"
  obtains
    (none) "findUnvisited (rangeFuel g) g (eu_unvisited s) v (eu_active s ! v) = Inr None"
      "degreeIn es (openEdges es s) v = 0"
  | (some) arc xs ys where "findUnvisited (rangeFuel g) g (eu_unvisited s) v (eu_active s ! v) = Inr (Some arc)"
      "eu_unvisited s ! edgeOf arc" "bothArcs es v = xs @ arc # ys" "chain (bothNext g v) arc (arc # ys)"
      "\<forall>b \<in> set xs. \<not> eu_unvisited s ! edgeOf b"
proof -
  obtain xs ys where xs: "bothArcs es v = xs @ ys" "chain (bothNext g v) (eu_active s ! v) ys"
    "\<forall>b \<in> set xs. \<not> eu_unvisited s ! edgeOf b"
    using s by (auto simp: eulerShape_def activeOk_def)
  have "length (bothArcs es v) \<le> 2 * length es"
    using length_arcs [of es v] by (simp add: bothArcs_def)
  then have fuel: "length ys < rangeFuel g" using xs(1) by (simp add: rangeFuel_def representsD(2) [OF r])
  have "edgeOf b < length (eu_unvisited s)" if "b \<in> set ys" for b
  proof -
    have "b \<in> set (bothArcs es v)" using that xs(1) by simp
    from both_arc [OF r this] show ?thesis using s(1) by (auto simp: eulerShape_def)
  qed
  then have "\<forall>b \<in> set ys. edgeOf b < length (eu_unvisited s)" by blast
  note found = findUnvisited_find [OF xs(2) fuel this]
  show ?thesis
  proof (cases "find (\<lambda>b. eu_unvisited s ! edgeOf b) ys")
    case None
    then have "\<forall>b \<in> set (bothArcs es v). \<not> eu_unvisited s ! edgeOf b" using xs by (auto simp: find_None_iff)
    then show ?thesis using none found None no_unvisited_arc by (simp add: openEdges_def)
  next
    case (Some arc)
    then obtain zs ws where "ys = zs @ arc # ws" "eu_unvisited s ! edgeOf arc" "\<forall>z \<in> set zs. \<not> eu_unvisited s ! edgeOf z"
      using find_split by fastforce
    then show ?thesis
      using some [of arc "xs @ zs" ws] found Some xs chain_from [of "bothNext g v" "eu_active s ! v" zs arc ws] by auto
  qed
qed

lemma pop_node:
  assumes shape: "eulerShape n es g s" and walk: "eulerWalk es root start s tk sk gap"
    and stack: "eu_stack s = u # below" and zero: "degreeIn es (openEdges es s) u = 0"
  defines "s' \<equiv> s\<lparr>eu_tour := eu_tour s @ [u], eu_stack := below\<rparr>"
  shows "eulerShape n es g s'" "below = [] \<Longrightarrow> eulerDone es root start s'"
    "below \<noteq> [] \<Longrightarrow> \<exists>tk sk gap. eulerWalk es root start s' tk sk gap"
proof -
  have same: "openEdges es s' = openEdges es s" by (simp add: openEdges_def s'_def)
  show "eulerShape n es g s'"
    using shape stack zero unfolding eulerShape_def same by (auto simp: s'_def)
  have "even (degreeIn es (openEdges es s) u)" using zero by simp
  then have gap: "gap = u" using walk stack by (auto simp: eulerWalk_def)
  note w = walk [unfolded eulerWalk_def stack gap]
  {
    assume [simp]: "below = []"
    have sk: "sk = []" using w by simp
    have "\<forall>v \<in> set (eu_tour s @ [u]). degreeIn es (openEdges es s) v = 0"
      using zero shape by (auto simp: eulerShape_def)
    moreover have "\<exists>tk. distinct tk \<and> set tk = {..<length es} - openEdges es s \<and> trail es (eu_tour s @ [u]) tk"
      using w unfolding sk append_Nil2 by blast
    ultimately show "eulerDone es root start s'"
      using w unfolding eulerDone_def same by (auto simp: s'_def)
  next
    assume "below \<noteq> []"
    then obtain q rest where below: "below = q # rest" by (cases below) auto
    obtain k ks where sk: "sk = k # ks" "joins es k u q" "trail es (q # rest) ks"
      using w unfolding below by (cases sk) auto
    have "trail es ((eu_tour s @ [u]) @ [q]) (tk @ [k])" using w sk(2) by (simp add: trail_snoc)
    moreover have "distinct ((tk @ [k]) @ ks)" "set ((tk @ [k]) @ ks) = {..<length es} - openEdges es s"
      using w by (auto simp: sk(1))
    moreover have "hd ((eu_tour s @ [u]) @ [q]) = start" using w by (cases "eu_tour s") auto
    ultimately have "eulerWalk es root start s' (tk @ [k]) ks q"
      unfolding eulerWalk_def same using w sk(3) by (simp add: s'_def below)
    then show "\<exists>tk sk gap. eulerWalk es root start s' tk sk gap" by blast
  }
qed

lemma push_node:
  assumes shape: "eulerShape n es g s" and walk: "eulerWalk es root start s tk sk gap"
    and stack: "eu_stack s = u # below" and k: "joins es k u w" "eu_unvisited s ! k" "w < n"
    and arc: "bothArcs es u = xs @ arc # ys" "chain (bothNext g u) arc (arc # ys)"
      "\<forall>b \<in> set xs. \<not> eu_unvisited s ! edgeOf b"
  defines "s' \<equiv> s\<lparr>eu_active := (eu_active s)[u := arc], eu_stack := w # eu_stack s,
      eu_unvisited := (eu_unvisited s)[k := False]\<rparr>"
  shows "eulerShape n es g s'" "eulerWalk es root start s' tk (k # sk) gap"
    "openEdges es s' = openEdges es s - {k}" "k \<in> openEdges es s"
proof -
  have len: "length (eu_unvisited s) = length es" using shape by (simp add: eulerShape_def)
  have kin: "k < length es" using k(1) by (simp add: joins_def)
  show in_open: "k \<in> openEdges es s" using kin k(2) by (simp add: openEdges_def)
  show remove: "openEdges es s' = openEdges es s - {k}"
    using kin len by (auto simp: openEdges_def s'_def nth_list_update)
  note deg = degree_remove [OF k(1) in_open finite_openEdges]
  have less: "\<not> (eu_unvisited s)[k := False] ! j" if "\<not> eu_unvisited s ! j" for j
    using that kin len by (cases "j = k") auto
  have "activeOk es g (eu_unvisited s') v (eu_active s' ! v)" if "v < n" for v
  proof (cases "v = u")
    case True
    have "activeOk es g (eu_unvisited s') u arc"
      unfolding activeOk_def using arc less by (intro exI [of _ xs] exI [of _ "arc # ys"]) (auto simp: s'_def)
    then show ?thesis using True that shape by (simp add: s'_def eulerShape_def)
  next
    case False
    have "activeOk es g (eu_unvisited s) v (eu_active s ! v)" using shape that by (simp add: eulerShape_def)
    from activeOk_mono [OF this less] show ?thesis using False by (simp add: s'_def)
  qed
  moreover have "degreeIn es (openEdges es s') v = 0" if "v \<in> set (eu_tour s)" for v
    using shape that deg [of v] unfolding remove eulerShape_def by auto
  ultimately show "eulerShape n es g s'"
    using shape k(3) unfolding eulerShape_def by (simp add: s'_def)
  note w = walk [unfolded eulerWalk_def stack]
  have "odd (degreeIn es (openEdges es s') v) \<longleftrightarrow> (v = w) \<noteq> (v = gap)" for v
  proof -
    have "odd (degreeIn es (openEdges es s) v) \<longleftrightarrow> (v = u) \<noteq> (v = gap)" using w by simp
    then show ?thesis unfolding remove deg [of v] by (auto split: if_splits)
  qed
  moreover have "set (tk @ k # sk) = {..<length es} - openEdges es s'" "distinct (tk @ k # sk)"
    using w kin in_open unfolding remove by auto
  moreover have "trail es (w # u # below) (k # sk)" using w k(1) joins_sym by auto
  ultimately show "eulerWalk es root start s' tk (k # sk) gap"
    unfolding eulerWalk_def using w by (simp add: s'_def stack)
qed

lemma euler_step:
  assumes r: "represents n es g" and shape: "eulerShape n es g s" and walk: "eulerWalk es root start s tk sk gap"
    and stack: "eu_stack s = u # below"
  obtains s' where "eulerStep g u below s = Inr s'" "eulerShape n es g s'"
    "eulerDone es root start s' \<or> (\<exists>tk sk gap. eu_stack s' \<noteq> [] \<and> eulerWalk es root start s' tk sk gap)"
    "2 * card (openEdges es s') + length (eu_stack s') < 2 * card (openEdges es s) + length (eu_stack s)"
proof -
  have u: "u < n" "length (eu_active s) = n" using shape stack by (auto simp: eulerShape_def)
  from r shape u(1) show ?thesis
  proof (cases rule: look_at_top)
    case none
    let ?s = "s\<lparr>eu_tour := eu_tour s @ [u], eu_stack := below\<rparr>"
    have "eulerStep g u below s = Inr ?s" using none(1) u by (simp add: eulerStep_def)
    moreover have "openEdges es ?s = openEdges es s" by (simp add: openEdges_def)
    ultimately show ?thesis
      using that [of ?s] pop_node [OF shape walk stack none(2)] stack by (cases "below = []") auto
  next
    case (some arc xs ys)
    have "arc \<in> set (bothArcs es u)" using some(3) by simp
    from both_arc [OF r this] obtain w where w: "edgeOf arc < length es" "HeadOf g arc = Inr w" "joins es (edgeOf arc) u w" "w < n" .
    let ?s = "s\<lparr>eu_active := (eu_active s)[u := arc], eu_stack := w # eu_stack s,
      eu_unvisited := (eu_unvisited s)[edgeOf arc := False]\<rparr>"
    have "length (eu_unvisited s) = length es" using shape by (simp add: eulerShape_def)
    then have "eulerStep g u below s = Inr ?s" using some(1) u w by (simp add: eulerStep_def)
    moreover note push = push_node [OF shape walk stack w(3) some(2) w(4) some(3-5)]
    moreover have "card (openEdges es s) = Suc (card (openEdges es ?s))"
      using push(3,4) card_Suc_Diff1 [OF finite_openEdges push(4)] by simp
    ultimately show ?thesis using that [of ?s] by auto
  qed
qed

lemma euler_loop:
  assumes "represents n es g"
  shows "eulerShape n es g s \<Longrightarrow>
    eulerDone es root start s \<or> (\<exists>tk sk gap. eu_stack s \<noteq> [] \<and> eulerWalk es root start s tk sk gap) \<Longrightarrow>
    2 * card (openEdges es s) + length (eu_stack s) < fuel \<Longrightarrow>
    \<exists>s'. eulerLoop fuel g s = Inr (eu_tour s') \<and> eulerDone es root start s'"
proof (induction fuel arbitrary: s)
  case (Suc fuel)
  show ?case
  proof (cases "eu_stack s")
    case Nil
    with Suc.prems(2) show ?thesis by auto
  next
    case (Cons u below)
    then obtain tk sk gap where "eulerWalk es root start s tk sk gap"
      using Suc.prems(2) by (auto simp: eulerDone_def)
    from euler_step [OF assms Suc.prems(1) this Cons] obtain s' where s': "eulerStep g u below s = Inr s'"
      "eulerShape n es g s'"
      "eulerDone es root start s' \<or> (\<exists>tk sk gap. eu_stack s' \<noteq> [] \<and> eulerWalk es root start s' tk sk gap)"
      "2 * card (openEdges es s') + length (eu_stack s') < 2 * card (openEdges es s) + length (eu_stack s)" .
    have "2 * card (openEdges es s') + length (eu_stack s') < fuel" using s'(4) Suc.prems(3) by simp
    from Suc.IH [OF s'(2,3) this] show ?thesis by (simp add: Cons s'(1))
  qed
qed simp

section \<open>The path from a node\<close>

lemma initActive_begins:
  assumes "represents n es g"
  obtains active where "initActive g = Inr active" "length active = n" "\<forall>v < n. bothBegin g v = Inr (active ! v)"
proof -
  have "\<exists>i. bothBegin g v = Inr i" if "v < n" for v using both_chain [OF assms that] by metis
  then obtain h where h: "bothBegin g v = Inr (h v)" if "v < n" for v by metis
  have "rfold (\<lambda>node active. rbind (bothBegin g node) (\<lambda>arc. assignAt node arc active)) [0..<j] a =
      Inr (map h [0..<j] @ drop j a)" if "length a = n" "j \<le> n" for j and a :: "int list"
    using that(2)
  proof (induction j)
    case (Suc j)
    then have "drop j a = a ! j # drop (Suc j) a" using that(1) by (intro Cons_nth_drop_Suc [symmetric]) simp
    with Suc that(1) h [of j] show ?case by (simp add: rfold_append list_update_append)
  qed simp
  from this [of "replicate n 0" n] have "initActive g = Inr (map h [0..<n])"
    by (simp add: initActive_def AllNodes_def representsD(1) [OF assms])
  then show ?thesis using that [of "map h [0..<n]"] h by simp
qed

lemma length_filter_sum: "length (filter P (rev [0..<m])) = (\<Sum>k < m. of_bool (P k))"
  by (induction m) auto

lemma degreeIn_arcs: "degreeIn es {..<length es} v = length (outArcs es v) + length (inArcs es v)"
  by (simp add: degreeIn_def meets_def sum.distrib outArcs_def inArcs_def length_filter_sum)

lemma nodeDegree_degree:
  "represents n es g \<Longrightarrow> v < n \<Longrightarrow> nodeDegree g v = Inr (degreeIn es {..<length es} v)"
  by (simp add: nodeDegree_def degrees degreeIn_arcs)

lemma connected_from:
  assumes "connected n es" "u < n" "v < n"
  shows "(u, v) \<in> (adjacent es)\<^sup>*"
proof -
  have "sym (adjacent es)" by (auto simp: sym_def adjacent_def joins_sym)
  then have "sym ((adjacent es)\<^sup>*)" by (rule sym_rtrancl)
  moreover have "(0, u) \<in> (adjacent es)\<^sup>*" "(0, v) \<in> (adjacent es)\<^sup>*"
    using assms by (auto simp: connected_def)
  ultimately show ?thesis by (meson rtrancl_trans symD)
qed

lemma done_all:
  assumes fin: "eulerDone es root start s" and reach: "\<And>v. v < n \<Longrightarrow> (root, v) \<in> (adjacent es)\<^sup>*"
    and nodes: "\<And>k. k < length es \<Longrightarrow> fst (es ! k) < n"
  shows "openEdges es s = {}"
proof -
  obtain tk where tk: "set tk = {..<length es} - openEdges es s" "trail es (eu_tour s) tk"
    using fin by (auto simp: eulerDone_def)
  have closed: "k \<notin> openEdges es s \<and> v \<in> set (eu_tour s)" if "u \<in> set (eu_tour s)" "joins es k u v" for u v k
  proof -
    have "degreeIn es (openEdges es s) u = 0" using fin that(1) by (simp add: eulerDone_def)
    then have "k \<notin> openEdges es s" using joins_degree [OF that(2) _ finite_openEdges] by metis
    moreover have "k < length es" using that(2) by (simp add: joins_def)
    ultimately show ?thesis using trail_nodes [OF tk(2) _ that(2)] tk(1) by auto
  qed
  have "v \<in> set (eu_tour s)" if "(root, v) \<in> (adjacent es)\<^sup>*" for v
    using that
  proof (induction rule: rtrancl_induct)
    case base
    then show ?case using fin last_in_set by (fastforce simp: eulerDone_def)
  next
    case (step u v)
    then show ?case using closed by (auto simp: adjacent_def)
  qed
  then have "k \<notin> openEdges es s" if "k < length es" for k
    using closed [of "fst (es ! k)" k "snd (es ! k)"] reach [OF nodes [OF that]] that by (simp add: joins_def)
  then show ?thesis by (auto simp: openEdges_def)
qed

lemma path_from_node:
  assumes r: "represents n es g" and root: "root < n" and conn: "connected n es"
    and parity: "\<And>v. odd (degreeIn es {..<length es} v) \<longleftrightarrow> (v = root) \<noteq> (v = start)"
  shows "\<exists>tour. BuildEulerianPathFromNode g (int root) = Inr tour \<and> eulerTrail es tour \<and> hd tour = start \<and> last tour = root"
proof -
  obtain active where active: "initActive g = Inr active" "length active = n" "\<forall>v < n. bothBegin g v = Inr (active ! v)"
    using initActive_begins [OF r] .
  let ?s = "\<lparr>eu_unvisited = replicate (length es) True, eu_tour = [], eu_stack = [root], eu_active = active\<rparr>"
  have opens: "openEdges es ?s = {..<length es}" by (auto simp: openEdges_def)
  have "activeOk es g (replicate (length es) True) v (active ! v)" if v: "v < n" for v
  proof -
    obtain i where "bothBegin g v = Inr i" "chain (bothNext g v) i (bothArcs es v)" using both_chain [OF r v] .
    then show ?thesis using active(3) v by (auto simp: activeOk_def intro: exI [of _ "[]"])
  qed
  then have shape: "eulerShape n es g ?s" using active(2) root by (simp add: eulerShape_def)
  have "eulerWalk es root start ?s [] [] start"
    unfolding eulerWalk_def opens using parity by simp
  then have walk: "\<exists>tk sk gap. eu_stack ?s \<noteq> [] \<and> eulerWalk es root start ?s tk sk gap" by fastforce
  have "2 * card (openEdges es ?s) + length (eu_stack ?s) < 2 * rg_num_arcs g + 2"
    unfolding opens using representsD(2) [OF r] by simp
  from euler_loop [OF r shape disjI2 [OF walk] this] obtain s' where
    run: "eulerLoop (2 * rg_num_arcs g + 2) g ?s = Inr (eu_tour s')" and fin: "eulerDone es root start s'" by blast
  have "openEdges es s' = {}"
    using done_all [OF fin connected_from [OF conn root]] representsD(5) [OF r] by blast
  then have "eulerTrail es (eu_tour s')" using fin by (auto simp: eulerDone_def eulerTrail_def)
  moreover have "BuildEulerianPathFromNode g (int root) = Inr (eu_tour s')"
    using run active(1) root representsD(1,2) [OF r]
    by (simp add: BuildEulerianPathFromNode_def IsNodeValid_def)
  ultimately show ?thesis using fin by (auto simp: eulerDone_def)
qed

section \<open>The nodes of odd degree\<close>

definition oddNodes :: "nat \<Rightarrow> (nat \<times> nat) list \<Rightarrow> nat list" where
  "oddNodes n es = filter (\<lambda>v. odd (length (outArcs es v) + length (inArcs es v))) [0..<n]"

lemma oddNodes_degree: "v \<in> set (oddNodes n es) \<longleftrightarrow> v < n \<and> odd (degreeIn es {..<length es} v)"
  by (auto simp: oddNodes_def degreeIn_arcs)

lemma degree_outside: "represents n es g \<Longrightarrow> n \<le> v \<Longrightarrow> degreeIn es {..<length es} v = 0"
  using representsD(5) by (fastforce simp: degreeIn_def meets_def)

lemma even_oddNodes:
  assumes "represents n es g"
  shows "even (length (oddNodes n es))"
proof -
  have "(\<Sum>v < n. meets es v k) = 2" if "k < length es" for k
    using representsD(5) [OF assms that] by (simp add: meets_def sum.distrib)
  then have "(\<Sum>v < n. degreeIn es {..<length es} v) = 2 * length es"
    unfolding degreeIn_def by (subst sum.swap) simp
  then have "even (card {v \<in> {..<n}. odd (degreeIn es {..<length es} v)})"
    using even_sum_iff [of "{..<n}" "degreeIn es {..<length es}"] by simp
  moreover have "{v \<in> {..<n}. odd (degreeIn es {..<length es} v)} = set (oddNodes n es)"
    by (auto simp: oddNodes_degree)
  moreover have "distinct (oddNodes n es)" by (simp add: oddNodes_def)
  ultimately show ?thesis by (simp add: distinct_card)
qed

lemma odd_ends:
  assumes "represents n es g" "length (oddNodes n es) \<le> 2" "0 < n"
  defines "ends \<equiv> if oddNodes n es = [] then [0] else oddNodes n es"
  shows "odd (degreeIn es {..<length es} v) \<longleftrightarrow> (v = last ends) \<noteq> (v = hd ends)" "last ends < n"
proof -
  have "length (oddNodes n es) \<noteq> 1" using even_oddNodes [OF assms(1)] by auto
  with assms(2) consider "oddNodes n es = []" | a b where "oddNodes n es = [a, b]"
    by (cases "oddNodes n es"; cases "tl (oddNodes n es)") auto
  note shapes = this
  have "odd (degreeIn es {..<length es} v) \<longleftrightarrow> v \<in> set (oddNodes n es)"
    using degree_outside [OF assms(1), of v] by (cases "v < n") (auto simp: oddNodes_degree)
  then show "odd (degreeIn es {..<length es} v) \<longleftrightarrow> (v = last ends) \<noteq> (v = hd ends)"
  proof (cases rule: shapes)
    case (2 a b)
    moreover have "distinct (oddNodes n es)" by (simp add: oddNodes_def)
    ultimately show ?thesis using \<open>odd _ \<longleftrightarrow> _\<close> by (auto simp: ends_def)
  qed (simp add: ends_def)
  show "last ends < n"
  proof (cases "oddNodes n es = []")
    case False
    then show ?thesis using oddNodes_degree [of "last ends" n es] last_in_set [OF False] by (simp add: ends_def)
  qed (simp add: ends_def assms(3))
qed

lemma allEven_even:
  "represents n es g \<Longrightarrow> set vs \<subseteq> {..<n} \<Longrightarrow>
    allEven g vs = Inr (\<forall>v \<in> set vs. even (degreeIn es {..<length es} v))"
  by (induction vs) (auto simp: nodeDegree_degree even_iff_mod_2_eq_zero)

lemma even_graph: "represents n es g \<Longrightarrow> allEven g (AllNodes g) = Inr (oddNodes n es = [])"
  by (subst allEven_even) (auto simp: AllNodes_def representsD(1) oddNodes_def filter_empty_conv degreeIn_arcs)

lemma collect_odd:
  "\<forall>v \<in> set vs. nodeDegree g v = Inr (d v) \<Longrightarrow>
    rfold (\<lambda>node odd_nodes. rbind (nodeDegree g node) (\<lambda>degree.
      Inr (if degree mod 2 \<noteq> 0 then odd_nodes @ [node] else odd_nodes))) vs acc = Inr (acc @ filter (\<lambda>v. odd (d v)) vs)"
  by (induction vs arbitrary: acc) (auto simp: odd_iff_mod_2_eq_one)

lemma semi_graph:
  assumes "represents n es g"
  shows "IsSemiEulerianGraph g [] True = Inr (length (oddNodes n es) \<le> 2, oddNodes n es)"
proof -
  have "\<forall>v \<in> set (AllNodes g). nodeDegree g v = Inr (length (outArcs es v) + length (inArcs es v))"
    using nodeDegree_degree [OF assms] by (simp add: AllNodes_def representsD(1) [OF assms] degreeIn_arcs)
  from collect_odd [OF this, of "[]"] show ?thesis
    unfolding IsSemiEulerianGraph_def oddNodes_def AllNodes_def representsD(1) [OF assms] by simp
qed

text \<open>C39: On a connected graph the path function returns a trail over every edge, each once, when at most
  two nodes have an odd degree: from the first of them to the last, or from node 0 and back when there are none. It
  returns an empty path when there are more.
\<close>

theorem euler_path_correct:
  assumes "addArcs es (newReverseArcListGraph n arcs) = Inr g" "int (length es) \<le> kNilArc"
    and "0 < nodeCount n es" "connected (nodeCount n es) es"
  shows "if length (oddNodes (nodeCount n es) es) \<le> 2
    then \<exists>path. BuildEulerianPath g True = Inr path \<and> eulerTrail es path \<and>
      (let ends = if oddNodes (nodeCount n es) es = [] then [0] else oddNodes (nodeCount n es) es in
        hd path = hd ends \<and> last path = last ends)
    else BuildEulerianPath g True = Inr []"
proof -
  let ?n = "nodeCount n es"
  have r: "represents ?n es g" using built_represents [OF assms(2), of n arcs] assms(1) by auto
  show ?thesis
  proof (cases "length (oddNodes ?n es) \<le> 2")
    case True
    from path_from_node [OF r odd_ends(2) [OF r True assms(3)] assms(4) odd_ends(1) [OF r True assms(3)]]
    show ?thesis using True by (auto simp: BuildEulerianPath_def semi_graph [OF r] Let_def split: if_splits)
  qed (simp add: BuildEulerianPath_def semi_graph [OF r])
qed

lemma adjacent_set: "adjacent es = set es \<union> (set es)\<inverse>"
  by (fastforce simp: adjacent_def joins_def in_set_conv_nth)

lemma path_example: "nodeCount 3 [(0, 1), (2, 1)] = 3" "connected 3 [(0, 1), (2, 1)]"
proof -
  let ?es = "[(0, 1), (2, 1)] :: (nat \<times> nat) list"
  show "nodeCount 3 ?es = 3" by (simp add: nodeCount_def)
  have "(0, 1) \<in> adjacent ?es" "(1, 2) \<in> adjacent ?es" by (simp_all add: adjacent_set)
  then have "(0, v) \<in> (adjacent ?es)\<^sup>*" if "v = 0 \<or> v = 1 \<or> v = 2" for v
    using that by (auto intro: rtrancl_trans)
  moreover have "v = 0 \<or> v = 1 \<or> v = 2" if "v < 3" for v :: nat using that by linarith
  ultimately show "connected 3 ?es" by (simp add: connected_def)
qed

lemma euler_path_correct_witness:
  "\<exists>g path. addArcs [(0, 1), (2, 1)] (newReverseArcListGraph 3 2) = Inr g \<and> BuildEulerianPath g True = Inr path \<and>
    eulerTrail [(0, 1), (2, 1)] path \<and> hd path = 0 \<and> last path = 2"
proof -
  obtain g where g: "addArcs [(0, 1), (2, 1)] (newReverseArcListGraph 3 2) = Inr g"
    using built_represents [of "[(0, 1), (2, 1)]" 3 2] by (auto simp: kNilArc_def)
  have "oddNodes 3 [(0, 1), (2, 1)] = [0, 2]" by code_simp
  then show ?thesis using euler_path_correct [OF g] path_example g by (simp add: kNilArc_def)
qed

text \<open>
  On a connected graph the tour function returns, for any node to start from, a trail over every edge that
  begins and ends there when every degree is even, and an empty tour otherwise.
\<close>

theorem euler_tour_correct:
  assumes "addArcs es (newReverseArcListGraph n arcs) = Inr g" "int (length es) \<le> kNilArc"
    and "root < nodeCount n es" "connected (nodeCount n es) es"
  shows "if oddNodes (nodeCount n es) es = []
    then \<exists>tour. BuildEulerianTourFromNode g (int root) True = Inr tour \<and> eulerTrail es tour \<and> hd tour = root \<and> last tour = root
    else BuildEulerianTourFromNode g (int root) True = Inr []"
proof -
  let ?n = "nodeCount n es"
  have r: "represents ?n es g" using built_represents [OF assms(2), of n arcs] assms(1) by auto
  have even: "even (degreeIn es {..<length es} v)" if "oddNodes ?n es = []" for v
    using degree_outside [OF r, of v] oddNodes_degree [of v ?n es] that by (cases "v < ?n") auto
  have "IsEulerianGraph g True = Inr (oddNodes ?n es = [])"
    by (simp add: IsEulerianGraph_def even_graph [OF r])
  then show ?thesis
    using path_from_node [OF r assms(3,4), of root] even by (auto simp: BuildEulerianTourFromNode_def)
qed

lemma euler_tour_correct_witness:
  "\<exists>g tour. addArcs [(0, 1), (2, 1), (1, 0), (1, 2)] (newReverseArcListGraph 3 4) = Inr g \<and>
    BuildEulerianTourFromNode g 1 True = Inr tour \<and> eulerTrail [(0, 1), (2, 1), (1, 0), (1, 2)] tour \<and>
    hd tour = 1 \<and> last tour = 1"
proof -
  let ?es = "[(0, 1), (2, 1), (1, 0), (1, 2)] :: (nat \<times> nat) list"
  obtain g where g: "addArcs ?es (newReverseArcListGraph 3 4) = Inr g"
    using built_represents [of ?es 3 4] by (auto simp: kNilArc_def)
  have n: "nodeCount 3 ?es = 3" by (simp add: nodeCount_def)
  have "adjacent [(0, 1), (2, 1)] \<subseteq> adjacent ?es"
    by (auto simp: adjacent_set)
  then have "connected 3 ?es"
    using path_example(2) rtrancl_mono unfolding connected_def by blast
  moreover have "oddNodes 3 ?es = []" by code_simp
  ultimately show ?thesis
    using euler_tour_correct [OF g, of 1] g by (simp add: n kNilArc_def del: One_nat_def)
qed

section \<open>What the connectivity check counts\<close>

definition visitedNodes :: "nat \<Rightarrow> dfs \<Rightarrow> nat set" where
  "visitedNodes n d = {v. v < n \<and> df_visited d ! v}"

definition counted :: "nat \<Rightarrow> dfs \<Rightarrow> bool" where
  "counted n d \<longleftrightarrow> length (df_visited d) = n \<and> df_num_visited d = Suc (card (visitedNodes n d))"

lemma finite_visitedNodes [simp]: "finite (visitedNodes n d)"
  by (simp add: visitedNodes_def)

text \<open>The inner loop visits every neighbour that is new, unless it finds the last node to count.\<close>

definition visits :: "nat \<Rightarrow> nat set \<Rightarrow> dfs \<Rightarrow> bool \<Rightarrow> dfs \<Rightarrow> bool" where
  "visits n heads d found d' \<longleftrightarrow> counted n d' \<and> visitedNodes n d' \<subseteq> visitedNodes n d \<union> heads \<and>
    (if found then df_num_visited d' = n
     else visitedNodes n d' = visitedNodes n d \<union> heads \<and>
       (df_num_visited d < n \<longrightarrow> df_num_visited d' < n) \<and>
       set (df_stack d') = set (df_stack d) \<union> (visitedNodes n d' - visitedNodes n d) \<and>
       length (df_stack d') + df_num_visited d = length (df_stack d) + df_num_visited d')"

lemma visit_neighbours:
  "\<forall>a \<in> set as. HeadOf g a = Inr (h a) \<and> h a < n \<Longrightarrow> counted n d \<Longrightarrow>
    \<exists>found d'. visitNeighbours g n as d = Inr (found, d') \<and> visits n (h ` set as) d found d'"
proof (induction as arbitrary: d)
  case Nil
  then have "visits n (h ` set []) d False d" by (simp add: visits_def)
  then show ?case by auto
next
  case (Cons a as)
  have len: "length (df_visited d) = n" using Cons.prems(2) by (simp add: counted_def)
  have a: "HeadOf g a = Inr (h a)" "h a < n" and as: "\<forall>a \<in> set as. HeadOf g a = Inr (h a) \<and> h a < n"
    using Cons.prems(1) by auto
  show ?case
  proof (cases "df_visited d ! h a")
    case True
    then have "h a \<in> visitedNodes n d" using a(2) by (simp add: visitedNodes_def)
    then have "visitedNodes n d \<union> h ` set (a # as) = visitedNodes n d \<union> h ` set as" by auto
    then have "visits n (h ` set (a # as)) d = visits n (h ` set as) d"
      by (intro ext) (simp only: visits_def)
    moreover have "visitNeighbours g n (a # as) d = visitNeighbours g n as d" using True len a by simp
    ultimately show ?thesis using Cons.IH [OF as Cons.prems(2)] by (simp only:)
  next
    case False
    define d1 where "d1 = d\<lparr>df_visited := (df_visited d)[h a := True], df_stack := h a # df_stack d,
      df_num_visited := Suc (df_num_visited d)\<rparr>"
    have new: "h a \<notin> visitedNodes n d" "visitedNodes n d1 = insert (h a) (visitedNodes n d)"
      "df_stack d1 = h a # df_stack d" "df_num_visited d1 = Suc (df_num_visited d)"
      using False a(2) len by (auto simp: visitedNodes_def nth_list_update d1_def)
    then have c: "counted n d1" using Cons.prems(2) len by (simp add: counted_def d1_def)
    have step: "visitNeighbours g n (a # as) d =
        (if Suc (df_num_visited d) = n then Inr (True, d1) else visitNeighbours g n as d1)"
      using False len a by (simp add: Let_def d1_def)
    show ?thesis
    proof (cases "Suc (df_num_visited d) = n")
      case True
      then have "visits n (h ` set (a # as)) d True d1" using c new by (auto simp: visits_def)
      then show ?thesis using step True by auto
    next
      case more: False
      obtain found d' where d': "visitNeighbours g n as d1 = Inr (found, d')" "visits n (h ` set as) d1 found d'"
        using Cons.IH [OF as c] by blast
      have "visits n (h ` set (a # as)) d found d'"
        using d'(2) new more unfolding visits_def by (cases found) auto
      then show ?thesis using step more d'(1) by auto
    qed
  qed
qed

definition headIn :: "(nat \<times> nat) list \<Rightarrow> int \<Rightarrow> nat" where
  "headIn es a = (if a < 0 then fst (es ! edgeOf a) else snd (es ! edgeOf a))"

lemma heads_both:
  assumes "represents n es g"
  shows "\<forall>a \<in> set (bothArcs es u). HeadOf g a = Inr (headIn es a) \<and> headIn es a < n"
    and "headIn es ` set (bothArcs es u) = {v. (u, v) \<in> adjacent es}"
proof -
  have e: "edgeOf (int i) = i" "edgeOf (OppositeArc (int i)) = i" "OppositeArc (int i) < 0" for i
    by (simp_all add: edgeOf_def OppositeArc_def)
  show heads: "\<forall>a \<in> set (bothArcs es u). HeadOf g a = Inr (headIn es a) \<and> headIn es a < n"
    using representsD(5) [OF assms] by (auto simp: bothArcs_def arcs_range head_tail [OF assms] headIn_def e)
  have "(u, headIn es a) \<in> adjacent es" if "a \<in> set (bothArcs es u)" for a
  proof -
    from assms that obtain w where "HeadOf g a = Inr w" "joins es (edgeOf a) u w" by (rule both_arc)
    moreover have "HeadOf g a = Inr (headIn es a)" using heads that by blast
    ultimately show ?thesis by (auto simp: adjacent_def)
  qed
  moreover have "v \<in> headIn es ` set (bothArcs es u)" if "joins es k u v" for v k
  proof (cases "es ! k = (u, v)")
    case True
    then have "int k \<in> set (bothArcs es u)" "headIn es (int k) = v"
      using that by (auto simp: joins_def bothArcs_def arcs_range headIn_def e)
    then show ?thesis by blast
  next
    case False
    then have "OppositeArc (int k) \<in> set (bothArcs es u)" "headIn es (OppositeArc (int k)) = v"
      using that by (auto simp: joins_def bothArcs_def arcs_range headIn_def e)
    then show ?thesis by blast
  qed
  ultimately show "headIn es ` set (bothArcs es u) = {v. (u, v) \<in> adjacent es}"
    by (auto simp: adjacent_def)
qed

text \<open>The nodes that a walk of at least one edge from node 0 ends at.\<close>

definition walkedTo :: "(nat \<times> nat) list \<Rightarrow> nat set" where
  "walkedTo es = {v. (0, v) \<in> (adjacent es)\<^sup>+}"

definition dfsInv :: "nat \<Rightarrow> (nat \<times> nat) list \<Rightarrow> dfs \<Rightarrow> bool" where
  "dfsInv n es d \<longleftrightarrow> counted n d \<and> df_num_visited d < n \<and> visitedNodes n d \<subseteq> walkedTo es \<and>
     set (df_stack d) \<subseteq> insert 0 (visitedNodes n d) \<and>
     (\<forall>u \<in> insert 0 (visitedNodes n d). u \<in> set (df_stack d) \<or> {v. (u, v) \<in> adjacent es} \<subseteq> visitedNodes n d)"

lemma walked_step: "u \<in> insert 0 (walkedTo es) \<Longrightarrow> (u, v) \<in> adjacent es \<Longrightarrow> v \<in> walkedTo es"
  by (auto simp: walkedTo_def intro: trancl_into_trancl)

lemma walked_finite:
  assumes "represents n es g"
  shows "walkedTo es \<subseteq> {..<n}"
proof -
  have "v < n" if "(u, v) \<in> adjacent es" for u v
    using that representsD(5) [OF assms] by (fastforce simp: adjacent_def joins_def)
  then have "v < n" if "(0, v) \<in> (adjacent es)\<^sup>+" for v
    using that by (meson tranclD2)
  then show ?thesis by (auto simp: walkedTo_def)
qed

lemma connected_loop:
  assumes r: "represents n es g"
  shows "dfsInv n es d \<Longrightarrow> length (df_stack d) + n < fuel + df_num_visited d \<Longrightarrow>
    connectedLoop fuel g n d = Inr (n \<le> Suc (card (walkedTo es)))"
proof (induction fuel arbitrary: d)
  case 0
  then show ?case by (simp add: dfsInv_def)
next
  case (Suc fuel)
  note inv = Suc.prems(1) [unfolded dfsInv_def counted_def]
  have fin: "finite (walkedTo es)" using walked_finite [OF r] finite_subset by blast
  show ?case
  proof (cases "df_stack d")
    case Nil
    have "v \<in> visitedNodes n d" if "(0, v) \<in> (adjacent es)\<^sup>+" for v
      using that by (induction rule: trancl_induct) (use inv Nil in auto)
    then have "visitedNodes n d = walkedTo es" using inv by (auto simp: walkedTo_def)
    then show ?thesis using inv Nil by simp
  next
    case (Cons u stack)
    have u: "u \<in> insert 0 (visitedNodes n d)" "u < n" using inv Cons by (auto simp: visitedNodes_def)
    let ?d = "d\<lparr>df_stack := stack\<rparr>"
    have same: "visitedNodes n ?d = visitedNodes n d" "counted n ?d"
      using Suc.prems(1) by (auto simp: visitedNodes_def dfsInv_def counted_def)
    obtain found d' where run': "visitNeighbours g n (bothArcs es u) ?d = Inr (found, d')"
      and v: "visits n {v. (u, v) \<in> adjacent es} ?d found d'"
      using visit_neighbours [OF heads_both(1) [OF r] same(2), of u] unfolding heads_both(2) [OF r] by blast
    note d' = run' v [unfolded visits_def same(1) dfs.simps]
    have sub: "visitedNodes n d' \<subseteq> walkedTo es"
      using d'(2) inv u(1) walked_step [of u es] by blast
    have run: "connectedLoop (Suc fuel) g n d = (if found then Inr True else connectedLoop fuel g n d')"
      by (simp add: Cons iterations(3) [OF r u(2)] d'(1))
    show ?thesis
    proof (cases found)
      case True
      then have "n = Suc (card (visitedNodes n d'))" using d'(2) by (simp add: counted_def)
      then show ?thesis using True run card_mono [OF fin sub] by simp
    next
      case False
      note n = d'(2) [unfolded if_not_P [OF False]]
      have "dfsInv n es d'"
        unfolding dfsInv_def using n sub inv Cons by auto
      moreover have "length (df_stack d') + n < fuel + df_num_visited d'"
        using n Suc.prems(2) Cons by simp
      ultimately show ?thesis using Suc.IH run False by simp
    qed
  qed
qed

text \<open>C40: The connectivity check finds a graph connected when the nodes at the end of a walk of one or more edges from
  node 0 are all nodes but one, or all of them: node 0 is counted at the start and again when a
  walk comes back to it.
\<close>

theorem connectivity_counts_root_twice:
  assumes "addArcs es (newReverseArcListGraph n arcs) = Inr g" "int (length es) \<le> kNilArc"
  shows "GraphIsConnected g = Inr (nodeCount n es \<le> Suc (card (walkedTo es)))"
proof -
  let ?n = "nodeCount n es"
  have r: "represents ?n es g" using built_represents [OF assms(2), of n arcs] assms(1) by auto
  show ?thesis
  proof (cases "?n \<le> 1")
    case True
    then show ?thesis by (simp add: GraphIsConnected_def Let_def representsD(1) [OF r])
  next
    case False
    let ?d = "\<lparr>df_num_visited = 1, df_stack = [0], df_visited = replicate ?n False\<rparr>"
    have "visitedNodes ?n ?d = {}" by (simp add: visitedNodes_def)
    then have "dfsInv ?n es ?d" using False by (simp add: dfsInv_def counted_def)
    from connected_loop [OF r this, of "?n + 2"] show ?thesis
      using False by (simp add: GraphIsConnected_def Let_def representsD(1) [OF r])
  qed
qed

text \<open>A graph of three nodes whose last node has only an arc to itself: it is found connected, and the tour misses that arc.\<close>

lemma connectivity_counts_root_twice_witness:
  "\<exists>g. addArcs [(0, 1), (1, 0), (2, 2)] (newReverseArcListGraph 3 3) = Inr g \<and> GraphIsConnected g = Inr True \<and>
    2 \<notin> walkedTo [(0, 1), (1, 0), (2, 2)] \<and> BuildEulerianTour g False = Inr [0, 1, 0]"
proof -
  let ?es = "[(0, 1), (1, 0), (2, 2)] :: (nat \<times> nat) list"
  obtain g where g: "addArcs ?es (newReverseArcListGraph 3 3) = Inr g"
    using built_represents [of ?es 3 3] by (auto simp: kNilArc_def)
  have n: "nodeCount 3 ?es = 3" by (simp add: nodeCount_def)
  have le: "walkedTo ?es \<subseteq> {0, 1}"
  proof
    fix v
    assume "v \<in> walkedTo ?es"
    then have "(0, v) \<in> (adjacent ?es)\<^sup>+" by (simp only: walkedTo_def mem_Collect_eq)
    then show "v \<in> {0, 1}" by (induction rule: trancl_induct) (auto simp: adjacent_set)
  qed
  have adj: "(0, 1) \<in> adjacent ?es" "(1, 0) \<in> adjacent ?es" by (simp_all add: adjacent_set)
  have "1 \<in> walkedTo ?es" by (rule walked_step [OF _ adj(1)]) simp
  moreover from this have "0 \<in> walkedTo ?es" by (intro walked_step [OF _ adj(2)]) simp
  ultimately have "{0, 1} \<subseteq> walkedTo ?es" by (simp only: insert_subset empty_subsetI)
  with le have walked: "walkedTo ?es = {0, 1}" by (rule subset_antisym)
  then have far: "2 \<notin> walkedTo ?es" and "card (walkedTo ?es) = 2" by (simp_all only:) simp_all
  then have "GraphIsConnected g = Inr True"
    using connectivity_counts_root_twice [OF g] by (simp add: n kNilArc_def del: One_nat_def)
  moreover have "rbind (addArcs ?es (newReverseArcListGraph 3 3)) (\<lambda>g. BuildEulerianTour g False) = Inr [0, 1, 0]"
    by code_simp
  ultimately show ?thesis using g far by simp
qed

end
