(* ===== verification/Spec2Isabelle.thy ===== *)
theory Spec2Isabelle
  imports Planner SolvingManager Session Simulation AsyncServer BitQueue Saturated IntegerPQ LinkedList
    RangeMinimum MonoidTree Rev AffineRelation RunningStat Sort Euler
begin

text \<open>
  A verification library for ShardManager: the placer that assigns the shards of services to bins
  (\<open>src/psychopomp\<close>), the discovery server that bins and clients connect to (\<open>src/svc_discovery\<close>,
  \<open>src/server_utils\<close>), the client library (\<open>src/user_libs\<close>), and the self-contained containers and
  arithmetic of the solver library that is shipped with the sources
  (\<open>src/external_deps/or-tools/include/ortools\<close>).

  \<^bold>\<open>Conventions.\<close> A class is a record with a field per member, a member function a definition of the
  same name that takes the record and returns it updated; names of two classes that clash carry a
  prefix of the class. Whatever does not return normally (a null pointer, an index outside a vector,
  \<open>at\<close> on a missing key, a division by zero, a failed \<open>CHECK\<close>, a loop that does not end) is a value of
  \<open>fault\<close> on the left of a sum, so that every such path is a branch of the model. Hash maps are
  association lists whose order stands for the iteration order; results are stated over lookups, sets
  and multisets and do not depend on it. Integers are words or bounded integers wherever their width
  matters (ids, metrics and weights of the placer, key ranges, bit sets, saturating arithmetic); where the
  overflow of a signed integer is undefined and the source does not check for it, as in the affine
  relations, it is the fault \<open>Overflow\<close>. Positions in lists are natural numbers.

  \<^bold>\<open>The placer.\<close> A problem comes in as a topology of domains, bins and reported shards.
    \<^item> \<open>Prelude\<close>, \<open>Types\<close>: faults, folds over fallible bodies, hash maps, machine integers; the identifiers
      and messages (\<open>psychopomp/Types.h\<close>, \<open>proto/ServiceDiscovery.proto\<close>).
    \<^item> \<open>NodeMapper\<close>, \<open>KeyRanges\<close>, \<open>SolvingManager\<close>: the translation of a topology to node ids, the key
      ranges of a new service, and the stages that prepare a solving state per service.
    \<^item> \<open>MovementMap\<close>, \<open>Committable\<close>, \<open>SparseMappingTree\<close>, \<open>SolvingState\<close>: the pending moves indexed both
      ways, containers with a canary over a committed value, the layered graph from domains down to
      shards, and the state the constraints share.
    \<^item> \<open>ConstraintUtils\<close>, \<open>ExpressionTree\<close>, \<open>Constraint\<close>: which shards count before and after the moves, the
      propagation of a metric up the tree in rounds, and the weights of the shared state.
    \<^item> \<open>FaultCounter\<close>, \<open>FaultConstraints\<close>, \<open>LoadBalancing\<close>, \<open>Exclusion\<close>, \<open>Constraints\<close>: the constraint
      classes and the virtual dispatch over them. The locale \<open>fault_counter\<close> is the contract between an
      expression tree over bins and the closure of a constraint, for each of the four consistencies;
      \<open>constraint_contract\<close> is what the search needs of a constraint for its weight to follow the
      assignment. Both are interpreted on the drain and the metric constraint, the second under AFTER
      only; a load balancing constraint does not keep it.
    \<^item> \<open>Search\<close>: \<open>IterativeLocalSearch.h\<close>, over any constraints that keep the contract, with the random
      source and the iteration order as parameters.
    \<^item> \<open>Planner\<close>: the constructor of the state, any sequence of constraint constructors on it, and the
      search; and the stages of the solving manager followed by the search.
    \<^item> \<open>Simulation\<close>: the generators of random problems and the mock bin.
  The lemmas lead from the containers (the movement map refines a map from shards to bins with the
  shards that come in per bin; a canary rolls back on clear and becomes permanent on commit) over the
  constraints (what one evaluation adds to a bin under each consistency; under AFTER, that it equals the
  evaluation from scratch) to the search (the returned moves are well formed, the tracked weight is the
  objective). The movement map of the state is a null pointer that nothing in the sources sets. The
  properties of constraints and search therefore distinguish the two cases: a state without a movement
  map, which is what the program has and where they show the dereference, and a state with a movement
  map that moves nothing, which is what the evaluation is written for. \<open>Planner\<close> draws the conclusion for
  the program: whatever is constructed, the search moves nothing.

  \<^bold>\<open>The services.\<close>
    \<^item> \<open>StreamHandler\<close>: the base class of both ends of a stream (\<open>server_utils/RequestHandler.h\<close>), at the
      granularity of its locks; the locale \<open>stream_object\<close> is what it needs of an object that embeds it,
      interpreted on the client and on the handlers of the server.
    \<^item> \<open>Client\<close>: \<open>user_libs/Client.h\<close>, with every completion an event and the threads as interleavings.
    \<^item> \<open>Discovery\<close>: \<open>svc_discovery/RequestHandler\<close> and \<open>HandlerManager\<close>, a registry of handlers; the runs are
      all orders in which the calls that are outstanding can complete.
    \<^item> \<open>AsyncServer\<close>: \<open>server_utils/AsyncServer.h\<close>, one queue and thread per I/O thread, over any handler
      manager (locale \<open>managed_service\<close>), interpreted on the discovery manager.
    \<^item> \<open>Session\<close>: any number of clients, the discovery server and the streams between them as one system;
      an event of one end is a message the other end has written.
  Their lemmas are invariants of all runs: which calls a handler has issued, that messages are written
  in order and once, how many handlers wait, and which threads can still get a connection.

  \<^bold>\<open>Containers and arithmetic.\<close> \<open>BitWords\<close>, \<open>Bitset\<close>, \<open>BitQueue\<close> (\<open>util/bitset.h\<close>), \<open>Saturated\<close>
  (\<open>util/saturated_arithmetic.h\<close>), \<open>IntegerPQ\<close> (\<open>util/integer_pq.h\<close>), \<open>LinkedList\<close>
  (\<open>algorithms/dense_doubly_linked_list.h\<close>), \<open>RangeMinimum\<close> (\<open>util/range_minimum_query.h\<close>), \<open>MonoidTree\<close>
  (\<open>util/monoid_operation_tree.h\<close>), \<open>Rev\<close> (\<open>util/rev.h\<close>), \<open>AffineRelation\<close>
  (\<open>util/affine_relation.h\<close>), \<open>RunningStat\<close> (\<open>util/running_stat.h\<close>), \<open>Sort\<close> (\<open>util/sort.h\<close>), \<open>ArcGraph\<close>
  (the graph with reverse arcs of \<open>graph/graph.h\<close>) and \<open>Euler\<close> (\<open>graph/eulerian_path.h\<close>, over \<open>ArcGraph\<close>).
  Each is shown to refine its abstract meaning: a set of positions, a finite map with a greatest element, a list, the product of the operands, a value with a saved copy per
  level, the solutions of the relations, the maximum of a window, a stable sort, the list of the arcs of a graph
  and a trail over all of them. The vector of \<open>Rev\<close> is the exception its growth makes: a level that is
  left restores its entries and not its size.

  \<^bold>\<open>Loops and fuel.\<close> Structural recursion and \<open>termination\<close> proofs where a loop visibly ends;
  \<open>partial_function\<close> where it may not (the breadth-first copy of a graph, the path to a root), with
  lemmas that it returns on what the program builds. Fuel is used for the rounds of an expression
  tree (one per domain is enough), the rejection loop of the search (the draws a fair source needs),
  the loop over key ranges (which can spin for ever, shown for one range over all keys), the
  iterator of a bit set (one step per position), the arcs of a node (one step per arc and direction), and
  the walks over a graph (two steps per edge and one per node are enough).

  \<^bold>\<open>Not modelled.\<close> The locality constraint is an empty class; the bin manager and the stages
  \<open>createConstraints\<close>, \<open>solve\<close> and \<open>outputSolution\<close> of the solving manager are declared and never
  defined; the entry points and the gRPC tutorial programs are console I/O around the library; the
  lambda for shard maps is a stub; the unit tests use an earlier interface. The RPC library, the
  random engine and the clock are parameters, with the behaviour the code relies on written as steps or
  hypotheses. Of the shipped solver library only the headers above are modelled; the rest declares code
  that is compiled elsewhere, or is not used by the program.

  \<^bold>\<open>What the code does not do.\<close> Several theorems state behaviour that is not what the code means: the
  constraints read a movement map that no state has, so the search moves no shard, the consistencies but
  AFTER miscount a move, the metric fault is cut to 32 bits,
  a client never records the status it is told, a handler serves two reads at most, a first message
  without a connection request registers the handler for service 0 and bin 0, every client names the
  same bin, so one of them stands for its service and none is ever told a range, one I/O thread gets
  all connections, a graph with one node apart is found connected, and a server that cannot bind is used all the same.
\<close>

end
